(* ===== verification/Prelude.thy ===== *)
theory Prelude
  imports "HOL-Library.Word" "HOL-Library.Signed_Division" "HOL-Library.Multiset"
begin

text \<open>
  Shared vocabulary of the development: the collections of facts the component proofs are
  carried by, Go's 64-bit signed integers, instants and durations, and the generic facts on
  lists that several components use.
\<close>

named_theorems go_arith \<open>64-bit integer arithmetic where nothing wraps\<close>
named_theorems go_chan \<open>evaluation of the Go channel operations\<close>
named_theorems go_inv \<open>unfolding of component invariants\<close>

section \<open>Machine integers\<close>

text \<open>
  Go's \<open>int\<close> and \<open>int64\<close> are 64-bit two's complement here. A value is an \<open>int\<close> in the range
  below; arithmetic that the code may drive out of the range goes through \<open>wrap64\<close>.
\<close>

definition i64 :: "int \<Rightarrow> bool" where
  "i64 x \<longleftrightarrow> - (2 ^ 63) \<le> x \<and> x < 2 ^ 63"

definition wrap64 :: "int \<Rightarrow> int" where
  "wrap64 x = (x + 2 ^ 63) mod 2 ^ 64 - 2 ^ 63"

lemma wrap64_id [go_arith]: "i64 x \<Longrightarrow> wrap64 x = x"
  by (simp add: i64_def wrap64_def)

lemma i64_wrap64 [simp]: "i64 (wrap64 x)"
proof -
  have "0 \<le> (x + 2 ^ 63) mod 2 ^ 64" "(x + 2 ^ 63) mod 2 ^ 64 < 2 ^ 64"
    by simp_all
  then show ?thesis
    by (simp add: i64_def wrap64_def)
qed

text \<open>\<open>wrap64\<close> is the two's complement reading of the 64-bit word of the library.\<close>

lemma wrap64_word: "wrap64 x = sint (word_of_int x :: 64 word)"
proof -
  have "signed_take_bit 63 x = (x + 2 ^ 63) mod 2 ^ 64 - 2 ^ 63"
    by (simp add: signed_take_bit_eq_take_bit_shift take_bit_eq_mod)
  then show ?thesis
    by (simp add: wrap64_def sint_sbintrunc')
qed

lemma wrap64_add_wrap64 [simp]: "wrap64 (wrap64 x + y) = wrap64 (x + y)"
  by (simp add: wrap64_word)

lemma wrap64_add_right [simp]: "wrap64 (y + wrap64 x) = wrap64 (y + x)"
  using wrap64_add_wrap64 [of x y] by (simp add: add.commute)

section \<open>Instants and durations\<close>

text \<open>
  A \<open>time.Time\<close> is a number of nanoseconds since Go's zero time, which is \<open>0\<close>, so
  \<open>IsZero\<close> is equality with \<open>0\<close>; a \<open>time.Duration\<close> is an \<open>int64\<close> of nanoseconds.
  \<open>Time.Sub\<close> saturates, and \<open>Duration.Milliseconds\<close> divides towards zero.
\<close>

type_synonym instant = int
type_synonym duration = int

definition zero_time :: instant where
  "zero_time = 0"

abbreviation (input) millisecond :: duration where
  "millisecond \<equiv> 1000000"

abbreviation (input) second :: duration where
  "second \<equiv> 1000000000"

abbreviation (input) minute :: duration where
  "minute \<equiv> 60000000000"

definition time_sub :: "instant \<Rightarrow> instant \<Rightarrow> duration" where
  "time_sub t u = max (- (2 ^ 63)) (min (2 ^ 63 - 1) (t - u))"

definition duration_ms :: "duration \<Rightarrow> int" where
  "duration_ms d = d sdiv 1000000"

lemma i64_time_sub [simp]: "i64 (time_sub t u)"
  by (simp add: i64_def time_sub_def)

lemma time_sub_nonneg: "u \<le> t \<Longrightarrow> 0 \<le> time_sub t u"
  by (simp add: time_sub_def)

lemma time_sub_mono: "t \<le> t' \<Longrightarrow> time_sub t u \<le> time_sub t' u"
  by (simp add: time_sub_def max_def min_def)

lemma sdiv_nonneg_eq [go_arith]: "0 \<le> (a::int) \<Longrightarrow> 0 \<le> b \<Longrightarrow> a sdiv b = a div b"
  by (cases "a = 0"; cases "b = 0") (auto simp: signed_divide_int_def)

lemma duration_ms_nonneg: "0 \<le> d \<Longrightarrow> 0 \<le> duration_ms d"
  by (simp add: duration_ms_def sdiv_nonneg_eq)

section \<open>Lists\<close>

lemma take_append_take: "take n xs @ take m (drop n xs) = take (n + m) xs"
  by (simp add: take_add)

lemma sum_list_map_upd:
  fixes f :: "'b \<Rightarrow> int"
  assumes "distinct cs" "c \<in> set cs"
  shows "(\<Sum>x\<leftarrow>cs. f ((g(c := y)) x)) = (\<Sum>x\<leftarrow>cs. f (g x)) - f (g c) + f y"
  using assms
proof (induction cs)
  case (Cons a cs)
  have same: "(\<Sum>x\<leftarrow>cs. f ((g(c := y)) x)) = (\<Sum>x\<leftarrow>cs. f (g x))" if "c \<notin> set cs"
    using that by (intro arg_cong [where f = sum_list] map_cong) auto
  show ?case using Cons same by (cases "a = c") auto
qed simp

lemma concat_map_all_nil: "(\<And>x. x \<in> set xs \<Longrightarrow> f x = []) \<Longrightarrow> concat (map f xs) = []"
  by simp

section \<open>Decimal numerals\<close>

text \<open>The formatting verb \<open>%d\<close> on numbers that are not negative, and its inverse.\<close>

fun show_nat :: "nat \<Rightarrow> string" where
  "show_nat n = (if n < 10 then [char_of (48 + n)] else show_nat (n div 10) @ [char_of (48 + n mod 10)])"

declare show_nat.simps [simp del]

definition read_nat :: "string \<Rightarrow> nat" where
  "read_nat = foldl (\<lambda>a c. a * 10 + (of_char c - 48)) 0"

lemma read_show_nat [simp]: "read_nat (show_nat n) = n"
proof (induction n rule: show_nat.induct)
  case (1 n)
  have c: "of_char (char_of (48 + m)) = (48 + m :: nat)" if "m < 10" for m
    using that by (simp add: of_char_of)
  show ?case
    using 1 c [of n] c [of "n mod 10"] by (subst show_nat.simps) (simp add: read_nat_def)
qed

lemma show_nat_inject [simp]: "show_nat m = show_nat n \<longleftrightarrow> m = n"
  by (metis read_show_nat)

section \<open>Runs of a component\<close>

text \<open>
  A component as its clients see it: an initial state, operations that may fail (a panic or a
  call that does not return is \<open>None\<close>), and the invariant every operation keeps. What follows
  once and for all is that no sequence of operations fails and all of them keep the invariant.
\<close>

fun run_ops :: "('e \<Rightarrow> 's \<Rightarrow> 's option) \<Rightarrow> 'e list \<Rightarrow> 's \<Rightarrow> 's option" where
  "run_ops step [] s = Some s"
| "run_ops step (e # es) s = (case step e s of None \<Rightarrow> None | Some s' \<Rightarrow> run_ops step es s')"

locale component =
  fixes init :: 's
    and step :: "'e \<Rightarrow> 's \<Rightarrow> 's option"
    and inv :: "'s \<Rightarrow> bool"
  assumes init_inv: "inv init"
    and step_inv: "inv s \<Longrightarrow> \<exists>s'. step e s = Some s' \<and> inv s'"
begin

lemma run_from: "inv s \<Longrightarrow> \<exists>s'. run_ops step es s = Some s' \<and> inv s'"
proof (induction es arbitrary: s)
  case Nil
  then show ?case by simp
next
  case (Cons e es)
  from step_inv [OF Cons.prems] obtain s1 where "step e s = Some s1" "inv s1" by blast
  with Cons.IH [of s1] show ?case by simp
qed

lemma run_total: "\<exists>s. run_ops step es init = Some s \<and> inv s"
  by (rule run_from) (rule init_inv)

lemma run_inv: "run_ops step es init = Some s \<Longrightarrow> inv s"
  using run_total [of es] by auto

end

section \<open>Progress\<close>

text \<open>
  A system that can always go on towards a goal: while the goal is not reached, some step lowers a
  well-founded measure, keeps the invariant and keeps what the relation \<open>keeps\<close> says. Then some run
  reaches the goal, keeping all of it.
\<close>

locale leads_to =
  fixes step :: "'s \<Rightarrow> 's \<Rightarrow> bool"
    and keeps :: "'s \<Rightarrow> 's \<Rightarrow> bool"
    and inv :: "'s \<Rightarrow> bool"
    and goal :: "'s \<Rightarrow> bool"
    and closer :: "('s \<times> 's) set"
  assumes wf_closer: "wf closer"
    and progress: "inv s \<Longrightarrow> \<not> goal s \<Longrightarrow> \<exists>s'. step s s' \<and> (s', s) \<in> closer \<and> inv s' \<and> keeps s s'"
    and keeps_refl: "keeps s s"
    and keeps_trans: "keeps s s' \<Longrightarrow> keeps s' s'' \<Longrightarrow> keeps s s''"
begin

lemma leads: "inv s \<Longrightarrow> \<exists>s'. step\<^sup>*\<^sup>* s s' \<and> keeps s s' \<and> goal s' \<and> inv s'"
proof (induction s rule: wf_induct_rule [OF wf_closer])
  case (1 s)
  show ?case
  proof (cases "goal s")
    case True
    then show ?thesis using 1(2) keeps_refl by blast
  next
    case False
    then obtain s1 where s1: "step s s1" "(s1, s) \<in> closer" "inv s1" "keeps s s1" using progress [OF 1(2)] by blast
    then obtain s' where "step\<^sup>*\<^sup>* s1 s'" "keeps s1 s'" "goal s'" "inv s'" using 1(1) by blast
    then show ?thesis using s1 keeps_trans [OF s1(4)] converse_rtranclp_into_rtranclp [of step s s1] by blast
  qed
qed

end

section \<open>Simulation\<close>

text \<open>
  A system whose every step, seen through \<open>abs\<close>, is a run of another system: its runs are runs of
  that system, and keep the invariant the simulation needs.
\<close>

locale simulation =
  fixes step :: "'c \<Rightarrow> 'c \<Rightarrow> bool"
    and abstract_step :: "'a \<Rightarrow> 'a \<Rightarrow> bool"
    and abs :: "'c \<Rightarrow> 'a"
    and inv :: "'c \<Rightarrow> bool"
  assumes simulated: "inv s \<Longrightarrow> step s s' \<Longrightarrow> inv s' \<and> abstract_step\<^sup>*\<^sup>* (abs s) (abs s')"
begin

lemma runs: "step\<^sup>*\<^sup>* s s' \<Longrightarrow> inv s \<Longrightarrow> inv s' \<and> abstract_step\<^sup>*\<^sup>* (abs s) (abs s')"
  by (induction rule: rtranclp.induct) (auto dest: simulated)

end

end
