(* ===== verification/GoChan.thy ===== *)
theory GoChan
  imports Prelude
begin

text \<open>
  Buffered Go channels: the buffer in arrival order, its capacity and whether the channel has
  been closed. Every channel operation the program performs on these channels is non-blocking
  (a \<open>select\<close> with a \<open>default\<close> case) or blocks until one of several cases is ready, so an
  operation returns whether it went through, would block, or panics.
\<close>

datatype go_panic =
    SendOnClosed
  | CloseOfClosed
  | NilDereference
  | IndexOutOfRange
  | DivideByZero
  | NonPositiveInterval

record 'a chan =
  ch_buf :: "'a list"
  ch_cap :: nat
  ch_closed :: bool

datatype 'a send_result = Sent "'a chan" | SendBlocks | SendPanics

datatype 'a recv_result = Received 'a "'a chan" | RecvClosed | RecvBlocks

definition make_chan :: "nat \<Rightarrow> 'a chan" where
  "make_chan n = \<lparr>ch_buf = [], ch_cap = n, ch_closed = False\<rparr>"

definition try_send :: "'a \<Rightarrow> 'a chan \<Rightarrow> 'a send_result" where
  "try_send x c =
     (if ch_closed c then SendPanics
      else if length (ch_buf c) < ch_cap c then Sent (c\<lparr>ch_buf := ch_buf c @ [x]\<rparr>)
      else SendBlocks)"

definition try_recv :: "'a chan \<Rightarrow> 'a recv_result" where
  "try_recv c =
     (case ch_buf c of
        x # xs \<Rightarrow> Received x (c\<lparr>ch_buf := xs\<rparr>)
      | [] \<Rightarrow> if ch_closed c then RecvClosed else RecvBlocks)"

definition close_chan :: "'a chan \<Rightarrow> go_panic + 'a chan" where
  "close_chan c = (if ch_closed c then Inl CloseOfClosed else Inr (c\<lparr>ch_closed := True\<rparr>))"

text \<open>
  The non-blocking send \<open>select { case c <- x: default: }\<close> on an open channel drops the value
  when the buffer is full. \<open>offer\<close> is that statement; a send on a nil channel in such a
  \<open>select\<close> always takes the \<open>default\<close> case.
\<close>

definition offer :: "'a \<Rightarrow> 'a chan \<Rightarrow> 'a chan" where
  "offer x c = (case try_send x c of Sent c' \<Rightarrow> c' | SendBlocks \<Rightarrow> c | SendPanics \<Rightarrow> c)"

definition chan_ok :: "'a chan \<Rightarrow> bool" where
  "chan_ok c \<longleftrightarrow> length (ch_buf c) \<le> ch_cap c"

section \<open>A channel is a bounded first-in first-out queue\<close>

lemma make_chan_simps [simp]:
  "ch_buf (make_chan n) = []" "ch_cap (make_chan n) = n" "\<not> ch_closed (make_chan n)"
  by (simp_all add: make_chan_def)

lemma chan_ok_make [simp, intro]: "chan_ok (make_chan n)"
  by (simp add: chan_ok_def)

lemma try_send_open [go_chan]:
  "\<not> ch_closed c \<Longrightarrow> length (ch_buf c) < ch_cap c \<Longrightarrow>
     try_send x c = Sent (c\<lparr>ch_buf := ch_buf c @ [x]\<rparr>)"
  by (simp add: try_send_def)

lemma try_send_full [go_chan]:
  "\<not> ch_closed c \<Longrightarrow> \<not> length (ch_buf c) < ch_cap c \<Longrightarrow> try_send x c = SendBlocks"
  by (simp add: try_send_def)

lemma try_send_closed [go_chan]: "ch_closed c \<Longrightarrow> try_send x c = SendPanics"
  by (simp add: try_send_def)

lemma try_recv_Cons [go_chan]: "ch_buf c = x # xs \<Longrightarrow> try_recv c = Received x (c\<lparr>ch_buf := xs\<rparr>)"
  by (simp add: try_recv_def)

lemma try_recv_Nil [go_chan]:
  "ch_buf c = [] \<Longrightarrow> try_recv c = (if ch_closed c then RecvClosed else RecvBlocks)"
  by (simp add: try_recv_def)

lemma try_send_SentD:
  "try_send x c = Sent c' \<Longrightarrow>
     \<not> ch_closed c \<and> length (ch_buf c) < ch_cap c \<and> c' = c\<lparr>ch_buf := ch_buf c @ [x]\<rparr>"
  by (auto simp: try_send_def split: if_splits)

lemma try_recv_ReceivedD:
  "try_recv c = Received x c' \<Longrightarrow> \<exists>xs. ch_buf c = x # xs \<and> c' = c\<lparr>ch_buf := xs\<rparr>"
  by (auto simp: try_recv_def split: list.splits if_splits)

text \<open>
  The interface the components rely on: sends append, receives take the head, and neither
  breaks the capacity bound.
\<close>

locale bounded_fifo =
  fixes send :: "'a \<Rightarrow> 'q \<Rightarrow> 'q option"
    and recv :: "'q \<Rightarrow> ('a \<times> 'q) option"
    and contents :: "'q \<Rightarrow> 'a list"
    and bound :: "'q \<Rightarrow> nat"
    and ok :: "'q \<Rightarrow> bool"
  assumes send_contents: "ok q \<Longrightarrow> send x q = Some q' \<Longrightarrow> contents q' = contents q @ [x]"
    and send_ok: "ok q \<Longrightarrow> send x q = Some q' \<Longrightarrow> ok q' \<and> bound q' = bound q"
    and recv_contents: "ok q \<Longrightarrow> recv q = Some (x, q') \<Longrightarrow> contents q = x # contents q'"
    and recv_ok: "ok q \<Longrightarrow> recv q = Some (x, q') \<Longrightarrow> ok q' \<and> bound q' = bound q"
    and recv_empty: "ok q \<Longrightarrow> recv q = None \<longleftrightarrow> contents q = []"
    and ok_bound: "ok q \<Longrightarrow> length (contents q) \<le> bound q"
begin

fun recv_n :: "nat \<Rightarrow> 'q \<Rightarrow> 'a list \<times> 'q" where
  "recv_n 0 q = ([], q)"
| "recv_n (Suc n) q =
     (case recv q of
        None \<Rightarrow> ([], q)
      | Some (x, q') \<Rightarrow> (let (xs, q'') = recv_n n q' in (x # xs, q'')))"

lemma recv_n_take_drop:
  "ok q \<Longrightarrow> recv_n n q = (xs, q') \<Longrightarrow>
     xs = take n (contents q) \<and> contents q' = drop n (contents q) \<and> ok q' \<and> bound q' = bound q"
proof (induction n arbitrary: q xs q')
  case 0
  then show ?case by simp
next
  case (Suc n)
  show ?case
  proof (cases "recv q")
    case None
    with Suc.prems recv_empty [of q] show ?thesis by simp
  next
    case (Some p)
    obtain x r where p: "p = (x, r)" by (cases p)
    obtain ys r' where r: "recv_n n r = (ys, r')" by (cases "recv_n n r")
    from Suc.prems(1) Some p have "contents q = x # contents r" "ok r" "bound r = bound q"
      by (auto dest: recv_contents recv_ok)
    with Suc.IH [of r ys r'] r Suc.prems(2) Some p show ?thesis by auto
  qed
qed

lemma fifo_order:
  assumes "ok q" "send x q = Some q1" "recv_n (length (contents q) + 1) q1 = (xs, q2)"
  shows "xs = contents q @ [x] \<and> contents q2 = []"
proof -
  have "contents q1 = contents q @ [x]" "ok q1"
    using send_contents [OF assms(1,2)] send_ok [OF assms(1,2)] by auto
  with recv_n_take_drop [OF _ assms(3)] show ?thesis by auto
qed

end

definition chan_send :: "'a \<Rightarrow> 'a chan \<Rightarrow> 'a chan option" where
  "chan_send x c = (case try_send x c of Sent c' \<Rightarrow> Some c' | _ \<Rightarrow> None)"

definition chan_recv :: "'a chan \<Rightarrow> ('a \<times> 'a chan) option" where
  "chan_recv c = (case try_recv c of Received x c' \<Rightarrow> Some (x, c') | _ \<Rightarrow> None)"

interpretation ch: bounded_fifo chan_send chan_recv ch_buf ch_cap chan_ok
  by unfold_locales
    (auto simp: chan_send_def chan_recv_def chan_ok_def try_recv_def
       dest!: try_send_SentD split: send_result.splits recv_result.splits list.splits if_splits)

section \<open>Offering to a one-place channel\<close>

text \<open>
  Every result channel has capacity one and is never closed, so an offer stores the value in
  an empty channel and leaves a full one as it is.
\<close>

lemma offer_empty [go_chan]:
  "\<not> ch_closed c \<Longrightarrow> ch_buf c = [] \<Longrightarrow> 0 < ch_cap c \<Longrightarrow> offer x c = c\<lparr>ch_buf := [x]\<rparr>"
  by (simp add: offer_def try_send_def)

lemma offer_full [go_chan]: "ch_cap c \<le> length (ch_buf c) \<Longrightarrow> offer x c = c"
  by (simp add: offer_def try_send_def)

lemma offer_closed_flag [simp]: "ch_closed (offer x c) = ch_closed c"
  by (simp add: offer_def try_send_def)

lemma offer_cap [simp]: "ch_cap (offer x c) = ch_cap c"
  by (simp add: offer_def try_send_def)

lemma offer_ok [simp, intro]: "chan_ok c \<Longrightarrow> chan_ok (offer x c)"
  by (simp add: offer_def try_send_def chan_ok_def)

lemma offer_keeps: "ch_buf c \<noteq> [] \<Longrightarrow> hd (ch_buf (offer x c)) = hd (ch_buf c)"
  by (simp add: offer_def try_send_def)

end
