(* ===== verification/GoFloat.thy ===== *)
theory GoFloat
  imports Complex_Main Prelude
begin

text \<open>
  Go's \<open>float64\<close>: a finite binary64 value (as the rational it denotes), an infinity or NaN.
  Each operation is the exact rational operation followed by \<open>f64_of_rat\<close>, which rounds to the
  nearest representable value (ties to even), denormals and overflow to infinity included.
  The sign of zero is not kept: the program never divides by a zero and never prints one.
  Operations are rounded one by one (no fused multiply-add).
\<close>

section \<open>Rounding to a binary64 value\<close>

text \<open>Round half to even.\<close>

definition rne :: "rat \<Rightarrow> int" where
  "rne x = (let f = \<lfloor>x\<rfloor>; d = x - of_int f in
     if d < 1 / 2 then f else if 1 / 2 < d then f + 1 else if even f then f else f + 1)"

fun nlog2 :: "nat \<Rightarrow> nat" where
  "nlog2 n = (if n \<le> 1 then 0 else Suc (nlog2 (n div 2)))"

declare nlog2.simps [simp del]

lemma nlog2_eval:
  "n \<le> 1 \<Longrightarrow> nlog2 n = 0" "1 < n \<Longrightarrow> nlog2 n = Suc (nlog2 (n div 2))"
  by (simp_all add: nlog2.simps [of n])

text \<open>The binary exponent of a positive rational: \<open>2 ^ e \<le> x < 2 ^ (e + 1)\<close>.\<close>

definition flog2 :: "rat \<Rightarrow> int" where
  "flog2 x = (if 1 \<le> x then int (nlog2 (nat \<lfloor>x\<rfloor>))
     else - int (nlog2 (nat \<lceil>1 / x\<rceil> - 1)) - 1)"

definition ulp_exp :: "rat \<Rightarrow> int" where
  "ulp_exp x = max (- 1074) (flog2 x - 52)"

definition round_pos :: "rat \<Rightarrow> rat" where
  "round_pos x = of_int (rne (x / 2 powi ulp_exp x)) * 2 powi ulp_exp x"

definition f64_round :: "rat \<Rightarrow> rat" where
  "f64_round x =
     (if x = 0 then 0 else if 0 < x then round_pos x else - round_pos (- x))"

datatype f64 = NaN | NegInf | Fin rat | PosInf

definition f64_of_rat :: "rat \<Rightarrow> f64" where
  "f64_of_rat x = (let r = f64_round x in
     if 2 ^ 1024 \<le> r then PosInf else if r \<le> - (2 ^ 1024) then NegInf else Fin r)"

definition f_of_int :: "int \<Rightarrow> f64" where
  "f_of_int n = f64_of_rat (of_int n)"

section \<open>Arithmetic and comparison\<close>

fun f_neg :: "f64 \<Rightarrow> f64" where
  "f_neg NaN = NaN"
| "f_neg NegInf = PosInf"
| "f_neg PosInf = NegInf"
| "f_neg (Fin x) = Fin (- x)"

fun f_add :: "f64 \<Rightarrow> f64 \<Rightarrow> f64" where
  "f_add NaN y = NaN"
| "f_add x NaN = NaN"
| "f_add (Fin x) (Fin y) = f64_of_rat (x + y)"
| "f_add PosInf NegInf = NaN"
| "f_add NegInf PosInf = NaN"
| "f_add PosInf y = PosInf"
| "f_add NegInf y = NegInf"
| "f_add x PosInf = PosInf"
| "f_add x NegInf = NegInf"

definition f_sub :: "f64 \<Rightarrow> f64 \<Rightarrow> f64" where
  "f_sub x y = f_add x (f_neg y)"

definition f_inf :: "rat \<Rightarrow> f64" where
  "f_inf s = (if 0 < s then PosInf else if s < 0 then NegInf else NaN)"

fun f_mul :: "f64 \<Rightarrow> f64 \<Rightarrow> f64" where
  "f_mul NaN y = NaN"
| "f_mul x NaN = NaN"
| "f_mul (Fin x) (Fin y) = f64_of_rat (x * y)"
| "f_mul (Fin x) PosInf = f_inf x"
| "f_mul (Fin x) NegInf = f_inf (- x)"
| "f_mul PosInf (Fin y) = f_inf y"
| "f_mul NegInf (Fin y) = f_inf (- y)"
| "f_mul PosInf PosInf = PosInf"
| "f_mul NegInf NegInf = PosInf"
| "f_mul PosInf NegInf = NegInf"
| "f_mul NegInf PosInf = NegInf"

fun f_div :: "f64 \<Rightarrow> f64 \<Rightarrow> f64" where
  "f_div NaN y = NaN"
| "f_div x NaN = NaN"
| "f_div (Fin x) (Fin y) = (if y = 0 then f_inf x else f64_of_rat (x / y))"
| "f_div (Fin x) y = Fin 0"
| "f_div PosInf (Fin y) = (if y < 0 then NegInf else PosInf)"
| "f_div NegInf (Fin y) = (if y < 0 then PosInf else NegInf)"
| "f_div x y = NaN"

text \<open>The comparisons of the language: every one with NaN is false.\<close>

fun f_lt :: "f64 \<Rightarrow> f64 \<Rightarrow> bool" where
  "f_lt NaN y = False"
| "f_lt x NaN = False"
| "f_lt (Fin x) (Fin y) = (x < y)"
| "f_lt NegInf y = (y \<noteq> NegInf)"
| "f_lt x PosInf = (x \<noteq> PosInf)"
| "f_lt x y = False"

definition f_le :: "f64 \<Rightarrow> f64 \<Rightarrow> bool" where
  "f_le x y \<longleftrightarrow> f_lt x y \<or> (x = y \<and> x \<noteq> NaN)"

definition f_eq :: "f64 \<Rightarrow> f64 \<Rightarrow> bool" where
  "f_eq x y \<longleftrightarrow> x = y \<and> x \<noteq> NaN"

text \<open>
  Conversion to \<open>int64\<close> truncates towards zero. When the value does not fit, the language
  leaves the result to the implementation: it is the parameter \<open>oob\<close>.
\<close>

definition trunc :: "rat \<Rightarrow> int" where
  "trunc x = (if 0 \<le> x then \<lfloor>x\<rfloor> else \<lceil>x\<rceil>)"

fun f_to_i64 :: "(f64 \<Rightarrow> int) \<Rightarrow> f64 \<Rightarrow> int" where
  "f_to_i64 oob (Fin x) = (if i64 (trunc x) then trunc x else oob (Fin x))"
| "f_to_i64 oob x = oob x"

text \<open>Evaluation of a rounding at a concrete rational, once its exponent is known.\<close>

lemma round_pos_at:
  "flog2 x = e \<Longrightarrow> - 1022 \<le> e \<Longrightarrow> round_pos x = of_int (rne (x / 2 powi (e - 52))) * 2 powi (e - 52)"
  by (simp add: round_pos_def ulp_exp_def)

section \<open>Rounding is monotone and exact on representable values\<close>

lemma rne_of_int [simp]: "rne (of_int n) = n"
  by (simp add: rne_def)

lemma rne_mono: assumes "x \<le> y" shows "rne x \<le> rne y"
proof -
  have fl: "\<lfloor>x\<rfloor> \<le> \<lfloor>y\<rfloor>" using assms by (rule floor_mono)
  have up: "rne x \<le> \<lfloor>x\<rfloor> + 1" and lo: "\<lfloor>y\<rfloor> \<le> rne y"
    by (simp_all add: rne_def Let_def)
  show ?thesis
  proof (cases "\<lfloor>x\<rfloor> = \<lfloor>y\<rfloor>")
    case True
    then show ?thesis using assms by (auto simp: rne_def Let_def)
  next
    case False
    with fl up lo show ?thesis by linarith
  qed
qed

lemma nlog2_bounds: "1 \<le> n \<Longrightarrow> 2 ^ nlog2 n \<le> n \<and> n < 2 ^ (nlog2 n + 1)"
proof (induction n rule: nlog2.induct)
  case (1 n)
  show ?case
  proof (cases "n \<le> 1")
    case True
    with 1 have "n = 1" by simp
    then show ?thesis by (simp add: nlog2.simps [of "Suc 0"])
  next
    case False
    then have "2 ^ nlog2 (n div 2) \<le> n div 2 \<and> n div 2 < 2 ^ (nlog2 (n div 2) + 1)"
      using 1 by simp
    with False show ?thesis by (auto simp: nlog2.simps [of n])
  qed
qed

lemma powi2_mono: "a \<le> b \<Longrightarrow> (2::rat) powi a \<le> 2 powi b"
  by (simp add: power_int_increasing)

lemma powi2_less_iff: "(2::rat) powi a < 2 powi b \<longleftrightarrow> a < b"
proof (cases "a < b")
  case True
  then show ?thesis by (simp add: power_int_strict_increasing)
next
  case False
  then show ?thesis using powi2_mono [of b a] by simp
qed

lemma powi2_sign [simp]: "0 < (2::rat) powi a" "\<not> 2 powi a < (0::rat)"
  by (simp_all add: not_less)

lemma powi2_add: "(2::rat) powi (a + b) = 2 powi a * 2 powi b"
  by (simp add: power_int_add)

lemma powi2_53: "(2::rat) powi (53 + a) = 2 ^ 53 * 2 powi a"
  by (simp add: powi2_add)

lemma powi2_diff: "(2::rat) powi a / 2 powi b = 2 powi (a - b)"
  by (simp add: power_int_diff)

lemma powi2_int: "b \<le> a \<Longrightarrow> \<exists>k::int. (2::rat) powi a / 2 powi b = of_int k"
  unfolding powi2_diff by (rule exI [of _ "2 ^ nat (a - b)"]) (simp add: power_int_def)

lemma rat_pow2_le: "2 ^ k \<le> n \<Longrightarrow> (2::rat) ^ k \<le> of_nat n"
  using of_nat_mono [of "2 ^ k" n] by simp

lemma rat_le_pow2: "n \<le> 2 ^ k \<Longrightarrow> of_nat n \<le> (2::rat) ^ k"
  using of_nat_mono [of n "2 ^ k"] by simp

lemma flog2_bounds: assumes "0 < x" shows "2 powi flog2 x \<le> x \<and> x < 2 powi (flog2 x + 1)"
proof (cases "1 \<le> x")
  case True
  define n where "n = nat \<lfloor>x\<rfloor>"
  have n: "1 \<le> n" "of_nat n \<le> x" "x < of_nat n + 1"
    using True by (simp_all add: n_def le_nat_iff) linarith
  have b: "2 ^ nlog2 n \<le> n" "n + 1 \<le> 2 ^ (nlog2 n + 1)"
    using nlog2_bounds [OF n(1)] by auto
  have "(2::rat) ^ nlog2 n \<le> x"
    using rat_pow2_le [OF b(1)] n(2) by (rule order.trans)
  moreover have "of_nat n + 1 \<le> (2::rat) ^ (nlog2 n + 1)"
    using rat_le_pow2 [OF b(2)] by simp
  moreover have "flog2 x = int (nlog2 n)" using True by (simp add: flog2_def n_def)
  ultimately show ?thesis
    using n by (simp add: power_int_def nat_add_distrib)
next
  case False
  define m where "m = nat \<lceil>1 / x\<rceil>"
  have inv: "1 < 1 / x" using False assms by simp
  then have m: "1 / x \<le> of_nat m" "of_nat m < 1 / x + 1" by (simp_all add: m_def) linarith+
  then have m2: "1 \<le> m - 1" using inv by (cases "m \<le> 1") (auto simp: le_Suc_eq)
  define k where "k = nlog2 (m - 1)"
  have b: "2 ^ k \<le> m - 1" "m \<le> 2 ^ (k + 1)"
    using nlog2_bounds [OF m2] m2 by (auto simp: k_def)
  have e: "flog2 x = - int k - 1" using False by (simp add: flog2_def m_def k_def)
  have lo: "(2::rat) ^ k < 1 / x"
  proof -
    have "(2::rat) ^ k \<le> of_nat (m - 1)" using b(1) by (rule rat_pow2_le)
    also have "\<dots> = of_nat m - 1" using m2 by (simp add: of_nat_diff)
    finally show ?thesis using m(2) by linarith
  qed
  have hi: "1 / x \<le> (2::rat) ^ (k + 1)"
    using rat_le_pow2 [OF b(2)] m(1) by linarith
  have "x < 1 / 2 ^ k" using lo assms by (simp add: field_simps)
  moreover have "1 / 2 ^ (k + 1) \<le> x" using hi assms by (simp add: field_simps)
  moreover have "(2::rat) powi (- int k - 1) = 1 / 2 ^ (k + 1)"
    by (simp add: power_int_def nat_add_distrib field_simps)
  moreover have "(2::rat) powi (- int k) = 1 / 2 ^ k"
    by (simp add: power_int_def field_simps)
  ultimately show ?thesis by (simp add: e)
qed

lemma flog2_mono: assumes "0 < x" "x \<le> y" shows "flog2 x \<le> flog2 y"
proof -
  have "2 powi flog2 x \<le> x" "y < 2 powi (flog2 y + 1)"
    using flog2_bounds [of x] flog2_bounds [of y] assms by auto
  with assms(2) have "(2::rat) powi flog2 x < 2 powi (flog2 y + 1)" by linarith
  then show ?thesis by (simp add: powi2_less_iff)
qed

lemma round_pos_mono: assumes "0 < x" "x \<le> y" shows "round_pos x \<le> round_pos y"
proof (cases "ulp_exp x = ulp_exp y")
  case True
  have "rne (x / 2 powi ulp_exp y) \<le> rne (y / 2 powi ulp_exp y)"
    using assms(2) by (intro rne_mono divide_right_mono) auto
  then show ?thesis by (simp add: round_pos_def True)
next
  case False
  define B :: rat where "B = 2 powi flog2 y"
  have lt: "flog2 x < flog2 y" "ulp_exp x \<le> flog2 y" "ulp_exp y = flog2 y - 52"
    using False flog2_mono [OF assms] by (auto simp: ulp_exp_def max_def split: if_splits)
  have B: "x \<le> B" "B \<le> y"
  proof -
    have "x < 2 powi (flog2 x + 1)" using flog2_bounds [OF assms(1)] by simp
    also have "\<dots> \<le> B" using lt(1) by (simp add: B_def powi2_mono)
    finally show "x \<le> B" by simp
    show "B \<le> y" using flog2_bounds [of y] assms by (auto simp: B_def)
  qed
  have "round_pos x \<le> B"
  proof -
    obtain k where k: "B / 2 powi ulp_exp x = of_int k"
      using powi2_int [OF lt(2)] by (auto simp: B_def)
    have "x / 2 powi ulp_exp x \<le> of_int k"
      unfolding k [symmetric] using B(1) by (rule divide_right_mono) simp
    then have "rne (x / 2 powi ulp_exp x) \<le> k"
      using rne_mono by fastforce
    then have "round_pos x \<le> of_int k * 2 powi ulp_exp x"
      by (simp add: round_pos_def)
    then show ?thesis by (simp add: k [symmetric])
  qed
  also have "B \<le> round_pos y"
  proof -
    obtain k where k: "B / 2 powi ulp_exp y = of_int k"
      using powi2_int [of "ulp_exp y" "flog2 y"] lt(3) by (auto simp: B_def)
    have "of_int k \<le> y / 2 powi ulp_exp y"
      unfolding k [symmetric] using B(2) by (rule divide_right_mono) simp
    then have "k \<le> rne (y / 2 powi ulp_exp y)"
      using rne_mono by fastforce
    then have "of_int k * 2 powi ulp_exp y \<le> round_pos y"
      by (simp add: round_pos_def)
    then show ?thesis by (simp add: k [symmetric])
  qed
  finally show ?thesis .
qed

text \<open>A value with a 53-bit significand on the grid is its own rounding.\<close>

lemma round_pos_exact:
  assumes "0 < m" "m \<le> 2 ^ 53" "- 1074 \<le> e"
  shows "round_pos (of_int m * 2 powi e) = of_int m * 2 powi e"
proof -
  let ?x = "of_int m * 2 powi e :: rat"
  have pos: "0 < ?x" using assms(1) by simp
  have "ulp_exp ?x \<le> e \<or> m = 2 ^ 53"
  proof (rule disjCI)
    assume "m \<noteq> 2 ^ 53"
    then have "(of_int m :: rat) < of_int (2 ^ 53)" using assms(2) by (subst of_int_less_iff) simp
    then have "?x < 2 powi (53 + e)" by (simp add: powi2_53)
    then have "(2::rat) powi flog2 ?x < 2 powi (53 + e)"
      using flog2_bounds [OF pos] by linarith
    then show "ulp_exp ?x \<le> e" using assms(3) by (auto simp: powi2_less_iff ulp_exp_def)
  qed
  then obtain k :: int where k: "?x / 2 powi ulp_exp ?x = of_int k"
  proof
    assume "ulp_exp ?x \<le> e"
    then obtain j :: int where "2 powi e / 2 powi ulp_exp ?x = (of_int j :: rat)"
      using powi2_int by blast
    then have "?x / 2 powi ulp_exp ?x = of_int (m * j)"
      by (simp only: of_int_mult times_divide_eq_right [symmetric])
    then show ?thesis using that by blast
  next
    assume m: "m = 2 ^ 53"
    then have x: "?x = 2 powi (53 + e)" by (simp add: powi2_53)
    have "(2::rat) powi flog2 ?x < 2 powi (54 + e)"
    proof -
      have "?x < 2 powi (54 + e)" unfolding x by (simp add: powi2_less_iff)
      with flog2_bounds [OF pos] show ?thesis by linarith
    qed
    then have "ulp_exp ?x \<le> 53 + e" using assms(3) by (auto simp: powi2_less_iff ulp_exp_def)
    then show ?thesis using that powi2_int x by metis
  qed
  have nz: "(2::rat) powi ulp_exp ?x \<noteq> 0" by simp
  then have "?x = of_int k * 2 powi ulp_exp ?x"
    using k by (simp only: nonzero_divide_eq_eq [OF nz])
  then show ?thesis
    unfolding round_pos_def k rne_of_int by (rule sym)
qed

lemma round_pos_nonneg: "0 < x \<Longrightarrow> 0 \<le> round_pos x"
  using rne_mono [of 0 "x / 2 powi ulp_exp x"] rne_of_int [of 0]
  by (simp add: round_pos_def del: rne_of_int)

lemma f64_round_mono: "x \<le> y \<Longrightarrow> f64_round x \<le> f64_round y"
  using round_pos_mono [of x y] round_pos_mono [of "- y" "- x"]
    round_pos_nonneg [of y] round_pos_nonneg [of "- x"]
  by (auto simp: f64_round_def)

lemma f64_round_exact:
  assumes "\<bar>m\<bar> \<le> 2 ^ 53" "- 1074 \<le> e"
  shows "f64_round (of_int m * 2 powi e) = of_int m * 2 powi e"
  using assms round_pos_exact [of m e] round_pos_exact [of "- m" e]
  by (cases m "0::int" rule: linorder_cases) (auto simp: f64_round_def mult_less_0_iff zero_less_mult_iff)

lemma round_pos_shape:
  assumes "0 < x" shows "\<exists>m e. round_pos x = of_int m * 2 powi e \<and> \<bar>m\<bar> \<le> 2 ^ 53 \<and> - 1074 \<le> e"
proof -
  let ?e = "ulp_exp x"
  have "x < 2 powi (flog2 x + 1)" using flog2_bounds [OF assms] by simp
  also have "\<dots> \<le> 2 powi (53 + ?e)" by (rule powi2_mono) (simp add: ulp_exp_def)
  finally have "x / 2 powi ?e \<le> of_int (2 ^ 53)"
    by (simp add: powi2_53 divide_le_eq)
  then have "rne (x / 2 powi ?e) \<le> 2 ^ 53"
    using rne_mono [of "x / 2 powi ?e" "of_int (2 ^ 53)"] by (simp only: rne_of_int)
  moreover have "0 \<le> rne (x / 2 powi ?e)"
    using rne_mono [of "of_int 0" "x / 2 powi ?e"] assms by (simp del: rne_of_int) (simp add: rne_def)
  ultimately show ?thesis
    by (intro exI [of _ "rne (x / 2 powi ?e)"] exI [of _ ?e]) (simp add: round_pos_def ulp_exp_def)
qed

lemma f64_round_shape: "\<exists>m e. f64_round x = of_int m * 2 powi e \<and> \<bar>m\<bar> \<le> 2 ^ 53 \<and> - 1074 \<le> e"
proof (cases x "0::rat" rule: linorder_cases)
  case less
  then obtain m e where "round_pos (- x) = of_int m * 2 powi e" "\<bar>m\<bar> \<le> 2 ^ 53" "- 1074 \<le> e"
    using round_pos_shape [of "- x"] by auto
  with less show ?thesis by (intro exI [of _ "- m"] exI [of _ e]) (simp add: f64_round_def)
next
  case equal
  then show ?thesis by (intro exI [of _ 0]) (auto simp: f64_round_def)
next
  case greater
  then show ?thesis using round_pos_shape [of x] by (simp add: f64_round_def)
qed

lemma f64_round_idem: "f64_round (f64_round x) = f64_round x"
  using f64_round_shape [of x] f64_round_exact by metis

lemma f64_round_int: "\<bar>n\<bar> \<le> 2 ^ 53 \<Longrightarrow> f64_round (of_int n) = of_int n"
  using f64_round_exact [of n 0] by simp

text \<open>
  What the float code of the program relies on: rounding is monotone, idempotent and exact on
  the integers up to \<open>2 ^ 53\<close>. The bounds below are proved from these laws alone.
\<close>

locale rounding =
  fixes rnd :: "rat \<Rightarrow> rat"
  assumes mono: "x \<le> y \<Longrightarrow> rnd x \<le> rnd y"
    and idem: "rnd (rnd x) = rnd x"
    and exact: "\<bar>n\<bar> \<le> 2 ^ 53 \<Longrightarrow> rnd (of_int n) = of_int n"
begin

lemma zero [simp]: "rnd 0 = 0"
  using exact [of 0] by simp

lemma one [simp]: "rnd 1 = 1"
  using exact [of 1] by simp

lemma between: "rnd lo = lo \<Longrightarrow> rnd hi = hi \<Longrightarrow> lo \<le> x \<Longrightarrow> x \<le> hi \<Longrightarrow> lo \<le> rnd x \<and> rnd x \<le> hi"
  using mono [of lo x] mono [of x hi] by simp

lemma unit_interval: "0 \<le> x \<Longrightarrow> x \<le> 1 \<Longrightarrow> 0 \<le> rnd x \<and> rnd x \<le> 1"
  by (rule between) simp_all

text \<open>Scaling a representable length by a rounded ratio stays within the length.\<close>

lemma scaled_within:
  assumes "rnd len = len" "0 \<le> len" "0 \<le> r" "r \<le> 1"
  shows "0 \<le> rnd (r * len) \<and> rnd (r * len) \<le> len"
  using assms by (intro between) (simp_all add: mult_left_le_one_le)

text \<open>Linear interpolation from \<open>hi\<close> down to \<open>lo\<close> stays in the interval.\<close>

lemma interpolate_within:
  assumes "rnd hi = hi" "rnd lo = lo" "rnd (hi - lo) = hi - lo" "lo \<le> hi" "0 \<le> r" "r \<le> 1"
  shows "lo \<le> rnd (hi - rnd (r * (hi - lo))) \<and> rnd (hi - rnd (r * (hi - lo))) \<le> hi"
proof -
  have "0 \<le> rnd (r * (hi - lo)) \<and> rnd (r * (hi - lo)) \<le> hi - lo"
    using assms by (intro scaled_within) simp_all
  then show ?thesis using assms(1,2) by (intro between) simp_all
qed

lemma interpolate_antimono:
  assumes "0 \<le> len" "r \<le> r'"
  shows "rnd (hi - rnd (r' * len)) \<le> rnd (hi - rnd (r * len))"
  using assms by (intro mono diff_left_mono mult_right_mono) simp_all

end

interpretation f64: rounding f64_round
  by unfold_locales (simp_all add: f64_round_mono f64_round_idem f64_round_int)

section \<open>Operations on finite values\<close>

definition f_small :: "rat \<Rightarrow> bool" where
  "f_small x \<longleftrightarrow> \<bar>x\<bar> \<le> 2 ^ 1000"

lemma pow2_1000_less: "(2::rat) ^ 1000 < 2 ^ 1024"
  by (rule power_strict_increasing) simp_all

lemma f64_round_small: "f_small x \<Longrightarrow> f_small (f64_round x)"
proof -
  assume "f_small x"
  then have b: "- (2 ^ 1000) \<le> x" "x \<le> 2 ^ 1000" by (auto simp: f_small_def abs_le_iff)
  have e: "f64_round (2 ^ 1000) = 2 ^ 1000" "f64_round (- (2 ^ 1000)) = - (2 ^ 1000)"
    using f64_round_exact [of 1 1000] f64_round_exact [of "- 1" 1000]
    by (simp_all add: power_int_def del: power_numeral)
  show ?thesis
    using f64.between [OF e(2,1) b] unfolding f_small_def by (simp only: abs_le_iff neg_le_iff_le minus_le_iff)
qed

lemma f64_of_small [simp]: "f_small x \<Longrightarrow> f64_of_rat x = Fin (f64_round x)"
proof -
  assume "f_small x"
  then have "\<bar>f64_round x\<bar> \<le> 2 ^ 1000" using f64_round_small by (simp only: f_small_def)
  with pow2_1000_less have "\<not> 2 ^ 1024 \<le> f64_round x" "\<not> f64_round x \<le> - (2 ^ 1024)"
    unfolding abs_le_iff by linarith+
  then show ?thesis by (simp only: f64_of_rat_def Let_def if_False)
qed

lemma f_small_bound: "\<bar>x\<bar> \<le> 2 ^ k \<Longrightarrow> k \<le> 1000 \<Longrightarrow> f_small x"
  unfolding f_small_def by (erule order.trans) (rule power_increasing, simp_all)

lemma f_of_int_exact:
  assumes "\<bar>n\<bar> \<le> 2 ^ 53" shows "f_of_int n = Fin (of_int n)"
proof -
  have "\<bar>of_int n :: rat\<bar> \<le> 2 ^ 53"
    using assms of_int_le_iff [where ?'a = rat, of "\<bar>n\<bar>" "2 ^ 53"] by simp
  then have "f_small (of_int n)" by (rule f_small_bound) simp
  then show ?thesis using f64_round_int [OF assms] by (simp add: f_of_int_def)
qed

lemma f_of_int_i64: "i64 n \<Longrightarrow> f_of_int n = Fin (f64_round (of_int n))"
proof -
  assume "i64 n"
  then have "\<bar>of_int n :: rat\<bar> \<le> 2 ^ 63"
    using of_int_le_iff [where ?'a = rat, of "\<bar>n\<bar>" "2 ^ 63"] by (simp add: i64_def abs_le_iff)
  then have "f_small (of_int n)" by (rule f_small_bound) simp
  then show ?thesis by (simp add: f_of_int_def)
qed

end
