(* ===== verification/Models.thy ===== *)
theory Models
  imports Complex_Main GoChan GoFloat
begin

text \<open>
  The data of internal/models: priorities, requests, batches, results and the sentinel errors.
  \<open>Priority\<close> and \<open>RequestType\<close> are open enumerations in Go (any \<open>int\<close>, any \<open>string\<close>), and the
  code has default branches for the values it does not name, so they stay an \<open>int\<close> and a
  \<open>string\<close> with named constants. A string is a list of bytes.
\<close>

section \<open>errors.go\<close>

datatype error =
    ErrQueueFull
  | ErrWorkerUnavailable
  | ErrCircuitOpen
  | ErrBatchTimeout
  | ErrInvalidRequest
  | ErrShuttingDown
  | ContextCanceled
  | ContextDeadlineExceeded
  | OtherError string

text \<open>
  The first six are the package's sentinels, with the messages below; the context errors come
  from \<open>context\<close>, and \<open>OtherError\<close> carries the message of an error the program only passes on.
\<close>

fun Error :: "error \<Rightarrow> string" where
  "Error ErrQueueFull = ''request queue is full''"
| "Error ErrWorkerUnavailable = ''no workers available''"
| "Error ErrCircuitOpen = ''circuit breaker is open''"
| "Error ErrBatchTimeout = ''batch processing timed out''"
| "Error ErrInvalidRequest = ''invalid inference request''"
| "Error ErrShuttingDown = ''server is shutting down''"
| "Error ContextCanceled = ''context canceled''"
| "Error ContextDeadlineExceeded = ''context deadline exceeded''"
| "Error (OtherError m) = m"

section \<open>request.go\<close>

type_synonym RequestType = string

definition RequestTypeCompletion :: RequestType where
  "RequestTypeCompletion = ''completion''"

definition RequestTypeEmbedding :: RequestType where
  "RequestTypeEmbedding = ''embedding''"

type_synonym Priority = int

abbreviation (input) PriorityLow :: Priority where "PriorityLow \<equiv> 0"
abbreviation (input) PriorityNormal :: Priority where "PriorityNormal \<equiv> 1"
abbreviation (input) PriorityHigh :: Priority where "PriorityHigh \<equiv> 2"
abbreviation (input) PriorityCritical :: Priority where "PriorityCritical \<equiv> 3"

definition Priority_String :: "Priority \<Rightarrow> string" where
  "Priority_String p =
     (if p = PriorityLow then ''low''
      else if p = PriorityNormal then ''normal''
      else if p = PriorityHigh then ''high''
      else if p = PriorityCritical then ''critical''
      else ''unknown'')"

definition Priority_MaxWaitMs :: "Priority \<Rightarrow> int" where
  "Priority_MaxWaitMs p =
     (if p = PriorityCritical then 5
      else if p = PriorityHigh then 20
      else if p = PriorityNormal then 50
      else if p = PriorityLow then 100
      else 50)"

text \<open>
  A value of Go's \<open>any\<close> as the program meets it: what \<open>encoding/json\<close> decodes into an
  interface (null, booleans, \<open>float64\<close> numbers, strings, \<open>[]any\<close>, \<open>map[string]any\<close>), and the
  \<open>[]float64\<close> that the embedding extractor also accepts. A map keeps its entries as a list.
\<close>

datatype any =
    ANil
  | ABool bool
  | ANum f64
  | AString string
  | AFloats "f64 list"
  | AList "any list"
  | AMap "(string \<times> any) list"

record RequestResult =
  res_RequestID :: string
  res_Result :: any
  res_Error :: "error option"
  res_LatencyMs :: f64

text \<open>
  \<open>req_Ctx\<close> and \<open>req_ResultChan\<close> are references: the identity of a context and the address of
  a result channel in the store of channels, \<open>None\<close> for nil.\<close>

record InferenceRequest =
  req_ID :: string
  req_Prompt :: string
  req_MaxTokens :: int
  req_Priority :: Priority
  req_RequestType :: RequestType
  req_CreatedAt :: instant
  req_EstimatedTokens :: int
  req_Ctx :: "nat option"
  req_ResultChan :: "nat option"

text \<open>
  The constructor: \<open>uuid\<close> is what \<open>uuid.New().String()\<close> returns, \<open>now\<close> the clock and \<open>addr\<close> the
  fresh channel's address. The estimate is 64-bit arithmetic.
\<close>

definition NewInferenceRequest ::
  "string \<Rightarrow> instant \<Rightarrow> nat \<Rightarrow> nat option \<Rightarrow> string \<Rightarrow> int \<Rightarrow> Priority \<Rightarrow> RequestType \<Rightarrow> InferenceRequest" where
  "NewInferenceRequest uuid now addr ctx prompt maxTokens priority reqType =
     \<lparr>req_ID = uuid,
      req_Prompt = prompt,
      req_MaxTokens = maxTokens,
      req_Priority = priority,
      req_RequestType = reqType,
      req_CreatedAt = now,
      req_EstimatedTokens = wrap64 (int (length prompt) sdiv 4 + maxTokens),
      req_Ctx = ctx,
      req_ResultChan = Some addr\<rparr>"

definition NewResultChan :: "RequestResult chan" where
  "NewResultChan = make_chan 1"

definition AgeMs :: "instant \<Rightarrow> InferenceRequest \<Rightarrow> f64" where
  "AgeMs now r = f_of_int (duration_ms (time_sub now (req_CreatedAt r)))"

fun first_bucket :: "int \<Rightarrow> int list \<Rightarrow> int \<Rightarrow> int" where
  "first_bucket est [] i = i"
| "first_bucket est (threshold # ts) i =
     (if est \<le> threshold then i else first_bucket est ts (i + 1))"

definition TokenBucket :: "InferenceRequest \<Rightarrow> int" where
  "TokenBucket r = first_bucket (req_EstimatedTokens r) [128, 512, 1024, 2048, 4096] 0"

section \<open>batch.go\<close>

record Batch =
  batch_ID :: string
  batch_Requests :: "InferenceRequest list"
  batch_CreatedAt :: instant
  batch_StrategyUsed :: string

definition NewBatch :: "string \<Rightarrow> instant \<Rightarrow> InferenceRequest list \<Rightarrow> string \<Rightarrow> Batch" where
  "NewBatch uuid now requests strategy =
     \<lparr>batch_ID = uuid, batch_Requests = requests, batch_CreatedAt = now,
      batch_StrategyUsed = strategy\<rparr>"

definition Batch_Size :: "Batch \<Rightarrow> int" where
  "Batch_Size b = int (length (batch_Requests b))"

fun add_tokens :: "int \<Rightarrow> InferenceRequest list \<Rightarrow> int" where
  "add_tokens t [] = t"
| "add_tokens t (r # rs) = add_tokens (wrap64 (t + req_EstimatedTokens r)) rs"

definition TotalTokens :: "Batch \<Rightarrow> int" where
  "TotalTokens b = add_tokens 0 (batch_Requests b)"

fun max_priority :: "Priority \<Rightarrow> InferenceRequest list \<Rightarrow> Priority" where
  "max_priority m [] = m"
| "max_priority m (r # rs) = max_priority (if req_Priority r > m then req_Priority r else m) rs"

definition MaxPriority :: "Batch \<Rightarrow> Priority" where
  "MaxPriority b = max_priority PriorityLow (batch_Requests b)"

section \<open>Delivering results\<close>

text \<open>
  The store of result channels, and the send every producer uses on it: non-blocking, so a full
  channel keeps what it has, and skipped for a nil channel.
\<close>

type_synonym results = "nat \<Rightarrow> RequestResult chan"

definition send_result :: "InferenceRequest \<Rightarrow> RequestResult \<Rightarrow> results \<Rightarrow> results" where
  "send_result req r res =
     (case req_ResultChan req of None \<Rightarrow> res | Some a \<Rightarrow> res(a := offer r (res a)))"

fun send_all :: "(InferenceRequest \<times> RequestResult) list \<Rightarrow> results \<Rightarrow> results" where
  "send_all [] res = res"
| "send_all ((req, r) # ds) res = send_all ds (send_result req r res)"

definition one_place :: "RequestResult chan \<Rightarrow> bool" where
  "one_place ch \<longleftrightarrow> ch_buf ch = [] \<and> 0 < ch_cap ch \<and> \<not> ch_closed ch"

lemma send_all_append: "send_all (ds @ es) res = send_all es (send_all ds res)"
  by (induction ds res rule: send_all.induct) simp_all

lemma send_result_other: "req_ResultChan req \<noteq> Some a \<Longrightarrow> send_result req r res a = res a"
  by (auto simp: send_result_def split: option.split)

lemma send_all_other:
  "\<forall>d\<in>set ds. req_ResultChan (fst d) \<noteq> Some a \<Longrightarrow> send_all ds res a = res a"
  by (induction ds res rule: send_all.induct) (simp_all add: send_result_other)

lemma send_result_full: "ch_cap (res a) \<le> length (ch_buf (res a)) \<Longrightarrow> send_result req r res a = res a"
  by (auto simp: send_result_def offer_full split: option.split)

lemma send_all_full: "ch_cap (res a) \<le> length (ch_buf (res a)) \<Longrightarrow> send_all ds res a = res a"
  by (induction ds res rule: send_all.induct) (simp_all add: send_result_full)

text \<open>With distinct channels, an empty channel receives exactly its own request's result.\<close>

lemma send_all_own:
  assumes "distinct (map (req_ResultChan \<circ> fst) ds)" "(req, r) \<in> set ds"
    "req_ResultChan req = Some a" "one_place (res a)"
  shows "ch_buf (send_all ds res a) = [r]"
  using assms
proof (induction ds res rule: send_all.induct)
  case (2 x s ds res)
  show ?case
  proof (cases "(req, r) = (x, s)")
    case True
    have "\<forall>d\<in>set ds. req_ResultChan (fst d) \<noteq> Some a"
      using 2(2,4) True by (force simp: image_iff)
    then have "send_all ds (send_result x s res) a = send_result x s res a"
      by (rule send_all_other)
    then show ?thesis
      using True 2(4,5) by (simp add: send_result_def one_place_def go_chan)
  next
    case False
    then have in_ds: "(req, r) \<in> set ds" using 2(3) by auto
    with 2(2,4) have "req_ResultChan x \<noteq> Some a"
      by (force simp: image_iff)
    then have "send_result x s res a = res a" by (rule send_result_other)
    then show ?thesis using 2 in_ds by simp
  qed
qed simp

section \<open>Token estimates and buckets\<close>

lemma TokenBucket_eq:
  "TokenBucket r = (let e = req_EstimatedTokens r in
     if e \<le> 128 then 0 else if e \<le> 512 then 1 else if e \<le> 1024 then 2
     else if e \<le> 2048 then 3 else if e \<le> 4096 then 4 else 5)"
  by (simp add: TokenBucket_def Let_def)

text \<open>
  the bucket of a request is one of the six indices of the queue matrix, it never decreases
  when the estimate grows, and it names the interval the estimate lies in: bucket \<open>i > 0\<close> starts
  right above the threshold where bucket \<open>i - 1\<close> ends.
\<close>

theorem TokenBucket_correct:
  "0 \<le> TokenBucket r \<and> TokenBucket r \<le> 5
   \<and> (req_EstimatedTokens r \<le> req_EstimatedTokens r' \<longrightarrow> TokenBucket r \<le> TokenBucket r')
   \<and> (let lo = [0, 128, 512, 1024, 2048, 4096] ! nat (TokenBucket r) in
       (TokenBucket r = 0 \<or> lo < req_EstimatedTokens r)
       \<and> (TokenBucket r = 5 \<or> req_EstimatedTokens r \<le> [128, 512, 1024, 2048, 4096] ! nat (TokenBucket r)))"
  by (auto simp: TokenBucket_eq Let_def)

theorem TokenBucket_correct_witness:
  "TokenBucket (NewInferenceRequest ''a'' 1 0 None ''hello world!'' 200 1 ''completion'') = 1"
proof -
  let ?r = "NewInferenceRequest ''a'' 1 0 None ''hello world!'' 200 1 ''completion''"
  have "req_EstimatedTokens ?r = 203"
    by (simp add: NewInferenceRequest_def wrap64_def signed_divide_int_def)
  then show ?thesis using TokenBucket_correct [of ?r ?r] by (auto simp: TokenBucket_eq Let_def)
qed

lemma EstimatedTokens_exact:
  assumes "i64 (int (length prompt) div 4 + n)"
  shows "req_EstimatedTokens (NewInferenceRequest uuid now addr ctx prompt n p rt)
    = int (length prompt) div 4 + n"
  using assms by (simp add: NewInferenceRequest_def sdiv_nonneg_eq wrap64_id)

lemma add_tokens_sum:
  assumes "\<forall>k \<le> length rs. i64 (t + (\<Sum>r\<leftarrow>take k rs. req_EstimatedTokens r))"
  shows "add_tokens t rs = t + (\<Sum>r\<leftarrow>rs. req_EstimatedTokens r)"
  using assms
proof (induction rs arbitrary: t)
  case Nil
  then show ?case by simp
next
  case (Cons r rs)
  have "i64 (t + req_EstimatedTokens r)" using Cons.prems [rule_format, of 1] by simp
  moreover have "\<forall>k \<le> length rs. i64 (t + req_EstimatedTokens r + (\<Sum>r\<leftarrow>take k rs. req_EstimatedTokens r))"
    using Cons.prems [rule_format, of "Suc k" for k] by (auto simp: add.assoc)
  ultimately show ?case using Cons.IH by (simp add: wrap64_id add.assoc)
qed

lemma i64_partial_sums:
  assumes "\<forall>r\<in>set rs. 0 \<le> req_EstimatedTokens r"
    and "(\<Sum>r\<leftarrow>rs. req_EstimatedTokens r) < 2 ^ 63"
  shows "\<forall>k \<le> length rs. i64 (0 + (\<Sum>r\<leftarrow>take k rs. req_EstimatedTokens r))"
proof (intro allI impI)
  fix k assume "k \<le> length rs"
  have nn: "0 \<le> (\<Sum>r\<leftarrow>xs. req_EstimatedTokens r)" if "set xs \<subseteq> set rs" for xs
    using that assms(1) by (intro sum_list_nonneg) auto
  have "(\<Sum>r\<leftarrow>rs. req_EstimatedTokens r)
      = (\<Sum>r\<leftarrow>take k rs. req_EstimatedTokens r) + (\<Sum>r\<leftarrow>drop k rs. req_EstimatedTokens r)"
    by (metis append_take_drop_id map_append sum_list.append)
  with nn [of "take k rs"] nn [of "drop k rs"] assms(2)
  show "i64 (0 + (\<Sum>r\<leftarrow>take k rs. req_EstimatedTokens r))"
    by (simp add: i64_def set_take_subset set_drop_subset)
qed

lemma TotalTokens_sum:
  assumes "\<forall>r\<in>set (batch_Requests b). 0 \<le> req_EstimatedTokens r"
    and "(\<Sum>r\<leftarrow>batch_Requests b. req_EstimatedTokens r) < 2 ^ 63"
  shows "TotalTokens b = (\<Sum>r\<leftarrow>batch_Requests b. req_EstimatedTokens r)"
  using add_tokens_sum [OF i64_partial_sums [OF assms]] by (simp add: TotalTokens_def)

lemma max_priority_Max: "max_priority m rs = Max (insert m (req_Priority ` set rs))"
proof (induction rs arbitrary: m)
  case (Cons r rs)
  have "max_priority m (r # rs) = Max (insert (max m (req_Priority r)) (req_Priority ` set rs))"
    using Cons.IH by (simp add: max_def)
  also have "\<dots> = Max (insert m (req_Priority ` set (r # rs)))"
    by (cases "set rs = {}") (simp_all add: Max_insert max.assoc)
  finally show ?case .
qed simp

lemma MaxPriority_Max: "MaxPriority b = Max (insert PriorityLow (req_Priority ` set (batch_Requests b)))"
  by (simp add: MaxPriority_def max_priority_Max)

end
