(* ===== verification/Config.thy ===== *)
theory Config
  imports Complex_Main Models
begin

text \<open>
  internal/config/config.go: the configuration sections, \<open>Validate\<close> with its checks in source
  order, and \<open>Load\<close>. The viper library and \<open>url.Parse\<close> are parameters: viper's calls are the
  functions \<open>bind_env\<close>, \<open>read_in_config\<close> and \<open>unmarshal\<close>, and \<open>url_parse\<close> maps a URL to its scheme
  and host or to the parse error's message.
\<close>

record ServerConfig =
  srv_Host :: string
  srv_Port :: int
  srv_ReadTimeout :: duration
  srv_WriteTimeout :: duration

record BatchingConfig =
  bc_Strategy :: string
  bc_MinBatchSize :: int
  bc_MaxBatchSize :: int
  bc_MinWaitMs :: int
  bc_MaxWaitMs :: int
  bc_QueueDepthLowThreshold :: int
  bc_QueueDepthHighThreshold :: int
  bc_QueueCapacity :: int
  bc_PriorityEnabled :: bool
  bc_TargetP99Ms :: f64

record WorkerConfig =
  wc_Count :: int
  wc_MaxBatchTokens :: int

record UpstreamConfig =
  up_URL :: string
  up_RequestTimeout :: duration
  up_MaxIdleConns :: int
  up_MaxConnsPerHost :: int
  up_HealthPath :: string

record HealthConfig =
  hc_CheckInterval :: duration
  hc_FailureThreshold :: int
  hc_RecoveryTimeout :: duration

record MetricsConfig =
  mc_CollectionInterval :: duration
  mc_PercentileWindowSize :: int
  mc_HistoryRetention :: duration
  mc_P99SmoothingAlpha :: f64

record DashboardConfig =
  dc_Enabled :: bool
  dc_Port :: int
  dc_WSPushInterval :: duration

record Config =
  cfg_Server :: ServerConfig
  cfg_Batching :: BatchingConfig
  cfg_Workers :: WorkerConfig
  cfg_Upstream :: UpstreamConfig
  cfg_Health :: HealthConfig
  cfg_Metrics :: MetricsConfig
  cfg_Dashboard :: DashboardConfig

definition validStrategies :: "string list" where
  "validStrategies = [''fixed'', ''queue_depth'', ''latency_aware'']"

type_synonym url_parser = "string \<Rightarrow> string + (string \<times> string)"

definition validateUpstream :: "url_parser \<Rightarrow> UpstreamConfig \<Rightarrow> error option" where
  "validateUpstream url_parse u =
     (if up_URL u = '''' then Some (OtherError ''upstream.url must be set'')
      else
        (case url_parse (up_URL u) of
           Inl err \<Rightarrow> Some (OtherError (''upstream.url is not a valid URL: '' @ err))
         | Inr (scheme, host) \<Rightarrow>
             if scheme \<noteq> ''http'' \<and> scheme \<noteq> ''https'' then
               Some (OtherError ''upstream.url must use http:// or https:// scheme'')
             else if host = '''' then Some (OtherError ''upstream.url must include a host'')
             else if up_RequestTimeout u \<le> 0 then
               Some (OtherError ''upstream.request_timeout must be > 0'')
             else None))"

definition Validate :: "url_parser \<Rightarrow> Config \<Rightarrow> error option" where
  "Validate url_parse c =
     (if srv_Port (cfg_Server c) \<le> 0 then Some (OtherError ''server.port must be > 0'')
      else if wc_Count (cfg_Workers c) < 1 then Some (OtherError ''workers.count must be >= 1'')
      else if bc_MaxBatchSize (cfg_Batching c) < bc_MinBatchSize (cfg_Batching c) then
        Some (OtherError ''batching.max_batch_size must be >= batching.min_batch_size'')
      else if bc_QueueCapacity (cfg_Batching c) < 1 then
        Some (OtherError ''batching.queue_capacity must be >= 1'')
      else if bc_Strategy (cfg_Batching c) \<notin> set validStrategies then
        Some (OtherError ''batching.strategy must be one of fixed, queue_depth, latency_aware'')
      else if hc_FailureThreshold (cfg_Health c) < 1 then
        Some (OtherError ''health.failure_threshold must be >= 1'')
      else
        (case validateUpstream url_parse (cfg_Upstream c) of
           Some err \<Rightarrow> Some err
         | None \<Rightarrow>
             if f_le (mc_P99SmoothingAlpha (cfg_Metrics c)) (Fin 0)
               \<or> f_lt (Fin 1) (mc_P99SmoothingAlpha (cfg_Metrics c)) then
               Some (OtherError ''metrics.p99_smoothing_alpha must be in (0, 1]'')
             else None))"

section \<open>Load\<close>

fun bindEnvKeys :: "(string \<Rightarrow> error option) \<Rightarrow> string list \<Rightarrow> error option" where
  "bindEnvKeys bind_env [] = None"
| "bindEnvKeys bind_env (key # keys) =
     (case bind_env key of Some err \<Rightarrow> Some err | None \<Rightarrow> bindEnvKeys bind_env keys)"

definition env_keys :: "string list" where
  "env_keys =
     [''server.host'', ''server.port'', ''server.read_timeout'', ''server.write_timeout'',
      ''batching.strategy'', ''batching.min_batch_size'', ''batching.max_batch_size'',
      ''batching.min_wait_ms'', ''batching.max_wait_ms'',
      ''batching.queue_depth_low_threshold'', ''batching.queue_depth_high_threshold'',
      ''batching.queue_capacity'', ''batching.priority_enabled'', ''batching.target_p99_ms'',
      ''workers.count'', ''workers.max_batch_tokens'',
      ''upstream.url'', ''upstream.request_timeout'', ''upstream.max_idle_conns'',
      ''upstream.max_conns_per_host'', ''upstream.health_path'',
      ''health.check_interval'', ''health.failure_threshold'', ''health.recovery_timeout'',
      ''metrics.collection_interval'', ''metrics.percentile_window_size'',
      ''metrics.history_retention'', ''metrics.p99_smoothing_alpha'',
      ''dashboard.enabled'', ''dashboard.port'', ''dashboard.ws_push_interval'']"

datatype read_result = ReadOk | ConfigFileNotFound | ReadError error

definition Load ::
  "(string \<Rightarrow> error option) \<Rightarrow> read_result \<Rightarrow> error + Config \<Rightarrow> url_parser \<Rightarrow> error + Config" where
  "Load bind_env read_in_config unmarshal url_parse =
     (case bindEnvKeys bind_env env_keys of
        Some err \<Rightarrow> Inl err
      | None \<Rightarrow>
          (case read_in_config of
             ReadError err \<Rightarrow> Inl err
           | _ \<Rightarrow>
               (case unmarshal of
                  Inl err \<Rightarrow> Inl err
                | Inr cfg \<Rightarrow>
                    (case Validate url_parse cfg of Some err \<Rightarrow> Inl err | None \<Rightarrow> Inr cfg))))"

section \<open>What a validated configuration guarantees\<close>

definition upstream_ok :: "url_parser \<Rightarrow> UpstreamConfig \<Rightarrow> bool" where
  "upstream_ok url_parse u \<longleftrightarrow> up_URL u \<noteq> '''' \<and> 0 < up_RequestTimeout u
     \<and> (\<exists>scheme host. url_parse (up_URL u) = Inr (scheme, host)
          \<and> scheme \<in> {''http'', ''https''} \<and> host \<noteq> '''')"

lemma validateUpstream_iff: "validateUpstream url_parse u = None \<longleftrightarrow> upstream_ok url_parse u"
  by (cases "url_parse (up_URL u)")
    (auto simp: validateUpstream_def upstream_ok_def split: if_splits)

lemma alpha_ok:
  "\<not> f_le a (Fin 0) \<and> \<not> f_lt (Fin 1) a \<longleftrightarrow> a = NaN \<or> (\<exists>x. a = Fin x \<and> 0 < x \<and> x \<le> 1)"
  by (cases a) (auto simp: f_le_def)

lemma bindEnvKeys_None: "bindEnvKeys bind_env keys = None \<longleftrightarrow> (\<forall>k\<in>set keys. bind_env k = None)"
  by (induction keys) (auto split: option.splits)

text \<open>
  C19: \<open>Validate\<close> accepts exactly the configurations with a positive port, at least one worker, a
  maximum batch size no smaller than the minimum, a queue capacity of at least one, a known
  strategy, a failure threshold of at least one, an upstream with an http or https URL, a host and
  a positive timeout, and a smoothing factor that is in \<open>(0, 1]\<close> or is NaN, which both comparisons
  of the last check let through. \<open>Load\<close> returns a configuration only when it is such a one. Nothing
  else is enforced: a minimum batch size that is not positive is accepted, and so is a \<open>min_wait_ms\<close>
  above \<open>max_wait_ms\<close>, although docs/config.md lists the minimum batch size and the ordering of
  \<open>min_wait_ms\<close> among the checks.
\<close>

theorem Validate_correct:
  "(Validate url_parse c = None \<longleftrightarrow>
      0 < srv_Port (cfg_Server c) \<and> 1 \<le> wc_Count (cfg_Workers c)
      \<and> bc_MinBatchSize (cfg_Batching c) \<le> bc_MaxBatchSize (cfg_Batching c)
      \<and> 1 \<le> bc_QueueCapacity (cfg_Batching c)
      \<and> bc_Strategy (cfg_Batching c) \<in> {''fixed'', ''queue_depth'', ''latency_aware''}
      \<and> 1 \<le> hc_FailureThreshold (cfg_Health c)
      \<and> upstream_ok url_parse (cfg_Upstream c)
      \<and> (mc_P99SmoothingAlpha (cfg_Metrics c) = NaN
           \<or> (\<exists>x. mc_P99SmoothingAlpha (cfg_Metrics c) = Fin x \<and> 0 < x \<and> x \<le> 1)))
   \<and> (Load bind_env rd (Inr c) url_parse = Inr c \<longleftrightarrow>
        (\<forall>k\<in>set env_keys. bind_env k = None) \<and> (rd = ReadOk \<or> rd = ConfigFileNotFound)
        \<and> Validate url_parse c = None)
   \<and> (Load bind_env rd um url_parse = Inr c' \<longrightarrow> um = Inr c' \<and> Validate url_parse c' = None)"
proof (intro conjI)
  have V: "Validate url_parse c = None \<longleftrightarrow>
      \<not> srv_Port (cfg_Server c) \<le> 0 \<and> \<not> wc_Count (cfg_Workers c) < 1
      \<and> \<not> bc_MaxBatchSize (cfg_Batching c) < bc_MinBatchSize (cfg_Batching c)
      \<and> \<not> bc_QueueCapacity (cfg_Batching c) < 1
      \<and> bc_Strategy (cfg_Batching c) \<in> set validStrategies
      \<and> \<not> hc_FailureThreshold (cfg_Health c) < 1
      \<and> validateUpstream url_parse (cfg_Upstream c) = None
      \<and> \<not> f_le (mc_P99SmoothingAlpha (cfg_Metrics c)) (Fin 0)
      \<and> \<not> f_lt (Fin 1) (mc_P99SmoothingAlpha (cfg_Metrics c))"
    by (simp add: Validate_def split: option.split)
  show "Validate url_parse c = None \<longleftrightarrow>
      0 < srv_Port (cfg_Server c) \<and> 1 \<le> wc_Count (cfg_Workers c)
      \<and> bc_MinBatchSize (cfg_Batching c) \<le> bc_MaxBatchSize (cfg_Batching c)
      \<and> 1 \<le> bc_QueueCapacity (cfg_Batching c)
      \<and> bc_Strategy (cfg_Batching c) \<in> {''fixed'', ''queue_depth'', ''latency_aware''}
      \<and> 1 \<le> hc_FailureThreshold (cfg_Health c)
      \<and> upstream_ok url_parse (cfg_Upstream c)
      \<and> (mc_P99SmoothingAlpha (cfg_Metrics c) = NaN
           \<or> (\<exists>x. mc_P99SmoothingAlpha (cfg_Metrics c) = Fin x \<and> 0 < x \<and> x \<le> 1))"
    unfolding V validateUpstream_iff alpha_ok validStrategies_def by (simp add: not_le not_less)
  show "Load bind_env rd (Inr c) url_parse = Inr c \<longleftrightarrow>
        (\<forall>k\<in>set env_keys. bind_env k = None) \<and> (rd = ReadOk \<or> rd = ConfigFileNotFound)
        \<and> Validate url_parse c = None"
    unfolding bindEnvKeys_None [symmetric] Load_def
    by (cases rd) (simp_all split: option.split)
  show "Load bind_env rd um url_parse = Inr c' \<longrightarrow> um = Inr c' \<and> Validate url_parse c' = None"
    by (auto simp: Load_def split: option.splits read_result.splits sum.splits)
qed

definition default_config :: Config where
  "default_config =
     \<lparr>cfg_Server = \<lparr>srv_Host = ''0.0.0.0'', srv_Port = 8080, srv_ReadTimeout = 30 * second,
        srv_WriteTimeout = 30 * second\<rparr>,
      cfg_Batching = \<lparr>bc_Strategy = ''latency_aware'', bc_MinBatchSize = 1, bc_MaxBatchSize = 32,
        bc_MinWaitMs = 5, bc_MaxWaitMs = 40, bc_QueueDepthLowThreshold = 8,
        bc_QueueDepthHighThreshold = 80, bc_QueueCapacity = 200000, bc_PriorityEnabled = True,
        bc_TargetP99Ms = Fin 60\<rparr>,
      cfg_Workers = \<lparr>wc_Count = 8, wc_MaxBatchTokens = 8192\<rparr>,
      cfg_Upstream = \<lparr>up_URL = ''http://inference-server:8000/v1/batch'',
        up_RequestTimeout = 5 * second, up_MaxIdleConns = 100, up_MaxConnsPerHost = 24,
        up_HealthPath = ''/health''\<rparr>,
      cfg_Health = \<lparr>hc_CheckInterval = 5 * second, hc_FailureThreshold = 3,
        hc_RecoveryTimeout = 30 * second\<rparr>,
      cfg_Metrics = \<lparr>mc_CollectionInterval = 100 * millisecond, mc_PercentileWindowSize = 1000,
        mc_HistoryRetention = 3600 * second, mc_P99SmoothingAlpha = Fin (3 / 10)\<rparr>,
      cfg_Dashboard = \<lparr>dc_Enabled = True, dc_Port = 8081, dc_WSPushInterval = 500 * millisecond\<rparr>\<rparr>"

text \<open>The default configuration, and one with no positive minimum batch size and its waits the wrong way round.\<close>

definition loose_config :: Config where
  "loose_config = default_config\<lparr>cfg_Batching := (cfg_Batching default_config)
     \<lparr>bc_MinBatchSize := - 1, bc_MinWaitMs := 100\<rparr>\<rparr>"

theorem Validate_correct_witness:
  "Validate (\<lambda>_. Inr (''http'', ''inference-server:8000'')) default_config = None
   \<and> Load (\<lambda>_. None) ReadOk (Inr default_config) (\<lambda>_. Inr (''http'', ''inference-server:8000''))
       = Inr default_config
   \<and> Validate (\<lambda>_. Inr (''http'', ''inference-server:8000'')) loose_config = None
   \<and> bc_MinBatchSize (cfg_Batching loose_config) < 1
   \<and> bc_MaxWaitMs (cfg_Batching loose_config) < bc_MinWaitMs (cfg_Batching loose_config)"
proof -
  note V = Validate_correct [of "\<lambda>_. Inr (''http'', ''inference-server:8000'')" _
      "\<lambda>_. None" ReadOk "Inr default_config" default_config]
  have "Validate (\<lambda>_. Inr (''http'', ''inference-server:8000'')) default_config = None"
    by (rule iffD2 [OF conjunct1 [OF V]])
      (simp add: default_config_def upstream_ok_def exI [of _ "3 / 10 :: rat"])
  moreover have "Validate (\<lambda>_. Inr (''http'', ''inference-server:8000'')) loose_config = None"
    by (rule iffD2 [OF conjunct1 [OF V]])
      (simp add: loose_config_def default_config_def upstream_ok_def exI [of _ "3 / 10 :: rat"])
  ultimately show ?thesis
    using conjunct1 [OF conjunct2 [OF V [of default_config]]] by (simp add: loose_config_def default_config_def)
qed

end
