(* ===== verification/Strategies.thy ===== *)
theory Strategies
  imports Complex_Main Models Config
begin

text \<open>
  internal/batcher/strategies: the three batching strategies and the four places that construct
  them from the configuration (batcher.NewStrategy, handlers.buildStrategy, the server's
  buildInitialStrategy and the simulator's buildStrategy). A strategy value carries the controller
  state of the latency-aware decorator, so \<open>CalculateTimeout\<close> returns the strategy it leaves
  behind. The parameter \<open>oob\<close> is what the platform gives for a float that does not fit an
  \<open>int64\<close>; the theorems hold for every \<open>oob\<close>.
\<close>

record StrategyMetrics =
  sm_P99LatencyMs :: f64
  sm_TargetP99Ms :: f64

record FixedStrategy =
  fs_maxWaitMs :: int
  fs_maxBatchSize :: int

record QueueDepthStrategy =
  qd_lowThreshold :: int
  qd_highThreshold :: int
  qd_minWaitMs :: int
  qd_maxWaitMs :: int
  qd_maxBatchSize :: int

text \<open>\<open>SLatency base multiplier kP target\<close>: the decorator, whose base may be nil.\<close>

datatype Strategy =
    SFixed FixedStrategy
  | SQueueDepth QueueDepthStrategy
  | SLatency "Strategy option" f64 f64 f64

definition ms_duration :: "int \<Rightarrow> duration" where
  "ms_duration n = wrap64 (n * millisecond)"

section \<open>fixed.go\<close>

definition NewFixedStrategy :: "int \<Rightarrow> int \<Rightarrow> FixedStrategy" where
  "NewFixedStrategy maxWaitMs maxBatchSize =
     \<lparr>fs_maxWaitMs = maxWaitMs, fs_maxBatchSize = maxBatchSize\<rparr>"

definition Fixed_CalculateTimeout :: "FixedStrategy \<Rightarrow> int \<Rightarrow> duration" where
  "Fixed_CalculateTimeout s queueDepth = ms_duration (fs_maxWaitMs s)"

definition Fixed_ShouldFlush :: "FixedStrategy \<Rightarrow> InferenceRequest list \<Rightarrow> int \<Rightarrow> bool" where
  "Fixed_ShouldFlush s batch queueDepth \<longleftrightarrow>
     fs_maxBatchSize s \<le> int (length batch) \<or> fs_maxBatchSize s \<le> queueDepth"

section \<open>queue_depth.go\<close>

definition NewQueueDepthStrategy :: "int \<Rightarrow> int \<Rightarrow> int \<Rightarrow> int \<Rightarrow> int \<Rightarrow> QueueDepthStrategy" where
  "NewQueueDepthStrategy lowThreshold highThreshold minWaitMs maxWaitMs maxBatchSize =
     \<lparr>qd_lowThreshold = lowThreshold, qd_highThreshold = highThreshold, qd_minWaitMs = minWaitMs,
      qd_maxWaitMs = maxWaitMs, qd_maxBatchSize = maxBatchSize\<rparr>"

definition QueueDepth_CalculateTimeout ::
  "(f64 \<Rightarrow> int) \<Rightarrow> QueueDepthStrategy \<Rightarrow> int \<Rightarrow> duration" where
  "QueueDepth_CalculateTimeout oob s queueDepth =
     (if queueDepth \<le> qd_lowThreshold s then ms_duration (qd_maxWaitMs s)
      else if qd_highThreshold s \<le> queueDepth then ms_duration (qd_minWaitMs s)
      else if qd_highThreshold s \<le> qd_lowThreshold s then ms_duration (qd_minWaitMs s)
      else
        let ratio = f_div (f_of_int (wrap64 (queueDepth - qd_lowThreshold s)))
                      (f_of_int (wrap64 (qd_highThreshold s - qd_lowThreshold s)));
            waitMs = f_sub (f_of_int (qd_maxWaitMs s))
                       (f_mul ratio (f_of_int (wrap64 (qd_maxWaitMs s - qd_minWaitMs s))));
            waitMs = (if f_lt waitMs (Fin 0) then Fin 0 else waitMs)
        in ms_duration (f_to_i64 oob waitMs))"

definition QueueDepth_ShouldFlush ::
  "QueueDepthStrategy \<Rightarrow> InferenceRequest list \<Rightarrow> int \<Rightarrow> bool" where
  "QueueDepth_ShouldFlush s batch queueDepth \<longleftrightarrow>
     qd_maxBatchSize s \<le> int (length batch) \<or> qd_maxBatchSize s \<le> queueDepth"

section \<open>latency_aware.go\<close>

definition NewLatencyAwareStrategy :: "Strategy option \<Rightarrow> f64 \<Rightarrow> f64 \<Rightarrow> Strategy" where
  "NewLatencyAwareStrategy base kP targetP99Ms = SLatency base (Fin 1) kP targetP99Ms"

definition clampMultiplier :: "f64 \<Rightarrow> f64 \<Rightarrow> f64 \<Rightarrow> f64" where
  "clampMultiplier v lo hi = (if f_lt v lo then lo else if f_lt hi v then hi else v)"

text \<open>One step of the proportional controller, at the head of the method.\<close>

definition control_step :: "f64 \<Rightarrow> f64 \<Rightarrow> StrategyMetrics option \<Rightarrow> f64" where
  "control_step kP k metrics =
     (case metrics of
        None \<Rightarrow> k
      | Some m \<Rightarrow>
          if f_lt (Fin 0) (sm_P99LatencyMs m) \<and> f_lt (Fin 0) (sm_TargetP99Ms m) then
            let errRatio = f_div (f_sub (sm_P99LatencyMs m) (sm_TargetP99Ms m)) (sm_TargetP99Ms m)
            in clampMultiplier (f_sub k (f_mul kP errRatio)) (Fin (1 / 2)) (Fin 2)
          else k)"

text \<open>\<open>time.Duration(float64(base) * k)\<close>.\<close>

definition scale_duration :: "(f64 \<Rightarrow> int) \<Rightarrow> f64 \<Rightarrow> duration \<Rightarrow> duration" where
  "scale_duration oob k base = f_to_i64 oob (f_mul (f_of_int base) k)"

section \<open>The Strategy interface\<close>

fun Name :: "Strategy \<Rightarrow> string" where
  "Name (SFixed s) = ''fixed''"
| "Name (SQueueDepth s) = ''queue_depth''"
| "Name (SLatency base k kP target) = ''latency_aware''"

fun CalculateTimeout ::
  "(f64 \<Rightarrow> int) \<Rightarrow> Strategy \<Rightarrow> int \<Rightarrow> StrategyMetrics option \<Rightarrow> duration \<times> Strategy" where
  "CalculateTimeout oob (SFixed s) queueDepth metrics =
     (Fixed_CalculateTimeout s queueDepth, SFixed s)"
| "CalculateTimeout oob (SQueueDepth s) queueDepth metrics =
     (QueueDepth_CalculateTimeout oob s queueDepth, SQueueDepth s)"
| "CalculateTimeout oob (SLatency None k kP target) queueDepth metrics =
     (0, SLatency None (control_step kP k metrics) kP target)"
| "CalculateTimeout oob (SLatency (Some base) k kP target) queueDepth metrics =
     (let k' = control_step kP k metrics;
          (d, base') = CalculateTimeout oob base queueDepth metrics
      in (scale_duration oob k' d, SLatency (Some base') k' kP target))"

fun ShouldFlush :: "Strategy \<Rightarrow> InferenceRequest list \<Rightarrow> int \<Rightarrow> bool" where
  "ShouldFlush (SFixed s) batch queueDepth = Fixed_ShouldFlush s batch queueDepth"
| "ShouldFlush (SQueueDepth s) batch queueDepth = QueueDepth_ShouldFlush s batch queueDepth"
| "ShouldFlush (SLatency None k kP target) batch queueDepth = False"
| "ShouldFlush (SLatency (Some base) k kP target) batch queueDepth =
     ShouldFlush base batch queueDepth"

fun Multiplier :: "Strategy \<Rightarrow> f64" where
  "Multiplier (SLatency base k kP target) = k"
| "Multiplier s = Fin 1"

section \<open>Construction from the configuration\<close>

text \<open>The constant \<open>0.05\<close>, written three times in the sources, as the nearest float64.\<close>

definition defaultKP :: f64 where
  "defaultKP = f64_of_rat (1 / 20)"

definition NewStrategy :: "BatchingConfig \<Rightarrow> error + Strategy" where
  "NewStrategy cfg =
     (if bc_Strategy cfg = ''fixed'' then
        Inr (SFixed (NewFixedStrategy (bc_MaxWaitMs cfg) (bc_MaxBatchSize cfg)))
      else if bc_Strategy cfg = ''queue_depth'' then
        Inr (SQueueDepth (NewQueueDepthStrategy (bc_QueueDepthLowThreshold cfg)
          (bc_QueueDepthHighThreshold cfg) (bc_MinWaitMs cfg) (bc_MaxWaitMs cfg)
          (bc_MaxBatchSize cfg)))
      else if bc_Strategy cfg = ''latency_aware'' then
        let base = SQueueDepth (NewQueueDepthStrategy (bc_QueueDepthLowThreshold cfg)
          (bc_QueueDepthHighThreshold cfg) (bc_MinWaitMs cfg) (bc_MaxWaitMs cfg)
          (bc_MaxBatchSize cfg))
        in Inr (NewLatencyAwareStrategy (Some base) defaultKP (bc_TargetP99Ms cfg))
      else Inl ErrInvalidRequest)"

definition errInvalidStrategy :: "string \<Rightarrow> error" where
  "errInvalidStrategy name = OtherError (''unknown strategy: '' @ name)"

definition handlers_buildStrategy :: "string \<Rightarrow> BatchingConfig option \<Rightarrow> error + Strategy" where
  "handlers_buildStrategy name cfg_opt =
     (case cfg_opt of
        None \<Rightarrow> Inl (errInvalidStrategy name)
      | Some cfg \<Rightarrow>
          if name = ''fixed'' then
            Inr (SFixed (NewFixedStrategy (bc_MaxWaitMs cfg) (bc_MaxBatchSize cfg)))
          else if name = ''queue_depth'' then
            Inr (SQueueDepth (NewQueueDepthStrategy (bc_QueueDepthLowThreshold cfg)
              (bc_QueueDepthHighThreshold cfg) (bc_MinWaitMs cfg) (bc_MaxWaitMs cfg)
              (bc_MaxBatchSize cfg)))
          else if name = ''latency_aware'' then
            let base = SQueueDepth (NewQueueDepthStrategy (bc_QueueDepthLowThreshold cfg)
              (bc_QueueDepthHighThreshold cfg) (bc_MinWaitMs cfg) (bc_MaxWaitMs cfg)
              (bc_MaxBatchSize cfg))
            in Inr (NewLatencyAwareStrategy (Some base) (f64_of_rat (1 / 20)) (bc_TargetP99Ms cfg))
          else Inl (errInvalidStrategy name))"

definition errUnknownStrategy :: "string \<Rightarrow> error" where
  "errUnknownStrategy name = OtherError (''unknown batching.strategy: '' @ name)"

definition server_latencyAwareKP :: f64 where
  "server_latencyAwareKP = f64_of_rat (1 / 20)"

definition server_buildInitialStrategy :: "BatchingConfig \<Rightarrow> error + Strategy" where
  "server_buildInitialStrategy cfg =
     (if bc_Strategy cfg = ''fixed'' then
        Inr (SFixed (NewFixedStrategy (bc_MaxWaitMs cfg) (bc_MaxBatchSize cfg)))
      else if bc_Strategy cfg = ''queue_depth'' then
        Inr (SQueueDepth (NewQueueDepthStrategy (bc_QueueDepthLowThreshold cfg)
          (bc_QueueDepthHighThreshold cfg) (bc_MinWaitMs cfg) (bc_MaxWaitMs cfg)
          (bc_MaxBatchSize cfg)))
      else if bc_Strategy cfg = ''latency_aware'' then
        let base = SQueueDepth (NewQueueDepthStrategy (bc_QueueDepthLowThreshold cfg)
          (bc_QueueDepthHighThreshold cfg) (bc_MinWaitMs cfg) (bc_MaxWaitMs cfg)
          (bc_MaxBatchSize cfg))
        in Inr (NewLatencyAwareStrategy (Some base) server_latencyAwareKP (bc_TargetP99Ms cfg))
      else Inl (errUnknownStrategy (bc_Strategy cfg)))"

definition simulator_latencyAwareKP :: f64 where
  "simulator_latencyAwareKP = f64_of_rat (1 / 20)"

text \<open>\<open>quote\<close> is the formatting verb \<open>%q\<close> of \<open>fmt.Errorf\<close>.\<close>

definition simulator_buildStrategy ::
  "(string \<Rightarrow> string) \<Rightarrow> string \<Rightarrow> BatchingConfig \<Rightarrow> error + Strategy" where
  "simulator_buildStrategy quote name cfg =
     (if name = ''fixed'' then
        Inr (SFixed (NewFixedStrategy (bc_MaxWaitMs cfg) (bc_MaxBatchSize cfg)))
      else if name = ''queue_depth'' then
        Inr (SQueueDepth (NewQueueDepthStrategy (bc_QueueDepthLowThreshold cfg)
          (bc_QueueDepthHighThreshold cfg) (bc_MinWaitMs cfg) (bc_MaxWaitMs cfg)
          (bc_MaxBatchSize cfg)))
      else if name = ''latency_aware'' then
        let base = SQueueDepth (NewQueueDepthStrategy (bc_QueueDepthLowThreshold cfg)
          (bc_QueueDepthHighThreshold cfg) (bc_MinWaitMs cfg) (bc_MaxWaitMs cfg)
          (bc_MaxBatchSize cfg))
        in Inr (NewLatencyAwareStrategy (Some base) simulator_latencyAwareKP (bc_TargetP99Ms cfg))
      else Inl (OtherError (''unknown strategy '' @ quote name)))"
section \<open>The timeout contract\<close>

text \<open>
  What the batcher relies on: a strategy's timeout lies between two bounds, whatever the queue
  depth. The decorator stretches any such contract by at most a factor of two each way.
\<close>

locale timeout_contract =
  fixes calc :: "'s \<Rightarrow> int \<Rightarrow> duration"
    and tuned :: "'s \<Rightarrow> bool"
    and low :: "'s \<Rightarrow> int"
    and high :: "'s \<Rightarrow> int"
  assumes bounds: "tuned s \<Longrightarrow> low s \<le> calc s d \<and> calc s d \<le> high s"
    and nonneg: "tuned s \<Longrightarrow> 0 \<le> low s"
    and even_low: "tuned s \<Longrightarrow> even (low s)"
    and exact_high: "tuned s \<Longrightarrow> high s \<le> 2 ^ 53"
begin

lemma calc_exact: assumes "tuned s" shows "f_of_int (calc s d) = Fin (of_int (calc s d))"
proof -
  have b: "\<bar>calc s d\<bar> \<le> 2 ^ 53"
    using bounds [OF assms, of d] nonneg [OF assms] exact_high [OF assms] by linarith
  then have "\<bar>of_int (calc s d) :: rat\<bar> \<le> 2 ^ 53"
    using of_int_le_iff [where ?'a = rat, of "\<bar>calc s d\<bar>" "2 ^ 53"] by simp
  then have "f_small (of_int (calc s d))"
    by (rule f_small_bound) simp
  then show ?thesis using f64_round_int [OF b] by (simp add: f_of_int_def)
qed

lemma stretched:
  assumes s: "tuned s" and x: "1 / 2 \<le> x" "x \<le> 2"
  shows "low s div 2 \<le> scale_duration oob (Fin x) (calc s d)
    \<and> scale_duration oob (Fin x) (calc s d) \<le> 2 * high s"
proof -
  let ?c = "of_int (calc s d) :: rat" and ?l = "of_int (low s div 2) :: rat"
    and ?h = "of_int (high s) * 2 :: rat"
  define y where "y = f64_round (?c * x)"
  note b = bounds [OF s, of d] nonneg [OF s] exact_high [OF s]
  have l0: "0 \<le> low s div 2" "low s div 2 \<le> 2 ^ 53" using b by linarith+
  have c: "of_int (low s) \<le> ?c" "?c \<le> of_int (high s)" "0 \<le> ?c" using b by simp_all
  have h: "?h \<le> 2 ^ 54"
    using of_int_le_iff [where ?'a = rat, of "high s" "2 ^ 53"] b by simp
  have "?l = of_int (low s) / 2" using even_low [OF s] by (auto elim!: evenE)
  also have "\<dots> \<le> ?c / 2" using c by simp
  also have "\<dots> \<le> ?c * x" using mult_left_mono [OF x(1) c(3)] by simp
  finally have lo: "?l \<le> ?c * x" .
  have hi: "?c * x \<le> ?h"
    using mult_mono [OF c(2) x(2)] c x by simp
  have rl: "f64_round ?l = ?l" using l0 by (intro f64_round_int) simp
  have rh: "f64_round ?h = ?h" using b f64_round_exact [of "high s" 1] by simp
  have y: "?l \<le> y" "y \<le> ?h"
    using f64.between [OF rl rh lo hi] by (simp_all add: y_def)
  have "f_small (?c * x)"
    by (rule f_small_bound [of _ 54]) (use lo hi h l0 in simp_all)
  then have sd: "scale_duration oob (Fin x) (calc s d) = f_to_i64 oob (Fin y)"
    using calc_exact [OF s, of d] by (simp add: scale_duration_def y_def)
  have y0: "0 \<le> y" using y(1) l0 by (meson of_int_0_le_iff order.trans)
  have tr: "trunc y = \<lfloor>y\<rfloor>" using y0 by (simp add: trunc_def)
  have fl: "low s div 2 \<le> \<lfloor>y\<rfloor>" using y(1) by (simp add: le_floor_iff)
  have "\<lfloor>y\<rfloor> \<le> \<lfloor>?h\<rfloor>" using y(2) by (rule floor_mono)
  then have fh: "\<lfloor>y\<rfloor> \<le> 2 * high s"
    using floor_of_int [where ?'a = rat, of "high s * 2"] by simp
  have "i64 (trunc y)" using order.trans [OF l0(1) fl] fh b
    by (simp add: tr i64_def del: floor_less_iff floor_less_numeral)
  then show ?thesis using fl fh by (simp add: sd tr)
qed

end

section \<open>The two base strategies meet it\<close>

lemma ms_duration_exact: "0 \<le> n \<Longrightarrow> n \<le> 9000000000 \<Longrightarrow> ms_duration n = n * millisecond"
  by (simp add: ms_duration_def wrap64_id i64_def)

definition fixed_tuned :: "FixedStrategy \<Rightarrow> bool" where
  "fixed_tuned s \<longleftrightarrow> 0 \<le> fs_maxWaitMs s \<and> fs_maxWaitMs s \<le> 9000000000"

interpretation fixed_timeout: timeout_contract Fixed_CalculateTimeout fixed_tuned
  "\<lambda>s. fs_maxWaitMs s * millisecond" "\<lambda>s. fs_maxWaitMs s * millisecond"
  by unfold_locales (auto simp: Fixed_CalculateTimeout_def fixed_tuned_def ms_duration_exact)

text \<open>
  A queue-depth configuration the arithmetic is exact for: waits of at most 9 000 000 000 ms (a
  hundred days) in the right order, and thresholds that are not negative.
\<close>

definition depth_tuned :: "QueueDepthStrategy \<Rightarrow> bool" where
  "depth_tuned s \<longleftrightarrow> 0 \<le> qd_minWaitMs s \<and> qd_minWaitMs s \<le> qd_maxWaitMs s
     \<and> qd_maxWaitMs s \<le> 9000000000 \<and> 0 \<le> qd_lowThreshold s \<and> qd_highThreshold s < 2 ^ 63"

definition depth_ratio :: "QueueDepthStrategy \<Rightarrow> int \<Rightarrow> rat" where
  "depth_ratio s d = f64_round (f64_round (of_int (d - qd_lowThreshold s))
     / f64_round (of_int (qd_highThreshold s - qd_lowThreshold s)))"

definition depth_wait :: "QueueDepthStrategy \<Rightarrow> int \<Rightarrow> rat" where
  "depth_wait s d = f64_round (of_int (qd_maxWaitMs s)
     - f64_round (depth_ratio s d * (of_int (qd_maxWaitMs s) - of_int (qd_minWaitMs s))))"

lemma f64_round_ge_1: "1 \<le> x \<Longrightarrow> 1 \<le> f64_round x"
  using f64_round_mono [of 1 x] by simp

lemma between_small: "0 \<le> x \<Longrightarrow> x \<le> 9000000000 \<Longrightarrow> f_small x"
  by (rule f_small_bound [of _ 40]) simp_all

lemma depth_ratio_unit:
  assumes "qd_lowThreshold s < d" "d < qd_highThreshold s"
  shows "0 \<le> depth_ratio s d \<and> depth_ratio s d \<le> 1"
proof -
  let ?a = "f64_round (of_int (d - qd_lowThreshold s))"
    and ?b = "f64_round (of_int (qd_highThreshold s - qd_lowThreshold s))"
  have "(1::rat) \<le> of_int (d - qd_lowThreshold s)"
    using assms of_int_le_iff [where ?'a = rat, of 1 "d - qd_lowThreshold s"] by simp
  then have "1 \<le> ?a" by (rule f64_round_ge_1)
  moreover have "?a \<le> ?b" using assms by (intro f64_round_mono) simp
  ultimately show ?thesis
    unfolding depth_ratio_def by (intro f64.unit_interval) simp_all
qed

lemma depth_ratio_mono:
  assumes "qd_lowThreshold s < d" "d \<le> e" "e < qd_highThreshold s"
  shows "depth_ratio s d \<le> depth_ratio s e"
proof -
  have "(1::rat) \<le> of_int (qd_highThreshold s - qd_lowThreshold s)"
    using assms of_int_le_iff [where ?'a = rat, of 1 "qd_highThreshold s - qd_lowThreshold s"] by simp
  then have "1 \<le> f64_round (of_int (qd_highThreshold s - qd_lowThreshold s))"
    by (rule f64_round_ge_1)
  then show ?thesis
    using assms unfolding depth_ratio_def
    by (intro f64_round_mono divide_right_mono) auto
qed

lemma depth_wait_within:
  assumes "depth_tuned s" "qd_lowThreshold s < d" "d < qd_highThreshold s"
  shows "of_int (qd_minWaitMs s) \<le> depth_wait s d \<and> depth_wait s d \<le> of_int (qd_maxWaitMs s)"
proof -
  have e: "f64_round (of_int (qd_maxWaitMs s)) = of_int (qd_maxWaitMs s)"
    "f64_round (of_int (qd_minWaitMs s)) = of_int (qd_minWaitMs s)"
    "f64_round (of_int (qd_maxWaitMs s) - of_int (qd_minWaitMs s))
       = of_int (qd_maxWaitMs s) - of_int (qd_minWaitMs s)"
    using assms(1) f64_round_int [of "qd_maxWaitMs s - qd_minWaitMs s"]
    by (simp_all add: depth_tuned_def f64_round_int)
  show ?thesis
    unfolding depth_wait_def
    using depth_ratio_unit [OF assms(2,3)] assms(1)
    by (intro f64.interpolate_within) (simp_all add: e depth_tuned_def)
qed

text \<open>Between the thresholds the code computes the whole milliseconds of the interpolation.\<close>

lemma depth_timeout_between:
  assumes t: "depth_tuned s" and d: "qd_lowThreshold s < d" "d < qd_highThreshold s"
  shows "QueueDepth_CalculateTimeout oob s d = \<lfloor>depth_wait s d\<rfloor> * millisecond"
proof -
  let ?n = "d - qd_lowThreshold s" and ?m = "qd_highThreshold s - qd_lowThreshold s"
    and ?w = "qd_maxWaitMs s - qd_minWaitMs s"
  have i: "i64 ?n" "i64 ?m" using t d by (simp_all add: i64_def depth_tuned_def)
  have one: "(1::rat) \<le> of_int ?m" "(1::rat) \<le> of_int ?n"
    using d of_int_le_iff [where ?'a = rat, of 1 "?m"] of_int_le_iff [where ?'a = rat, of 1 "?n"]
    by simp_all
  let ?b = "f64_round (of_int ?m)" and ?a = "f64_round (of_int ?n)"
  have b: "1 \<le> ?b" "1 \<le> ?a" "?a \<le> ?b"
    using f64_round_ge_1 [OF one(1)] f64_round_ge_1 [OF one(2)] d by (auto intro: f64_round_mono)
  then have "0 \<le> ?a / ?b" "?a / ?b \<le> 1" by simp_all
  then have q: "f_small (?a / ?b)" by (intro between_small) linarith+
  have ratio: "f_div (f_of_int (wrap64 ?n)) (f_of_int (wrap64 ?m)) = Fin (depth_ratio s d)"
    using i b q
    by (simp add: wrap64_id f_of_int_i64 depth_ratio_def)
  have w: "i64 ?w" "\<bar>?w\<bar> \<le> 2 ^ 53" "\<bar>qd_maxWaitMs s\<bar> \<le> 2 ^ 53" "(of_int ?w :: rat) \<le> 9000000000"
      "(0::rat) \<le> of_int ?w" "(of_int (qd_maxWaitMs s) :: rat) \<le> 9000000000"
    using t of_int_le_iff [where ?'a = rat, of ?w "9000000000"]
      of_int_le_iff [where ?'a = rat, of "qd_maxWaitMs s" "9000000000"]
    by (simp_all add: depth_tuned_def i64_def)
  have rw: "0 \<le> depth_ratio s d * of_int ?w" "depth_ratio s d * of_int ?w \<le> of_int ?w"
    using depth_ratio_unit [OF d] w(5) by (simp_all add: mult_left_le_one_le)
  have rw': "0 \<le> f64_round (depth_ratio s d * of_int ?w)"
    "f64_round (depth_ratio s d * of_int ?w) \<le> of_int ?w"
    using f64.scaled_within [of "of_int ?w" "depth_ratio s d"] depth_ratio_unit [OF d] w(2,5)
    by (simp_all add: f64_round_int del: of_int_diff)
  have wait: "f_sub (f_of_int (qd_maxWaitMs s)) (f_mul (Fin (depth_ratio s d)) (f_of_int (wrap64 ?w)))
      = Fin (depth_wait s d)"
  proof -
    have s1: "f_small (depth_ratio s d * of_int ?w)" using rw w(4) by (intro between_small) linarith+
    have "of_int ?w \<le> (of_int (qd_maxWaitMs s) :: rat)" using t by (simp add: depth_tuned_def)
    then have s2: "f_small (of_int (qd_maxWaitMs s) - f64_round (depth_ratio s d * of_int ?w))"
      using rw' w(6) by (intro between_small) linarith+
    show ?thesis
      using s1 s2 w(1) by (simp add: wrap64_id f_of_int_exact [OF w(2)] f_of_int_exact [OF w(3)]
          f_sub_def depth_wait_def)
  qed
  note dw = depth_wait_within [OF t d]
  have m0: "(0::rat) \<le> of_int (qd_minWaitMs s)" using t by (simp add: depth_tuned_def)
  have n: "0 \<le> depth_wait s d" using dw m0 by linarith
  have "\<lfloor>depth_wait s d\<rfloor> \<le> qd_maxWaitMs s"
    using floor_mono [OF conjunct2 [OF dw]] by simp
  then have "\<lfloor>depth_wait s d\<rfloor> \<le> 9000000000"
    using t unfolding depth_tuned_def by linarith
  then have f: "0 \<le> \<lfloor>depth_wait s d\<rfloor>" "\<lfloor>depth_wait s d\<rfloor> \<le> 9000000000"
    using n by (simp_all only: zero_le_floor)
  show ?thesis
    using d n f by (simp add: QueueDepth_CalculateTimeout_def ratio wait Let_def not_less
        trunc_def i64_def ms_duration_exact)
qed
lemma depth_timeout_ends:
  assumes "depth_tuned s"
  shows "d \<le> qd_lowThreshold s \<Longrightarrow> QueueDepth_CalculateTimeout oob s d = qd_maxWaitMs s * millisecond"
    and "qd_lowThreshold s < d \<Longrightarrow> qd_highThreshold s \<le> d \<Longrightarrow>
      QueueDepth_CalculateTimeout oob s d = qd_minWaitMs s * millisecond"
  using assms by (simp_all add: QueueDepth_CalculateTimeout_def depth_tuned_def ms_duration_exact)

lemma depth_floor_within:
  assumes "depth_tuned s" "qd_lowThreshold s < d" "d < qd_highThreshold s"
  shows "qd_minWaitMs s \<le> \<lfloor>depth_wait s d\<rfloor> \<and> \<lfloor>depth_wait s d\<rfloor> \<le> qd_maxWaitMs s"
  using floor_mono [OF conjunct1 [OF depth_wait_within [OF assms]]]
    floor_mono [OF conjunct2 [OF depth_wait_within [OF assms]]] by simp

lemma depth_timeout_cases:
  assumes "depth_tuned s"
  obtains "d \<le> qd_lowThreshold s" "QueueDepth_CalculateTimeout oob s d = qd_maxWaitMs s * millisecond"
  | "qd_lowThreshold s < d" "d < qd_highThreshold s"
    "QueueDepth_CalculateTimeout oob s d = \<lfloor>depth_wait s d\<rfloor> * millisecond"
    "qd_minWaitMs s \<le> \<lfloor>depth_wait s d\<rfloor>" "\<lfloor>depth_wait s d\<rfloor> \<le> qd_maxWaitMs s"
  | "qd_lowThreshold s < d" "qd_highThreshold s \<le> d"
    "QueueDepth_CalculateTimeout oob s d = qd_minWaitMs s * millisecond"
  using depth_timeout_ends [OF assms] depth_timeout_between [OF assms] depth_floor_within [OF assms]
  by (metis not_le)

lemma depth_timeout_bounds:
  assumes "depth_tuned s"
  shows "qd_minWaitMs s * millisecond \<le> QueueDepth_CalculateTimeout oob s d
    \<and> QueueDepth_CalculateTimeout oob s d \<le> qd_maxWaitMs s * millisecond"
  using assms by (cases rule: depth_timeout_cases [OF assms, of d oob]) (auto simp: depth_tuned_def)

interpretation depth_timeout: timeout_contract "QueueDepth_CalculateTimeout oob" depth_tuned
  "\<lambda>s. qd_minWaitMs s * millisecond" "\<lambda>s. qd_maxWaitMs s * millisecond" for oob
proof (unfold_locales, goal_cases)
  case (1 s d)
  then show ?case by (rule depth_timeout_bounds)
qed (auto simp: depth_tuned_def)

lemma depth_wait_antimono:
  assumes "depth_tuned s" "qd_lowThreshold s < d" "d \<le> e" "e < qd_highThreshold s"
  shows "depth_wait s e \<le> depth_wait s d"
  unfolding depth_wait_def using depth_ratio_mono [OF assms(2-4)] assms(1)
  by (intro f64.interpolate_antimono) (simp_all add: depth_tuned_def)

lemma depth_timeout_antimono:
  assumes t: "depth_tuned s" and le: "d \<le> e"
  shows "QueueDepth_CalculateTimeout oob s e \<le> QueueDepth_CalculateTimeout oob s d"
proof (cases "qd_lowThreshold s < d \<and> e < qd_highThreshold s")
  case True
  then have "\<lfloor>depth_wait s e\<rfloor> \<le> \<lfloor>depth_wait s d\<rfloor>"
    using depth_wait_antimono [OF t _ le] by (intro floor_mono) simp
  with True le show ?thesis
    using depth_timeout_between [OF t, of d oob] depth_timeout_between [OF t, of e oob] by simp
next
  case False
  then have "d \<le> qd_lowThreshold s \<or> (qd_lowThreshold s < e \<and> qd_highThreshold s \<le> e)"
    using le by linarith
  then show ?thesis
    using depth_timeout_bounds [OF t, of oob d] depth_timeout_bounds [OF t, of oob e]
      depth_timeout_ends [OF t] by metis
qed

text \<open>
  C17: The queue-depth strategy with waits in order (at most a hundred days) and thresholds that
  are not negative. Whatever the depth, its timeout lies between the two configured waits; a depth
  up to the low threshold gives the longest wait and a depth from the high one (and above the low
  one) the shortest; a deeper queue never waits longer; between the thresholds it is a whole number
  of milliseconds. The float arithmetic of the interpolation, its rounding and the truncating
  conversions never leave the range, so the platform-dependent conversion \<open>oob\<close> is never used.
\<close>

theorem QueueDepth_timeout:
  assumes "depth_tuned s"
  shows "(qd_minWaitMs s * millisecond \<le> QueueDepth_CalculateTimeout oob s d
          \<and> QueueDepth_CalculateTimeout oob s d \<le> qd_maxWaitMs s * millisecond)
    \<and> (d \<le> qd_lowThreshold s \<longrightarrow>
          QueueDepth_CalculateTimeout oob s d = qd_maxWaitMs s * millisecond)
    \<and> (qd_lowThreshold s < d \<and> qd_highThreshold s \<le> d \<longrightarrow>
          QueueDepth_CalculateTimeout oob s d = qd_minWaitMs s * millisecond)
    \<and> (d \<le> e \<longrightarrow>
          QueueDepth_CalculateTimeout oob s e \<le> QueueDepth_CalculateTimeout oob s d)
    \<and> millisecond dvd QueueDepth_CalculateTimeout oob s d
    \<and> QueueDepth_CalculateTimeout oob s d = QueueDepth_CalculateTimeout oob' s d"
proof (intro conjI impI)
  note t = assms
  show "qd_minWaitMs s * millisecond \<le> QueueDepth_CalculateTimeout oob s d"
    and "QueueDepth_CalculateTimeout oob s d \<le> qd_maxWaitMs s * millisecond"
    using depth_timeout.bounds [OF t] by blast+
  show "QueueDepth_CalculateTimeout oob s d = qd_maxWaitMs s * millisecond"
    if "d \<le> qd_lowThreshold s"
    using depth_timeout_ends(1) [OF t that] .
  show "QueueDepth_CalculateTimeout oob s d = qd_minWaitMs s * millisecond"
    if "qd_lowThreshold s < d \<and> qd_highThreshold s \<le> d"
    using depth_timeout_ends(2) [OF t] that by blast
  show "QueueDepth_CalculateTimeout oob s e \<le> QueueDepth_CalculateTimeout oob s d" if "d \<le> e"
    using depth_timeout_antimono [OF t that] .
  show "millisecond dvd QueueDepth_CalculateTimeout oob s d"
    by (cases rule: depth_timeout_cases [OF t, of d oob]) auto
  show "QueueDepth_CalculateTimeout oob s d = QueueDepth_CalculateTimeout oob' s d"
    by (cases rule: depth_timeout_cases [OF t, of d oob]; cases rule: depth_timeout_cases [OF t, of d oob'])
      auto
qed

definition sample_depth :: QueueDepthStrategy where
  "sample_depth = NewQueueDepthStrategy 8 80 5 40 32"

theorem QueueDepth_timeout_witness:
  "QueueDepth_CalculateTimeout (\<lambda>_. 0) sample_depth 3 = 40 * millisecond
   \<and> QueueDepth_CalculateTimeout (\<lambda>_. 0) sample_depth 90 = 5 * millisecond
   \<and> 5 * millisecond \<le> QueueDepth_CalculateTimeout (\<lambda>_. 0) sample_depth 44"
proof -
  have t: "depth_tuned sample_depth"
    by (simp add: depth_tuned_def sample_depth_def NewQueueDepthStrategy_def)
  have f: "qd_minWaitMs sample_depth = 5" "qd_maxWaitMs sample_depth = 40"
    "qd_lowThreshold sample_depth = 8" "qd_highThreshold sample_depth = 80"
    by (simp_all add: sample_depth_def NewQueueDepthStrategy_def)
  show ?thesis
    using QueueDepth_timeout [OF t, of "\<lambda>_. 0" 44] QueueDepth_timeout [OF t, of "\<lambda>_. 0" 3]
      QueueDepth_timeout [OF t, of "\<lambda>_. 0" 90] by (simp add: f)
qed
section \<open>The controller\<close>

text \<open>A representable multiplier between a half and two.\<close>

fun in_band :: "f64 \<Rightarrow> bool" where
  "in_band (Fin x) = (1 / 2 \<le> x \<and> x \<le> 2 \<and> f64_round x = x)"
| "in_band k = False"

lemma f64_round_half [simp]: "f64_round (1 / 2) = 1 / 2" "f64_round 2 = 2"
  using f64_round_exact [of 1 "- 1"] f64_round_int [of 2] by (simp_all add: power_int_def)

lemma clamp_in_band:
  "v \<noteq> NaN \<Longrightarrow> (\<And>x. v = Fin x \<Longrightarrow> f64_round x = x) \<Longrightarrow>
   in_band (clampMultiplier v (Fin (1 / 2)) (Fin 2))"
  by (cases v) (simp_all add: clampMultiplier_def)

lemma clamp_NaN [simp]: "clampMultiplier NaN lo hi = NaN"
  by (cases hi) (simp_all add: clampMultiplier_def)

lemma in_bandE:
  assumes "in_band k" obtains x where "k = Fin x" "1 / 2 \<le> x" "x \<le> 2" "f64_round x = x"
  using assms by (cases k) simp_all

text \<open>The controller is on when both latencies are positive.\<close>

definition control_on :: "StrategyMetrics option \<Rightarrow> bool" where
  "control_on metrics \<longleftrightarrow> (\<exists>m. metrics = Some m \<and> f_lt (Fin 0) (sm_P99LatencyMs m)
     \<and> f_lt (Fin 0) (sm_TargetP99Ms m))"

text \<open>The one input that breaks it: an infinite target.\<close>

definition infinite_target :: "StrategyMetrics option \<Rightarrow> bool" where
  "infinite_target metrics \<longleftrightarrow> (\<exists>m. metrics = Some m \<and> f_lt (Fin 0) (sm_P99LatencyMs m)
     \<and> sm_TargetP99Ms m = PosInf)"

definition err_ratio :: "StrategyMetrics \<Rightarrow> f64" where
  "err_ratio m = f_div (f_sub (sm_P99LatencyMs m) (sm_TargetP99Ms m)) (sm_TargetP99Ms m)"

lemma control_step_on:
  "f_lt (Fin 0) (sm_P99LatencyMs m) \<Longrightarrow> f_lt (Fin 0) (sm_TargetP99Ms m) \<Longrightarrow>
   control_step kP k (Some m) =
     clampMultiplier (f_sub k (f_mul kP (err_ratio m))) (Fin (1 / 2)) (Fin 2)"
  by (simp add: control_step_def err_ratio_def)

lemma control_step_off: "\<not> control_on metrics \<Longrightarrow> control_step kP k metrics = k"
  by (auto simp: control_step_def control_on_def split: option.split)

lemma f64_of_rat_cases: obtains "f64_of_rat x = PosInf" "2 ^ 1024 \<le> f64_round x"
  | "f64_of_rat x = NegInf" "f64_round x \<le> - (2 ^ 1024)"
  | "f64_of_rat x = Fin (f64_round x)"
  unfolding f64_of_rat_def Let_def
  by (cases "2 ^ 1024 \<le> f64_round x"; cases "f64_round x \<le> - (2 ^ 1024)") simp_all

lemma f64_of_rat_not_NaN [simp]: "f64_of_rat x \<noteq> NaN" "NaN \<noteq> f64_of_rat x"
  by (rule f64_of_rat_cases [of x]; simp)+

lemma f64_round_sign: "0 \<le> x \<Longrightarrow> 0 \<le> f64_round x" "x \<le> 0 \<Longrightarrow> f64_round x \<le> 0"
  using f64_round_mono [of 0 x] f64_round_mono [of x 0] by simp_all

lemma pos_cases: "f_lt (Fin 0) y \<longleftrightarrow> y = PosInf \<or> (\<exists>x. y = Fin x \<and> 0 < x)"
  by (cases y) auto

text \<open>The sign of a float, as the controller uses it.\<close>

fun f_nonneg :: "f64 \<Rightarrow> bool" where
  "f_nonneg PosInf = True"
| "f_nonneg (Fin x) = (0 \<le> x)"
| "f_nonneg y = False"

fun f_nonpos :: "f64 \<Rightarrow> bool" where
  "f_nonpos NegInf = True"
| "f_nonpos (Fin x) = (x \<le> 0)"
| "f_nonpos y = False"

lemma big_pow_pos: "(0::rat) < 2 ^ 1024" "(2::rat) < 2 ^ 1024"
  using power_strict_increasing [of 1 1024 "2::rat"] by (simp_all only: zero_less_power) simp_all

lemma f_nonneg_of_rat [simp, intro]: "0 \<le> x \<Longrightarrow> f_nonneg (f64_of_rat x)"
proof (rule f64_of_rat_cases [of x])
  assume "0 \<le> x" "f64_round x \<le> - (2 ^ 1024)"
  with f64_round_sign(1) [of x] big_pow_pos(1) show ?thesis by linarith
qed (simp_all add: f64_round_sign)

lemma f_nonpos_of_rat [simp, intro]: "x \<le> 0 \<Longrightarrow> f_nonpos (f64_of_rat x)"
proof (rule f64_of_rat_cases [of x])
  assume "x \<le> 0" "2 ^ 1024 \<le> f64_round x"
  with f64_round_sign(2) [of x] big_pow_pos(1) show ?thesis by linarith
qed (simp_all add: f64_round_sign)

lemma f_nonneg_div: "f_nonneg y \<Longrightarrow> 0 < t \<Longrightarrow> f_nonneg (f_div y (Fin t))"
  by (cases y) simp_all

lemma f_nonpos_div: "f_nonpos y \<Longrightarrow> 0 < t \<Longrightarrow> f_nonpos (f_div y (Fin t))"
  by (cases y) (simp_all add: divide_nonpos_pos)

lemma err_ratio_nonneg:
  assumes "0 < t" "f_le (Fin t) (sm_P99LatencyMs m)" "sm_TargetP99Ms m = Fin t"
  shows "f_nonneg (err_ratio m)"
  unfolding err_ratio_def assms(3) using assms(1,2)
  by (intro f_nonneg_div; cases "sm_P99LatencyMs m") (auto simp: f_sub_def f_le_def)

lemma err_ratio_nonpos:
  assumes "0 < t" "f_le (sm_P99LatencyMs m) (Fin t)" "sm_TargetP99Ms m = Fin t"
    "f_lt (Fin 0) (sm_P99LatencyMs m)"
  shows "f_nonpos (err_ratio m)"
  unfolding err_ratio_def assms(3) using assms(1,2,4)
  by (intro f_nonpos_div; cases "sm_P99LatencyMs m") (auto simp: f_sub_def f_le_def)

lemma err_ratio_infinite:
  "f_lt (Fin 0) (sm_P99LatencyMs m) \<Longrightarrow> sm_TargetP99Ms m = PosInf \<Longrightarrow> err_ratio m = NaN"
  by (cases "sm_P99LatencyMs m") (simp_all add: err_ratio_def f_sub_def)

text \<open>A gain that is finite and positive, as the constructors pass.\<close>

lemma gain_nonneg: "0 < g \<Longrightarrow> f_nonneg y \<Longrightarrow> f_nonneg (f_mul (Fin g) y)"
  by (cases y) (simp_all add: f_inf_def)

lemma gain_nonpos: "0 < g \<Longrightarrow> f_nonpos y \<Longrightarrow> f_nonpos (f_mul (Fin g) y)"
  by (cases y) (simp_all add: f_inf_def mult_nonneg_nonpos)

lemma clamp_le:
  "f_le v (Fin x) \<Longrightarrow> 1 / 2 \<le> x \<Longrightarrow> x \<le> 2 \<Longrightarrow> f_le (clampMultiplier v (Fin (1 / 2)) (Fin 2)) (Fin x)"
  by (cases v) (auto simp: clampMultiplier_def f_le_def)

lemma clamp_ge:
  "f_le (Fin x) v \<Longrightarrow> 1 / 2 \<le> x \<Longrightarrow> x \<le> 2 \<Longrightarrow> f_le (Fin x) (clampMultiplier v (Fin (1 / 2)) (Fin 2))"
  by (cases v) (auto simp: clampMultiplier_def f_le_def)

lemma f_le_of_rat:
  assumes "f64_round x = x" "y \<le> x" "x \<le> 2" shows "f_le (f64_of_rat y) (Fin x)"
proof (rule f64_of_rat_cases [of y])
  assume "2 ^ 1024 \<le> f64_round y"
  with f64_round_mono [OF assms(2)] assms(1,3) big_pow_pos(2) show ?thesis by linarith
qed (use f64_round_mono [OF assms(2)] assms(1) in \<open>auto simp: f_le_def\<close>)

lemma f_ge_of_rat:
  assumes "f64_round x = x" "x \<le> y" "0 \<le> x" shows "f_le (Fin x) (f64_of_rat y)"
proof (rule f64_of_rat_cases [of y])
  assume "f64_round y \<le> - (2 ^ 1024)"
  with f64_round_mono [OF assms(2)] assms(1,3) big_pow_pos(1) show ?thesis by linarith
qed (use f64_round_mono [OF assms(2)] assms(1) in \<open>auto simp: f_le_def\<close>)

lemma sub_nonneg_le:
  "f_nonneg y \<Longrightarrow> f64_round x = x \<Longrightarrow> x \<le> 2 \<Longrightarrow> f_le (f_sub (Fin x) y) (Fin x)"
  by (cases y) (simp_all add: f_sub_def f_le_of_rat, simp add: f_le_def)

lemma sub_nonpos_ge:
  "f_nonpos y \<Longrightarrow> f64_round x = x \<Longrightarrow> 0 \<le> x \<Longrightarrow> f_le (Fin x) (f_sub (Fin x) y)"
  by (cases y) (simp_all add: f_sub_def f_ge_of_rat, simp add: f_le_def)
lemma f64_of_rat_rounded: "f64_of_rat y = Fin x \<Longrightarrow> f64_round x = x"
  by (rule f64_of_rat_cases [of y]) (auto simp: f64_round_idem)

lemma f_sub_rounded: "f_sub (Fin k) y = Fin x \<Longrightarrow> f64_round x = x"
  by (cases y) (auto simp: f_sub_def f64_of_rat_rounded)

lemma f_sub_Fin_NaN: "f_sub (Fin k) y = NaN \<Longrightarrow> y = NaN"
  by (cases y) (simp_all add: f_sub_def)

lemma f_le_linear_Fin: "y \<noteq> NaN \<Longrightarrow> f_le (Fin t) y \<or> f_le y (Fin t)"
  by (cases y) (auto simp: f_le_def)

lemma correction_sign:
  assumes "0 < g" "control_on (Some m)" "\<not> infinite_target (Some m)"
  shows "f_nonneg (f_mul (Fin g) (err_ratio m)) \<or> f_nonpos (f_mul (Fin g) (err_ratio m))"
proof -
  obtain t where t: "sm_TargetP99Ms m = Fin t" "0 < t" and p: "f_lt (Fin 0) (sm_P99LatencyMs m)"
    using assms(2,3) by (auto simp: control_on_def infinite_target_def pos_cases)
  moreover have "sm_P99LatencyMs m \<noteq> NaN" using p by (cases "sm_P99LatencyMs m") auto
  ultimately show ?thesis
    using f_le_linear_Fin [of "sm_P99LatencyMs m" t] err_ratio_nonneg [OF t(2) _ t(1)]
      err_ratio_nonpos [OF t(2) _ t(1) p] gain_nonneg [OF assms(1)] gain_nonpos [OF assms(1)]
    by blast
qed

lemma control_step_band:
  assumes "0 < g" "in_band k" "\<not> infinite_target metrics"
  shows "in_band (control_step (Fin g) k metrics)"
proof (cases "control_on metrics")
  case False
  with assms(2) show ?thesis by (simp add: control_step_off)
next
  case True
  then obtain m where m: "metrics = Some m" "f_lt (Fin 0) (sm_P99LatencyMs m)"
    "f_lt (Fin 0) (sm_TargetP99Ms m)"
    by (auto simp: control_on_def)
  obtain x where x: "k = Fin x" using assms(2) by (rule in_bandE)
  have "f_mul (Fin g) (err_ratio m) \<noteq> NaN"
    using correction_sign [of g m] assms(1,3) True m(1) by auto
  then show ?thesis
    unfolding m(1) control_step_on [OF m(2,3)] x
    by (intro clamp_in_band) (auto dest: f_sub_Fin_NaN f_sub_rounded)
qed

lemma f_sub_NaN [simp]: "f_sub NaN y = NaN" "f_sub x NaN = NaN"
  by (cases x; simp add: f_sub_def)+

lemma f_mul_NaN [simp]: "f_mul x NaN = NaN"
  by (cases x) simp_all

lemma control_step_infinite:
  assumes "infinite_target metrics" shows "control_step kP k metrics = NaN"
proof -
  obtain m where m: "metrics = Some m" "f_lt (Fin 0) (sm_P99LatencyMs m)" "sm_TargetP99Ms m = PosInf"
    using assms by (auto simp: infinite_target_def)
  then show ?thesis
    using control_step_on [of m kP k] err_ratio_infinite [OF m(2,3)] by simp
qed

lemma control_step_NaN [simp]: "control_step kP NaN metrics = NaN"
  by (simp add: control_step_def split: option.split)

lemma control_step_direction:
  assumes "0 < g" "in_band k" "sm_TargetP99Ms m = Fin t" "0 < t" "f_lt (Fin 0) (sm_P99LatencyMs m)"
  shows "f_le (Fin t) (sm_P99LatencyMs m) \<Longrightarrow> f_le (control_step (Fin g) k (Some m)) k"
    and "f_le (sm_P99LatencyMs m) (Fin t) \<Longrightarrow> f_le k (control_step (Fin g) k (Some m))"
proof -
  obtain x where x: "k = Fin x" "1 / 2 \<le> x" "x \<le> 2" "f64_round x = x" using assms(2) by (rule in_bandE)
  have on: "f_lt (Fin 0) (sm_TargetP99Ms m)" using assms by simp
  show "f_le (control_step (Fin g) k (Some m)) k" if "f_le (Fin t) (sm_P99LatencyMs m)"
    unfolding control_step_on [OF assms(5) on] x(1)
    using gain_nonneg [OF assms(1) err_ratio_nonneg [OF assms(4) that assms(3)]] x(2-4)
    by (intro clamp_le sub_nonneg_le)
  show "f_le k (control_step (Fin g) k (Some m))" if "f_le (sm_P99LatencyMs m) (Fin t)"
    unfolding control_step_on [OF assms(5) on] x(1)
    using gain_nonpos [OF assms(1) err_ratio_nonpos [OF assms(4) that assms(3,5)]] x(2-4)
    by (intro clamp_ge sub_nonpos_ge) simp_all
qed

text \<open>The strategy after a sequence of calls, each with a depth and the metrics of its time.\<close>

fun after_calls ::
  "(f64 \<Rightarrow> int) \<Rightarrow> Strategy \<Rightarrow> (int \<times> StrategyMetrics option) list \<Rightarrow> Strategy" where
  "after_calls oob s [] = s"
| "after_calls oob s ((d, metrics) # calls) =
     after_calls oob (snd (CalculateTimeout oob s d metrics)) calls"

lemma after_calls_latency:
  assumes "0 < g" "in_band k" "\<forall>c\<in>set calls. \<not> infinite_target (snd c)"
  shows "\<exists>k'. after_calls oob (SLatency (Some (SQueueDepth b)) k (Fin g) t) calls
      = SLatency (Some (SQueueDepth b)) k' (Fin g) t \<and> in_band k'"
  using assms(2,3)
proof (induction calls arbitrary: k)
  case (Cons c calls)
  obtain d m where c: "c = (d, m)" by (cases c)
  have "in_band (control_step (Fin g) k m)"
    using Cons.prems c by (intro control_step_band [OF assms(1)]) simp_all
  with Cons.IH [of "control_step (Fin g) k m"] Cons.prems(2) show ?case by (simp add: c Let_def)
qed simp

lemma after_calls_NaN:
  "\<exists>b'. after_calls oob (SLatency (Some b) NaN kP t) calls = SLatency (Some b') NaN kP t"
  by (induction calls arbitrary: b) (auto split: prod.split)

lemma defaultKP_finite: "\<exists>g. defaultKP = Fin g \<and> 0 < g"
proof -
  have h: "(2::rat) powi (- 10) = 1 / 1024" by (simp add: power_int_def field_simps)
  have "f64_round (1 / 1024) = 1 / 1024"
    using f64_round_exact [of 1 "- 10"] h by simp
  then have "1 / 1024 \<le> f64_round (1 / 20)"
    using f64_round_mono [of "1 / 1024" "1 / 20"] by simp
  moreover have "f_small (1 / 20)" by (rule f_small_bound [of _ 1]) simp_all
  ultimately show ?thesis by (auto simp: defaultKP_def intro: less_le_trans [rotated])
qed

text \<open>
  C18: The latency-aware strategy as the constructors build it, over a well-tuned queue-depth base.
  After any sequence of calls whose metrics never carry an infinite target, its multiplier is a
  float in \<open>[0.5, 2]\<close> and the next timeout lies between half the shortest and twice the longest
  configured wait. Once a call sees a positive latency and an infinite target, which \<open>Validate\<close>
  does not reject, the clamp lets the NaN through and the multiplier stays NaN in every later call.
\<close>

theorem LatencyAware_band:
  assumes "depth_tuned b" "\<forall>c\<in>set calls. \<not> infinite_target (snd c)" "\<not> infinite_target metrics"
  shows "let s = after_calls oob (NewLatencyAwareStrategy (Some (SQueueDepth b)) defaultKP t) calls;
             (timeout, s') = CalculateTimeout oob s d metrics
         in in_band (Multiplier s) \<and> in_band (Multiplier s')
            \<and> qd_minWaitMs b * 500000 \<le> timeout \<and> timeout \<le> qd_maxWaitMs b * 2000000
            \<and> (infinite_target bad \<longrightarrow>
                 Multiplier (after_calls oob s ((d, bad) # later)) = NaN)"
proof -
  obtain g where g: "defaultKP = Fin g" "0 < g" using defaultKP_finite by blast
  obtain k where k: "after_calls oob (NewLatencyAwareStrategy (Some (SQueueDepth b)) defaultKP t) calls
      = SLatency (Some (SQueueDepth b)) k (Fin g) t" "in_band k"
    using after_calls_latency [OF g(2) _ assms(2), of "Fin 1" oob b t] g
    by (auto simp: NewLatencyAwareStrategy_def)
  have k': "in_band (control_step (Fin g) k metrics)"
    by (rule control_step_band [OF g(2) k(2) assms(3)])
  then obtain x where x: "control_step (Fin g) k metrics = Fin x" "1 / 2 \<le> x" "x \<le> 2"
    by (rule in_bandE)
  obtain b' where nan: "after_calls oob (SLatency (Some (SQueueDepth b)) NaN (Fin g) t) later
      = SLatency (Some b') NaN (Fin g) t"
    using after_calls_NaN by blast
  show ?thesis
    using depth_timeout.stretched [OF assms(1) x(2,3), of oob oob d] k' k(2)
    by (simp add: k(1) x(1) nan control_step_infinite Let_def)
qed

theorem LatencyAware_band_witness:
  "let s = after_calls (\<lambda>_. 0) (NewLatencyAwareStrategy (Some (SQueueDepth sample_depth)) defaultKP (Fin 60))
         [(3, None), (20, Some \<lparr>sm_P99LatencyMs = Fin 90, sm_TargetP99Ms = Fin 60\<rparr>)]
   in in_band (Multiplier s)"
  using LatencyAware_band [of sample_depth
      "[(3, None), (20, Some \<lparr>sm_P99LatencyMs = Fin 90, sm_TargetP99Ms = Fin 60\<rparr>)]"
      None "\<lambda>_. 0" "Fin 60" 0 None "[]"]
  by (simp add: infinite_target_def depth_tuned_def sample_depth_def NewQueueDepthStrategy_def
      Let_def split_beta)

text \<open>
  The direction of the controller. With a positive, finite target, a latency at or above the
  target never raises the multiplier and a latency at or below it never lowers it; with metrics
  missing, or a latency or a target that is not positive, the multiplier stays as it is.
\<close>

theorem controller_direction:
  assumes "in_band k"
  shows "(0 < t \<and> f_lt (Fin 0) p99 \<and> f_le (Fin t) p99 \<longrightarrow>
            f_le (control_step defaultKP k (Some \<lparr>sm_P99LatencyMs = p99, sm_TargetP99Ms = Fin t\<rparr>)) k)
       \<and> (0 < t \<and> f_lt (Fin 0) p99 \<and> f_le p99 (Fin t) \<longrightarrow>
            f_le k (control_step defaultKP k (Some \<lparr>sm_P99LatencyMs = p99, sm_TargetP99Ms = Fin t\<rparr>)))
       \<and> (\<not> control_on metrics \<longrightarrow> control_step defaultKP k metrics = k)"
proof -
  obtain g where g: "defaultKP = Fin g" "0 < g" using defaultKP_finite by blast
  show ?thesis
    using control_step_direction [OF g(2) assms, of "\<lparr>sm_P99LatencyMs = p99, sm_TargetP99Ms = Fin t\<rparr>" t]
    by (simp add: g(1) control_step_off)
qed

theorem controller_direction_witness:
  "f_le (control_step defaultKP (Fin 1) (Some \<lparr>sm_P99LatencyMs = Fin 90, sm_TargetP99Ms = Fin 60\<rparr>)) (Fin 1)
   \<and> f_le (Fin 1) (control_step defaultKP (Fin 1) (Some \<lparr>sm_P99LatencyMs = Fin 30, sm_TargetP99Ms = Fin 60\<rparr>))"
  using controller_direction [of "Fin 1" 60 "Fin 90" None] controller_direction [of "Fin 1" 60 "Fin 30" None]
  by (simp add: f_le_def)

text \<open>
  The four places that build a strategy agree: for a configuration that passed \<open>Validate\<close>
  each of them succeeds on the configured name, with the same strategy, whose \<open>Name\<close> is the
  configured one; for any other name all of them fail.
\<close>

theorem builders_agree:
  "(Validate url_parse c = None \<longrightarrow>
      (\<exists>s. NewStrategy (cfg_Batching c) = Inr s \<and> server_buildInitialStrategy (cfg_Batching c) = Inr s
         \<and> handlers_buildStrategy (bc_Strategy (cfg_Batching c)) (Some (cfg_Batching c)) = Inr s
         \<and> simulator_buildStrategy quote (bc_Strategy (cfg_Batching c)) (cfg_Batching c) = Inr s
         \<and> Name s = bc_Strategy (cfg_Batching c)))
   \<and> (name \<notin> set validStrategies \<longrightarrow>
      NewStrategy (cfg\<lparr>bc_Strategy := name\<rparr>) = Inl ErrInvalidRequest
      \<and> server_buildInitialStrategy (cfg\<lparr>bc_Strategy := name\<rparr>)
          = Inl (OtherError (''unknown batching.strategy: '' @ name))
      \<and> handlers_buildStrategy name (Some cfg) = Inl (OtherError (''unknown strategy: '' @ name))
      \<and> simulator_buildStrategy quote name cfg = Inl (OtherError (''unknown strategy '' @ quote name)))"
proof -
  have known: "bc_Strategy (cfg_Batching c) \<in> set validStrategies" if "Validate url_parse c = None"
    using that by (auto simp: Validate_def split: if_splits)
  show ?thesis
    using known by (auto simp: validStrategies_def NewStrategy_def server_buildInitialStrategy_def
        handlers_buildStrategy_def simulator_buildStrategy_def NewLatencyAwareStrategy_def
        defaultKP_def server_latencyAwareKP_def simulator_latencyAwareKP_def
        errInvalidStrategy_def errUnknownStrategy_def)
qed


theorem builders_agree_witness:
  "\<exists>s. NewStrategy (cfg_Batching default_config) = Inr s \<and> Name s = ''latency_aware''
     \<and> simulator_buildStrategy (\<lambda>n. n) ''nope'' (cfg_Batching default_config)
         = Inl (OtherError ''unknown strategy nope'')"
proof -
  let ?p = "\<lambda>_. Inr (''http'', ''inference-server:8000'')"
  have alpha: "\<not> f_le (Fin (3 / 10)) (Fin 0)" "\<not> f_lt (Fin 1) (Fin (3 / 10))"
    by (simp_all add: f_le_def)
  have "Validate ?p default_config = None"
    by (simp add: Validate_def validateUpstream_def validStrategies_def default_config_def alpha)
  moreover have "''nope'' \<notin> set validStrategies" by (simp add: validStrategies_def)
  ultimately show ?thesis
    using builders_agree [of ?p default_config "\<lambda>n. n" "''nope''" "cfg_Batching default_config"]
    by (auto simp: default_config_def)
qed

end
