(* ===== verification/Workload.thy ===== *)
theory Workload
  imports Complex_Main Models Strategies
begin

text \<open>
  simulation/workload.go and scenarios.go: the request mixes and arrival schedules of the simulator.
  A random source is a record of the three methods the code calls, each returning its value and
  the next state of the source; \<open>math.Log\<close> is an argument. A generator's goroutine is its loop over
  the events its \<open>select\<close> meets.
\<close>

section \<open>The random source\<close>

record 'r rng =
  rg_Float64 :: "'r \<Rightarrow> f64 \<times> 'r"
  rg_NormFloat64 :: "'r \<Rightarrow> f64 \<times> 'r"
  rg_Intn :: "int \<Rightarrow> 'r \<Rightarrow> int \<times> 'r"

text \<open>What the package documents: \<open>Float64\<close> is in \<open>[0, 1)\<close>, \<open>NormFloat64\<close> finite, \<open>Intn n\<close> in \<open>[0, n)\<close>.\<close>

definition rng_ok :: "'r rng \<Rightarrow> bool" where
  "rng_ok g \<longleftrightarrow> (\<forall>s. \<exists>x. fst (rg_Float64 g s) = Fin x \<and> 0 \<le> x \<and> x < 1)
     \<and> (\<forall>s. \<exists>x. fst (rg_NormFloat64 g s) = Fin x)
     \<and> (\<forall>n s. 0 < n \<longrightarrow> 0 \<le> fst (rg_Intn g n s) \<and> fst (rg_Intn g n s) < n)"

section \<open>workload.go: the configuration\<close>

text \<open>The field \<open>Rand\<close> is the random source, which the functions below take as an argument.\<close>

record GeneratorConfig =
  gc_Duration :: duration
  gc_CompletionFraction :: f64
  gc_NormalFraction :: f64
  gc_HighFraction :: f64
  gc_CriticalFraction :: f64
  gc_MeanTokens :: f64
  gc_StddevTokens :: f64
  gc_BimodalLongTail :: bool
  gc_RequestDeadline :: duration

definition no_config :: GeneratorConfig where
  "no_config = \<lparr>gc_Duration = 0, gc_CompletionFraction = Fin 0, gc_NormalFraction = Fin 0,
     gc_HighFraction = Fin 0, gc_CriticalFraction = Fin 0, gc_MeanTokens = Fin 0,
     gc_StddevTokens = Fin 0, gc_BimodalLongTail = False, gc_RequestDeadline = 0\<rparr>"

definition is_zero :: "f64 \<Rightarrow> bool" where
  "is_zero x \<longleftrightarrow> x = Fin 0"

definition defaults :: "GeneratorConfig \<Rightarrow> GeneratorConfig" where
  "defaults c =
     (let out = c;
          out = (if is_zero (gc_CompletionFraction out) then out\<lparr>gc_CompletionFraction := f64_of_rat (9 / 10)\<rparr> else out);
          out = (if is_zero (gc_NormalFraction out) \<and> is_zero (gc_HighFraction out) \<and> is_zero (gc_CriticalFraction out)
                 then out\<lparr>gc_NormalFraction := f64_of_rat (80 / 100), gc_HighFraction := f64_of_rat (15 / 100),
                        gc_CriticalFraction := f64_of_rat (5 / 100)\<rparr> else out);
          out = (if is_zero (gc_MeanTokens out) then out\<lparr>gc_MeanTokens := Fin 256\<rparr> else out);
          out = (if is_zero (gc_StddevTokens out) then out\<lparr>gc_StddevTokens := Fin 64\<rparr> else out)
      in out)"

section \<open>workload.go: one request\<close>

definition samplePriority :: "'r rng \<Rightarrow> GeneratorConfig \<Rightarrow> 'r \<Rightarrow> Priority \<times> 'r" where
  "samplePriority g cfg s =
     (let (r, s) = rg_Float64 g s;
          critical = gc_CriticalFraction cfg;
          high = f_add critical (gc_HighFraction cfg);
          normal = f_add high (gc_NormalFraction cfg)
      in (if f_lt r critical then PriorityCritical
          else if f_lt r high then PriorityHigh
          else if f_lt r normal then PriorityNormal
          else PriorityLow, s))"

definition clampInt :: "int \<Rightarrow> int \<Rightarrow> int \<Rightarrow> int" where
  "clampInt v lo hi = (if v < lo then lo else if hi < v then hi else v)"

text \<open>\<open>math.Round\<close>: half away from zero.\<close>

fun f_round_away :: "f64 \<Rightarrow> f64" where
  "f_round_away (Fin x) = Fin (of_int (if 0 \<le> x then \<lfloor>x + 1 / 2\<rfloor> else \<lceil>x - 1 / 2\<rceil>))"
| "f_round_away y = y"

definition sampleTokens :: "(f64 \<Rightarrow> int) \<Rightarrow> 'r rng \<Rightarrow> GeneratorConfig \<Rightarrow> 'r \<Rightarrow> int \<times> 'r" where
  "sampleTokens oob g cfg s =
     (if gc_BimodalLongTail cfg then
        let (u, s) = rg_Float64 g s; (z, s) = rg_NormFloat64 g s in
        if f_lt u (f64_of_rat (7 / 10)) then
          (clampInt (f_to_i64 oob (f_add (f_mul z (Fin 20)) (Fin 100))) 1 8192, s)
        else (clampInt (f_to_i64 oob (f_add (f_mul z (Fin 300)) (Fin 3000))) 1 8192, s)
      else
        let (z, s) = rg_NormFloat64 g s;
            v = f_add (f_mul z (gc_StddevTokens cfg)) (gc_MeanTokens cfg)
        in (clampInt (f_to_i64 oob (f_round_away v)) 1 8192, s))"

definition alphabet :: string where
  "alphabet = ''abcdefghijklmnopqrstuvwxyz''"

fun word_loop :: "'r rng \<Rightarrow> nat \<Rightarrow> 'r \<Rightarrow> string \<times> 'r" where
  "word_loop g 0 s = ([], s)"
| "word_loop g (Suc n) s =
     (let (i, s) = rg_Intn g 26 s; (buf, s) = word_loop g n s in (alphabet ! nat i # buf, s))"

definition randomWord :: "'r rng \<Rightarrow> int \<Rightarrow> 'r \<Rightarrow> string \<times> 'r" where
  "randomWord g n s = word_loop g (nat (if n < 1 then 1 else n)) s"

text \<open>The loop of \<open>buildPrompt\<close> with \<open>k\<close> words left, \<open>first\<close> telling whether \<open>i = 0\<close>.\<close>

fun prompt_loop :: "'r rng \<Rightarrow> bool \<Rightarrow> nat \<Rightarrow> 'r \<Rightarrow> string \<times> 'r" where
  "prompt_loop g first 0 s = ([], s)"
| "prompt_loop g first (Suc k) s =
     (let (n, s) = rg_Intn g 5 s; (w, s) = randomWord g (3 + n) s; (rest, s) = prompt_loop g False k s
      in ((if first then [] else '' '') @ w @ rest, s))"

definition buildPrompt :: "'r rng \<Rightarrow> int \<Rightarrow> 'r \<Rightarrow> string \<times> 'r" where
  "buildPrompt g tokens s =
     (if tokens \<le> 0 then (''hi'', s)
      else let wordCount = (if tokens < 1 then 1 else tokens) in prompt_loop g True (nat wordCount) s)"

text \<open>\<open>uuid\<close>, \<open>now\<close>, \<open>addr\<close> and \<open>ctx\<close> are those of the new request; the deadline of its context is
  the second result, none when the configuration has none.\<close>

definition randomRequest ::
    "(f64 \<Rightarrow> int) \<Rightarrow> 'r rng \<Rightarrow> string \<Rightarrow> instant \<Rightarrow> nat \<Rightarrow> nat \<Rightarrow> GeneratorConfig \<Rightarrow> 'r
       \<Rightarrow> InferenceRequest \<times> instant option \<times> 'r" where
  "randomRequest oob g uuid now addr ctx cfg s =
     (let cfg = defaults cfg;
          (u, s) = rg_Float64 g s;
          reqType = (if f_le (gc_CompletionFraction cfg) u then RequestTypeEmbedding else RequestTypeCompletion);
          (priority, s) = samplePriority g cfg s;
          (tokens, s) = sampleTokens oob g cfg s;
          (prompt, s) = buildPrompt g tokens s;
          deadline = (if 0 < gc_RequestDeadline cfg then Some (now + gc_RequestDeadline cfg) else None)
      in (NewInferenceRequest uuid now addr (Some ctx) prompt tokens priority reqType, deadline, s))"

section \<open>workload.go: arrival schedules\<close>

text \<open>The waits before the next request. A ticker needs a positive interval and panics otherwise.\<close>

definition constant_interval :: "int \<Rightarrow> go_panic + duration" where
  "constant_interval RPS =
     (let rps = (if RPS < 1 then 1 else RPS); interval = second sdiv rps in
      if interval \<le> 0 then Inl NonPositiveInterval else Inr interval)"

definition exponentialInterval :: "(f64 \<Rightarrow> f64) \<Rightarrow> (f64 \<Rightarrow> int) \<Rightarrow> 'r rng \<Rightarrow> f64 \<Rightarrow> 'r \<Rightarrow> duration \<times> 'r" where
  "exponentialInterval math_Log oob g rps s =
     (let (u, s) = rg_Float64 g s;
          tiny = f64_of_rat (1 / 1000000000);
          u = (if f_lt u tiny then tiny else u);
          interval = f_div (f_neg (math_Log u)) rps;
          interval = (if f_lt interval (Fin 0) then Fin 0 else interval);
          d = f_to_i64 oob (f_mul interval (Fin 1000000000))
      in (if d < 1000 then 1000 else d, s))"

definition ramp_frac :: "duration \<Rightarrow> duration \<Rightarrow> f64" where
  "ramp_frac duration elapsed =
     (let duration = (if duration \<le> 0 then 60 * second else duration);
          frac = f_div (f_of_int elapsed) (f_of_int duration);
          frac = (if f_lt frac (Fin 0) then Fin 0 else frac)
      in if f_lt (Fin 1) frac then Fin 1 else frac)"

definition ramp_rate :: "int \<Rightarrow> int \<Rightarrow> duration \<Rightarrow> duration \<Rightarrow> f64" where
  "ramp_rate StartRPS EndRPS duration elapsed =
     (let start = f_of_int StartRPS; end = f_of_int EndRPS;
          start = (if f_lt start (Fin 1) then Fin 1 else start);
          end = (if f_lt end (Fin 1) then Fin 1 else end);
          rps = f_add start (f_mul (f_sub end start) (ramp_frac duration elapsed))
      in if f_lt rps (Fin 1) then Fin 1 else rps)"

definition ramp_interval :: "(f64 \<Rightarrow> int) \<Rightarrow> int \<Rightarrow> int \<Rightarrow> duration \<Rightarrow> duration \<Rightarrow> duration" where
  "ramp_interval oob StartRPS EndRPS duration elapsed =
     f_to_i64 oob (f_div (Fin 1000000000) (ramp_rate StartRPS EndRPS duration elapsed))"

record BurstyGenerator =
  bg_BaseRPS :: int
  bg_BurstMultiplier :: int
  bg_BurstInterval :: duration
  bg_BurstDuration :: duration
  bg_Config :: GeneratorConfig

text \<open>The two rates; a burst rate that wraps to zero divides by it.\<close>

definition bursty_rates :: "BurstyGenerator \<Rightarrow> int \<times> int" where
  "bursty_rates g =
     (let base = (if bg_BaseRPS g < 1 then 1 else bg_BaseRPS g);
          mult = (if bg_BurstMultiplier g < 1 then 1 else bg_BurstMultiplier g)
      in (base, wrap64 (base * mult)))"

definition in_burst :: "BurstyGenerator \<Rightarrow> duration \<Rightarrow> bool" where
  "in_burst g elapsed \<longleftrightarrow> 0 < bg_BurstInterval g \<and> 0 < bg_BurstDuration g \<and> bg_BurstInterval g \<le> elapsed
     \<and> (elapsed - bg_BurstInterval g) smod (wrap64 (bg_BurstInterval g + bg_BurstDuration g)) < bg_BurstDuration g"

definition bursty_interval :: "BurstyGenerator \<Rightarrow> duration \<Rightarrow> go_panic + duration" where
  "bursty_interval g elapsed =
     (let (base, burst) = bursty_rates g in
      if burst = 0 then Inl DivideByZero
      else if in_burst g elapsed then Inr (second sdiv burst) else Inr (second sdiv base))"

section \<open>workload.go: the generators\<close>

datatype Generator =
    ConstantRateGenerator int GeneratorConfig
  | PoissonGenerator int GeneratorConfig
  | RampGenerator int int GeneratorConfig
  | Bursty BurstyGenerator

definition NewBurstyGenerator :: "int \<Rightarrow> int \<Rightarrow> duration \<Rightarrow> duration \<Rightarrow> GeneratorConfig \<Rightarrow> Generator" where
  "NewBurstyGenerator baseRPS burstMultiplier burstInterval burstDuration cfg =
     Bursty \<lparr>bg_BaseRPS = baseRPS, bg_BurstMultiplier = burstMultiplier, bg_BurstInterval = burstInterval,
       bg_BurstDuration = burstDuration, bg_Config = cfg\<rparr>"

text \<open>The wait of a generator before its next request.\<close>

definition next_interval ::
    "(f64 \<Rightarrow> f64) \<Rightarrow> (f64 \<Rightarrow> int) \<Rightarrow> 'r rng \<Rightarrow> Generator \<Rightarrow> duration \<Rightarrow> 'r \<Rightarrow> go_panic + duration \<times> 'r" where
  "next_interval math_Log oob g gen elapsed s =
     (case gen of
        ConstantRateGenerator rps cfg \<Rightarrow> map_sum id (\<lambda>d. (d, s)) (constant_interval rps)
      | PoissonGenerator RPS cfg \<Rightarrow>
          (let rps = f_of_int RPS; rps = (if f_le rps (Fin 0) then Fin 1 else rps)
           in Inr (exponentialInterval math_Log oob g rps s))
      | RampGenerator a b cfg \<Rightarrow> Inr (ramp_interval oob a b (gc_Duration cfg) elapsed, s)
      | Bursty bg \<Rightarrow> map_sum id (\<lambda>d. (d, s)) (bursty_interval bg elapsed))"

text \<open>
  The loop of \<open>Generate\<close>: its context ends, or the timer fires and the new request is sent (the flag
  tells whether \<open>emit\<close> went through). The result is what was sent, and whether the loop has
  returned, which closes the channel.
\<close>

datatype gen_event = GenDone | GenTick bool

fun generate_loop :: "('r \<Rightarrow> InferenceRequest \<times> 'r) \<Rightarrow> gen_event list \<Rightarrow> 'r \<Rightarrow> InferenceRequest list \<times> bool" where
  "generate_loop mk [] s = ([], False)"
| "generate_loop mk (GenDone # es) s = ([], True)"
| "generate_loop mk (GenTick ok # es) s =
     (let (req, s) = mk s in
      if \<not> ok then ([], True)
      else let (reqs, closed) = generate_loop mk es s in (req # reqs, closed))"

section \<open>scenarios.go\<close>

record Scenario =
  sc_Name :: string
  sc_Generator :: Generator
  sc_Duration :: duration

abbreviation (input) scenarioDuration :: duration where "scenarioDuration \<equiv> 60 * second"
abbreviation (input) steadyRequestDeadline :: duration where "steadyRequestDeadline \<equiv> 400 * millisecond"

definition SteadyState :: Scenario where
  "SteadyState = (let cfg = no_config\<lparr>gc_Duration := scenarioDuration, gc_RequestDeadline := steadyRequestDeadline\<rparr>
     in \<lparr>sc_Name = ''steady_state'', sc_Generator = ConstantRateGenerator 1200 cfg, sc_Duration = scenarioDuration\<rparr>)"

definition RampUp :: Scenario where
  "RampUp = (let cfg = no_config\<lparr>gc_Duration := scenarioDuration\<rparr>
     in \<lparr>sc_Name = ''ramp_up'', sc_Generator = RampGenerator 10 500 cfg, sc_Duration = scenarioDuration\<rparr>)"

definition SpikeTest :: Scenario where
  "SpikeTest = (let cfg = no_config\<lparr>gc_Duration := scenarioDuration, gc_RequestDeadline := steadyRequestDeadline\<rparr>
     in \<lparr>sc_Name = ''spike_test'',
         sc_Generator = NewBurstyGenerator 1200 10 (30 * second) (5 * second) cfg,
         sc_Duration = scenarioDuration\<rparr>)"

definition MixedPriority :: Scenario where
  "MixedPriority = (let cfg = no_config\<lparr>gc_Duration := scenarioDuration, gc_NormalFraction := f64_of_rat (80 / 100),
       gc_HighFraction := f64_of_rat (15 / 100), gc_CriticalFraction := f64_of_rat (5 / 100)\<rparr>
     in \<lparr>sc_Name = ''mixed_priority'', sc_Generator = ConstantRateGenerator 100 cfg, sc_Duration = scenarioDuration\<rparr>)"

definition LongTail :: Scenario where
  "LongTail = (let cfg = no_config\<lparr>gc_Duration := scenarioDuration, gc_BimodalLongTail := True\<rparr>
     in \<lparr>sc_Name = ''long_tail'', sc_Generator = ConstantRateGenerator 100 cfg, sc_Duration = scenarioDuration\<rparr>)"

definition AllScenarios :: "Scenario list" where
  "AllScenarios = [SteadyState, RampUp, SpikeTest, MixedPriority, LongTail]"

definition ScenarioByName :: "string \<Rightarrow> error + Scenario" where
  "ScenarioByName name =
     (if name = ''steady_state'' then Inr SteadyState
      else if name = ''ramp_up'' then Inr RampUp
      else if name = ''spike_test'' then Inr SpikeTest
      else if name = ''mixed_priority'' then Inr MixedPriority
      else if name = ''long_tail'' then Inr LongTail
      else Inl (OtherError (''unknown scenario: '' @ name)))"

section \<open>What a generated request looks like\<close>

lemma word_loop_length: "length (fst (word_loop g n s)) = n"
  by (induction n arbitrary: s) (auto simp: case_prod_beta Let_def)

lemma randomWord_length: "length (fst (randomWord g n s)) = nat (max 1 n)"
  by (simp add: randomWord_def word_loop_length max_def)

lemma prompt_loop_length:
  assumes "rng_ok g"
  shows "(if first then 0 else k) + 3 * k + (if first then k - 1 else 0) \<le> length (fst (prompt_loop g first k s))
    \<and> length (fst (prompt_loop g first k s)) \<le> (if first then 0 else k) + 7 * k + (if first then k - 1 else 0)"
proof (induction k arbitrary: s first)
  case (Suc k)
  obtain n s1 where n: "rg_Intn g 5 s = (n, s1)" by fastforce
  have "\<forall>n s. 0 < n \<longrightarrow> 0 \<le> fst (rg_Intn g n s) \<and> fst (rg_Intn g n s) < n"
    using assms by (simp add: rng_ok_def)
  then have "0 \<le> n \<and> n < 5" using n by (metis fst_conv zero_less_numeral)
  then have b: "0 \<le> n" "n < 5" by simp_all
  obtain w s2 where w: "randomWord g (3 + n) s1 = (w, s2)" by fastforce
  have len: "length w = nat (3 + n)" using randomWord_length [of g "3 + n" s1] w b by simp
  obtain rest s3 where r: "prompt_loop g False k s2 = (rest, s3)" by fastforce
  have "4 * k \<le> length rest" "length rest \<le> 8 * k" using Suc.IH [of False s2] r by simp_all
  moreover have "3 \<le> length w" "length w \<le> 7" using len b by simp_all
  ultimately show ?case using n w r by simp
qed simp

lemma buildPrompt_length:
  assumes "rng_ok g" "1 \<le> tokens"
  shows "4 * tokens - 1 \<le> int (length (fst (buildPrompt g tokens s)))"
    "int (length (fst (buildPrompt g tokens s))) \<le> 8 * tokens - 1"
  using prompt_loop_length [OF assms(1), of True "nat tokens" s] assms(2)
  by (simp_all add: buildPrompt_def) linarith+

lemma clampInt_range: "lo \<le> hi \<Longrightarrow> lo \<le> clampInt v lo hi \<and> clampInt v lo hi \<le> hi"
  by (simp add: clampInt_def)

lemma sampleTokens_range: "1 \<le> fst (sampleTokens oob g cfg s) \<and> fst (sampleTokens oob g cfg s) \<le> 8192"
  by (simp add: sampleTokens_def case_prod_beta Let_def clampInt_range)

lemma samplePriority_range: "fst (samplePriority g cfg s) \<in> {0, 1, 2, 3}"
  by (simp add: samplePriority_def case_prod_beta Let_def)

text \<open>
  A generated request. With a random source that keeps its documented ranges, every request has
  one of the two types and one of the four priorities, a token budget between 1 and 8192, a prompt
  of between \<open>4 n - 1\<close> and \<open>8 n - 1\<close> bytes for a budget of \<open>n\<close>, and so a token estimate between
  \<open>2 n - 1\<close> and \<open>3 n - 1\<close>: two to three times the budget it was drawn for. Its deadline is the
  configured one, and none when none is configured.
\<close>

theorem generated_request:
  assumes "rng_ok g"
  shows "let (r, deadline, _) = randomRequest oob g uuid now addr ctx cfg s; n = req_MaxTokens r in
     1 \<le> n \<and> n \<le> 8192
     \<and> req_RequestType r \<in> {RequestTypeCompletion, RequestTypeEmbedding} \<and> req_Priority r \<in> {0, 1, 2, 3}
     \<and> 4 * n - 1 \<le> int (length (req_Prompt r)) \<and> int (length (req_Prompt r)) \<le> 8 * n - 1
     \<and> 2 * n - 1 \<le> req_EstimatedTokens r \<and> req_EstimatedTokens r \<le> 3 * n - 1
     \<and> req_Ctx r = Some ctx \<and> req_ResultChan r = Some addr
     \<and> deadline = (if 0 < gc_RequestDeadline cfg then Some (now + gc_RequestDeadline cfg) else None)"
proof -
  obtain u s1 where u: "rg_Float64 g s = (u, s1)" by fastforce
  obtain p s2 where p: "samplePriority g (defaults cfg) s1 = (p, s2)" by fastforce
  obtain n s3 where n: "sampleTokens oob g (defaults cfg) s2 = (n, s3)" by fastforce
  obtain w s4 where w: "buildPrompt g n s3 = (w, s4)" by fastforce
  have nr: "1 \<le> n" "n \<le> 8192" using sampleTokens_range [of oob g "defaults cfg" s2] n by simp_all
  have len: "4 * n - 1 \<le> int (length w)" "int (length w) \<le> 8 * n - 1"
    using buildPrompt_length [OF assms nr(1), of s3] w by simp_all
  have pr: "p \<in> {0, 1, 2, 3}" using samplePriority_range [of g "defaults cfg" s1] p by simp
  have "int (length w) sdiv 4 = int (length w) div 4" by (rule sdiv_nonneg_eq) simp_all
  moreover have "n - 1 \<le> int (length w) div 4" "int (length w) div 4 \<le> 2 * n - 1" using len by linarith+
  ultimately have est: "2 * n - 1 \<le> wrap64 (int (length w) sdiv 4 + n)" "wrap64 (int (length w) sdiv 4 + n) \<le> 3 * n - 1"
    using nr wrap64_id [of "int (length w) div 4 + n"] by (simp_all add: i64_def)
  have dl: "gc_RequestDeadline (defaults cfg) = gc_RequestDeadline cfg"
    by (simp add: defaults_def Let_def)
  show ?thesis
    using nr len pr est u p n w by (simp add: randomRequest_def NewInferenceRequest_def dl)
qed

definition sample_rng :: "nat rng" where
  "sample_rng = \<lparr>rg_Float64 = (\<lambda>s. (Fin (1 / 2), s + 1)), rg_NormFloat64 = (\<lambda>s. (Fin 0, s + 1)),
     rg_Intn = (\<lambda>n s. (int s mod n, s + 1))\<rparr>"

theorem generated_request_witness:
  "let (r, _, _) = randomRequest (\<lambda>_. 0) sample_rng ''u'' 1 0 0 no_config 0 in
     2 * req_MaxTokens r - 1 \<le> req_EstimatedTokens r \<and> req_Priority r \<in> {0, 1, 2, 3}"
proof -
  have "rng_ok sample_rng"
    unfolding rng_ok_def sample_rng_def by (auto intro: exI [of _ "1 / 2"])
  from generated_request [OF this, of "\<lambda>_. 0" "''u''" 1 0 0 no_config 0] show ?thesis
    by (simp add: Let_def case_prod_beta)
qed

section \<open>The schedules of the scenarios\<close>

lemma spike_bursts:
  assumes "sc_Generator SpikeTest = Bursty g" "0 \<le> elapsed" "elapsed < 60 * second"
  shows "bursty_interval g elapsed = Inr (if 30 * second \<le> elapsed \<and> elapsed < 35 * second then 83333 else 833333)"
proof -
  have g: "g = \<lparr>bg_BaseRPS = 1200, bg_BurstMultiplier = 10, bg_BurstInterval = 30 * second,
      bg_BurstDuration = 5 * second,
      bg_Config = no_config\<lparr>gc_Duration := scenarioDuration, gc_RequestDeadline := steadyRequestDeadline\<rparr>\<rparr>"
    using assms(1) by (simp add: SpikeTest_def NewBurstyGenerator_def Let_def)
  have w: "wrap64 12000 = 12000" "wrap64 35000000000 = 35000000000"
    by (simp_all add: wrap64_id i64_def)
  have m: "(elapsed - 30000000000) smod 35000000000 = elapsed - 30000000000" if "30000000000 \<le> elapsed"
    using that assms(3) by (simp add: signed_modulo_int_def sgn_if mod_pos_pos_trivial abs_if)
  have d: "(1000000000::int) sdiv 12000 = 83333" "(1000000000::int) sdiv 1200 = 833333"
    by (simp_all add: signed_divide_int_def)
  show ?thesis
    unfolding g using m assms(2)
    by (auto simp: bursty_interval_def bursty_rates_def in_burst_def w d)
qed

lemma ramp_frac_unit:
  assumes "0 < duration" "0 \<le> elapsed" "i64 duration" "i64 elapsed"
  shows "\<exists>f. ramp_frac duration elapsed = Fin f \<and> 0 \<le> f \<and> f \<le> 1"
proof -
  define e d where "e = f64_round (of_int elapsed)" "d = f64_round (of_int duration)"
  have e: "0 \<le> e" using f64_round_mono [of 0 "of_int elapsed"] assms(2) by (simp add: e_d_def)
  have d: "1 \<le> d" using f64_round_mono [of 1 "of_int duration"] assms(1) by (simp add: e_d_def)
  have ed: "f_of_int elapsed = Fin e" "f_of_int duration = Fin d"
    using f_of_int_i64 assms(3,4) by (simp_all add: e_d_def)
  have "f64_round (2 ^ 63) = 2 ^ 63" using f64_round_exact [of 1 63] by (simp add: power_int_def)
  moreover have "(of_int elapsed :: rat) \<le> 2 ^ 63"
    using assms(4) of_int_le_iff [where ?'a = rat, of elapsed "2 ^ 63"] by (simp add: i64_def)
  ultimately have "e \<le> 2 ^ 63" using f64_round_mono [of "of_int elapsed" "2 ^ 63"] by (simp add: e_d_def)
  moreover have q: "e / d \<le> e" "0 \<le> e / d" using e d by (simp_all add: divide_le_eq mult_le_cancel_left1)
  ultimately have "f_small (e / d)" by (intro f_small_bound [of _ 63]) (simp_all add: abs_if)
  then have "f_div (f_of_int elapsed) (f_of_int duration) = Fin (f64_round (e / d))" using ed d by simp
  moreover have "0 \<le> f64_round (e / d)" using f64_round_mono [of 0 "e / d"] q by simp
  ultimately show ?thesis
    using assms(1) by (cases "1 < f64_round (e / d)") (simp_all add: ramp_frac_def Let_def)
qed

text \<open>The rate of a ramp between two integer rates of at least one stays between them.\<close>

lemma ramp_rate_bounds:
  assumes "1 \<le> a" "a \<le> b" "b \<le> 2 ^ 50" "0 < duration" "0 \<le> elapsed" "i64 duration" "i64 elapsed"
  shows "\<exists>r. ramp_rate a b duration elapsed = Fin r \<and> of_int a \<le> r \<and> r \<le> of_int b"
proof -
  obtain f where f: "ramp_frac duration elapsed = Fin f" "0 \<le> f" "f \<le> 1"
    using ramp_frac_unit [OF assms(4-7)] by blast
  have ab: "f_of_int a = Fin (of_int a)" "f_of_int b = Fin (of_int b)" "f_of_int (b - a) = Fin (of_int (b - a))"
    by (rule f_of_int_exact, use assms in simp)+
  have len: "f_sub (Fin (of_int b)) (Fin (of_int a)) = Fin (of_int (b - a))"
    using ab(3) by (simp add: f_sub_def f_of_int_def)
  have ba: "0 \<le> (of_int (b - a) :: rat)" "(of_int (b - a) :: rat) \<le> 2 ^ 50" "(of_int a :: rat) \<le> 2 ^ 50"
    using assms of_int_le_iff [where ?'a = rat, of "b - a" "2 ^ 50"] of_int_le_iff [where ?'a = rat, of a "2 ^ 50"]
    by simp_all
  have rep: "f64_round (of_int (b - a)) = of_int (b - a)" "f64_round (of_int a) = of_int a" "f64_round (of_int b) = of_int b"
    by (rule f64_round_int, use assms in simp)+
  have prod: "0 \<le> of_int (b - a) * f" "of_int (b - a) * f \<le> of_int (b - a)"
    using ba(1) f(2,3) by (simp_all add: mult_left_le)
  define m where "m = f64_round (of_int (b - a) * f)"
  have m: "0 \<le> m" "m \<le> of_int (b - a)"
    using f64_round_mono [OF prod(1)] f64_round_mono [OF prod(2)] rep(1) by (simp_all add: m_def)
  have "f_small (of_int (b - a) * f)"
    by (rule f_small_bound [of _ 50]) (use prod ba in \<open>simp_all add: abs_if\<close>)
  then have s1: "f_mul (Fin (of_int (b - a))) (Fin f) = Fin m" by (simp add: m_def)
  have "f_small (of_int a + m)"
    by (rule f_small_bound [of _ 51]) (use m ba assms(1) in \<open>simp_all add: abs_if\<close>)
  then have s2: "f_add (Fin (of_int a)) (Fin m) = Fin (f64_round (of_int a + m))" by simp
  have bounds: "of_int a \<le> f64_round (of_int a + m)" "f64_round (of_int a + m) \<le> of_int b"
    using f64_round_mono [of "of_int a" "of_int a + m"] f64_round_mono [of "of_int a + m" "of_int b"] m rep by simp_all
  have "(1::rat) \<le> of_int a" "(1::rat) \<le> of_int b" using assms by simp_all
  then have lt: "\<not> f_lt (Fin (of_int a)) (Fin 1)" "\<not> f_lt (Fin (of_int b)) (Fin 1)"
    "\<not> f_lt (Fin (f64_round (of_int a + m))) (Fin 1)"
    using bounds(1) by (simp_all del: of_int_1_le_iff)
  have "ramp_rate a b duration elapsed = Fin (f64_round (of_int a + m))"
    by (simp only: ramp_rate_def Let_def ab if_not_P [OF lt(1)] if_not_P [OF lt(2)] f(1) len s1 s2 if_not_P [OF lt(3)])
  then show ?thesis using bounds by blast
qed

lemma ramp_up_interval:
  assumes "0 \<le> elapsed" "i64 elapsed"
  shows "2 * millisecond \<le> ramp_interval oob 10 500 scenarioDuration elapsed
    \<and> ramp_interval oob 10 500 scenarioDuration elapsed \<le> 100 * millisecond"
proof -
  obtain r where r: "ramp_rate 10 500 scenarioDuration elapsed = Fin r" "10 \<le> r" "r \<le> 500"
    using ramp_rate_bounds [of 10 500 scenarioDuration elapsed] assms by (auto simp: i64_def)
  define x where "x = 1000000000 / r"
  have x: "of_int 2000000 \<le> x" "x \<le> of_int 100000000"
    using r(2,3) by (simp_all add: x_def le_divide_eq divide_le_eq)
  have rx: "of_int 2000000 \<le> f64_round x" "f64_round x \<le> of_int 100000000"
    using f64.between [OF f64_round_int f64_round_int x] by simp_all
  have "f_small x" by (rule f_small_bound [of _ 30]) (use x in \<open>simp_all add: abs_if\<close>)
  then have q: "f_div (Fin 1000000000) (Fin r) = Fin (f64_round x)" using r(2) by (simp add: x_def)
  have "2000000 \<le> \<lfloor>f64_round x\<rfloor>" using rx(1) by (simp add: le_floor_iff)
  moreover have "\<lfloor>f64_round x\<rfloor> \<le> 100000000" using floor_mono [OF rx(2)] by simp
  ultimately show ?thesis
    using rx(1) unfolding ramp_interval_def r(1) q by (simp add: trunc_def i64_def)
qed

text \<open>
  The scenarios and their schedules. A scenario is found by exactly the five names, each with
  its own name and a minute of load; the constant ones wait 833333 ns or 10 ms between requests; the
  spike waits 83333 ns during \<open>[30 s, 35 s)\<close> and 833333 ns for the rest of the minute, so exactly one
  burst falls into it, at ten times the base rate up to truncation; the ramp waits between 100 ms
  and 2 ms, the intervals of its two rates. None of them panics.
\<close>

theorem scenario_schedules:
  assumes "0 \<le> elapsed" "elapsed < scenarioDuration"
  shows "(\<forall>name. (\<exists>sc. ScenarioByName name = Inr sc) \<longleftrightarrow> name \<in> set (map sc_Name AllScenarios))
    \<and> (\<forall>sc\<in>set AllScenarios. ScenarioByName (sc_Name sc) = Inr sc \<and> sc_Duration sc = 60 * second
         \<and> (case sc_Generator sc of ConstantRateGenerator _ cfg \<Rightarrow> gc_Duration cfg | PoissonGenerator _ cfg \<Rightarrow> gc_Duration cfg
            | RampGenerator _ _ cfg \<Rightarrow> gc_Duration cfg | Bursty b \<Rightarrow> gc_Duration (bg_Config b)) = sc_Duration sc)
    \<and> next_interval math_Log oob g (sc_Generator SteadyState) elapsed s = Inr (833333, s)
    \<and> next_interval math_Log oob g (sc_Generator MixedPriority) elapsed s = Inr (10 * millisecond, s)
    \<and> next_interval math_Log oob g (sc_Generator LongTail) elapsed s = Inr (10 * millisecond, s)
    \<and> next_interval math_Log oob g (sc_Generator SpikeTest) elapsed s
        = Inr (if 30 * second \<le> elapsed \<and> elapsed < 35 * second then 83333 else 833333, s)
    \<and> (\<exists>d. next_interval math_Log oob g (sc_Generator RampUp) elapsed s = Inr (d, s)
         \<and> 2 * millisecond \<le> d \<and> d \<le> 100 * millisecond)"
proof (intro conjI allI ballI)
  fix name
  show "(\<exists>sc. ScenarioByName name = Inr sc) \<longleftrightarrow> name \<in> set (map sc_Name AllScenarios)"
    by (simp add: ScenarioByName_def AllScenarios_def SteadyState_def RampUp_def SpikeTest_def MixedPriority_def LongTail_def)
next
  fix sc assume "sc \<in> set AllScenarios"
  then have "sc = SteadyState \<or> sc = RampUp \<or> sc = SpikeTest \<or> sc = MixedPriority \<or> sc = LongTail"
    by (simp add: AllScenarios_def)
  then show "ScenarioByName (sc_Name sc) = Inr sc" "sc_Duration sc = 60 * second"
    "(case sc_Generator sc of ConstantRateGenerator _ cfg \<Rightarrow> gc_Duration cfg | PoissonGenerator _ cfg \<Rightarrow> gc_Duration cfg
            | RampGenerator _ _ cfg \<Rightarrow> gc_Duration cfg | Bursty b \<Rightarrow> gc_Duration (bg_Config b)) = sc_Duration sc"
    by (elim disjE; simp add: ScenarioByName_def SteadyState_def RampUp_def SpikeTest_def MixedPriority_def LongTail_def
        NewBurstyGenerator_def Let_def)+
next
  have d: "(1000000000::int) sdiv 1200 = 833333" "(1000000000::int) sdiv 100 = 10000000"
    by (simp_all add: signed_divide_int_def)
  show "next_interval math_Log oob g (sc_Generator SteadyState) elapsed s = Inr (833333, s)"
    "next_interval math_Log oob g (sc_Generator MixedPriority) elapsed s = Inr (10 * millisecond, s)"
    "next_interval math_Log oob g (sc_Generator LongTail) elapsed s = Inr (10 * millisecond, s)"
    by (simp_all add: next_interval_def constant_interval_def SteadyState_def MixedPriority_def LongTail_def Let_def d)
  obtain bg where bg: "sc_Generator SpikeTest = Bursty bg"
    by (simp add: SpikeTest_def NewBurstyGenerator_def Let_def)
  then show "next_interval math_Log oob g (sc_Generator SpikeTest) elapsed s
        = Inr (if 30 * second \<le> elapsed \<and> elapsed < 35 * second then 83333 else 833333, s)"
    using spike_bursts [OF bg assms] by (simp add: next_interval_def)
  have "i64 elapsed" using assms by (simp add: i64_def)
  then show "\<exists>d. next_interval math_Log oob g (sc_Generator RampUp) elapsed s = Inr (d, s)
         \<and> 2 * millisecond \<le> d \<and> d \<le> 100 * millisecond"
    using ramp_up_interval [OF assms(1), of oob] by (simp add: next_interval_def RampUp_def Let_def)
qed

theorem scenario_schedules_witness:
  "next_interval (\<lambda>x. x) (\<lambda>_. 0) sample_rng (sc_Generator SpikeTest) (31 * second) 0 = Inr (83333, 0)
   \<and> next_interval (\<lambda>x. x) (\<lambda>_. 0) sample_rng (sc_Generator SpikeTest) (35 * second) 0 = Inr (833333, 0)"
  using scenario_schedules [of "31 * second" "\<lambda>x. x" "\<lambda>_. 0" sample_rng 0]
    scenario_schedules [of "35 * second" "\<lambda>x. x" "\<lambda>_. 0" sample_rng 0] by simp

end
