(* ===== verification/QueueMatrix.thy ===== *)
theory QueueMatrix
  imports Models
begin

text \<open>
  internal/batcher/packing/queue_matrix.go: the intake buffer, 48 bounded channels indexed by
  (priority, request type, token bucket), a depth counter and a one-place wake channel. Each
  operation here is one atomic step; the interleavings of submitters with the batcher are the
  subject of the theory Concurrency. The depth is an unbounded integer, which no number of queued
  requests takes near the ends of an \<open>atomic.Int64\<close>, and \<open>make\<close> succeeds for every capacity, where a
  size beyond the memory would panic.
\<close>

definition numPriorities :: nat where "numPriorities = 4"
definition numRequestTypes :: nat where "numRequestTypes = 2"
definition numTokenBuckets :: nat where "numTokenBuckets = 6"

datatype coord = Coord (co_p: nat) (co_rt: nat) (co_b: nat)

record QueueMatrix =
  qm_queues :: "coord \<Rightarrow> InferenceRequest chan"
  qm_perQueueCapacity :: int
  qm_depth :: int
  qm_eventChan :: "unit chan"
  qm_closeOnce :: bool
  qm_closed :: bool

section \<open>Indices\<close>

definition priorityIndex :: "Priority \<Rightarrow> nat" where
  "priorityIndex p =
     (if p = PriorityLow then 0
      else if p = PriorityNormal then 1
      else if p = PriorityHigh then 2
      else if p = PriorityCritical then 3
      else 1)"

definition indexToPriority :: "nat \<Rightarrow> Priority" where
  "indexToPriority i =
     (if i = 0 then PriorityLow
      else if i = 2 then PriorityHigh
      else if i = 3 then PriorityCritical
      else PriorityNormal)"

definition typeIndex :: "RequestType \<Rightarrow> nat" where
  "typeIndex rt = (if rt = RequestTypeEmbedding then 1 else 0)"

definition indexToType :: "nat \<Rightarrow> RequestType" where
  "indexToType i = (if i = 1 then RequestTypeEmbedding else RequestTypeCompletion)"

definition bucketIndex :: "int \<Rightarrow> nat" where
  "bucketIndex b =
     (if b < 0 then 0
      else if b \<ge> int numTokenBuckets then numTokenBuckets - 1
      else nat b)"

text \<open>The sub-queue a request belongs to.\<close>

definition route :: "InferenceRequest \<Rightarrow> coord" where
  "route req = Coord (priorityIndex (req_Priority req)) (typeIndex (req_RequestType req))
     (bucketIndex (TokenBucket req))"

text \<open>The loops of the file visit the array in two orders.\<close>

definition ascending_coords :: "coord list" where
  "ascending_coords =
     [Coord p rt b. p \<leftarrow> [0..<numPriorities], rt \<leftarrow> [0..<numRequestTypes], b \<leftarrow> [0..<numTokenBuckets]]"

definition walk_coords :: "coord list" where
  "walk_coords =
     [Coord p rt b. p \<leftarrow> rev [0..<numPriorities], rt \<leftarrow> [0..<numRequestTypes], b \<leftarrow> [0..<numTokenBuckets]]"

section \<open>Operations\<close>

definition NewQueueMatrix :: "int \<Rightarrow> QueueMatrix" where
  "NewQueueMatrix totalCapacity =
     (let totalCapacity = (if totalCapacity < 1 then 1 else totalCapacity);
          per = wrap64 (totalCapacity + 15) sdiv 16;
          per = (if per < 1 then 1 else per)
      in \<lparr>qm_queues = (\<lambda>_. make_chan (nat per)),
          qm_perQueueCapacity = per,
          qm_depth = 0,
          qm_eventChan = make_chan 1,
          qm_closeOnce = False,
          qm_closed = False\<rparr>)"

definition Signal :: "QueueMatrix \<Rightarrow> QueueMatrix" where
  "Signal qm = qm\<lparr>qm_eventChan := offer () (qm_eventChan qm)\<rparr>"

definition QueueMatrix_Submit ::
  "InferenceRequest option \<Rightarrow> QueueMatrix \<Rightarrow> go_panic + (error option \<times> QueueMatrix)" where
  "QueueMatrix_Submit req qm =
     (case req of
        None \<Rightarrow> Inr (Some ErrInvalidRequest, qm)
      | Some req \<Rightarrow>
          if qm_closed qm then Inr (Some ErrShuttingDown, qm)
          else
            (let c = route req in
             case try_send req (qm_queues qm c) of
               Sent ch \<Rightarrow>
                 Inr (None, Signal (qm\<lparr>qm_queues := (qm_queues qm)(c := ch), qm_depth := qm_depth qm + 1\<rparr>))
             | SendBlocks \<Rightarrow> Inr (Some ErrQueueFull, qm)
             | SendPanics \<Rightarrow> Inl SendOnClosed))"

text \<open>
  The receive loop of \<open>drainSubqueue\<close>. Its \<open>break\<close> on a closed channel leaves the \<open>select\<close>, not
  the loop, so on a closed and empty channel the loop goes round with nothing changed: the
  recursive call below is that iteration, and a loop that never ends is \<open>None\<close>. The channel only
  holds non-nil requests, so the nil test of the body always succeeds.
\<close>

partial_function (option) drain_loop ::
  "InferenceRequest chan \<Rightarrow> int \<Rightarrow> InferenceRequest list
     \<Rightarrow> (InferenceRequest list \<times> InferenceRequest chan) option" where
  "drain_loop ch maxBatchSize drained =
     (if int (length drained) < maxBatchSize then
        (case try_recv ch of
           Received req ch' \<Rightarrow> drain_loop ch' maxBatchSize (drained @ [req])
         | RecvClosed \<Rightarrow> drain_loop ch maxBatchSize drained
         | RecvBlocks \<Rightarrow> Some (drained, ch))
      else Some (drained, ch))"

definition drainSubqueue ::
  "coord \<Rightarrow> int \<Rightarrow> QueueMatrix \<Rightarrow> (InferenceRequest list \<times> QueueMatrix) option" where
  "drainSubqueue c maxBatchSize qm =
     (case drain_loop (qm_queues qm c) maxBatchSize [] of
        None \<Rightarrow> None
      | Some (drained, ch) \<Rightarrow>
          (let n = length drained;
               qm' = qm\<lparr>qm_queues := (qm_queues qm)(c := ch)\<rparr>
           in Some (drained, if n > 0 then qm'\<lparr>qm_depth := qm_depth qm' - int n\<rparr> else qm')))"

type_synonym drain_result = "InferenceRequest list \<times> Priority \<times> RequestType \<times> int"

definition nothing_drained :: drain_result where
  "nothing_drained = ([], PriorityNormal, RequestTypeCompletion, 0)"

fun drain_walk :: "coord list \<Rightarrow> int \<Rightarrow> QueueMatrix \<Rightarrow> (drain_result \<times> QueueMatrix) option" where
  "drain_walk [] maxBatchSize qm = Some (nothing_drained, qm)"
| "drain_walk (c # cs) maxBatchSize qm =
     (if length (ch_buf (qm_queues qm c)) = 0 then drain_walk cs maxBatchSize qm
      else
        (case drainSubqueue c maxBatchSize qm of
           None \<Rightarrow> None
         | Some (drained, qm') \<Rightarrow>
             if length drained = 0 then drain_walk cs maxBatchSize qm'
             else Some ((drained, indexToPriority (co_p c), indexToType (co_rt c), int (co_b c)), qm')))"

definition QueueMatrix_Drain :: "int \<Rightarrow> QueueMatrix \<Rightarrow> (drain_result \<times> QueueMatrix) option" where
  "QueueMatrix_Drain maxBatchSize qm =
     (if maxBatchSize \<le> 0 then Some (nothing_drained, qm)
      else drain_walk walk_coords maxBatchSize qm)"

definition QueueMatrix_DrainFrom ::
  "Priority \<Rightarrow> RequestType \<Rightarrow> int \<Rightarrow> int \<Rightarrow> QueueMatrix \<Rightarrow> (InferenceRequest list \<times> QueueMatrix) option" where
  "QueueMatrix_DrainFrom priority rt bucket mx qm =
     (if mx \<le> 0 then Some ([], qm)
      else
        (let c = Coord (priorityIndex priority) (typeIndex rt) (bucketIndex bucket) in
         if length (ch_buf (qm_queues qm c)) = 0 then Some ([], qm)
         else drainSubqueue c mx qm))"

definition HasHigherPriorityThan :: "Priority \<Rightarrow> QueueMatrix \<Rightarrow> bool" where
  "HasHigherPriorityThan p qm =
     list_ex (\<lambda>c. length (ch_buf (qm_queues qm c)) > 0)
       [Coord higher rt b. higher \<leftarrow> [priorityIndex p + 1..<numPriorities],
          rt \<leftarrow> [0..<numRequestTypes], b \<leftarrow> [0..<numTokenBuckets]]"

function drainChannel ::
  "InferenceRequest list \<Rightarrow> InferenceRequest chan \<Rightarrow> InferenceRequest list \<times> InferenceRequest chan" where
  "drainChannel out ch =
     (case try_recv ch of
        Received req ch' \<Rightarrow> drainChannel (out @ [req]) ch'
      | RecvClosed \<Rightarrow> (out, ch)
      | RecvBlocks \<Rightarrow> (out, ch))"
  by pat_completeness auto
termination
  by (relation "measure (\<lambda>(out, ch). length (ch_buf ch))") (auto dest: try_recv_ReceivedD)

declare drainChannel.simps [simp del]

fun drain_all_walk ::
  "coord list \<Rightarrow> InferenceRequest list \<Rightarrow> QueueMatrix \<Rightarrow> InferenceRequest list \<times> QueueMatrix" where
  "drain_all_walk [] out qm = (out, qm)"
| "drain_all_walk (c # cs) out qm =
     (let (xs, ch) = drainChannel [] (qm_queues qm c) in
      drain_all_walk cs (out @ xs) (qm\<lparr>qm_queues := (qm_queues qm)(c := ch)\<rparr>))"

definition QueueMatrix_DrainAll :: "QueueMatrix \<Rightarrow> InferenceRequest list \<times> QueueMatrix" where
  "QueueMatrix_DrainAll qm =
     (let (out, qm') = drain_all_walk walk_coords [] qm in (out, qm'\<lparr>qm_depth := 0\<rparr>))"

definition EventChan :: "QueueMatrix \<Rightarrow> unit chan" where
  "EventChan qm = qm_eventChan qm"

definition Depth :: "QueueMatrix \<Rightarrow> int" where
  "Depth qm = qm_depth qm"

definition PerQueueCapacity :: "QueueMatrix \<Rightarrow> int" where
  "PerQueueCapacity qm = qm_perQueueCapacity qm"

fun close_walk :: "coord list \<Rightarrow> QueueMatrix \<Rightarrow> go_panic + QueueMatrix" where
  "close_walk [] qm = Inr qm"
| "close_walk (c # cs) qm =
     (case close_chan (qm_queues qm c) of
        Inl e \<Rightarrow> Inl e
      | Inr ch \<Rightarrow> close_walk cs (qm\<lparr>qm_queues := (qm_queues qm)(c := ch)\<rparr>))"

definition QueueMatrix_Close :: "QueueMatrix \<Rightarrow> go_panic + QueueMatrix" where
  "QueueMatrix_Close qm =
     (if qm_closeOnce qm then Inr qm
      else close_walk ascending_coords (qm\<lparr>qm_closeOnce := True, qm_closed := True\<rparr>))"

section \<open>Coordinates\<close>

definition coord_ok :: "coord \<Rightarrow> bool" where
  "coord_ok c \<longleftrightarrow> co_p c < numPriorities \<and> co_rt c < numRequestTypes \<and> co_b c < numTokenBuckets"

lemmas dims = numPriorities_def numRequestTypes_def numTokenBuckets_def

lemma set_walk_coords [simp]: "set walk_coords = {c. coord_ok c}"
proof (rule set_eqI)
  fix c show "c \<in> set walk_coords \<longleftrightarrow> c \<in> {c. coord_ok c}"
    by (cases c) (force simp: walk_coords_def coord_ok_def)
qed

lemma set_ascending_coords [simp]: "set ascending_coords = {c. coord_ok c}"
proof (rule set_eqI)
  fix c show "c \<in> set ascending_coords \<longleftrightarrow> c \<in> {c. coord_ok c}"
    by (cases c) (force simp: ascending_coords_def coord_ok_def)
qed

lemma distinct_walk_coords [simp]: "distinct walk_coords"
  by (simp add: walk_coords_def dims upt_rec)

lemma distinct_ascending_coords [simp]: "distinct ascending_coords"
  by (simp add: ascending_coords_def dims upt_rec)

lemma length_walk_coords: "length walk_coords = 48"
  by (simp add: walk_coords_def dims upt_rec)

lemma priorityIndex_less [simp]: "priorityIndex p < numPriorities"
  by (simp add: priorityIndex_def dims)

lemma typeIndex_less [simp]: "typeIndex rt < numRequestTypes"
  by (simp add: typeIndex_def dims)

lemma bucketIndex_less [simp]: "bucketIndex b < numTokenBuckets"
  by (auto simp: bucketIndex_def dims)

lemma coord_ok_lane [simp, intro]: "coord_ok (Coord (priorityIndex p) (typeIndex rt) (bucketIndex b))"
  by (simp add: coord_ok_def)

lemma coord_ok_route [simp, intro]: "coord_ok (route r)"
  by (simp add: route_def)

text \<open>The index conversions are inverse to each other on the indices in range.\<close>

lemma priorityIndex_indexToPriority [simp]: "i < numPriorities \<Longrightarrow> priorityIndex (indexToPriority i) = i"
  by (auto simp: priorityIndex_def indexToPriority_def dims)

lemma typeIndex_indexToType [simp]: "i < numRequestTypes \<Longrightarrow> typeIndex (indexToType i) = i"
  by (auto simp: typeIndex_def indexToType_def dims RequestTypeEmbedding_def RequestTypeCompletion_def)

lemma bucketIndex_int [simp]: "i < numTokenBuckets \<Longrightarrow> bucketIndex (int i) = i"
  by (auto simp: bucketIndex_def dims)

lemma lane_of_coord [simp]:
  "coord_ok c \<Longrightarrow>
     Coord (priorityIndex (indexToPriority (co_p c))) (typeIndex (indexToType (co_rt c)))
       (bucketIndex (int (co_b c))) = c"
  by (simp add: coord_ok_def)

text \<open>
  The drain order as a linear order on coordinates: higher priority first, then request type,
  then bucket.
\<close>

instantiation coord :: linorder
begin

definition less_eq_coord :: "coord \<Rightarrow> coord \<Rightarrow> bool" where
  "c \<le> d \<longleftrightarrow> co_p d < co_p c \<or>
     (co_p c = co_p d \<and> (co_rt c < co_rt d \<or> (co_rt c = co_rt d \<and> co_b c \<le> co_b d)))"

definition less_coord :: "coord \<Rightarrow> coord \<Rightarrow> bool" where
  "c < d \<longleftrightarrow> c \<le> d \<and> \<not> d \<le> (c::coord)"

instance
  by standard (auto simp: less_eq_coord_def less_coord_def coord.expand)

end

lemma sorted_walk_coords: "sorted_wrt (<) walk_coords"
  by code_simp

section \<open>The invariant\<close>

definition lane :: "QueueMatrix \<Rightarrow> coord \<Rightarrow> InferenceRequest list" where
  "lane qm c = ch_buf (qm_queues qm c)"

definition queued :: "QueueMatrix \<Rightarrow> InferenceRequest list" where
  "queued qm = concat (map (lane qm) walk_coords)"

definition qm_inv :: "QueueMatrix \<Rightarrow> bool" where
  "qm_inv qm \<longleftrightarrow>
     1 \<le> qm_perQueueCapacity qm
     \<and> (\<forall>c. ch_cap (qm_queues qm c) = nat (qm_perQueueCapacity qm))
     \<and> (\<forall>c. length (lane qm c) \<le> nat (qm_perQueueCapacity qm))
     \<and> (\<forall>c. coord_ok c \<longrightarrow> ch_closed (qm_queues qm c) = qm_closed qm)
     \<and> (\<forall>c. \<forall>r \<in> set (lane qm c). route r = c)
     \<and> qm_depth qm = int (length (queued qm))
     \<and> length (ch_buf (qm_eventChan qm)) \<le> 1 \<and> ch_cap (qm_eventChan qm) = 1
     \<and> \<not> ch_closed (qm_eventChan qm)
     \<and> qm_closeOnce qm = qm_closed qm"

lemma qm_invD [go_inv]:
  assumes "qm_inv qm"
  shows "1 \<le> qm_perQueueCapacity qm" "chan_ok (qm_queues qm c)"
    "ch_cap (qm_queues qm c) = nat (qm_perQueueCapacity qm)"
    "coord_ok c \<Longrightarrow> ch_closed (qm_queues qm c) = qm_closed qm"
    "r \<in> set (lane qm c) \<Longrightarrow> route r = c"
    "qm_depth qm = int (length (queued qm))"
    "qm_closeOnce qm = qm_closed qm"
  using assms by (auto simp: qm_inv_def chan_ok_def lane_def)

lemma length_queued: "int (length (queued qm)) = (\<Sum>c\<leftarrow>walk_coords. int (length (lane qm c)))"
proof -
  have "int (length (concat (map f cs))) = (\<Sum>c\<leftarrow>cs. int (length (f c)))"
    for f :: "coord \<Rightarrow> InferenceRequest list" and cs
    by (induction cs) simp_all
  then show ?thesis by (simp add: queued_def)
qed

lemma length_queued_upd:
  assumes "coord_ok c"
  shows "int (length (queued (qm\<lparr>qm_queues := (qm_queues qm)(c := ch)\<rparr>)))
    = int (length (queued qm)) - int (length (lane qm c)) + int (length (ch_buf ch))"
  using sum_list_map_upd [of walk_coords c "\<lambda>ch. int (length (ch_buf ch))" "qm_queues qm" ch] assms
  by (simp add: length_queued lane_def)

lemma queued_cong: "qm_queues qm = qm_queues qm' \<Longrightarrow> queued qm = queued qm'"
  by (simp add: queued_def lane_def [abs_def])

lemma lane_simps [simp]:
  "lane (qm\<lparr>qm_queues := qs\<rparr>) c = ch_buf (qs c)"
  "lane (qm\<lparr>qm_depth := d\<rparr>) c = lane qm c"
  "lane (qm\<lparr>qm_eventChan := e\<rparr>) c = lane qm c"
  "lane (qm\<lparr>qm_closed := b\<rparr>) c = lane qm c"
  "lane (qm\<lparr>qm_closeOnce := b\<rparr>) c = lane qm c"
  by (simp_all add: lane_def)

text \<open>
  Replacing the buffer of one sub-queue by requests that belong there, with the depth adjusted by
  the difference, is the only change the operations make to the matrix.
\<close>

definition set_lane :: "coord \<Rightarrow> InferenceRequest list \<Rightarrow> QueueMatrix \<Rightarrow> QueueMatrix" where
  "set_lane c xs qm =
     qm\<lparr>qm_queues := (qm_queues qm)(c := (qm_queues qm c)\<lparr>ch_buf := xs\<rparr>),
        qm_depth := qm_depth qm - int (length (lane qm c)) + int (length xs)\<rparr>"

lemma lane_set_lane [simp]: "lane (set_lane c xs qm) d = (if d = c then xs else lane qm d)"
  by (simp add: set_lane_def lane_def)

lemma set_lane_simps [simp]:
  "qm_closed (set_lane c xs qm) = qm_closed qm"
  "qm_closeOnce (set_lane c xs qm) = qm_closeOnce qm"
  "qm_eventChan (set_lane c xs qm) = qm_eventChan qm"
  "qm_perQueueCapacity (set_lane c xs qm) = qm_perQueueCapacity qm"
  by (simp_all add: set_lane_def)

lemma set_lane_same [simp]: "set_lane c (lane qm c) qm = qm"
proof -
  have "(qm_queues qm c)\<lparr>ch_buf := ch_buf (qm_queues qm c)\<rparr> = qm_queues qm c" by simp
  then show ?thesis by (cases qm) (simp add: set_lane_def lane_def)
qed

lemma set_lane_inv:
  assumes "qm_inv qm" "coord_ok c" "int (length xs) \<le> qm_perQueueCapacity qm" "\<forall>r\<in>set xs. route r = c"
  shows "qm_inv (set_lane c xs qm)"
proof -
  have "int (length (queued (set_lane c xs qm)))
      = int (length (queued qm)) - int (length (lane qm c)) + int (length xs)"
    using length_queued_upd [OF assms(2), of qm "(qm_queues qm c)\<lparr>ch_buf := xs\<rparr>"]
    by (simp add: set_lane_def queued_def lane_def [abs_def])
  moreover have "qm_depth (set_lane c xs qm) = qm_depth qm - int (length (lane qm c)) + int (length xs)"
    by (simp add: set_lane_def)
  moreover have "qm_queues (set_lane c xs qm) d =
      (if d = c then (qm_queues qm c)\<lparr>ch_buf := xs\<rparr> else qm_queues qm d)" for d
    by (simp add: set_lane_def)
  moreover have "length (lane (set_lane c xs qm) d) \<le> nat (qm_perQueueCapacity qm)" for d
    using assms(1,3) by (auto simp: qm_inv_def)
  ultimately show ?thesis
    using assms unfolding qm_inv_def by auto
qed

section \<open>Submit\<close>

lemma Signal_simps [simp]:
  "qm_queues (Signal qm) = qm_queues qm" "qm_depth (Signal qm) = qm_depth qm"
  "qm_perQueueCapacity (Signal qm) = qm_perQueueCapacity qm"
  "qm_closed (Signal qm) = qm_closed qm" "qm_closeOnce (Signal qm) = qm_closeOnce qm"
  "lane (Signal qm) c = lane qm c"
  "qm_eventChan (Signal qm) = offer () (qm_eventChan qm)"
  by (simp_all add: Signal_def lane_def)

lemma queued_Signal [simp]: "queued (Signal qm) = queued qm"
  by (rule queued_cong) simp

lemma Signal_inv [intro]: "qm_inv qm \<Longrightarrow> qm_inv (Signal qm)"
  using offer_ok [of "qm_eventChan qm" "()"] offer_cap [of "()" "qm_eventChan qm"]
  by (simp add: qm_inv_def chan_ok_def)

lemma Signal_pending: "qm_inv qm \<Longrightarrow> ch_buf (qm_eventChan (Signal qm)) = [()]"
  by (cases "ch_buf (qm_eventChan qm)")
    (auto simp: Signal_def qm_inv_def offer_empty offer_full)

lemma Submit_nil: "QueueMatrix_Submit None qm = Inr (Some ErrInvalidRequest, qm)"
  by (simp add: QueueMatrix_Submit_def)

lemma Submit_closed: "qm_closed qm \<Longrightarrow> QueueMatrix_Submit (Some r) qm = Inr (Some ErrShuttingDown, qm)"
  by (simp add: QueueMatrix_Submit_def)

lemma Submit_open:
  assumes "qm_inv qm" "\<not> qm_closed qm"
  shows "QueueMatrix_Submit (Some r) qm =
    Inr (if int (length (lane qm (route r))) < qm_perQueueCapacity qm
         then (None, Signal (set_lane (route r) (lane qm (route r) @ [r]) qm))
         else (Some ErrQueueFull, qm))"
proof -
  have "\<not> ch_closed (qm_queues qm (route r))"
    "ch_cap (qm_queues qm (route r)) = nat (qm_perQueueCapacity qm)"
    using assms by (simp_all add: go_inv)
  then show ?thesis
    using qm_invD(1) [OF assms(1)] assms(2)
    by (auto simp: QueueMatrix_Submit_def Let_def try_send_def lane_def set_lane_def nat_less_iff
        zless_nat_eq_int_zless intro!: arg_cong [where f = Signal])
qed

lemma submitted_inv:
  assumes "qm_inv qm" "int (length (lane qm (route r))) < qm_perQueueCapacity qm"
  shows "qm_inv (set_lane (route r) (lane qm (route r) @ [r]) qm)"
  using assms by (intro set_lane_inv) (auto simp: go_inv)

lemma Submit_inv:
  assumes "qm_inv qm" shows "\<exists>e qm'. QueueMatrix_Submit req qm = Inr (e, qm') \<and> qm_inv qm'"
proof (cases req)
  case None
  then show ?thesis using assms by (simp add: Submit_nil)
next
  case (Some r)
  show ?thesis
  proof (cases "qm_closed qm")
    case True
    then show ?thesis using assms Some by (simp add: Submit_closed)
  next
    case False
    then show ?thesis using assms Some by (auto simp: Submit_open submitted_inv)
  qed
qed

section \<open>Drain and DrainFrom\<close>

lemma drain_loop_takes:
  "\<not> ch_closed ch \<or> mx \<le> int (length drained + length (ch_buf ch)) \<Longrightarrow>
     drain_loop ch mx drained =
       (let n = nat (mx - int (length drained)) in
        Some (drained @ take n (ch_buf ch), ch\<lparr>ch_buf := drop n (ch_buf ch)\<rparr>))"
proof (induction "ch_buf ch" arbitrary: ch drained)
  case Nil
  then show ?case
    by (subst drain_loop.simps) (auto simp: try_recv_def Let_def)
next
  case (Cons r rs)
  let ?ch = "ch\<lparr>ch_buf := rs\<rparr>"
  from Cons.hyps(2) have buf: "ch_buf ch = r # rs" by simp
  show ?case
  proof (cases "int (length drained) < mx")
    case True
    have "drain_loop ch mx drained = drain_loop ?ch mx (drained @ [r])"
      using True by (subst drain_loop.simps) (simp add: try_recv_Cons [OF buf])
    also have "\<dots> = (let n = nat (mx - int (length (drained @ [r]))) in
        Some ((drained @ [r]) @ take n rs, ?ch\<lparr>ch_buf := drop n rs\<rparr>))"
      using Cons.hyps(1) [of ?ch "drained @ [r]"] Cons.prems by (simp add: buf)
    also have "nat (mx - int (length drained)) = Suc (nat (mx - int (length (drained @ [r]))))"
      using True by (simp add: nat_diff_distrib' Suc_diff_Suc flip: nat_int) 
    ultimately show ?thesis by (simp add: buf Let_def)
  next
    case False
    then show ?thesis by (subst drain_loop.simps) (simp add: Let_def)
  qed
qed

text \<open>
  On a closed channel that holds fewer than the requested number of requests the loop never ends.
\<close>

lemma drain_loop_stuck:
  assumes "ch_closed ch" "ch_buf ch = []" "int (length drained) < mx"
  shows "drain_loop ch mx drained = None"
proof (rule ccontr)
  assume "drain_loop ch mx drained \<noteq> None"
  then obtain y where y: "drain_loop ch mx drained = Some y" by auto
  have "\<not> (ch_closed ch \<and> ch_buf ch = [] \<and> int (length drained) < mx)"
  proof (rule drain_loop.raw_induct [where P =
        "\<lambda>ch mx drained y. \<not> (ch_closed ch \<and> ch_buf ch = [] \<and> int (length drained) < mx)", OF _ y])
    fix f ch mx drained y
    assume IH: "\<And>ch mx drained y. f ch mx drained = Some y \<Longrightarrow>
        \<not> (ch_closed ch \<and> ch_buf ch = [] \<and> int (length drained) < mx)"
      and eq: "(if int (length drained) < mx then
          (case try_recv ch of
             Received req ch' \<Rightarrow> f ch' mx (drained @ [req])
           | RecvClosed \<Rightarrow> f ch mx drained
           | RecvBlocks \<Rightarrow> Some (drained, ch))
        else Some (drained, ch)) = Some y"
    show "\<not> (ch_closed ch \<and> ch_buf ch = [] \<and> int (length drained) < mx)"
      using IH [of ch mx drained y] eq by (auto simp: try_recv_def)
  qed
  with assms show False by simp
qed

lemma drain_loop_hangs:
  "ch_closed ch \<Longrightarrow> int (length drained + length (ch_buf ch)) < mx \<Longrightarrow> drain_loop ch mx drained = None"
proof (induction "ch_buf ch" arbitrary: ch drained)
  case Nil
  then show ?case by (simp add: drain_loop_stuck)
next
  case (Cons r rs)
  from Cons.hyps(2) have buf: "ch_buf ch = r # rs" by simp
  have "drain_loop ch mx drained = drain_loop (ch\<lparr>ch_buf := rs\<rparr>) mx (drained @ [r])"
    using Cons.prems by (subst drain_loop.simps) (simp add: try_recv_Cons [OF buf])
  then show ?case
    using Cons.hyps(1) [of "ch\<lparr>ch_buf := rs\<rparr>" "drained @ [r]"] Cons.prems by (simp add: buf)
qed

lemma drainSubqueue_open:
  assumes "\<not> ch_closed (qm_queues qm c)" "0 < mx"
  shows "drainSubqueue c mx qm =
    Some (take (nat mx) (lane qm c), set_lane c (drop (nat mx) (lane qm c)) qm)"
  using assms drain_loop_takes [of "qm_queues qm c" mx "[]"]
  by (auto simp: drainSubqueue_def set_lane_def lane_def Let_def)

definition drained_at :: "coord \<Rightarrow> int \<Rightarrow> QueueMatrix \<Rightarrow> drain_result \<times> QueueMatrix" where
  "drained_at c mx qm =
     ((take (nat mx) (lane qm c), indexToPriority (co_p c), indexToType (co_rt c), int (co_b c)),
      set_lane c (drop (nat mx) (lane qm c)) qm)"

lemma drain_walk_open:
  assumes "\<forall>c\<in>set cs. \<not> ch_closed (qm_queues qm c)" "0 < mx"
  shows "drain_walk cs mx qm = Some
    (case find (\<lambda>c. lane qm c \<noteq> []) cs of None \<Rightarrow> (nothing_drained, qm) | Some c \<Rightarrow> drained_at c mx qm)"
  using assms
  by (induction cs) (auto simp: drainSubqueue_open drained_at_def lane_def)

lemma drained_inv:
  assumes "qm_inv qm" "coord_ok c" shows "qm_inv (set_lane c (drop n (lane qm c)) qm)"
proof (rule set_lane_inv [OF assms])
  have "length (lane qm c) \<le> nat (qm_perQueueCapacity qm)"
    using assms(1) by (simp add: qm_inv_def)
  then show "int (length (drop n (lane qm c))) \<le> qm_perQueueCapacity qm"
    using qm_invD(1) [OF assms(1)] by simp
  show "\<forall>r\<in>set (drop n (lane qm c)). route r = c"
    using qm_invD(5) [OF assms(1)] by (auto dest: in_set_dropD)
qed

lemma find_walk_least:
  assumes "find (\<lambda>c. lane qm c \<noteq> []) walk_coords = Some c"
  shows "coord_ok c \<and> lane qm c \<noteq> [] \<and> (\<forall>d. coord_ok d \<longrightarrow> lane qm d \<noteq> [] \<longrightarrow> c \<le> d)"
proof -
  obtain i where i: "i < length walk_coords" "lane qm (walk_coords ! i) \<noteq> []" "c = walk_coords ! i"
    "\<forall>j<i. lane qm (walk_coords ! j) = []"
    using assms unfolding find_Some_iff by blast
  have "c \<le> d" if "coord_ok d" "lane qm d \<noteq> []" for d
  proof -
    have "d \<in> set walk_coords" using that(1) by simp
    then obtain j where j: "j < length walk_coords" "walk_coords ! j = d"
      unfolding in_set_conv_nth by blast
    with i that(2) have "\<not> j < i" by auto
    with i j show "c \<le> d"
      using sorted_wrt_nth_less [OF sorted_walk_coords, of i j] by (cases "i = j") auto
  qed
  moreover have "coord_ok c" using nth_mem [OF i(1)] i(3) by simp
  ultimately show ?thesis using i by simp
qed

lemma Drain_open:
  assumes "qm_inv qm" "\<not> qm_closed qm" "0 < mx"
  shows "QueueMatrix_Drain mx qm = Some
    (case find (\<lambda>c. lane qm c \<noteq> []) walk_coords of
       None \<Rightarrow> (nothing_drained, qm) | Some c \<Rightarrow> drained_at c mx qm)"
  using assms drain_walk_open [of walk_coords qm mx]
  by (simp add: QueueMatrix_Drain_def go_inv)

lemma DrainFrom_open:
  assumes "qm_inv qm" "\<not> qm_closed qm" "0 < mx"
    and "c = Coord (priorityIndex p) (typeIndex rt) (bucketIndex b)"
  shows "QueueMatrix_DrainFrom p rt b mx qm =
    Some (take (nat mx) (lane qm c), set_lane c (drop (nat mx) (lane qm c)) qm)"
proof -
  have "\<not> ch_closed (qm_queues qm c)" using assms by (simp add: go_inv)
  then show ?thesis
    using assms(3,4) set_lane_same [of c qm]
    by (auto simp: QueueMatrix_DrainFrom_def Let_def drainSubqueue_open lane_def)
qed

lemma HasHigherPriorityThan_iff:
  "HasHigherPriorityThan p qm \<longleftrightarrow> (\<exists>c. coord_ok c \<and> priorityIndex p < co_p c \<and> lane qm c \<noteq> [])"
proof
  assume "HasHigherPriorityThan p qm"
  then obtain i j k where "coord_ok (Coord i j k)" "priorityIndex p < i" "lane qm (Coord i j k) \<noteq> []"
    by (force simp: HasHigherPriorityThan_def list_ex_iff lane_def coord_ok_def)
  then show "\<exists>c. coord_ok c \<and> priorityIndex p < co_p c \<and> lane qm c \<noteq> []"
    by (intro exI [of _ "Coord i j k"]) simp
next
  assume "\<exists>c. coord_ok c \<and> priorityIndex p < co_p c \<and> lane qm c \<noteq> []"
  then obtain i j k where "coord_ok (Coord i j k)" "priorityIndex p < i" "lane qm (Coord i j k) \<noteq> []"
    by (metis coord.exhaust_sel)
  then show "HasHigherPriorityThan p qm"
    by (force simp: HasHigherPriorityThan_def list_ex_iff lane_def coord_ok_def)
qed

section \<open>DrainAll and Close\<close>

lemma drainChannel_eq: "drainChannel out ch = (out @ ch_buf ch, ch\<lparr>ch_buf := []\<rparr>)"
proof (induction "ch_buf ch" arbitrary: out ch)
  case Nil
  then show ?case by (subst drainChannel.simps) (auto simp: try_recv_def)
next
  case (Cons r rs)
  from Cons.hyps(2) have buf: "ch_buf ch = r # rs" by simp
  show ?case
    using Cons.hyps(1) [of "ch\<lparr>ch_buf := rs\<rparr>" "out @ [r]"]
    by (subst drainChannel.simps) (simp add: try_recv_Cons [OF buf] buf)
qed

lemma drain_all_walk_eq:
  "distinct cs \<Longrightarrow> drain_all_walk cs out qm =
     (out @ concat (map (lane qm) cs),
      qm\<lparr>qm_queues := (\<lambda>c. if c \<in> set cs then (qm_queues qm c)\<lparr>ch_buf := []\<rparr> else qm_queues qm c)\<rparr>)"
proof (induction cs arbitrary: out qm)
  case Nil
  then show ?case by simp
next
  case (Cons a cs)
  let ?qm = "qm\<lparr>qm_queues := (qm_queues qm)(a := (qm_queues qm a)\<lparr>ch_buf := []\<rparr>)\<rparr>"
  have same: "map (lane ?qm) cs = map (lane qm) cs"
    using Cons.prems by (intro map_cong) (auto simp: lane_def)
  have "drain_all_walk (a # cs) out qm = drain_all_walk cs (out @ lane qm a) ?qm"
    by (simp add: drainChannel_eq lane_def)
  also have "\<dots> = (out @ lane qm a @ concat (map (lane qm) cs),
      ?qm\<lparr>qm_queues := (\<lambda>c. if c \<in> set cs then (qm_queues ?qm c)\<lparr>ch_buf := []\<rparr> else qm_queues ?qm c)\<rparr>)"
    using Cons.IH [of "out @ lane qm a" ?qm] Cons.prems unfolding same by simp
  finally show ?case
    using Cons.prems by (auto intro!: arg_cong [where f = "\<lambda>f. qm\<lparr>qm_queues := f\<rparr>"])
qed

lemma DrainAll_eq:
  "QueueMatrix_DrainAll qm =
     (queued qm,
      qm\<lparr>qm_queues := (\<lambda>c. if coord_ok c then (qm_queues qm c)\<lparr>ch_buf := []\<rparr> else qm_queues qm c),
         qm_depth := 0\<rparr>)"
  by (simp add: QueueMatrix_DrainAll_def drain_all_walk_eq queued_def)

lemma queued_nil_iff: "queued qm = [] \<longleftrightarrow> (\<forall>c. coord_ok c \<longrightarrow> lane qm c = [])"
  by (simp add: queued_def)

lemma DrainAll_inv: "qm_inv qm \<Longrightarrow> qm_inv (snd (QueueMatrix_DrainAll qm))"
proof -
  assume inv: "qm_inv qm"
  let ?qm = "snd (QueueMatrix_DrainAll qm)"
  have "queued ?qm = []" by (simp add: DrainAll_eq queued_nil_iff lane_def)
  then show "qm_inv ?qm"
    using inv unfolding qm_inv_def by (auto simp: DrainAll_eq lane_def)
qed

lemma close_walk_eq:
  "distinct cs \<Longrightarrow> \<forall>c\<in>set cs. \<not> ch_closed (qm_queues qm c) \<Longrightarrow>
     close_walk cs qm =
       Inr (qm\<lparr>qm_queues := (\<lambda>c. if c \<in> set cs then (qm_queues qm c)\<lparr>ch_closed := True\<rparr> else qm_queues qm c)\<rparr>)"
proof (induction cs arbitrary: qm)
  case Nil
  then show ?case by simp
next
  case (Cons a cs)
  let ?qm = "qm\<lparr>qm_queues := (qm_queues qm)(a := (qm_queues qm a)\<lparr>ch_closed := True\<rparr>)\<rparr>"
  have "close_walk (a # cs) qm = close_walk cs ?qm"
    using Cons.prems by (simp add: close_chan_def)
  also have "\<dots> = Inr (?qm\<lparr>qm_queues :=
      (\<lambda>c. if c \<in> set cs then (qm_queues ?qm c)\<lparr>ch_closed := True\<rparr> else qm_queues ?qm c)\<rparr>)"
    using Cons.prems by (intro Cons.IH) auto
  finally show ?case
    using Cons.prems(1) by (auto simp: fun_eq_iff intro!: arg_cong [where f = "\<lambda>f. qm\<lparr>qm_queues := f\<rparr>"])
qed

lemma Close_open:
  assumes "qm_inv qm" "\<not> qm_closed qm"
  shows "QueueMatrix_Close qm = Inr (qm\<lparr>
      qm_queues := (\<lambda>c. if coord_ok c then (qm_queues qm c)\<lparr>ch_closed := True\<rparr> else qm_queues qm c),
      qm_closeOnce := True, qm_closed := True\<rparr>)"
proof -
  have "QueueMatrix_Close qm = close_walk ascending_coords (qm\<lparr>qm_closeOnce := True, qm_closed := True\<rparr>)"
    using assms by (simp add: QueueMatrix_Close_def go_inv)
  also have "\<dots> = Inr ((qm\<lparr>qm_closeOnce := True, qm_closed := True\<rparr>)\<lparr>
      qm_queues := (\<lambda>c. if coord_ok c then (qm_queues qm c)\<lparr>ch_closed := True\<rparr> else qm_queues qm c)\<rparr>)"
    using assms by (subst close_walk_eq) (simp_all add: go_inv cong: if_cong)
  finally show ?thesis by simp
qed

lemma Close_closed: "qm_inv qm \<Longrightarrow> qm_closed qm \<Longrightarrow> QueueMatrix_Close qm = Inr qm"
  by (simp add: QueueMatrix_Close_def go_inv)

lemma Close_inv:
  assumes "qm_inv qm"
  shows "\<exists>qm'. QueueMatrix_Close qm = Inr qm' \<and> qm_inv qm' \<and> qm_closed qm' \<and> lane qm' = lane qm"
proof (cases "qm_closed qm")
  case True
  then show ?thesis using assms by (simp add: Close_closed)
next
  case False
  let ?qm = "qm\<lparr>
      qm_queues := (\<lambda>c. if coord_ok c then (qm_queues qm c)\<lparr>ch_closed := True\<rparr> else qm_queues qm c),
      qm_closeOnce := True, qm_closed := True\<rparr>"
  have l: "lane ?qm = lane qm" by (auto simp: lane_def fun_eq_iff)
  then have "queued ?qm = queued qm" by (simp add: queued_def)
  then have "qm_inv ?qm"
    using assms unfolding qm_inv_def l by auto
  with l show ?thesis using assms False by (simp add: Close_open)
qed

section \<open>The matrix as a component\<close>

lemma NewQueueMatrix_per: "1 \<le> qm_perQueueCapacity (NewQueueMatrix cap)"
  by (simp add: NewQueueMatrix_def Let_def)

lemma per_queue_capacity:
  assumes "1 \<le> cap" "cap < 2 ^ 62"
  shows "qm_perQueueCapacity (NewQueueMatrix cap) = (cap + 15) div 16"
proof -
  have "wrap64 (cap + 15) = cap + 15" using assms by (intro wrap64_id) (simp add: i64_def)
  then show ?thesis using assms by (simp add: NewQueueMatrix_def Let_def sdiv_nonneg_eq)
qed

lemma NewQueueMatrix_simps [simp]:
  "lane (NewQueueMatrix cap) c = []" "\<not> qm_closed (NewQueueMatrix cap)" "Depth (NewQueueMatrix cap) = 0"
  by (simp_all add: NewQueueMatrix_def Let_def lane_def Depth_def)

lemma NewQueueMatrix_inv: "qm_inv (NewQueueMatrix cap) \<and> \<not> qm_closed (NewQueueMatrix cap)"
proof -
  have "queued (NewQueueMatrix cap) = []"
    by (simp add: queued_nil_iff lane_def NewQueueMatrix_def Let_def)
  then show ?thesis
    by (auto simp: qm_inv_def NewQueueMatrix_def Let_def lane_def)
qed

text \<open>
  The operations of an open matrix, run against a log of the requests it accepted and the
  requests it handed out, in order.
\<close>

datatype qm_op =
    OpSubmit "InferenceRequest option"
  | OpDrain int
  | OpDrainFrom Priority RequestType int int
  | OpDrainAll
  | OpSignal
  | OpRecvEvent

type_synonym qm_log = "QueueMatrix \<times> InferenceRequest list \<times> InferenceRequest list"

fun qm_step :: "qm_op \<Rightarrow> qm_log \<Rightarrow> qm_log option" where
  "qm_step (OpSubmit req) (qm, acc, out) =
     (case QueueMatrix_Submit req qm of
        Inl _ \<Rightarrow> None
      | Inr (None, qm') \<Rightarrow> Some (qm', acc @ [the req], out)
      | Inr (Some e, qm') \<Rightarrow> Some (qm', acc, out))"
| "qm_step (OpDrain n) (qm, acc, out) =
     map_option (\<lambda>((rs, _), qm'). (qm', acc, out @ rs)) (QueueMatrix_Drain n qm)"
| "qm_step (OpDrainFrom p rt b n) (qm, acc, out) =
     map_option (\<lambda>(rs, qm'). (qm', acc, out @ rs)) (QueueMatrix_DrainFrom p rt b n qm)"
| "qm_step OpDrainAll (qm, acc, out) =
     (let (rs, qm') = QueueMatrix_DrainAll qm in Some (qm', acc, out @ rs))"
| "qm_step OpSignal (qm, acc, out) = Some (Signal qm, acc, out)"
| "qm_step OpRecvEvent (qm, acc, out) =
     (case try_recv (qm_eventChan qm) of
        Received _ ev \<Rightarrow> Some (qm\<lparr>qm_eventChan := ev\<rparr>, acc, out)
      | _ \<Rightarrow> Some (qm, acc, out))"

abbreviation (input) on_lane :: "coord \<Rightarrow> InferenceRequest list \<Rightarrow> InferenceRequest list" where
  "on_lane c \<equiv> filter (\<lambda>r. route r = c)"

definition log_inv :: "qm_log \<Rightarrow> bool" where
  "log_inv l \<longleftrightarrow> (case l of (qm, acc, out) \<Rightarrow>
     qm_inv qm \<and> \<not> qm_closed qm \<and> (\<forall>c. coord_ok c \<longrightarrow> on_lane c acc = on_lane c out @ lane qm c))"

lemma on_lane_of_lane:
  assumes "qm_inv qm" "set xs \<subseteq> set (lane qm d)"
  shows "on_lane c xs = (if c = d then xs else [])"
proof -
  have "\<forall>r\<in>set xs. route r = d" using assms by (auto simp: go_inv)
  then show ?thesis by (auto simp: filter_id_conv filter_empty_conv)
qed

lemma log_drain:
  assumes "log_inv (qm, acc, out)" "coord_ok d"
  shows "log_inv (set_lane d (drop n (lane qm d)) qm, acc, out @ take n (lane qm d))"
  using assms on_lane_of_lane [of qm "take n (lane qm d)" d]
  by (auto simp: log_inv_def drained_inv set_take_subset)

lemma log_submit: assumes "log_inv (qm, acc, out)" shows "\<exists>l. qm_step (OpSubmit req) (qm, acc, out) = Some l \<and> log_inv l"
proof (cases req)
  case None
  then show ?thesis using assms by (simp add: Submit_nil)
next
  case (Some r)
  have inv: "qm_inv qm" "\<not> qm_closed qm" using assms by (simp_all add: log_inv_def)
  show ?thesis
  proof (cases "int (length (lane qm (route r))) < qm_perQueueCapacity qm")
    case True
    then show ?thesis
      using assms inv Some by (auto simp: Submit_open log_inv_def submitted_inv)
  next
    case False
    then show ?thesis using assms inv Some by (simp add: Submit_open)
  qed
qed

lemma on_lane_queued:
  assumes "qm_inv qm" "coord_ok c" shows "on_lane c (queued qm) = lane qm c"
proof -
  have "on_lane c (queued qm) = concat (map (\<lambda>d. if d = c then lane qm c else []) walk_coords)"
    unfolding queued_def filter_concat map_map
    by (intro arg_cong [where f = concat] map_cong)
      (auto simp: on_lane_of_lane [OF assms(1) order.refl])
  also have "\<dots> = lane qm c"
  proof -
    have "concat (map (\<lambda>d. if d = c then ys else []) cs) = (if c \<in> set cs then ys else [])"
      if "distinct cs" for cs and ys :: "InferenceRequest list"
      using that by (induction cs) auto
    then show ?thesis using assms(2) by simp
  qed
  finally show ?thesis .
qed

lemma log_step_drain:
  assumes "log_inv (qm, acc, out)"
  shows "\<exists>l'. qm_step (OpDrain n) (qm, acc, out) = Some l' \<and> log_inv l'"
proof (cases "0 < n \<and> find (\<lambda>c. lane qm c \<noteq> []) walk_coords \<noteq> None")
  case True
  then obtain c where c: "find (\<lambda>c. lane qm c \<noteq> []) walk_coords = Some c" by blast
  then have "coord_ok c" using find_walk_least by blast
  with c True show ?thesis
    using log_drain [of qm acc out c] assms Drain_open [of qm n] by (simp add: drained_at_def log_inv_def)
next
  case False
  then show ?thesis
    using assms Drain_open [of qm n]
    by (cases "0 < n") (simp_all add: QueueMatrix_Drain_def nothing_drained_def log_inv_def)
qed

lemma log_step: "log_inv l \<Longrightarrow> \<exists>l'. qm_step e l = Some l' \<and> log_inv l'"
proof -
  assume inv: "log_inv l"
  obtain qm acc out where l: "l = (qm, acc, out)" by (cases l)
  have open_inv: "qm_inv qm" "\<not> qm_closed qm" using inv by (simp_all add: l log_inv_def)
  show ?thesis
  proof (cases e)
    case (OpSubmit req)
    then show ?thesis using log_submit inv by (simp add: l)
  next
    case (OpDrain n)
    then show ?thesis using log_step_drain inv by (simp add: l del: qm_step.simps)
  next
    case (OpDrainFrom p rt b n)
    show ?thesis
    proof (cases "0 < n")
      case True
      then show ?thesis
        using log_drain [of qm acc out] inv by (simp add: l OpDrainFrom DrainFrom_open [OF open_inv True refl])
    next
      case False
      then show ?thesis using inv by (simp add: l OpDrainFrom QueueMatrix_DrainFrom_def)
    qed
  next
    case OpDrainAll
    then show ?thesis
      using inv DrainAll_inv [OF open_inv(1)] on_lane_queued [OF open_inv(1)]
      by (auto simp: l DrainAll_eq log_inv_def lane_def)
  next
    case OpSignal
    then show ?thesis using inv by (auto simp: l log_inv_def)
  next
    case OpRecvEvent
    then show ?thesis
      using inv by (auto simp: l log_inv_def qm_inv_def queued_def lane_def [abs_def]
          dest!: try_recv_ReceivedD split: recv_result.splits)
  qed
qed

interpretation qm: component "(NewQueueMatrix cap, [], [])" qm_step log_inv for cap
proof
  show "log_inv (NewQueueMatrix cap, [], [])"
    using NewQueueMatrix_inv [of cap] by (simp add: log_inv_def lane_def NewQueueMatrix_def Let_def)
  show "\<exists>l'. qm_step e l = Some l' \<and> log_inv l'" if "log_inv l" for l e
    using that by (rule log_step)
qed

section \<open>Properties\<close>

text \<open>A request used by the witnesses: a completion of \<open>n\<close> estimated tokens.\<close>

definition sample_request :: "string \<Rightarrow> Priority \<Rightarrow> int \<Rightarrow> InferenceRequest" where
  "sample_request rid p n =
     \<lparr>req_ID = rid, req_Prompt = ''hi'', req_MaxTokens = n, req_Priority = p,
      req_RequestType = RequestTypeCompletion, req_CreatedAt = 1, req_EstimatedTokens = n,
      req_Ctx = None, req_ResultChan = Some 0\<rparr>"

lemma route_sample:
  "route (sample_request rid p n) = Coord (priorityIndex p) 0
     (if n \<le> 128 then 0 else if n \<le> 512 then 1 else if n \<le> 1024 then 2
      else if n \<le> 2048 then 3 else if n \<le> 4096 then 4 else 5)"
  by (simp add: route_def sample_request_def TokenBucket_eq typeIndex_def bucketIndex_def
      RequestTypeCompletion_def RequestTypeEmbedding_def dims Let_def)

text \<open>
  C13: on every matrix that satisfies the invariant, \<open>Submit\<close> returns (it never panics on a closed
  channel) and keeps the invariant; it fails exactly on a nil request, a closed matrix or a full
  sub-queue, with the error the documentation names and nothing changed; otherwise the request
  is the new last element of the sub-queue of its traits, nothing else moves, the depth grows by
  one and a wake is pending.
\<close>

theorem Submit_correct:
  assumes "qm_inv qm"
  shows "\<exists>e qm'. QueueMatrix_Submit req qm = Inr (e, qm') \<and> qm_inv qm'
    \<and> (e = Some ErrInvalidRequest \<longleftrightarrow> req = None)
    \<and> (e = Some ErrShuttingDown \<longleftrightarrow> req \<noteq> None \<and> qm_closed qm)
    \<and> (e = Some ErrQueueFull \<longleftrightarrow>
         (\<exists>r. req = Some r \<and> \<not> qm_closed qm
            \<and> int (length (lane qm (route r))) = qm_perQueueCapacity qm))
    \<and> e \<in> {None, Some ErrInvalidRequest, Some ErrShuttingDown, Some ErrQueueFull}
    \<and> (e \<noteq> None \<longrightarrow> qm' = qm)
    \<and> (e = None \<longrightarrow>
         (\<exists>r. req = Some r \<and> lane qm' = (lane qm)(route r := lane qm (route r) @ [r]))
         \<and> Depth qm' = Depth qm + 1 \<and> ch_buf (EventChan qm') = [()])"
proof (cases req)
  case None
  then show ?thesis using assms by (simp add: Submit_nil)
next
  case (Some r)
  have full: "int (length (lane qm (route r))) \<le> qm_perQueueCapacity qm"
    using assms by (auto simp: qm_inv_def le_nat_iff)
  show ?thesis
  proof (cases "qm_closed qm")
    case True
    then show ?thesis using assms Some by (simp add: Submit_closed)
  next
    case False
    let ?qm = "set_lane (route r) (lane qm (route r) @ [r]) qm"
    have "ch_buf (EventChan (Signal ?qm)) = [()]" "Depth (Signal ?qm) = Depth qm + 1"
      if "int (length (lane qm (route r))) < qm_perQueueCapacity qm"
      using Signal_pending [OF submitted_inv [OF assms that]]
      by (simp_all add: EventChan_def Depth_def set_lane_def)
    with False full show ?thesis
      using assms Some submitted_inv [OF assms] by (auto simp: Submit_open fun_eq_iff)
  qed
qed

theorem Submit_correct_witness:
  "qm_inv (NewQueueMatrix 16)
   \<and> (\<exists>e qm'. QueueMatrix_Submit (Some (sample_request ''a'' 2 100)) (NewQueueMatrix 16) = Inr (e, qm')
        \<and> e = None \<and> Depth qm' = 1)"
proof -
  let ?r = "sample_request ''a'' 2 100" and ?q = "NewQueueMatrix 16"
  have inv: "qm_inv ?q" using NewQueueMatrix_inv by simp
  have "qm_perQueueCapacity ?q = 1" by (simp add: per_queue_capacity)
  then show ?thesis using Submit_correct [OF inv, of "Some ?r"] inv by auto
qed

text \<open>
  C14: \<open>Drain\<close> on an open matrix returns, keeps the invariant and takes the oldest requests, at
  most the number asked for, of the first non-empty sub-queue in drain order (priority first, then
  type, then bucket); everything it returns has the priority, type and bucket it reports, the rest
  of that sub-queue stays in order and no other sub-queue changes. It returns nothing exactly when
  nothing is queued.
\<close>

theorem Drain_correct:
  assumes "qm_inv qm" "\<not> qm_closed qm" "0 < mx"
  shows "\<exists>rs p rt b qm'. QueueMatrix_Drain mx qm = Some ((rs, p, rt, b), qm') \<and> qm_inv qm'
    \<and> (rs = [] \<longleftrightarrow> queued qm = []) \<and> int (length rs) \<le> mx
    \<and> Depth qm' = Depth qm - int (length rs)
    \<and> (let c = Coord (priorityIndex p) (typeIndex rt) (bucketIndex b) in
         (\<forall>r\<in>set rs. route r = c)
         \<and> lane qm c = rs @ lane qm' c \<and> (\<forall>d. d \<noteq> c \<longrightarrow> lane qm' d = lane qm d)
         \<and> (rs \<noteq> [] \<longrightarrow> (\<forall>d. coord_ok d \<longrightarrow> lane qm d \<noteq> [] \<longrightarrow> c \<le> d))
         \<and> (int (length rs) < mx \<longrightarrow> rs \<noteq> [] \<longrightarrow> lane qm' c = []))"
proof (cases "find (\<lambda>c. lane qm c \<noteq> []) walk_coords")
  case None
  then have "queued qm = []" by (simp add: find_None_iff queued_nil_iff)
  with None show ?thesis
    using assms by (simp add: Drain_open nothing_drained_def)
next
  case (Some c)
  note c = find_walk_least [OF Some]
  let ?rs = "take (nat mx) (lane qm c)"
  have d: "QueueMatrix_Drain mx qm = Some ((?rs, indexToPriority (co_p c), indexToType (co_rt c), int (co_b c)),
      set_lane c (drop (nat mx) (lane qm c)) qm)" (is "_ = Some (_, ?qm)")
    using assms Some by (simp add: Drain_open drained_at_def)
  have "\<forall>r\<in>set ?rs. route r = c" using assms(1) by (auto simp: go_inv dest: in_set_takeD)
  moreover have "queued qm \<noteq> []" using c by (auto simp: queued_nil_iff)
  moreover have "?rs \<noteq> []" using c assms(3) by simp
  moreover have "Depth ?qm = Depth qm - int (length ?rs)"
    by (simp add: Depth_def set_lane_def min_def)
  ultimately show ?thesis
    using d c drained_inv [OF assms(1), of c] assms(3)
    by (intro exI [of _ ?rs] exI [of _ "indexToPriority (co_p c)"] exI [of _ "indexToType (co_rt c)"]
        exI [of _ "int (co_b c)"] exI [of _ ?qm]) (auto simp: Let_def)
qed

theorem Drain_correct_witness:
  "\<exists>qm rs p rt b qm'. QueueMatrix_Submit (Some (sample_request ''a'' 2 100)) (NewQueueMatrix 16) = Inr (None, qm)
     \<and> QueueMatrix_Drain 8 qm = Some ((rs, p, rt, b), qm') \<and> rs = [sample_request ''a'' 2 100]"
proof -
  let ?r = "sample_request ''a'' 2 100" and ?q = "NewQueueMatrix 16"
  have inv: "qm_inv ?q" "\<not> qm_closed ?q" using NewQueueMatrix_inv by simp_all
  have l: "qm_perQueueCapacity ?q = 1" by (simp add: per_queue_capacity)
  let ?qm = "Signal (set_lane (route ?r) [?r] ?q)"
  have sub: "QueueMatrix_Submit (Some ?r) ?q = Inr (None, ?qm)" using Submit_open [OF inv] l by simp
  have inv': "qm_inv ?qm" "\<not> qm_closed ?qm" using submitted_inv [OF inv(1), of ?r] l inv by auto
  obtain rs p rt b qm' where d: "QueueMatrix_Drain 8 ?qm = Some ((rs, p, rt, b), qm')"
    "rs = [] \<longleftrightarrow> queued ?qm = []"
    "lane ?qm (Coord (priorityIndex p) (typeIndex rt) (bucketIndex b))
       = rs @ lane qm' (Coord (priorityIndex p) (typeIndex rt) (bucketIndex b))"
    using Drain_correct [OF inv', of 8] by (auto simp: Let_def)
  have "queued ?qm \<noteq> []" by (auto simp: queued_nil_iff intro!: exI [of _ "route ?r"])
  with d(2,3) have "rs = [?r]" by (cases rs) (auto simp: l split: if_splits)
  with sub d(1) show ?thesis by blast
qed

lemma mset_by_lane: "mset xs = (\<Sum>c\<leftarrow>walk_coords. mset (on_lane c xs))"
proof (induction xs)
  case Nil
  have "(\<Sum>c\<leftarrow>cs. {#} :: InferenceRequest multiset) = {#}" for cs :: "coord list"
    by (induction cs) auto
  then show ?case by simp
next
  case (Cons r xs)
  have "(\<Sum>c\<leftarrow>cs. mset (on_lane c (r # xs)))
      = (\<Sum>c\<leftarrow>cs. mset (on_lane c xs)) + (if route r \<in> set cs then {#r#} else {#})"
    if "distinct cs" for cs
    using that by (induction cs) (simp_all del: mset_filter)
  from this [OF distinct_walk_coords] Cons.IH show ?case by (simp del: mset_filter)
qed

lemma log_inv_mset:
  assumes inv: "log_inv (qm, acc, out)" shows "mset acc = mset out + mset (queued qm)"
proof -
  have "mset (on_lane c acc) = mset (on_lane c out) + mset (on_lane c (queued qm))" if "coord_ok c" for c
    using inv that on_lane_queued [of qm c] by (simp add: log_inv_def del: mset_filter)
  then have "mset acc = (\<Sum>c\<leftarrow>walk_coords. mset (on_lane c out) + mset (on_lane c (queued qm)))"
    by (subst mset_by_lane) (intro arg_cong [where f = sum_list] map_cong, simp_all del: mset_filter)
  also have "\<dots> = mset out + mset (queued qm)"
    unfolding sum_list_addf mset_by_lane [symmetric] ..
  finally show ?thesis .
qed

text \<open>
  C15: no sequence of operations on an open matrix panics or fails to return, and for every
  sub-queue the requests accepted into it are, in order, those handed out followed by those still
  queued: nothing is lost, duplicated or reordered within a sub-queue. The depth counter is the
  number of queued requests.
\<close>

theorem matrix_runs:
  "\<exists>qm acc out. run_ops qm_step ops (NewQueueMatrix cap, [], []) = Some (qm, acc, out)
     \<and> qm_inv qm \<and> Depth qm = int (length (queued qm))
     \<and> mset acc = mset out + mset (queued qm)
     \<and> (\<forall>p rt b. let c = Coord (priorityIndex p) (typeIndex rt) (bucketIndex b) in
          on_lane c acc = on_lane c out @ lane qm c)"
proof -
  obtain qm acc out where run: "run_ops qm_step ops (NewQueueMatrix cap, [], []) = Some (qm, acc, out)"
    and inv: "log_inv (qm, acc, out)"
    using qm.run_total [of ops cap] by (metis prod_cases3)
  then show ?thesis
    using log_inv_mset [OF inv] by (auto simp: log_inv_def Depth_def go_inv Let_def)
qed

lemma sorted_by_lane:
  assumes "sorted_wrt (<) cs" "\<And>c r. c \<in> set cs \<Longrightarrow> r \<in> set (f c) \<Longrightarrow> route r = c"
  shows "sorted_wrt (\<lambda>r r'. route r \<le> route r') (concat (map f cs))"
  using assms
proof (induction cs)
  case Nil
  then show ?case by simp
next
  case (Cons a cs)
  have "\<forall>r\<in>set (f a). route r = a" using Cons.prems(2) by simp
  then have "sorted_wrt (\<lambda>r r'. route r \<le> route r') (f a)"
    by (simp add: sorted_wrt_iff_nth_less)
  moreover have "\<forall>r\<in>set (f a). \<forall>r'\<in>set (concat (map f cs)). route r \<le> route r'"
  proof (intro ballI)
    fix r r' assume r: "r \<in> set (f a)" "r' \<in> set (concat (map f cs))"
    then obtain c where "c \<in> set cs" "r' \<in> set (f c)" by auto
    then have "a < route r'" using Cons.prems by auto
    moreover have "route r = a" using Cons.prems(2) r(1) by simp
    ultimately show "route r \<le> route r'" by simp
  qed
  ultimately show ?case using Cons by (simp add: sorted_wrt_append)
qed

text \<open>
  \<open>DrainAll\<close> returns every queued request exactly once, highest priority first and each
  sub-queue in arrival order, leaves the matrix empty with the depth at zero, and keeps the
  invariant, on an open and on a closed matrix.
\<close>

theorem DrainAll_correct:
  assumes "qm_inv qm"
  shows "\<exists>rs qm'. QueueMatrix_DrainAll qm = (rs, qm') \<and> qm_inv qm'
    \<and> (\<forall>c. coord_ok c \<longrightarrow> lane qm' c = [] \<and> filter (\<lambda>r. route r = c) rs = lane qm c)
    \<and> length rs = length (queued qm) \<and> Depth qm' = 0
    \<and> sorted_wrt (\<lambda>r r'. priorityIndex (req_Priority r') \<le> priorityIndex (req_Priority r)) rs"
proof -
  have "sorted_wrt (\<lambda>r r'. route r \<le> route r') (queued qm)"
    unfolding queued_def using sorted_walk_coords by (rule sorted_by_lane) (rule qm_invD(5) [OF assms])
  then have "sorted_wrt (\<lambda>r r'. priorityIndex (req_Priority r') \<le> priorityIndex (req_Priority r)) (queued qm)"
    by (rule sorted_wrt_mono_rel [rotated]) (auto simp: less_eq_coord_def route_def)
  then show ?thesis
    using DrainAll_inv [OF assms] on_lane_queued [OF assms]
    by (auto simp: DrainAll_eq Depth_def lane_def)
qed

theorem DrainAll_correct_witness:
  "\<exists>rs qm'. QueueMatrix_DrainAll (NewQueueMatrix 16) = (rs, qm') \<and> rs = [] \<and> Depth qm' = 0"
proof -
  have "qm_inv (NewQueueMatrix 16)" using NewQueueMatrix_inv by simp
  from DrainAll_correct [OF this] show ?thesis
    by (auto simp: DrainAll_eq queued_nil_iff)
qed

text \<open>
  C16: after \<open>Close\<close>, draining a sub-queue that still holds requests, but fewer than asked for,
  never returns: the \<open>break\<close> in \<open>drainSubqueue\<close> leaves the \<open>select\<close>, not the loop. When the
  sub-queue holds at least as many as asked for, the call returns them as on an open matrix.
\<close>

theorem Drain_after_Close:
  assumes "qm_inv qm" "\<not> qm_closed qm" "QueueMatrix_Close qm = Inr qm'"
    and "find (\<lambda>c. lane qm c \<noteq> []) walk_coords = Some c" "0 < mx"
  shows "(QueueMatrix_Drain mx qm' = None \<longleftrightarrow> int (length (lane qm c)) < mx)
    \<and> (mx \<le> int (length (lane qm c)) \<longrightarrow> QueueMatrix_Drain mx qm' = Some (drained_at c mx qm'))"
proof -
  note c = find_walk_least [OF assms(4)]
  have close: "qm_closed qm'" "lane qm' = lane qm" "qm_inv qm'"
    using Close_inv [OF assms(1)] assms(3) by auto
  have cl: "ch_closed (qm_queues qm' c)" using close c by (simp add: go_inv)
  have walk: "drain_walk cs mx qm' = (case drainSubqueue c mx qm' of
        None \<Rightarrow> None
      | Some (rs, q) \<Rightarrow> Some ((rs, indexToPriority (co_p c), indexToType (co_rt c), int (co_b c)), q))"
    if "find (\<lambda>c. lane qm' c \<noteq> []) cs = Some c"
      "\<And>rs q. drainSubqueue c mx qm' = Some (rs, q) \<Longrightarrow> rs \<noteq> []" for cs
    using that(1) that(2) by (induction cs) (auto simp: lane_def split: if_splits option.splits)
  show ?thesis
  proof (cases "int (length (lane qm c)) < mx")
    case True
    then have "drainSubqueue c mx qm' = None"
      using drain_loop_hangs [of "qm_queues qm' c" "[]" mx] cl close(2)
      by (simp add: drainSubqueue_def lane_def fun_eq_iff)
    then show ?thesis
      using walk [of walk_coords] True assms(4,5) close(2) by (simp add: QueueMatrix_Drain_def)
  next
    case False
    then have d: "drainSubqueue c mx qm' = Some (take (nat mx) (lane qm' c), set_lane c (drop (nat mx) (lane qm' c)) qm')"
      using drain_loop_takes [of "qm_queues qm' c" mx "[]"] close(2) assms(5)
      by (auto simp: drainSubqueue_def set_lane_def lane_def Let_def fun_eq_iff)
    moreover have "take (nat mx) (lane qm' c) \<noteq> []" using c close(2) assms(5) by simp
    ultimately show ?thesis
      using walk [of walk_coords] False assms(4,5) close(2)
      by (simp add: QueueMatrix_Drain_def drained_at_def)
  qed
qed

theorem Drain_after_Close_witness:
  "\<exists>qm qm'. QueueMatrix_Submit (Some (sample_request ''a'' 2 100)) (NewQueueMatrix 16) = Inr (None, qm)
     \<and> QueueMatrix_Close qm = Inr qm' \<and> QueueMatrix_Drain 8 qm' = None"
proof -
  let ?r = "sample_request ''a'' 2 100" and ?q = "NewQueueMatrix 16"
  have inv: "qm_inv ?q" "\<not> qm_closed ?q" using NewQueueMatrix_inv by simp_all
  have l: "qm_perQueueCapacity ?q = 1" by (simp add: per_queue_capacity)
  let ?qm = "Signal (set_lane (route ?r) [?r] ?q)"
  have sub: "QueueMatrix_Submit (Some ?r) ?q = Inr (None, ?qm)" using Submit_open [OF inv] l by simp
  have inv': "qm_inv ?qm" "\<not> qm_closed ?qm" using submitted_inv [OF inv(1), of ?r] l inv by auto
  obtain qm' where cl: "QueueMatrix_Close ?qm = Inr qm'" using Close_inv [OF inv'(1)] by auto
  have "find (\<lambda>c. lane ?qm c \<noteq> []) walk_coords = Some (Coord 2 0 0)"
    by (simp add: l route_sample priorityIndex_def walk_coords_def dims upt_rec)
  moreover have "lane ?qm (Coord 2 0 0) = [?r]" by (simp add: route_sample priorityIndex_def)
  ultimately have "QueueMatrix_Drain 8 qm' = None"
    using Drain_after_Close [OF inv' cl, of "Coord 2 0 0" 8] by simp
  with sub cl show ?thesis by blast
qed

lemma run_ops_append:
  "run_ops step (xs @ ys) s = (case run_ops step xs s of None \<Rightarrow> None | Some s' \<Rightarrow> run_ops step ys s')"
  by (induction xs arbitrary: s) (auto split: option.splits)

definition request_at :: "coord \<Rightarrow> InferenceRequest" where
  "request_at c = (sample_request ''a'' (int (co_p c)) ([128, 512, 1024, 2048, 4096, 5000] ! co_b c))
     \<lparr>req_RequestType := indexToType (co_rt c)\<rparr>"

lemma route_request_at: "coord_ok c \<Longrightarrow> route (request_at c) = c"
proof -
  assume ok: "coord_ok c"
  then have "co_p c \<in> {0, 1, 2, 3}" "co_b c \<in> {0, 1, 2, 3, 4, 5}" by (auto simp: coord_ok_def dims)
  moreover have "bucketIndex (TokenBucket (request_at c)) = co_b c"
    using calculation(2) by (auto simp: request_at_def sample_request_def TokenBucket_eq bucketIndex_def dims Let_def)
  moreover have "priorityIndex (req_Priority (request_at c)) = co_p c"
    using calculation(1) by (auto simp: request_at_def sample_request_def priorityIndex_def)
  ultimately show "route (request_at c) = c"
    using ok by (auto simp: route_def request_at_def coord_ok_def intro: coord.expand)
qed

lemma fill_lane:
  assumes "log_inv (qm, acc, out)" "coord_ok c"
    "int (length (lane qm c) + n) \<le> qm_perQueueCapacity qm"
  shows "\<exists>qm' acc'. run_ops qm_step (replicate n (OpSubmit (Some (request_at c)))) (qm, acc, out) = Some (qm', acc', out)
    \<and> log_inv (qm', acc', out) \<and> qm_perQueueCapacity qm' = qm_perQueueCapacity qm
    \<and> lane qm' = (lane qm)(c := lane qm c @ replicate n (request_at c))"
  using assms
proof (induction n arbitrary: qm acc)
  case 0
  then show ?case by simp
next
  case (Suc n)
  let ?r = "request_at c"
  let ?qm = "Signal (set_lane c (lane qm c @ [?r]) qm)"
  have r: "route ?r = c" using Suc.prems(2) by (rule route_request_at)
  have step: "qm_step (OpSubmit (Some ?r)) (qm, acc, out) = Some (?qm, acc @ [?r], out)"
    using Suc.prems Submit_open [of qm ?r] by (simp add: r log_inv_def)
  moreover have "log_inv (?qm, acc @ [?r], out)"
    using log_step [OF Suc.prems(1), of "OpSubmit (Some ?r)"] step by auto
  ultimately show ?case
    using Suc.IH [of ?qm "acc @ [?r]"] Suc.prems
    by (auto simp: fun_eq_iff replicate_app_Cons_same)
qed

lemma fill_lanes:
  assumes "distinct cs" "\<forall>c\<in>set cs. coord_ok c" "log_inv (qm, acc, out)"
    "\<forall>c\<in>set cs. lane qm c = []" "qm_perQueueCapacity qm = int n"
  shows "\<exists>ops qm' acc'. run_ops qm_step ops (qm, acc, out) = Some (qm', acc', out)
    \<and> log_inv (qm', acc', out)
    \<and> (\<forall>c. lane qm' c = (if c \<in> set cs then replicate n (request_at c) else lane qm c))"
  using assms
proof (induction cs arbitrary: qm acc)
  case Nil
  then have "run_ops qm_step [] (qm, acc, out) = Some (qm, acc, out)" by simp
  with Nil show ?case by fastforce
next
  case (Cons a cs)
  obtain q1 a1 where q1: "run_ops qm_step (replicate n (OpSubmit (Some (request_at a)))) (qm, acc, out) = Some (q1, a1, out)"
    "log_inv (q1, a1, out)" "qm_perQueueCapacity q1 = int n"
    "lane q1 = (lane qm)(a := replicate n (request_at a))"
    using fill_lane [of qm acc out a n] Cons.prems by auto
  then have "\<forall>c\<in>set cs. lane q1 c = []" using Cons.prems by auto
  with Cons.IH [of q1 a1] Cons.prems q1 obtain ops q2 a2 where
    q2: "run_ops qm_step ops (q1, a1, out) = Some (q2, a2, out)" "log_inv (q2, a2, out)"
    "\<forall>c. lane q2 c = (if c \<in> set cs then replicate n (request_at c) else lane q1 c)"
    by auto
  have "run_ops qm_step (replicate n (OpSubmit (Some (request_at a))) @ ops) (qm, acc, out) = Some (q2, a2, out)"
    using q1(1) q2(1) by (simp add: run_ops_append)
  moreover have "\<forall>c. lane q2 c = (if c \<in> set (a # cs) then replicate n (request_at c) else lane qm c)"
    using q1(4) q2(3) Cons.prems(1) by auto
  ultimately show ?case using q2(2) by blast
qed

lemma length_queued_le:
  assumes "\<And>c. coord_ok c \<Longrightarrow> length (lane qm c) \<le> n" shows "length (queued qm) \<le> 48 * n"
proof -
  have "length (concat (map f cs)) \<le> length cs * n" if "\<forall>c\<in>set cs. length (f c) \<le> n"
    for f :: "coord \<Rightarrow> InferenceRequest list" and cs
    using that by (induction cs) auto
  from this [of walk_coords "lane qm"] assms show ?thesis by (simp add: queued_def length_walk_coords)
qed

lemma length_queued_eq:
  assumes "\<And>c. coord_ok c \<Longrightarrow> length (lane qm c) = n" shows "length (queued qm) = 48 * n"
proof -
  have "length (concat (map f cs)) = length cs * n" if "\<forall>c\<in>set cs. length (f c) = n"
    for f :: "coord \<Rightarrow> InferenceRequest list" and cs
    using that by (induction cs) auto
  from this [of walk_coords "lane qm"] assms show ?thesis by (simp add: queued_def length_walk_coords)
qed

definition per_lane :: "qm_log \<Rightarrow> int" where
  "per_lane l = qm_perQueueCapacity (fst l)"

lemma drain_walk_per:
  "drain_walk cs n qm = Some (x, qm') \<Longrightarrow> qm_perQueueCapacity qm' = qm_perQueueCapacity qm"
  by (induction cs arbitrary: qm)
    (auto simp: drainSubqueue_def Let_def split: if_splits option.splits)

lemma qm_step_per: "qm_step e l = Some l' \<Longrightarrow> per_lane l' = per_lane l"
proof -
  assume step: "qm_step e l = Some l'"
  obtain qm acc out where l: "l = (qm, acc, out)" by (cases l)
  show ?thesis
    using step unfolding l per_lane_def
    by (cases e)
      (auto simp: QueueMatrix_Submit_def QueueMatrix_Drain_def QueueMatrix_DrainFrom_def
          DrainAll_eq drainSubqueue_def Let_def
        dest!: drain_walk_per
        split: option.splits send_result.splits if_splits recv_result.splits prod.splits)
qed

lemma run_ops_per: "run_ops qm_step ops l = Some l' \<Longrightarrow> per_lane l' = per_lane l"
  by (induction ops arbitrary: l) (auto split: option.splits dest: qm_step_per)

text \<open>
  a matrix built for a total capacity never holds more than 48 times the sixteenth of it,
  rounded up, nor more than that sixteenth in one sub-queue; and some run fills it that far: the
  total it accepts is up to three times the configured one, while a single kind of traffic is
  refused at a sixteenth of it.
\<close>

theorem capacity_bounds:
  assumes "1 \<le> cap" "cap < 2 ^ 62"
  shows "(\<forall>ops qm acc out. run_ops qm_step ops (NewQueueMatrix cap, [], []) = Some (qm, acc, out) \<longrightarrow>
      (\<forall>c. int (length (lane qm c)) \<le> (cap + 15) div 16) \<and> int (length (queued qm)) \<le> 48 * ((cap + 15) div 16))
    \<and> (\<exists>ops qm acc out. run_ops qm_step ops (NewQueueMatrix cap, [], []) = Some (qm, acc, out)
         \<and> int (length (queued qm)) = 48 * ((cap + 15) div 16))"
proof (intro conjI allI impI)
  define n where "n = nat ((cap + 15) div 16)"
  have n: "int n = (cap + 15) div 16" using assms by (simp add: n_def)
  note per = per_queue_capacity [OF assms]
  {
    fix ops qm acc out c
    assume run: "run_ops qm_step ops (NewQueueMatrix cap, [], []) = Some (qm, acc, out)"
    have "qm_inv qm" using qm.run_inv [OF run] by (simp add: log_inv_def)
    moreover have "qm_perQueueCapacity qm = int n"
      using run_ops_per [OF run] per by (simp add: per_lane_def n)
    ultimately have le: "length (lane qm c) \<le> n" for c by (simp add: qm_inv_def)
    show "int (length (lane qm c)) \<le> (cap + 15) div 16" using le [of c] n by linarith
    show "int (length (queued qm)) \<le> 48 * ((cap + 15) div 16)"
      using length_queued_le [OF le] n by linarith
  }
  have "log_inv (NewQueueMatrix cap, [], [])" by (rule qm.init_inv)
  moreover have "\<forall>c. lane (NewQueueMatrix cap) c = []"
    by (simp add: NewQueueMatrix_def lane_def Let_def)
  ultimately obtain ops qm acc where run: "run_ops qm_step ops (NewQueueMatrix cap, [], []) = Some (qm, acc, [])"
    and "\<forall>c. coord_ok c \<longrightarrow> length (lane qm c) = n"
    using fill_lanes [of walk_coords "NewQueueMatrix cap" "[]" "[]" n] per n by force
  then have "length (queued qm) = 48 * n" by (intro length_queued_eq) simp
  with run n show "\<exists>ops qm acc out. run_ops qm_step ops (NewQueueMatrix cap, [], []) = Some (qm, acc, out)
      \<and> int (length (queued qm)) = 48 * ((cap + 15) div 16)"
    by (intro exI [of _ ops] exI [of _ qm] exI [of _ acc] exI [of _ "[]"]) simp
qed

theorem capacity_bounds_witness:
  "\<exists>ops qm acc out. run_ops qm_step ops (NewQueueMatrix 16, [], []) = Some (qm, acc, out)
     \<and> length (queued qm) = 48"
  using capacity_bounds [of 16] by auto

end
