(* ===== verification/Batcher.thy ===== *)
theory Batcher
  imports QueueMatrix Strategies
begin

text \<open>
  internal/batcher: the adaptive batcher. Its single goroutine forms batches from the queue
  matrix and sends them to the worker pool's priority channels; \<open>Submit\<close>, \<open>Stop\<close>, \<open>SetStrategy\<close> and
  the metrics push come from other goroutines. A blocking \<open>select\<close> is modelled by what the
  environment does while the goroutine waits, a list of events that are calls of those very
  operations, and by the case that fires.

  Strategies live in a store and the batcher holds their addresses, since a strategy captured by
  \<open>formBatch\<close> is still updated by it when \<open>SetStrategy\<close> has installed another one. Result channels
  live in a store as well. The last three fields of the state are history variables: the requests
  that \<open>Submit\<close> accepted, the batches sent, and the requests told of the shutdown.

  A call of \<open>Submit\<close> has two steps, since others can act between its own checks and the queue: \<open>Stop\<close>,
  and the batcher's last steps. The queue's part is one step, for its read lock keeps \<open>Close\<close> out from
  the check of \<open>closed\<close> to the send. The shutdown has two steps as well: \<open>DrainAll\<close> with its notices, and
  then \<open>Close\<close>, so that a request can still be accepted in between. (One that is sent while \<open>DrainAll\<close>
  walks comes before it or after it, as its sub-queue is reached later or has been left.)
\<close>

section \<open>Outcomes\<close>

text \<open>
  A call returns, panics, loops for ever, still waits when the given inputs are used up, or was
  given a choice of the environment that cannot happen in its state.
\<close>

datatype 'a outcome = Ret 'a | Panic go_panic | Hangs | Waiting | NotReady

fun and_then :: "'a outcome \<Rightarrow> ('a \<Rightarrow> 'b outcome) \<Rightarrow> 'b outcome" where
  "and_then (Ret x) f = f x"
| "and_then (Panic e) f = Panic e"
| "and_then Hangs f = Hangs"
| "and_then Waiting f = Waiting"
| "and_then NotReady f = NotReady"

fun of_sum :: "go_panic + 'a \<Rightarrow> 'a outcome" where
  "of_sum (Inl e) = Panic e"
| "of_sum (Inr x) = Ret x"

fun of_option :: "'a option \<Rightarrow> 'a outcome" where
  "of_option None = Hangs"
| "of_option (Some x) = Ret x"

section \<open>batcher.go\<close>

record BatcherConfig =
  bat_MaxBatchSize :: int
  bat_MinBatchSize :: int
  bat_QueueCapacity :: int
  bat_BatchChanSize :: int

record BatcherMetrics =
  bm_QueueDepth :: int
  bm_BatchesFormed :: int
  bm_RequestsQueued :: int
  bm_AvgBatchSize :: f64
  bm_ActiveStrategy :: string

definition NewBatcherConfig :: "BatchingConfig \<Rightarrow> WorkerConfig \<Rightarrow> BatcherConfig" where
  "NewBatcherConfig batching workers =
     (let batchChanSize = wc_Count workers;
          batchChanSize = (if batchChanSize < 1 then 1 else batchChanSize)
      in \<lparr>bat_MaxBatchSize = bc_MaxBatchSize batching, bat_MinBatchSize = bc_MinBatchSize batching,
          bat_QueueCapacity = bc_QueueCapacity batching, bat_BatchChanSize = batchChanSize\<rparr>)"

section \<open>The state\<close>

definition dispatchBlockedThreshold :: duration where "dispatchBlockedThreshold = millisecond"
definition minFormBatchWait :: duration where "minFormBatchWait = millisecond"

record AdaptiveBatcher =
  ab_cfg :: BatcherConfig
  ab_qm :: QueueMatrix
  ab_strategy :: "nat option"
  ab_metrics :: "StrategyMetrics option"
  ab_batchChans :: "nat \<Rightarrow> Batch chan option"
  ab_hooked :: bool
  ab_startOnce :: bool
  ab_stopOnce :: bool
  ab_stopCh :: bool
  ab_stoppedCh :: bool
  ab_started :: bool
  ab_stopping :: bool
  ab_entering :: "InferenceRequest list"
  ab_batchesFormed :: int
  ab_requestsQueued :: int
  ab_totalRequestsInBatches :: int
  ab_store :: "nat \<Rightarrow> Strategy"
  ab_results :: results
  ab_ctxDone :: bool
  ab_hookCalls :: "Priority list"
  ab_accepted :: "InferenceRequest list"
  ab_sent :: "Batch list"
  ab_notified :: "InferenceRequest list"

text \<open>
  \<open>ab_stopCh\<close> and \<open>ab_stoppedCh\<close> say that the channel of that name is closed, \<open>ab_ctxDone\<close> that the
  context the loop runs with is cancelled; \<open>ab_entering\<close> holds the requests of the goroutines that are
  in \<open>Submit\<close>, between its checks and the queue; \<open>store\<close> and \<open>results\<close> are the shared objects.
\<close>

definition NewAdaptiveBatcher ::
  "BatcherConfig \<Rightarrow> nat option \<Rightarrow> (nat \<Rightarrow> Batch chan option) \<Rightarrow> (nat \<Rightarrow> Strategy) \<Rightarrow> results
     \<Rightarrow> AdaptiveBatcher" where
  "NewAdaptiveBatcher cfg strategy batchChans store results =
     (let cfg = (if bat_MaxBatchSize cfg < 1 then cfg\<lparr>bat_MaxBatchSize := 1\<rparr> else cfg);
          cfg = (if bat_QueueCapacity cfg < 1 then cfg\<lparr>bat_QueueCapacity := 1\<rparr> else cfg)
      in \<lparr>ab_cfg = cfg, ab_qm = NewQueueMatrix (bat_QueueCapacity cfg), ab_strategy = strategy,
          ab_metrics = None, ab_batchChans = batchChans, ab_hooked = False, ab_startOnce = False,
          ab_stopOnce = False, ab_stopCh = False, ab_stoppedCh = False, ab_started = False,
          ab_stopping = False, ab_entering = [], ab_batchesFormed = 0, ab_requestsQueued = 0,
          ab_totalRequestsInBatches = 0, ab_store = store, ab_results = results,
          ab_ctxDone = False, ab_hookCalls = [], ab_accepted = [], ab_sent = [],
          ab_notified = []\<rparr>)"

section \<open>Operations of the other goroutines\<close>

definition SetStrategy :: "nat option \<Rightarrow> AdaptiveBatcher \<Rightarrow> AdaptiveBatcher" where
  "SetStrategy s b = (case s of None \<Rightarrow> b | Some a \<Rightarrow> b\<lparr>ab_strategy := Some a\<rparr>)"

definition UpdateStrategyMetrics :: "StrategyMetrics \<Rightarrow> AdaptiveBatcher \<Rightarrow> AdaptiveBatcher" where
  "UpdateStrategyMetrics m b = b\<lparr>ab_metrics := Some m\<rparr>"

definition SetDispatchBlockedHook :: "bool \<Rightarrow> AdaptiveBatcher \<Rightarrow> AdaptiveBatcher" where
  "SetDispatchBlockedHook fn b = b\<lparr>ab_hooked := fn\<rparr>"

definition QueueDepth :: "AdaptiveBatcher \<Rightarrow> int" where
  "QueueDepth b = Depth (ab_qm b)"

definition activeStrategy :: "AdaptiveBatcher \<Rightarrow> nat option" where
  "activeStrategy b = ab_strategy b"

definition activeStrategyName :: "AdaptiveBatcher \<Rightarrow> string" where
  "activeStrategyName b =
     (case activeStrategy b of None \<Rightarrow> '''' | Some a \<Rightarrow> Name (ab_store b a))"

definition currentMetrics :: "AdaptiveBatcher \<Rightarrow> StrategyMetrics option" where
  "currentMetrics b = ab_metrics b"

definition Metrics :: "AdaptiveBatcher \<Rightarrow> BatcherMetrics" where
  "Metrics b =
     (let batches = ab_batchesFormed b; totalReq = ab_totalRequestsInBatches b;
          avg = (if batches > 0 then f_div (f_of_int totalReq) (f_of_int batches) else Fin 0)
      in \<lparr>bm_QueueDepth = Depth (ab_qm b), bm_BatchesFormed = batches,
          bm_RequestsQueued = ab_requestsQueued b, bm_AvgBatchSize = avg,
          bm_ActiveStrategy = activeStrategyName b\<rparr>)"

text \<open>\<open>ctx_err\<close> is \<open>ctx.Err()\<close> of the caller's context, \<open>None\<close> when it is nil or not done.\<close>

definition Submit_checks :: "error option \<Rightarrow> InferenceRequest option \<Rightarrow> AdaptiveBatcher \<Rightarrow> error + InferenceRequest" where
  "Submit_checks ctx_err req b =
     (case req of
        None \<Rightarrow> Inl ErrInvalidRequest
      | Some r \<Rightarrow> if ab_stopping b then Inl ErrShuttingDown
                  else (case ctx_err of Some e \<Rightarrow> Inl e | None \<Rightarrow> Inr r))"

definition Submit_queues :: "InferenceRequest \<Rightarrow> AdaptiveBatcher \<Rightarrow> (error option \<times> AdaptiveBatcher) outcome" where
  "Submit_queues r b =
     and_then (of_sum (QueueMatrix_Submit (Some r) (ab_qm b))) (\<lambda>(err, qm).
       case err of
         Some e \<Rightarrow> Ret (Some e, b\<lparr>ab_qm := qm\<rparr>)
       | None \<Rightarrow> Ret (None, b\<lparr>ab_qm := qm,
           ab_requestsQueued := wrap64 (ab_requestsQueued b + 1),
           ab_accepted := ab_accepted b @ [r]\<rparr>))"

text \<open>A whole call that nobody disturbs.\<close>

definition Submit ::
  "error option \<Rightarrow> InferenceRequest option \<Rightarrow> AdaptiveBatcher \<Rightarrow> (error option \<times> AdaptiveBatcher) outcome" where
  "Submit ctx_err req b =
     (case Submit_checks ctx_err req b of Inl e \<Rightarrow> Ret (Some e, b) | Inr r \<Rightarrow> Submit_queues r b)"

lemma Submit_cases:
  "Submit ctx_err req b =
     (case req of
        None \<Rightarrow> Ret (Some ErrInvalidRequest, b)
      | Some r \<Rightarrow>
          if ab_stopping b then Ret (Some ErrShuttingDown, b)
          else (case ctx_err of Some e \<Rightarrow> Ret (Some e, b) | None \<Rightarrow> Submit_queues r b))"
  by (simp add: Submit_def Submit_checks_def split: option.split)

lemmas Submit_whole = Submit_cases Submit_queues_def

text \<open>The first two statements of \<open>Stop\<close>.\<close>

definition signal_stop :: "AdaptiveBatcher \<Rightarrow> AdaptiveBatcher" where
  "signal_stop b =
     (let b = b\<lparr>ab_stopping := True\<rparr>
      in if ab_stopOnce b then b else b\<lparr>ab_stopOnce := True, ab_stopCh := True\<rparr>)"

text \<open>The two steps of a call of \<open>Submit\<close>: it passes its checks, or has returned; one that has passed them goes on.\<close>

datatype event =
    EvEnter "error option" "InferenceRequest option"
  | EvQueue nat
  | EvStop
  | EvCancel
  | EvSetStrategy "nat option"
  | EvMetrics StrategyMetrics
  | EvTake nat

fun apply_event :: "event \<Rightarrow> AdaptiveBatcher \<Rightarrow> AdaptiveBatcher outcome" where
  "apply_event (EvEnter ctx_err req) b =
     (case Submit_checks ctx_err req b of
        Inl e \<Rightarrow> Ret b
      | Inr r \<Rightarrow> Ret (b\<lparr>ab_entering := ab_entering b @ [r]\<rparr>))"
| "apply_event (EvQueue i) b =
     (if i < length (ab_entering b) then
        and_then (Submit_queues (ab_entering b ! i)
            (b\<lparr>ab_entering := take i (ab_entering b) @ drop (Suc i) (ab_entering b)\<rparr>)) (\<lambda>(_, b'). Ret b')
      else Ret b)"
| "apply_event EvStop b = Ret (signal_stop b)"
| "apply_event EvCancel b = Ret (b\<lparr>ab_ctxDone := True\<rparr>)"
| "apply_event (EvSetStrategy s) b = Ret (SetStrategy s b)"
| "apply_event (EvMetrics m) b = Ret (UpdateStrategyMetrics m b)"
| "apply_event (EvTake i) b =
     (case ab_batchChans b i of
        None \<Rightarrow> Ret b
      | Some ch \<Rightarrow>
          (case try_recv ch of
             Received _ ch' \<Rightarrow> Ret (b\<lparr>ab_batchChans := (ab_batchChans b)(i := Some ch')\<rparr>)
           | _ \<Rightarrow> Ret b))"

fun apply_events :: "event list \<Rightarrow> AdaptiveBatcher \<Rightarrow> AdaptiveBatcher outcome" where
  "apply_events [] b = Ret b"
| "apply_events (e # es) b = and_then (apply_event e b) (apply_events es)"

section \<open>Shutdown\<close>

definition shutdown_result :: "InferenceRequest \<Rightarrow> RequestResult" where
  "shutdown_result req = \<lparr>res_RequestID = req_ID req, res_Result = ANil,
     res_Error = Some ErrShuttingDown, res_LatencyMs = Fin 0\<rparr>"

definition notifyShuttingDown :: "InferenceRequest \<Rightarrow> AdaptiveBatcher \<Rightarrow> AdaptiveBatcher" where
  "notifyShuttingDown req b =
     b\<lparr>ab_notified := ab_notified b @ [req],
       ab_results := send_result req (shutdown_result req) (ab_results b)\<rparr>"

text \<open>\<open>drain\<close> up to \<open>Close\<close>, then \<open>Close\<close>; \<open>late\<close> is what the others do in between.\<close>

definition drain_all :: "AdaptiveBatcher \<Rightarrow> AdaptiveBatcher" where
  "drain_all b =
     (let (remaining, qm) = QueueMatrix_DrainAll (ab_qm b) in fold notifyShuttingDown remaining (b\<lparr>ab_qm := qm\<rparr>))"

definition drain_close :: "AdaptiveBatcher \<Rightarrow> AdaptiveBatcher outcome" where
  "drain_close b = and_then (of_sum (QueueMatrix_Close (ab_qm b))) (\<lambda>qm. Ret (b\<lparr>ab_qm := qm\<rparr>))"

definition drain :: "event list \<Rightarrow> AdaptiveBatcher \<Rightarrow> AdaptiveBatcher outcome" where
  "drain late b = and_then (apply_events late (drain_all b)) drain_close"

definition failBatch :: "Batch option \<Rightarrow> AdaptiveBatcher \<Rightarrow> AdaptiveBatcher" where
  "failBatch batch b =
     (case batch of None \<Rightarrow> b | Some bt \<Rightarrow> fold notifyShuttingDown (batch_Requests bt) b)"

definition shouldExit :: "AdaptiveBatcher \<Rightarrow> bool" where
  "shouldExit b \<longleftrightarrow> ab_ctxDone b \<or> ab_stopCh b"

section \<open>Forming a batch\<close>

definition strategyShouldFlush ::
  "nat option \<Rightarrow> InferenceRequest list \<Rightarrow> AdaptiveBatcher \<Rightarrow> bool" where
  "strategyShouldFlush strategy reqs b =
     (case strategy of
        None \<Rightarrow> True
      | Some a \<Rightarrow> ShouldFlush (ab_store b a) reqs (Depth (ab_qm b)))"

definition nextTimeout ::
  "(f64 \<Rightarrow> int) \<Rightarrow> nat option \<Rightarrow> AdaptiveBatcher \<Rightarrow> duration \<times> AdaptiveBatcher" where
  "nextTimeout oob strategy b =
     (case strategy of
        None \<Rightarrow> (minFormBatchWait, b)
      | Some a \<Rightarrow>
          (let (timeout, s') = CalculateTimeout oob (ab_store b a) (Depth (ab_qm b)) (currentMetrics b);
               b' = b\<lparr>ab_store := (ab_store b)(a := s')\<rparr>
           in (if timeout < minFormBatchWait then minFormBatchWait else timeout, b')))"

text \<open>
  One wait of the accumulation window: what the other goroutines do meanwhile, the time since the
  window opened, and the case that fires. The timer's case is ready once the timeout has passed.
\<close>

datatype wake = WakeEvent | WakeTimer | WakeCtx | WakeStop

type_synonym round = "event list \<times> duration \<times> wake"

definition wake_ready :: "duration \<Rightarrow> duration \<Rightarrow> wake \<Rightarrow> AdaptiveBatcher \<Rightarrow> bool" where
  "wake_ready timeout elapsed w b =
     (case w of
        WakeEvent \<Rightarrow> ch_buf (EventChan (ab_qm b)) \<noteq> []
      | WakeTimer \<Rightarrow> timeout \<le> elapsed
      | WakeCtx \<Rightarrow> ab_ctxDone b
      | WakeStop \<Rightarrow> ab_stopCh b)"

definition recv_event :: "AdaptiveBatcher \<Rightarrow> AdaptiveBatcher" where
  "recv_event b =
     (case try_recv (EventChan (ab_qm b)) of
        Received _ ev \<Rightarrow> b\<lparr>ab_qm := (ab_qm b)\<lparr>qm_eventChan := ev\<rparr>\<rparr>
      | _ \<Rightarrow> b)"

text \<open>The loop of \<open>accumulate\<close>; with no more rounds it is waiting in its \<open>select\<close>.\<close>

fun accumulate_loop ::
  "nat option \<Rightarrow> duration \<Rightarrow> Priority \<Rightarrow> RequestType \<Rightarrow> int \<Rightarrow> InferenceRequest list \<Rightarrow> round list
     \<Rightarrow> AdaptiveBatcher \<Rightarrow> (InferenceRequest list \<times> AdaptiveBatcher) outcome" where
  "accumulate_loop strategy timeout priority rt bucket reqs rounds b =
     (if \<not> int (length reqs) < bat_MaxBatchSize (ab_cfg b) then Ret (reqs, b)
      else
        and_then (of_option (QueueMatrix_DrainFrom priority rt bucket
            (bat_MaxBatchSize (ab_cfg b) - int (length reqs)) (ab_qm b))) (\<lambda>(more, qm).
          let b = b\<lparr>ab_qm := qm\<rparr>;
              reqs = (if length more > 0 then reqs @ more else reqs)
          in if length more > 0 \<and> bat_MaxBatchSize (ab_cfg b) \<le> int (length reqs) then Ret (reqs, b)
             else if strategyShouldFlush strategy reqs b then Ret (reqs, b)
             else if HasHigherPriorityThan priority (ab_qm b) then Ret (reqs, b)
             else
               (case rounds of
                  [] \<Rightarrow> Waiting
                | (events, elapsed, w) # rounds' \<Rightarrow>
                    and_then (apply_events events b) (\<lambda>b.
                      if \<not> wake_ready timeout elapsed w b then NotReady
                      else if w = WakeEvent then
                        accumulate_loop strategy timeout priority rt bucket reqs rounds' (recv_event b)
                      else Ret (reqs, b)))))"

declare accumulate_loop.simps [simp del]

definition accumulate ::
  "(f64 \<Rightarrow> int) \<Rightarrow> nat option \<Rightarrow> InferenceRequest list \<Rightarrow> Priority \<Rightarrow> RequestType \<Rightarrow> int \<Rightarrow> round list
     \<Rightarrow> AdaptiveBatcher \<Rightarrow> (InferenceRequest list \<times> AdaptiveBatcher) outcome" where
  "accumulate oob strategy reqs priority rt bucket rounds b =
     (let (timeout, b) = nextTimeout oob strategy b
      in accumulate_loop strategy timeout priority rt bucket reqs rounds b)"

text \<open>
  What one turn of the loop meets: the events before the first wake and its case, the rounds of
  the window, the identifier and the time of the new batch, the events before the send and which
  case of \<open>dispatch\<close> fires, after how long.
\<close>

datatype sent = SendDone duration | SendCtx | SendStop

record turn =
  tn_events :: "event list"
  tn_wake :: wake
  tn_rounds :: "round list"
  tn_uuid :: string
  tn_now :: instant
  tn_dispatch :: "event list"
  tn_sent :: sent

text \<open>The deferred function of \<open>formBatch\<close>.\<close>

definition rearm :: "AdaptiveBatcher \<Rightarrow> AdaptiveBatcher" where
  "rearm b = (if Depth (ab_qm b) > 0 then b\<lparr>ab_qm := Signal (ab_qm b)\<rparr> else b)"

definition formBatch ::
  "(f64 \<Rightarrow> int) \<Rightarrow> turn \<Rightarrow> AdaptiveBatcher \<Rightarrow> ((Batch option \<times> Priority) \<times> AdaptiveBatcher) outcome" where
  "formBatch oob tn b =
     (let strategy = activeStrategy b in
      and_then (apply_events (tn_events tn) b) (\<lambda>b.
        if tn_wake tn = WakeTimer \<or> \<not> wake_ready 0 0 (tn_wake tn) b then NotReady
        else if tn_wake tn \<noteq> WakeEvent then Ret ((None, 0), rearm b)
        else
          and_then (of_option (QueueMatrix_Drain (bat_MaxBatchSize (ab_cfg b)) (ab_qm (recv_event b))))
            (\<lambda>((reqs, priority, rt, bucket), qm).
              let b = (recv_event b)\<lparr>ab_qm := qm\<rparr> in
              if length reqs = 0 then Ret ((None, 0), rearm b)
              else
                and_then
                  (if int (length reqs) < bat_MaxBatchSize (ab_cfg b)
                      \<and> \<not> strategyShouldFlush strategy reqs b
                   then accumulate oob strategy reqs priority rt bucket (tn_rounds tn) b
                   else Ret (reqs, b))
                  (\<lambda>(reqs, b).
                    let name = (case strategy of None \<Rightarrow> '''' | Some a \<Rightarrow> Name (ab_store b a))
                    in Ret ((Some (NewBatch (tn_uuid tn) (tn_now tn) reqs name), priority), rearm b)))))"

definition dispatchIndex :: "Priority \<Rightarrow> nat" where
  "dispatchIndex p = (if p < 0 \<or> 4 \<le> p then 1 else nat p)"

text \<open>The send has gone through, after \<open>elapsed\<close>.\<close>

definition batch_sent ::
  "duration \<Rightarrow> Batch \<Rightarrow> Priority \<Rightarrow> Batch chan \<Rightarrow> AdaptiveBatcher \<Rightarrow> AdaptiveBatcher" where
  "batch_sent elapsed batch priority ch' b =
     b\<lparr>ab_batchChans := (ab_batchChans b)(dispatchIndex priority := Some ch'),
       ab_hookCalls := (if dispatchBlockedThreshold < elapsed \<and> ab_hooked b
         then ab_hookCalls b @ [priority] else ab_hookCalls b),
       ab_batchesFormed := wrap64 (ab_batchesFormed b + 1),
       ab_totalRequestsInBatches := wrap64 (ab_totalRequestsInBatches b + Batch_Size batch),
       ab_sent := ab_sent b @ [batch]\<rparr>"

definition dispatch_select ::
  "sent \<Rightarrow> Batch \<Rightarrow> Priority \<Rightarrow> AdaptiveBatcher \<Rightarrow> (bool \<times> AdaptiveBatcher) outcome" where
  "dispatch_select choice batch priority b =
     (case choice of
        SendDone elapsed \<Rightarrow>
          (case ab_batchChans b (dispatchIndex priority) of
             None \<Rightarrow> NotReady
           | Some ch \<Rightarrow>
               (case try_send batch ch of
                  SendPanics \<Rightarrow> Panic SendOnClosed
                | SendBlocks \<Rightarrow> NotReady
                | Sent ch' \<Rightarrow> Ret (True, batch_sent elapsed batch priority ch' b)))
      | SendCtx \<Rightarrow> if ab_ctxDone b then Ret (False, b) else NotReady
      | SendStop \<Rightarrow> if ab_stopCh b then Ret (False, b) else NotReady)"

definition dispatch ::
  "turn \<Rightarrow> Batch \<Rightarrow> Priority \<Rightarrow> AdaptiveBatcher \<Rightarrow> (bool \<times> AdaptiveBatcher) outcome" where
  "dispatch tn batch priority b =
     (case ab_batchChans b (dispatchIndex priority) of
        None \<Rightarrow> Ret (False, b)
      | Some _ \<Rightarrow>
          and_then (apply_events (tn_dispatch tn) b) (dispatch_select (tn_sent tn) batch priority))"

section \<open>The loop\<close>

definition exit_loop :: "event list \<Rightarrow> AdaptiveBatcher \<Rightarrow> AdaptiveBatcher outcome" where
  "exit_loop late b = and_then (drain late b) (\<lambda>b. Ret (b\<lparr>ab_stoppedCh := True\<rparr>))"

fun run :: "(f64 \<Rightarrow> int) \<Rightarrow> event list \<Rightarrow> turn list \<Rightarrow> AdaptiveBatcher \<Rightarrow> AdaptiveBatcher outcome" where
  "run oob late turns b =
     (if shouldExit b then exit_loop late b
      else
        (case turns of
           [] \<Rightarrow> Waiting
         | tn # turns' \<Rightarrow>
             and_then (formBatch oob tn b) (\<lambda>((batch, priority), b).
               case batch of
                 None \<Rightarrow> run oob late turns' b
               | Some bt \<Rightarrow>
                   and_then (dispatch tn bt priority b) (\<lambda>(ok, b).
                     if ok then run oob late turns' b
                     else exit_loop late (failBatch (Some bt) b)))))"

declare run.simps [simp del]

definition Start :: "(f64 \<Rightarrow> int) \<Rightarrow> event list \<Rightarrow> turn list \<Rightarrow> AdaptiveBatcher \<Rightarrow> AdaptiveBatcher outcome" where
  "Start oob late turns b =
     (if ab_startOnce b then Ret b
      else run oob late turns (b\<lparr>ab_startOnce := True, ab_started := True\<rparr>))"

text \<open>\<open>Stop\<close> waits for the loop's end or for its own context; \<open>late\<close> is what others do while it drains itself.\<close>

definition Stop ::
  "event list \<Rightarrow> error option \<Rightarrow> AdaptiveBatcher \<Rightarrow> (error option \<times> AdaptiveBatcher) outcome" where
  "Stop late ctx_err b =
     (let b = signal_stop b in
      if \<not> ab_started b then and_then (drain late b) (\<lambda>b. Ret (None, b))
      else
        (case ctx_err of
           None \<Rightarrow> if ab_stoppedCh b then Ret (None, b) else Waiting
         | Some e \<Rightarrow> Ret (Some e, b)))"

section \<open>Reasoning about outcomes\<close>

text \<open>The call neither panics nor loops for ever, and what it returns satisfies the predicate.\<close>

fun safe :: "('a \<Rightarrow> bool) \<Rightarrow> 'a outcome \<Rightarrow> bool" where
  "safe P (Ret x) = P x"
| "safe P (Panic e) = False"
| "safe P Hangs = False"
| "safe P Waiting = True"
| "safe P NotReady = True"

lemma safe_and_then:
  "safe Q m \<Longrightarrow> (\<And>x. Q x \<Longrightarrow> safe P (f x)) \<Longrightarrow> safe P (and_then m f)"
  by (cases m) simp_all

lemma safe_mono: "safe P m \<Longrightarrow> (\<And>x. P x \<Longrightarrow> Q x) \<Longrightarrow> safe Q m"
  by (cases m) simp_all

lemma and_then_Ret: "and_then m f = Ret y \<longleftrightarrow> (\<exists>x. m = Ret x \<and> f x = Ret y)"
  by (cases m) simp_all

lemma of_sum_Ret [simp]: "of_sum m = Ret x \<longleftrightarrow> m = Inr x"
  by (cases m) simp_all

lemma safe_RetD: "safe P m \<Longrightarrow> m = Ret x \<Longrightarrow> P x"
  by simp

section \<open>The invariant\<close>

definition batch_ok :: "int \<Rightarrow> Batch \<Rightarrow> bool" where
  "batch_ok mx bt \<longleftrightarrow> batch_Requests bt \<noteq> [] \<and> Batch_Size bt \<le> mx
     \<and> (\<exists>c. coord_ok c \<and> (\<forall>r\<in>set (batch_Requests bt). route r = c))"

definition dispatched :: "AdaptiveBatcher \<Rightarrow> InferenceRequest list" where
  "dispatched b = concat (map batch_Requests (ab_sent b))"

text \<open>
  While the loop runs, holding the requests \<open>hand\<close>: the matrix is open, and in every sub-queue the
  accepted requests are those dispatched, then those in hand, then those still queued.
\<close>

definition of_priority :: "nat \<Rightarrow> Batch \<Rightarrow> bool" where
  "of_priority i bt \<longleftrightarrow> (\<forall>r\<in>set (batch_Requests bt). priorityIndex (req_Priority r) = i)"

definition chans_ok :: "(nat \<Rightarrow> Batch chan option) \<Rightarrow> bool" where
  "chans_ok chans \<longleftrightarrow> (\<forall>i ch. chans i = Some ch \<longrightarrow> \<not> ch_closed ch \<and> (\<forall>bt\<in>set (ch_buf ch). of_priority i bt))"

definition counters_ok :: "AdaptiveBatcher \<Rightarrow> bool" where
  "counters_ok b \<longleftrightarrow>
     ab_requestsQueued b = wrap64 (int (length (ab_accepted b)))
     \<and> ab_batchesFormed b = wrap64 (int (length (ab_sent b)))
     \<and> ab_totalRequestsInBatches b = wrap64 (int (length (dispatched b)))"

definition running :: "InferenceRequest list \<Rightarrow> AdaptiveBatcher \<Rightarrow> bool" where
  "running hand b \<longleftrightarrow>
     log_inv (ab_qm b, ab_accepted b, dispatched b @ hand) \<and> ab_notified b = []
     \<and> 1 \<le> bat_MaxBatchSize (ab_cfg b)
     \<and> (\<forall>bt\<in>set (ab_sent b). batch_ok (bat_MaxBatchSize (ab_cfg b)) bt)
     \<and> chans_ok (ab_batchChans b) \<and> counters_ok b"

lemma running_qm: "running hand b \<Longrightarrow> qm_inv (ab_qm b) \<and> \<not> qm_closed (ab_qm b)"
  by (simp add: running_def log_inv_def)

lemma running_max: "running hand b \<Longrightarrow> 1 \<le> bat_MaxBatchSize (ab_cfg b)"
  by (simp add: running_def)

lemma NewAdaptiveBatcher_running:
  assumes "chans_ok chans"
  shows "running [] (NewAdaptiveBatcher cfg s chans store results)"
  using assms NewQueueMatrix_inv
  by (auto simp: running_def NewAdaptiveBatcher_def Let_def log_inv_def dispatched_def chans_ok_def
      counters_ok_def wrap64_id i64_def)

text \<open>Fields the queue operations do not touch.\<close>

lemma running_qm_step:
  assumes "running hand b" "qm_step e (ab_qm b, ab_accepted b, dispatched b @ hand)
      = Some (qm, ab_accepted b, dispatched b @ hand')"
  shows "running hand' (b\<lparr>ab_qm := qm\<rparr>)"
  using assms log_step [of "(ab_qm b, ab_accepted b, dispatched b @ hand)" e]
  by (auto simp: running_def dispatched_def chans_ok_def counters_ok_def)

lemma running_signal: "running hand b \<Longrightarrow> running hand (b\<lparr>ab_qm := Signal (ab_qm b)\<rparr>)"
  by (rule running_qm_step [of _ _ OpSignal]) auto

lemma running_recv: "running hand b \<Longrightarrow> running hand (recv_event b)"
  using running_qm_step [of hand b OpRecvEvent]
  by (auto simp: recv_event_def EventChan_def split: recv_result.split)

lemma rearm_cfg [simp]: "ab_cfg (rearm b) = ab_cfg b"
  by (simp add: rearm_def)

lemma running_rearm: "running hand b \<Longrightarrow> running hand (rearm b)"
  by (simp add: rearm_def running_signal)

lemma running_flags [simp]:
  "running hand (b\<lparr>ab_stopping := x\<rparr>) = running hand b"
  "running hand (b\<lparr>ab_entering := rs\<rparr>) = running hand b"
  "running hand (b\<lparr>ab_stopOnce := x\<rparr>) = running hand b"
  "running hand (b\<lparr>ab_stopCh := x\<rparr>) = running hand b"
  "running hand (b\<lparr>ab_ctxDone := x\<rparr>) = running hand b"
  "running hand (b\<lparr>ab_started := x\<rparr>) = running hand b"
  "running hand (b\<lparr>ab_startOnce := x\<rparr>) = running hand b"
  "running hand (b\<lparr>ab_strategy := s\<rparr>) = running hand b"
  "running hand (b\<lparr>ab_metrics := m\<rparr>) = running hand b"
  "running hand (b\<lparr>ab_store := st\<rparr>) = running hand b"
  by (simp_all add: running_def dispatched_def chans_ok_def counters_ok_def)

lemma running_cfg: "running hand b \<Longrightarrow> ab_cfg b' = ab_cfg b \<Longrightarrow> ab_qm b' = ab_qm b \<Longrightarrow>
    ab_accepted b' = ab_accepted b \<Longrightarrow> ab_sent b' = ab_sent b \<Longrightarrow> ab_notified b' = ab_notified b \<Longrightarrow>
    chans_ok (ab_batchChans b') \<Longrightarrow> counters_ok b' \<Longrightarrow> running hand b'"
  by (simp add: running_def dispatched_def)

lemma Submit_queues_Ret:
  assumes "qm_inv (ab_qm b)"
  obtains err qm where "QueueMatrix_Submit (Some r) (ab_qm b) = Inr (err, qm)" "qm_inv qm"
    "Submit_queues r b = Ret (err, case err of Some e \<Rightarrow> b\<lparr>ab_qm := qm\<rparr>
        | None \<Rightarrow> b\<lparr>ab_qm := qm, ab_requestsQueued := wrap64 (ab_requestsQueued b + 1), ab_accepted := ab_accepted b @ [r]\<rparr>)"
proof -
  obtain err qm where q: "QueueMatrix_Submit (Some r) (ab_qm b) = Inr (err, qm)" "qm_inv qm"
    using Submit_inv [OF assms] by blast
  then show thesis by (intro that [OF q]) (simp add: Submit_queues_def split: option.split)
qed

lemma Submit_queues_running:
  assumes "running hand b"
  shows "safe (\<lambda>(err, b'). running hand b' \<and> ab_cfg b' = ab_cfg b
    \<and> ab_accepted b' = ab_accepted b @ (if err = None then [r] else [])) (Submit_queues r b)"
proof -
  have open_qm: "qm_inv (ab_qm b)" using running_qm [OF assms] by auto
  obtain err qm where q: "QueueMatrix_Submit (Some r) (ab_qm b) = Inr (err, qm)"
    and s: "Submit_queues r b = Ret (err, case err of Some e \<Rightarrow> b\<lparr>ab_qm := qm\<rparr>
        | None \<Rightarrow> b\<lparr>ab_qm := qm, ab_requestsQueued := wrap64 (ab_requestsQueued b + 1), ab_accepted := ab_accepted b @ [r]\<rparr>)"
    by (rule Submit_queues_Ret [OF open_qm])
  have step: "log_inv (qm, ab_accepted b @ (if err = None then [r] else []), dispatched b @ hand)"
    using log_submit [of "ab_qm b" "ab_accepted b" "dispatched b @ hand" "Some r"] assms q
    by (cases err) (auto simp: running_def)
  show ?thesis
    unfolding s using step assms
    by (cases err) (auto simp: running_def dispatched_def chans_ok_def counters_ok_def add.commute)
qed

lemma Submit_running:
  assumes "running hand b"
  shows "safe (\<lambda>(err, b'). running hand b' \<and> ab_cfg b' = ab_cfg b
    \<and> ab_accepted b' = ab_accepted b @ (case (err, req) of (None, Some r) \<Rightarrow> [r] | _ \<Rightarrow> []))
    (Submit ctx_err req b)"
proof (cases "Submit_checks ctx_err req b")
  case (Inl e)
  then show ?thesis using assms by (simp add: Submit_def)
next
  case (Inr r)
  then have "req = Some r" by (auto simp: Submit_checks_def split: option.splits if_splits)
  then show ?thesis
    using Inr Submit_queues_running [OF assms, of r] by (auto simp: Submit_def elim!: safe_mono split: option.splits)
qed

lemma apply_event_running:
  assumes "running hand b"
  shows "safe (\<lambda>b'. running hand b' \<and> ab_cfg b' = ab_cfg b) (apply_event e b)"
proof (cases e)
  case (EvEnter ctx_err req)
  then show ?thesis using assms by (simp split: sum.split)
next
  case (EvQueue i)
  let ?b = "b\<lparr>ab_entering := take i (ab_entering b) @ drop (Suc i) (ab_entering b)\<rparr>"
  have "running hand ?b" using assms by simp
  from Submit_queues_running [OF this] show ?thesis
    using EvQueue assms by (auto intro!: safe_and_then [OF Submit_queues_running])
next
  case (EvTake i)
  have "chans_ok (ab_batchChans b)" using assms by (simp add: running_def)
  then have "chans_ok ((ab_batchChans b)(i := Some (c\<lparr>ch_buf := xs\<rparr>)))"
    if "ab_batchChans b i = Some c" "ch_buf c = x # xs" for c x xs
    using that by (auto simp: chans_ok_def)
  then show ?thesis
    using EvTake assms
    by (auto simp: running_def dispatched_def counters_ok_def dest!: try_recv_ReceivedD
        split: option.split recv_result.split)
qed (use assms in \<open>auto simp: signal_stop_def SetStrategy_def UpdateStrategyMetrics_def Let_def
    split: option.split\<close>)

lemma apply_events_running:
  "running hand b \<Longrightarrow> safe (\<lambda>b'. running hand b' \<and> ab_cfg b' = ab_cfg b) (apply_events es b)"
proof (induction es arbitrary: b)
  case (Cons e es)
  show ?case
    unfolding apply_events.simps
  proof (rule safe_and_then [OF apply_event_running [OF Cons.prems]], elim conjE)
    fix x assume x: "running hand x" "ab_cfg x = ab_cfg b"
    show "safe (\<lambda>b'. running hand b' \<and> ab_cfg b' = ab_cfg b) (apply_events es x)"
      using Cons.IH [OF x(1)] x(2) by simp
  qed
qed simp
section \<open>Forming a batch keeps it\<close>

lemma DrainFrom_running:
  assumes "running hand b" "0 < mx"
    and "c = Coord (priorityIndex p) (typeIndex rt) (bucketIndex bk)"
  shows "\<exists>more qm. QueueMatrix_DrainFrom p rt bk mx (ab_qm b) = Some (more, qm)
    \<and> running (hand @ more) (b\<lparr>ab_qm := qm\<rparr>) \<and> int (length more) \<le> mx
    \<and> (\<forall>r\<in>set more. route r = c)"
proof -
  have q: "qm_inv (ab_qm b)" "\<not> qm_closed (ab_qm b)" using running_qm [OF assms(1)] by auto
  note d = DrainFrom_open [OF q assms(2,3)]
  let ?more = "take (nat mx) (lane (ab_qm b) c)" and ?qm = "set_lane c (drop (nat mx) (lane (ab_qm b) c)) (ab_qm b)"
  have "running (hand @ ?more) (b\<lparr>ab_qm := ?qm\<rparr>)"
    by (rule running_qm_step [OF assms(1), of "OpDrainFrom p rt bk mx"]) (simp add: d)
  moreover have "\<forall>r\<in>set ?more. route r = c"
    using qm_invD(5) [OF q(1)] by (auto dest: in_set_takeD)
  ultimately show ?thesis using assms(2) by (simp add: d)
qed

definition same_lane :: "coord \<Rightarrow> InferenceRequest list \<Rightarrow> bool" where
  "same_lane c rs \<longleftrightarrow> rs \<noteq> [] \<and> (\<forall>r\<in>set rs. route r = c)"

lemma recv_event_cfg [simp]: "ab_cfg (recv_event b) = ab_cfg b"
  by (simp add: recv_event_def split: recv_result.split)

lemma accumulate_loop_running:
  assumes "running reqs b" "same_lane c reqs" "int (length reqs) \<le> bat_MaxBatchSize (ab_cfg b)"
    and c: "c = Coord (priorityIndex p) (typeIndex rt) (bucketIndex bk)"
  shows "safe (\<lambda>(reqs', b'). running reqs' b' \<and> ab_cfg b' = ab_cfg b \<and> same_lane c reqs'
      \<and> int (length reqs') \<le> bat_MaxBatchSize (ab_cfg b) \<and> (\<exists>more. reqs' = reqs @ more))
    (accumulate_loop strategy timeout p rt bk reqs rounds b)"
  using assms(1-3)
proof (induction rounds arbitrary: reqs b)
  case Nil
  show ?case
  proof (cases "int (length reqs) < bat_MaxBatchSize (ab_cfg b)")
    case True
    obtain more qm where d: "QueueMatrix_DrainFrom p rt bk (bat_MaxBatchSize (ab_cfg b) - int (length reqs)) (ab_qm b)
        = Some (more, qm)" "running (reqs @ more) (b\<lparr>ab_qm := qm\<rparr>)"
      "int (length more) \<le> bat_MaxBatchSize (ab_cfg b) - int (length reqs)" "\<forall>r\<in>set more. route r = c"
      using DrainFrom_running [OF Nil.prems(1) _ c] True by force
    then show ?thesis
      using True Nil.prems(2)
      by (subst accumulate_loop.simps) (auto simp: Let_def same_lane_def)
  qed (use Nil.prems in \<open>subst accumulate_loop.simps, simp\<close>)
next
  case (Cons rd rounds)
  obtain events elapsed w where rd: "rd = (events, elapsed, w)" by (cases rd)
  show ?case
  proof (cases "int (length reqs) < bat_MaxBatchSize (ab_cfg b)")
    case True
    let ?post = "\<lambda>(reqs', b'). running reqs' b' \<and> ab_cfg b' = ab_cfg b \<and> same_lane c reqs'
      \<and> int (length reqs') \<le> bat_MaxBatchSize (ab_cfg b) \<and> (\<exists>more. reqs' = reqs @ more)"
    obtain more qm where d: "QueueMatrix_DrainFrom p rt bk (bat_MaxBatchSize (ab_cfg b) - int (length reqs)) (ab_qm b)
        = Some (more, qm)" "running (reqs @ more) (b\<lparr>ab_qm := qm\<rparr>)"
      "int (length more) \<le> bat_MaxBatchSize (ab_cfg b) - int (length reqs)" "\<forall>r\<in>set more. route r = c"
      using DrainFrom_running [OF Cons.prems(1) _ c] True by force
    have lane: "same_lane c (reqs @ more)" using Cons.prems(2) d(4) by (auto simp: same_lane_def)
    have "safe ?post (and_then (apply_events events (b\<lparr>ab_qm := qm\<rparr>)) (\<lambda>b.
        if \<not> wake_ready timeout elapsed w b then NotReady
        else if w = WakeEvent then
          accumulate_loop strategy timeout p rt bk (reqs @ more) rounds (recv_event b)
        else Ret (reqs @ more, b)))"
    proof (rule safe_and_then [OF apply_events_running [OF d(2)]], elim conjE)
      fix x assume x: "running (reqs @ more) x" "ab_cfg x = ab_cfg (b\<lparr>ab_qm := qm\<rparr>)"
      have "safe ?post (accumulate_loop strategy timeout p rt bk (reqs @ more) rounds (recv_event x))"
        using Cons.IH [OF running_recv [OF x(1)] lane] d(3) x(2)
        by (auto elim!: safe_mono)
      then show "safe ?post (if \<not> wake_ready timeout elapsed w x then NotReady
          else if w = WakeEvent then
            accumulate_loop strategy timeout p rt bk (reqs @ more) rounds (recv_event x)
          else Ret (reqs @ more, x))"
        using x lane d(3) by simp
    qed
    then show ?thesis
      using True d lane by (subst accumulate_loop.simps) (auto simp: Let_def rd cong: if_cong)
  qed (use Cons.prems in \<open>subst accumulate_loop.simps, simp\<close>)
qed

lemma nextTimeout_running:
  "running hand b \<Longrightarrow> running hand (snd (nextTimeout oob s b)) \<and> ab_cfg (snd (nextTimeout oob s b)) = ab_cfg b
     \<and> ab_qm (snd (nextTimeout oob s b)) = ab_qm b"
  by (simp add: nextTimeout_def Let_def split_beta split: option.split)

lemma accumulate_running:
  assumes "running reqs b" "same_lane c reqs" "int (length reqs) \<le> bat_MaxBatchSize (ab_cfg b)"
    and "c = Coord (priorityIndex p) (typeIndex rt) (bucketIndex bk)"
  shows "safe (\<lambda>(reqs', b'). running reqs' b' \<and> ab_cfg b' = ab_cfg b \<and> same_lane c reqs'
      \<and> int (length reqs') \<le> bat_MaxBatchSize (ab_cfg b) \<and> (\<exists>more. reqs' = reqs @ more))
    (accumulate oob strategy reqs p rt bk rounds b)"
  using nextTimeout_running [OF assms(1), of oob strategy] assms(2-4)
    accumulate_loop_running [of reqs "snd (nextTimeout oob strategy b)" c p rt bk strategy
      "fst (nextTimeout oob strategy b)" rounds]
  by (simp add: accumulate_def split_beta)

lemma Drain_running:
  assumes "running [] b"
  shows "\<exists>reqs p rt bk qm. QueueMatrix_Drain (bat_MaxBatchSize (ab_cfg b)) (ab_qm b) = Some ((reqs, p, rt, bk), qm)
    \<and> running reqs (b\<lparr>ab_qm := qm\<rparr>) \<and> int (length reqs) \<le> bat_MaxBatchSize (ab_cfg b)
    \<and> (reqs \<noteq> [] \<longrightarrow> same_lane (Coord (priorityIndex p) (typeIndex rt) (bucketIndex bk)) reqs
         \<and> p \<in> {0..3})"
proof -
  let ?qm = "ab_qm b" and ?mx = "bat_MaxBatchSize (ab_cfg b)"
  have q: "qm_inv ?qm" "\<not> qm_closed ?qm" and mx: "0 < ?mx"
    using running_qm [OF assms] running_max [OF assms] by auto
  note d = Drain_open [OF q mx]
  show ?thesis
  proof (cases "find (\<lambda>c. lane ?qm c \<noteq> []) walk_coords")
    case None
    then show ?thesis using assms mx by (simp add: d nothing_drained_def)
  next
    case (Some c)
    then have c: "coord_ok c" "lane ?qm c \<noteq> []" using find_walk_least by auto
    let ?rs = "take (nat ?mx) (lane ?qm c)"
    have "running ([] @ ?rs) (b\<lparr>ab_qm := set_lane c (drop (nat ?mx) (lane ?qm c)) ?qm\<rparr>)"
      by (rule running_qm_step [OF assms, of "OpDrain ?mx"]) (simp add: d Some drained_at_def)
    moreover have "same_lane c ?rs"
      using qm_invD(5) [OF q(1)] c(2) mx by (auto simp: same_lane_def dest: in_set_takeD)
    moreover have "Coord (priorityIndex (indexToPriority (co_p c))) (typeIndex (indexToType (co_rt c)))
        (bucketIndex (int (co_b c))) = c"
      using c(1) by (cases c) (simp add: coord_ok_def)
    moreover have "indexToPriority (co_p c) \<in> {0..3}" by (simp add: indexToPriority_def)
    ultimately show ?thesis
      using mx by (simp add: d Some drained_at_def)
  qed
qed

definition formed :: "AdaptiveBatcher \<Rightarrow> Batch option \<times> Priority \<Rightarrow> AdaptiveBatcher \<Rightarrow> bool" where
  "formed b r b' \<longleftrightarrow> ab_cfg b' = ab_cfg b \<and>
     (case r of
        (None, _) \<Rightarrow> running [] b'
      | (Some bt, p) \<Rightarrow> running (batch_Requests bt) b' \<and> batch_ok (bat_MaxBatchSize (ab_cfg b)) bt
          \<and> p \<in> {0..3} \<and> (\<forall>r\<in>set (batch_Requests bt). priorityIndex (req_Priority r) = priorityIndex p))"

lemma formBatch_running:
  assumes "running [] b"
  shows "safe (\<lambda>(r, b'). formed b r b') (formBatch oob tn b)"
  unfolding formBatch_def Let_def
proof (rule safe_and_then [OF apply_events_running [OF assms]], elim conjE)
  fix x assume x: "running [] x" "ab_cfg x = ab_cfg b"
  let ?s = "activeStrategy b" and ?y = "recv_event x" and ?mx = "bat_MaxBatchSize (ab_cfg x)"
  have y: "running [] ?y" using x(1) by (rule running_recv)
  obtain reqs p rt bk qm where d: "QueueMatrix_Drain ?mx (ab_qm ?y) = Some ((reqs, p, rt, bk), qm)"
      "running reqs (?y\<lparr>ab_qm := qm\<rparr>)" "int (length reqs) \<le> ?mx"
      "reqs \<noteq> [] \<longrightarrow> same_lane (Coord (priorityIndex p) (typeIndex rt) (bucketIndex bk)) reqs \<and> p \<in> {0..3}"
    using Drain_running [OF y] by auto
  let ?c = "Coord (priorityIndex p) (typeIndex rt) (bucketIndex bk)" and ?z = "?y\<lparr>ab_qm := qm\<rparr>"
  have body: "safe (\<lambda>(r, b'). formed b r b') (and_then
      (if int (length reqs) < bat_MaxBatchSize (ab_cfg ?z) \<and> \<not> strategyShouldFlush ?s reqs ?z
       then accumulate oob ?s reqs p rt bk (tn_rounds tn) ?z else Ret (reqs, ?z))
      (\<lambda>(reqs, b). Ret ((Some (NewBatch (tn_uuid tn) (tn_now tn) reqs
          (case ?s of None \<Rightarrow> '''' | Some a \<Rightarrow> Name (ab_store b a))), p), rearm b)))"
    if ne: "reqs \<noteq> []"
  proof (rule safe_and_then)
    show "safe (\<lambda>(reqs', b'). running reqs' b' \<and> ab_cfg b' = ab_cfg x \<and> same_lane ?c reqs'
        \<and> int (length reqs') \<le> ?mx)
      (if int (length reqs) < bat_MaxBatchSize (ab_cfg ?z) \<and> \<not> strategyShouldFlush ?s reqs ?z
       then accumulate oob ?s reqs p rt bk (tn_rounds tn) ?z else Ret (reqs, ?z))"
      using accumulate_running [OF d(2) _ _ refl, of p rt bk oob ?s "tn_rounds tn"] d(2-4) ne
      by (auto elim!: safe_mono)
  next
    fix u :: "InferenceRequest list \<times> AdaptiveBatcher"
    assume u: "case u of (reqs', b') \<Rightarrow> running reqs' b' \<and> ab_cfg b' = ab_cfg x
        \<and> same_lane ?c reqs' \<and> int (length reqs') \<le> ?mx"
    show "safe (\<lambda>(r, b'). formed b r b') (case u of (reqs, b) \<Rightarrow>
        Ret ((Some (NewBatch (tn_uuid tn) (tn_now tn) reqs
          (case ?s of None \<Rightarrow> '''' | Some a \<Rightarrow> Name (ab_store b a))), p), rearm b))"
      using u x(2) d(4) ne
      by (auto simp: formed_def NewBatch_def running_rearm batch_ok_def Batch_Size_def same_lane_def
          route_def intro!: exI [of _ ?c])
  qed
  have none: "formed b (None, 0) (rearm b')" if "running [] b'" "ab_cfg b' = ab_cfg x" for b'
    using that x(2) by (simp add: formed_def running_rearm)
  show "safe (\<lambda>(r, b'). formed b r b')
    (if tn_wake tn = WakeTimer \<or> \<not> wake_ready 0 0 (tn_wake tn) x then NotReady
     else if tn_wake tn \<noteq> WakeEvent then Ret ((None, 0), rearm x)
     else and_then (of_option (QueueMatrix_Drain ?mx (ab_qm ?y)))
       (\<lambda>((reqs, priority, rt, bucket), qm).
          if length reqs = 0 then Ret ((None, 0), rearm (?y\<lparr>ab_qm := qm\<rparr>))
          else and_then
            (if int (length reqs) < bat_MaxBatchSize (ab_cfg (?y\<lparr>ab_qm := qm\<rparr>))
                \<and> \<not> strategyShouldFlush ?s reqs (?y\<lparr>ab_qm := qm\<rparr>)
             then accumulate oob ?s reqs priority rt bucket (tn_rounds tn) (?y\<lparr>ab_qm := qm\<rparr>)
             else Ret (reqs, ?y\<lparr>ab_qm := qm\<rparr>))
            (\<lambda>(reqs, b). Ret ((Some (NewBatch (tn_uuid tn) (tn_now tn) reqs
               (case ?s of None \<Rightarrow> '''' | Some a \<Rightarrow> Name (ab_store b a))), priority), rearm b))))"
    using body none [OF x(1)] none [of ?z] d(2) by (auto simp: d(1))
qed
section \<open>Dispatch and shutdown\<close>

lemma batch_sent_running:
  assumes "running (batch_Requests bt) b" "batch_ok (bat_MaxBatchSize (ab_cfg b)) bt"
    "of_priority (dispatchIndex p) bt" "ab_batchChans b (dispatchIndex p) = Some ch"
    "ch' = ch\<lparr>ch_buf := ch_buf ch @ [bt]\<rparr>"
  shows "running [] (batch_sent elapsed bt p ch' b)"
  using assms
  by (auto simp: batch_sent_def running_def dispatched_def chans_ok_def counters_ok_def Batch_Size_def
      add.commute)

lemma batch_sent_cfg [simp]: "ab_cfg (batch_sent elapsed bt p ch' b) = ab_cfg b"
  by (simp add: batch_sent_def)

lemma dispatch_select_running:
  assumes "running (batch_Requests bt) b" "batch_ok (bat_MaxBatchSize (ab_cfg b)) bt"
    "of_priority (dispatchIndex p) bt"
  shows "safe (\<lambda>(ok, b'). ab_cfg b' = ab_cfg b \<and> running (if ok then [] else batch_Requests bt) b')
    (dispatch_select choice bt p b)"
proof (cases choice)
  case (SendDone elapsed)
  show ?thesis
  proof (cases "ab_batchChans b (dispatchIndex p)")
    case None
    then show ?thesis by (simp add: dispatch_select_def SendDone)
  next
    case (Some ch)
    then have "\<not> ch_closed ch" using assms(1) by (simp add: running_def chans_ok_def)
    then show ?thesis
      using Some batch_sent_running [OF assms Some refl]
      by (simp add: dispatch_select_def SendDone try_send_def)
  qed
qed (use assms in \<open>simp_all add: dispatch_select_def\<close>)

lemma dispatch_running:
  assumes "running (batch_Requests bt) b" "batch_ok (bat_MaxBatchSize (ab_cfg b)) bt"
    "of_priority (dispatchIndex p) bt"
  shows "safe (\<lambda>(ok, b'). ab_cfg b' = ab_cfg b \<and> running (if ok then [] else batch_Requests bt) b')
    (dispatch tn bt p b)"
proof (cases "ab_batchChans b (dispatchIndex p)")
  case None
  then show ?thesis using assms by (simp add: dispatch_def)
next
  case (Some ch0)
  have "safe (\<lambda>(ok, b'). ab_cfg b' = ab_cfg b \<and> running (if ok then [] else batch_Requests bt) b')
    (and_then (apply_events (tn_dispatch tn) b) (dispatch_select (tn_sent tn) bt p))"
    by (rule safe_and_then [OF apply_events_running [OF assms(1)]])
      (use dispatch_select_running [of bt _ p] assms(2,3) in fastforce)
  then show ?thesis using Some by (simp add: dispatch_def)
qed

lemma dispatchIndex_priority: "p \<in> {0..3} \<Longrightarrow> dispatchIndex p = priorityIndex p"
proof -
  assume "p \<in> {0..3}"
  then have "p = 0 \<or> p = 1 \<or> p = 2 \<or> p = 3" by auto
  then show ?thesis by (auto simp: dispatchIndex_def priorityIndex_def)
qed

text \<open>Notifying only touches the result channels.\<close>

lemma notify_fold:
  assumes "\<And>r b. f (notifyShuttingDown r b) = f b" shows "f (fold notifyShuttingDown rs b) = f b"
  by (induction rs arbitrary: b) (simp_all add: assms)

lemma notify_simps [simp]:
  "ab_qm (notifyShuttingDown r b) = ab_qm b" "ab_cfg (notifyShuttingDown r b) = ab_cfg b"
  "ab_accepted (notifyShuttingDown r b) = ab_accepted b"
  "ab_batchChans (notifyShuttingDown r b) = ab_batchChans b" "ab_sent (notifyShuttingDown r b) = ab_sent b"
  "ab_requestsQueued (notifyShuttingDown r b) = ab_requestsQueued b"
  "ab_batchesFormed (notifyShuttingDown r b) = ab_batchesFormed b"
  "ab_totalRequestsInBatches (notifyShuttingDown r b) = ab_totalRequestsInBatches b"
  "ab_notified (notifyShuttingDown r b) = ab_notified b @ [r]"
  by (simp_all add: notifyShuttingDown_def)

lemma notify_fold_simps [simp]:
  "ab_qm (fold notifyShuttingDown rs b) = ab_qm b" "ab_cfg (fold notifyShuttingDown rs b) = ab_cfg b"
  "ab_accepted (fold notifyShuttingDown rs b) = ab_accepted b"
  "ab_sent (fold notifyShuttingDown rs b) = ab_sent b"
  "ab_batchChans (fold notifyShuttingDown rs b) = ab_batchChans b"
  "ab_requestsQueued (fold notifyShuttingDown rs b) = ab_requestsQueued b"
  "ab_batchesFormed (fold notifyShuttingDown rs b) = ab_batchesFormed b"
  "ab_totalRequestsInBatches (fold notifyShuttingDown rs b) = ab_totalRequestsInBatches b"
  by (rule notify_fold, simp)+

lemma notify_fold_notified [simp]:
  "ab_notified (fold notifyShuttingDown rs b) = ab_notified b @ rs"
  by (induction rs arbitrary: b) simp_all

text \<open>The result channels after notifying, as a function of the result channels before.\<close>

definition all_shut_down :: "InferenceRequest list \<Rightarrow> results \<Rightarrow> results" where
  "all_shut_down rs = send_all (map (\<lambda>r. (r, shutdown_result r)) rs)"

lemma notify_fold_results [simp]:
  "ab_results (fold notifyShuttingDown rs b) = all_shut_down rs (ab_results b)"
  by (induction rs arbitrary: b) (simp_all add: notifyShuttingDown_def all_shut_down_def)

section \<open>Leaving the loop\<close>

text \<open>What the calls of others leave alone.\<close>

lemma Submit_queues_frame:
  "Submit_queues r b = Ret (err, b') \<Longrightarrow> ab_startOnce b' = ab_startOnce b \<and> ab_started b' = ab_started b
    \<and> ab_notified b' = ab_notified b \<and> ab_results b' = ab_results b \<and> ab_sent b' = ab_sent b"
proof (cases "QueueMatrix_Submit (Some r) (ab_qm b)")
  case (Inr x)
  moreover assume "Submit_queues r b = Ret (err, b')"
  ultimately show ?thesis by (cases x; cases "fst x") (auto simp: Submit_queues_def)
qed (simp add: Submit_queues_def)

lemma apply_event_frame:
  "apply_event e b = Ret b' \<Longrightarrow> ab_startOnce b' = ab_startOnce b \<and> ab_started b' = ab_started b
    \<and> ab_notified b' = ab_notified b \<and> ab_results b' = ab_results b \<and> ab_sent b' = ab_sent b
    \<and> ((\<forall>i. e \<noteq> EvQueue i) \<longrightarrow> ab_qm b' = ab_qm b)"
proof (cases e)
  case (EvQueue i)
  assume "apply_event e b = Ret b'"
  show ?thesis
  proof (cases "i < length (ab_entering b)")
    case True
    then obtain err where "Submit_queues (ab_entering b ! i) (b\<lparr>ab_entering := take i (ab_entering b) @ drop (Suc i) (ab_entering b)\<rparr>) = Ret (err, b')"
      using EvQueue \<open>apply_event e b = Ret b'\<close> unfolding EvQueue apply_event.simps by (simp add: and_then_Ret) (metis surj_pair)
    from Submit_queues_frame [OF this] show ?thesis using EvQueue by simp
  qed (use EvQueue \<open>apply_event e b = Ret b'\<close> in simp)
qed (auto simp: signal_stop_def SetStrategy_def UpdateStrategyMetrics_def Let_def
    split: option.splits recv_result.splits if_splits sum.splits)

lemma apply_events_frame:
  "apply_events es b = Ret b' \<Longrightarrow> ab_startOnce b' = ab_startOnce b \<and> ab_started b' = ab_started b
    \<and> ab_notified b' = ab_notified b \<and> ab_results b' = ab_results b \<and> ab_sent b' = ab_sent b
    \<and> ((\<forall>i. EvQueue i \<notin> set es) \<longrightarrow> ab_qm b' = ab_qm b)"
proof (induction es arbitrary: b)
  case (Cons e es)
  then obtain b1 where b1: "apply_event e b = Ret b1" "apply_events es b1 = Ret b'" by (auto simp: and_then_Ret)
  show ?case using apply_event_frame [OF b1(1)] Cons.IH [OF b1(2)] by auto
qed simp

lemma apply_event_total: "qm_inv (ab_qm b) \<Longrightarrow> \<exists>b'. apply_event e b = Ret b' \<and> qm_inv (ab_qm b')"
proof (cases e)
  case (EvQueue i)
  assume "qm_inv (ab_qm b)"
  let ?b = "b\<lparr>ab_entering := take i (ab_entering b) @ drop (Suc i) (ab_entering b)\<rparr>"
  have "qm_inv (ab_qm ?b)" using \<open>qm_inv (ab_qm b)\<close> by simp
  then obtain err qm where "qm_inv qm" "Submit_queues (ab_entering b ! i) ?b = Ret (err, case err of Some e \<Rightarrow> ?b\<lparr>ab_qm := qm\<rparr>
      | None \<Rightarrow> ?b\<lparr>ab_qm := qm, ab_requestsQueued := wrap64 (ab_requestsQueued ?b + 1), ab_accepted := ab_accepted ?b @ [ab_entering b ! i]\<rparr>)"
    by (rule Submit_queues_Ret)
  then show ?thesis using EvQueue \<open>qm_inv (ab_qm b)\<close> by (cases err) simp_all
qed (auto simp: signal_stop_def SetStrategy_def UpdateStrategyMetrics_def Let_def
    split: option.split recv_result.split sum.split)

lemma apply_events_total: "qm_inv (ab_qm b) \<Longrightarrow> \<exists>b'. apply_events es b = Ret b'"
proof (induction es arbitrary: b)
  case (Cons e es)
  from apply_event_total [OF Cons.prems, of e] show ?case using Cons.IH by auto
qed simp

text \<open>No call of others depends on who has been told.\<close>

lemma apply_event_unnotified:
  "apply_event e (b\<lparr>ab_notified := x\<rparr>) = and_then (apply_event e b) (\<lambda>b'. Ret (b'\<lparr>ab_notified := x\<rparr>))"
proof (cases e)
  case (EvQueue i)
  then show ?thesis
    by (cases "QueueMatrix_Submit (Some (ab_entering b ! i)) (ab_qm b)")
      (auto simp: Submit_queues_def split: option.split)
qed (auto simp: signal_stop_def SetStrategy_def UpdateStrategyMetrics_def Submit_checks_def Let_def
    split: option.split recv_result.split sum.split)

lemma apply_events_unnotified:
  "apply_events es (b\<lparr>ab_notified := x\<rparr>) = and_then (apply_events es b) (\<lambda>b'. Ret (b'\<lparr>ab_notified := x\<rparr>))"
proof (induction es arbitrary: b)
  case (Cons e es)
  then show ?case by (cases "apply_event e b") (simp_all add: apply_event_unnotified)
qed simp

text \<open>
  The goroutine has left the loop and the matrix is still open: in every sub-queue the accepted
  requests are those dispatched, then those told, then those queued.
\<close>

definition draining :: "AdaptiveBatcher \<Rightarrow> bool" where
  "draining b \<longleftrightarrow> running (ab_notified b) (b\<lparr>ab_notified := []\<rparr>)"

lemma draining_qm: "draining b \<Longrightarrow> qm_inv (ab_qm b) \<and> \<not> qm_closed (ab_qm b)"
  using running_qm [of "ab_notified b" "b\<lparr>ab_notified := []\<rparr>"] by (simp add: draining_def)

lemma draining_notify:
  assumes "running hand b" shows "draining (fold notifyShuttingDown hand b)"
  using assms by (simp add: draining_def running_def dispatched_def chans_ok_def counters_ok_def)

lemma draining_running: "running [] b \<Longrightarrow> draining b"
  using draining_notify [of "[]" b] by simp

lemma drain_all_fields [simp]:
  "ab_accepted (drain_all b) = ab_accepted b" "ab_sent (drain_all b) = ab_sent b" "ab_cfg (drain_all b) = ab_cfg b"
  "ab_batchChans (drain_all b) = ab_batchChans b" "ab_notified (drain_all b) = ab_notified b @ queued (ab_qm b)"
  "ab_results (drain_all b) = all_shut_down (queued (ab_qm b)) (ab_results b)"
  "ab_requestsQueued (drain_all b) = ab_requestsQueued b" "ab_batchesFormed (drain_all b) = ab_batchesFormed b"
  "ab_totalRequestsInBatches (drain_all b) = ab_totalRequestsInBatches b"
  "ab_qm (drain_all b) = snd (QueueMatrix_DrainAll (ab_qm b))" "queued (ab_qm (drain_all b)) = []"
  by (simp_all add: drain_all_def DrainAll_eq queued_nil_iff lane_def)

lemma drain_all_draining:
  assumes "draining b" shows "draining (drain_all b)"
proof -
  let ?b = "b\<lparr>ab_notified := []\<rparr>"
  have "running (ab_notified b @ queued (ab_qm b)) (?b\<lparr>ab_qm := snd (QueueMatrix_DrainAll (ab_qm b))\<rparr>)"
    using assms by (intro running_qm_step [of _ _ OpDrainAll]) (auto simp: draining_def DrainAll_eq)
  then show ?thesis by (simp add: draining_def running_def dispatched_def chans_ok_def counters_ok_def)
qed

lemma apply_events_draining:
  assumes "draining b"
  obtains b' where "apply_events es b = Ret b'" "draining b'" "ab_cfg b' = ab_cfg b" "ab_notified b' = ab_notified b"
    "ab_results b' = ab_results b" "ab_sent b' = ab_sent b" "(\<forall>i. EvQueue i \<notin> set es) \<longrightarrow> ab_qm b' = ab_qm b"
proof -
  obtain b' where b': "apply_events es b = Ret b'" using apply_events_total draining_qm [OF assms] by blast
  note f = apply_events_frame [OF b']
  have "running (ab_notified b) (b'\<lparr>ab_notified := []\<rparr>) \<and> ab_cfg b' = ab_cfg b"
    using apply_events_running [of "ab_notified b" "b\<lparr>ab_notified := []\<rparr>" es] assms
    by (simp add: draining_def apply_events_unnotified b')
  then show thesis using f by (intro that [OF b']) (simp_all add: draining_def)
qed

text \<open>
  The state after the loop has ended, or after \<open>Stop\<close> has drained a batcher never started. What is
  still queued was accepted between \<open>DrainAll\<close> and \<open>Close\<close>.
\<close>

definition shut_down :: "AdaptiveBatcher \<Rightarrow> bool" where
  "shut_down b \<longleftrightarrow> qm_inv (ab_qm b) \<and> qm_closed (ab_qm b)
     \<and> (\<forall>c. coord_ok c \<longrightarrow> on_lane c (ab_accepted b) = on_lane c (dispatched b @ ab_notified b) @ lane (ab_qm b) c)
     \<and> mset (ab_accepted b) = mset (dispatched b) + mset (ab_notified b) + mset (queued (ab_qm b))
     \<and> (\<forall>bt\<in>set (ab_sent b). batch_ok (bat_MaxBatchSize (ab_cfg b)) bt)
     \<and> counters_ok b \<and> chans_ok (ab_batchChans b)"

lemma drain_close_draining:
  assumes "draining b"
  obtains qm where "drain_close b = Ret (b\<lparr>ab_qm := qm\<rparr>)" "shut_down (b\<lparr>ab_qm := qm\<rparr>)" "queued qm = queued (ab_qm b)"
proof -
  obtain qm where c: "QueueMatrix_Close (ab_qm b) = Inr qm" "qm_inv qm" "qm_closed qm" "lane qm = lane (ab_qm b)"
    using Close_inv draining_qm [OF assms] by blast
  have q: "queued qm = queued (ab_qm b)" by (simp add: queued_def c(4))
  have log: "log_inv (ab_qm b, ab_accepted b, dispatched b @ ab_notified b)"
    using assms by (simp add: draining_def running_def dispatched_def)
  then have "shut_down (b\<lparr>ab_qm := qm\<rparr>)"
    using assms c q log_inv_mset [OF log]
    by (simp add: shut_down_def draining_def running_def dispatched_def counters_ok_def log_inv_def)
  then show thesis using c(1) q by (intro that [of qm]) (simp_all add: drain_close_def)
qed

lemma exit_leaves:
  assumes "draining b"
  shows "\<exists>b'. drain late b = Ret b' \<and> shut_down b' \<and> ab_cfg b' = ab_cfg b
    \<and> ab_notified b' = ab_notified b @ queued (ab_qm b) \<and> ab_results b' = all_shut_down (queued (ab_qm b)) (ab_results b)
    \<and> ((\<forall>i. EvQueue i \<notin> set late) \<longrightarrow> queued (ab_qm b') = [])"
proof -
  obtain b1 where b1: "apply_events late (drain_all b) = Ret b1" "draining b1" "ab_cfg b1 = ab_cfg (drain_all b)"
    "ab_notified b1 = ab_notified (drain_all b)" "ab_results b1 = ab_results (drain_all b)" "ab_sent b1 = ab_sent (drain_all b)"
    "(\<forall>i. EvQueue i \<notin> set late) \<longrightarrow> ab_qm b1 = ab_qm (drain_all b)"
    by (rule apply_events_draining [OF drain_all_draining [OF assms]])
  obtain qm where c: "drain_close b1 = Ret (b1\<lparr>ab_qm := qm\<rparr>)" "shut_down (b1\<lparr>ab_qm := qm\<rparr>)" "queued qm = queued (ab_qm b1)"
    by (rule drain_close_draining [OF b1(2)])
  have "queued (ab_qm b1) = []" if "\<forall>i. EvQueue i \<notin> set late" using b1(7) that drain_all_fields(11) by metis
  then show ?thesis
    using b1(1-5) c by (intro exI [of _ "b1\<lparr>ab_qm := qm\<rparr>"]) (simp add: drain_def)
qed

lemma exit_running:
  assumes "draining b"
  shows "\<exists>b'. exit_loop late b = Ret b' \<and> shut_down b' \<and> ab_stoppedCh b' \<and> ab_cfg b' = ab_cfg b
    \<and> ab_notified b' = ab_notified b @ queued (ab_qm b) \<and> ab_results b' = all_shut_down (queued (ab_qm b)) (ab_results b)
    \<and> ((\<forall>i. EvQueue i \<notin> set late) \<longrightarrow> queued (ab_qm b') = [])"
  using exit_leaves [OF assms, of late] by (auto simp: exit_loop_def shut_down_def dispatched_def counters_ok_def)

text \<open>What the loop does with a formed batch, given that it goes on well.\<close>

definition left_late :: "event list \<Rightarrow> AdaptiveBatcher \<Rightarrow> AdaptiveBatcher \<Rightarrow> bool" where
  "left_late late b b' \<longleftrightarrow> shut_down b' \<and> ab_stoppedCh b' \<and> ab_cfg b' = ab_cfg b
     \<and> ((\<forall>i. EvQueue i \<notin> set late) \<longrightarrow> queued (ab_qm b') = [])"

lemma dispatched_running:
  assumes "running (batch_Requests bt) x" "batch_ok (bat_MaxBatchSize (ab_cfg x)) bt" "of_priority (dispatchIndex p) bt"
    and on: "\<And>y. running [] y \<Longrightarrow> ab_cfg y = ab_cfg x \<Longrightarrow> safe (left_late late x) (next y)"
  shows "safe (left_late late x)
    (and_then (dispatch tn bt p x) (\<lambda>(ok, b). if ok then next b else exit_loop late (failBatch (Some bt) b)))"
proof (rule safe_and_then [OF dispatch_running [OF assms(1-3)]], clarify)
  fix ok y assume y: "running (if ok then [] else batch_Requests bt) y" "ab_cfg y = ab_cfg x"
  show "safe (left_late late x) (if ok then next y else exit_loop late (failBatch (Some bt) y))"
  proof (cases ok)
    case False
    then have "draining (failBatch (Some bt) y)" using y(1) draining_notify by (simp add: failBatch_def)
    from exit_running [OF this, of late] show ?thesis using False y(2) by (auto simp: left_late_def failBatch_def)
  qed (use y on [of y] in simp)
qed

lemma run_running: "running [] b \<Longrightarrow> safe (left_late late b) (run oob late turns b)"
proof (induction turns arbitrary: b)
  case Nil
  show ?case using exit_running [OF draining_running [OF Nil], of late] by (subst run.simps) (auto simp: left_late_def)
next
  case (Cons tn turns)
  show ?case
  proof (cases "shouldExit b")
    case True
    with exit_running [OF draining_running [OF Cons.prems], of late] show ?thesis
      by (subst run.simps) (auto simp: left_late_def)
  next
    case False
    have "safe (left_late late b)
      (and_then (formBatch oob tn b) (\<lambda>((batch, priority), b).
         case batch of
           None \<Rightarrow> run oob late turns b
         | Some bt \<Rightarrow> and_then (dispatch tn bt priority b) (\<lambda>(ok, b).
             if ok then run oob late turns b else exit_loop late (failBatch (Some bt) b))))"
    proof (rule safe_and_then [OF formBatch_running [OF Cons.prems]], clarify)
      fix bo p x assume f: "formed b (bo, p) x"
      have cfg: "left_late late x = left_late late b" using f by (auto simp: formed_def left_late_def fun_eq_iff)
      show "safe (left_late late b)
        (case bo of
           None \<Rightarrow> run oob late turns x
         | Some bt \<Rightarrow> and_then (dispatch tn bt p x) (\<lambda>(ok, b).
             if ok then run oob late turns b else exit_loop late (failBatch (Some bt) b)))"
      proof (cases bo)
        case None
        then show ?thesis using f Cons.IH [of x] cfg by (simp add: formed_def)
      next
        case (Some bt)
        have bt: "running (batch_Requests bt) x" "batch_ok (bat_MaxBatchSize (ab_cfg x)) bt"
          "of_priority (dispatchIndex p) bt"
          using f Some by (simp_all add: formed_def of_priority_def dispatchIndex_priority)
        have "safe (left_late late x) (run oob late turns y)" if "running [] y" "ab_cfg y = ab_cfg x" for y
          using Cons.IH [OF that(1)] that(2) by (auto simp: left_late_def elim!: safe_mono)
        from dispatched_running [OF bt this, where tn = tn] show ?thesis by (simp add: Some cfg)
      qed
    qed
    with False show ?thesis by (subst run.simps) simp
  qed
qed

section \<open>Properties\<close>

lemma safe_with: "safe P m \<Longrightarrow> (\<And>x. m = Ret x \<Longrightarrow> Q x) \<Longrightarrow> safe (\<lambda>x. P x \<and> Q x) m"
  by (cases m) simp_all

lemma apply_events_running_unstarted:
  assumes "running hand b"
  shows "safe (\<lambda>b'. (running hand b' \<and> ab_cfg b' = ab_cfg b)
    \<and> ab_startOnce b' = ab_startOnce b \<and> ab_started b' = ab_started b) (apply_events es b)"
  by (rule safe_with [OF apply_events_running [OF assms]]) (drule apply_events_frame, simp)

lemma safe_start:
  assumes "chans_ok chans"
  shows "safe (left_late late (NewAdaptiveBatcher cfg s chans store results))
    (and_then (apply_events pre (NewAdaptiveBatcher cfg s chans store results)) (Start oob late turns))"
proof -
  let ?new = "NewAdaptiveBatcher cfg s chans store results"
  have once: "\<not> ab_startOnce ?new" by (simp add: NewAdaptiveBatcher_def Let_def)
  have goes: "safe (left_late late ?new) (Start oob late turns b)"
    if b: "(running [] b \<and> ab_cfg b = ab_cfg ?new) \<and> ab_startOnce b = ab_startOnce ?new \<and> ab_started b = ab_started ?new" for b
  proof -
    let ?b = "b\<lparr>ab_startOnce := True, ab_started := True\<rparr>"
    have "running [] ?b" using b by simp
    from run_running [OF this, of late oob turns]
    have "safe (left_late late ?new) (run oob late turns ?b)"
      by (rule safe_mono) (use b in \<open>auto simp: left_late_def\<close>)
    then show ?thesis using b once by (simp add: Start_def)
  qed
  have "safe (\<lambda>b. (running [] b \<and> ab_cfg b = ab_cfg ?new) \<and> ab_startOnce b = ab_startOnce ?new \<and> ab_started b = ab_started ?new)
      (apply_events pre ?new)"
    by (rule apply_events_running_unstarted [OF NewAdaptiveBatcher_running [OF assms]])
  then show ?thesis by (rule safe_and_then) (rule goes)
qed

text \<open>
  C4: A whole life of the batcher: any calls before \<open>Start\<close>, then the loop with any behaviour of
  the other goroutines and any wakes, against open priority channels, and anything that happens (\<open>late\<close>)
  between the \<open>DrainAll\<close> and the \<open>Close\<close> of its shutdown, with every call of \<open>Submit\<close> taken apart between
  its checks and the queue. It never panics and never loops for ever. When it ends (\<open>Stop\<close> or a
  cancelled context) the matrix is closed and every request \<open>Submit\<close> accepted has been, exactly once,
  sent to the workers in one batch, or told of the shutdown, or left behind in the matrix; within a
  sub-queue they leave in the order they came, and only a \<open>Submit\<close> that reaches the queue between
  \<open>DrainAll\<close> and \<open>Close\<close> can leave one behind. Every batch sent is not empty, has at most the maximum
  size and holds requests of one sub-queue (one priority, one type, one bucket), and a channel holds
  only batches of its own priority. The counters count what they say.
\<close>

theorem batcher_life:
  assumes "chans_ok chans"
  shows "case and_then (apply_events pre (NewAdaptiveBatcher cfg s chans store results)) (Start oob late turns) of
      Ret b \<Rightarrow>
        ab_stoppedCh b \<and> qm_closed (ab_qm b)
        \<and> mset (ab_accepted b) = mset (concat (map batch_Requests (ab_sent b))) + mset (ab_notified b) + mset (queued (ab_qm b))
        \<and> ((\<forall>i. EvQueue i \<notin> set late) \<longrightarrow> queued (ab_qm b) = [])
        \<and> (\<forall>p rt bk. let c = Coord (priorityIndex p) (typeIndex rt) (bucketIndex bk) in
             on_lane c (ab_accepted b) = on_lane c (concat (map batch_Requests (ab_sent b)) @ ab_notified b) @ lane (ab_qm b) c)
        \<and> (\<forall>bt\<in>set (ab_sent b). batch_Requests bt \<noteq> [] \<and> Batch_Size bt \<le> max 1 (bat_MaxBatchSize cfg)
             \<and> (\<exists>c. \<forall>r\<in>set (batch_Requests bt). route r = c))
        \<and> (\<forall>i ch bt r. ab_batchChans b i = Some ch \<and> bt \<in> set (ch_buf ch) \<and> r \<in> set (batch_Requests bt)
             \<longrightarrow> priorityIndex (req_Priority r) = i)
        \<and> ab_requestsQueued b = wrap64 (int (length (ab_accepted b)))
        \<and> ab_batchesFormed b = wrap64 (int (length (ab_sent b)))
    | Panic e \<Rightarrow> False
    | Hangs \<Rightarrow> False
    | Waiting \<Rightarrow> True
    | NotReady \<Rightarrow> True"
proof -
  let ?b0 = "NewAdaptiveBatcher cfg s chans store results"
  note s = safe_start [OF assms, of late cfg s store results pre oob turns]
  have cfg: "bat_MaxBatchSize (ab_cfg ?b0) = max 1 (bat_MaxBatchSize cfg)" by (simp add: NewAdaptiveBatcher_def Let_def)
  show ?thesis
  proof (cases "and_then (apply_events pre ?b0) (Start oob late turns)")
    case (Ret b)
    then have b: "shut_down b" "ab_stoppedCh b" "bat_MaxBatchSize (ab_cfg b) = max 1 (bat_MaxBatchSize cfg)"
      "(\<forall>i. EvQueue i \<notin> set late) \<longrightarrow> queued (ab_qm b) = []"
      using s cfg by (simp_all add: left_late_def)
    show ?thesis
      unfolding Ret outcome.case
      using b by (auto simp: shut_down_def dispatched_def counters_ok_def batch_ok_def chans_ok_def
          of_priority_def Let_def)
  qed (use s in simp_all)
qed

definition sample_config :: BatcherConfig where
  "sample_config = \<lparr>bat_MaxBatchSize = 32, bat_MinBatchSize = 1, bat_QueueCapacity = 16, bat_BatchChanSize = 4\<rparr>"

definition sample_chans :: "nat \<Rightarrow> Batch chan option" where
  "sample_chans = (\<lambda>_. Some (make_chan 4))"

definition sample_batcher :: AdaptiveBatcher where
  "sample_batcher = NewAdaptiveBatcher sample_config None sample_chans (\<lambda>_. SFixed (NewFixedStrategy 5 32))
     (\<lambda>_. NewResultChan)"

lemma sample_chans_ok: "chans_ok sample_chans"
  by (simp add: sample_chans_def chans_ok_def)

lemma run_exits:
  assumes "running [] b" "shouldExit b"
  shows "\<exists>b'. run oob late turns b = Ret b' \<and> shut_down b' \<and> ab_stoppedCh b'
    \<and> ab_notified b' = queued (ab_qm b)
    \<and> ab_results b' = all_shut_down (queued (ab_qm b)) (ab_results b)"
proof -
  have "ab_notified b = []" using assms(1) by (simp add: running_def)
  then show ?thesis using exit_running [OF draining_running [OF assms(1)], of late] assms(2) by (subst run.simps) auto
qed

lemma Stop_unstarted:
  assumes "running [] b" "\<not> ab_started b"
  shows "\<exists>b'. Stop late ctx_err b = Ret (None, b') \<and> shut_down b' \<and> ab_notified b' = queued (ab_qm b)
    \<and> ab_results b' = all_shut_down (queued (ab_qm b)) (ab_results b)
    \<and> ((\<forall>i. EvQueue i \<notin> set late) \<longrightarrow> queued (ab_qm b') = [])"
proof -
  let ?b = "signal_stop b"
  have "running [] ?b" using assms(1) by (simp add: signal_stop_def Let_def)
  from exit_leaves [OF draining_running [OF this], of late] show ?thesis
    using assms by (auto simp: Stop_def Let_def signal_stop_def running_def)
qed

text \<open>
  C20: Shutdown notifies everyone. Once the loop sees the stop or the cancelled context it ends at
  the next turn, whatever the others do, then and between \<open>DrainAll\<close> and \<open>Close\<close> (\<open>late\<close>); \<open>Stop\<close> on a
  batcher that was never started does the same work itself. Every request still queued whose own result channel is empty then holds exactly the
  ErrShuttingDown result with its own identifier, and channels of other requests are untouched.
\<close>

theorem shutdown_notifies:
  assumes "running [] b" "distinct (map req_ResultChan (queued (ab_qm b)))"
    and "r \<in> set (queued (ab_qm b))" "req_ResultChan r = Some a" "one_place (ab_results b a)"
  shows "(shouldExit b \<longrightarrow> (\<exists>b'. run oob late turns b = Ret b' \<and> ab_stoppedCh b'
            \<and> ch_buf (ab_results b' a) = [\<lparr>res_RequestID = req_ID r, res_Result = ANil,
                 res_Error = Some ErrShuttingDown, res_LatencyMs = Fin 0\<rparr>]
            \<and> (\<forall>a'. Some a' \<notin> req_ResultChan ` set (queued (ab_qm b)) \<longrightarrow> ab_results b' a' = ab_results b a')
            \<and> Submit None (Some r) (b'\<lparr>ab_stopping := x\<rparr>) = Ret (Some ErrShuttingDown, b'\<lparr>ab_stopping := x\<rparr>)))
    \<and> (\<not> ab_started b \<longrightarrow> (\<exists>b'. Stop late ctx_err b = Ret (None, b')
            \<and> ch_buf (ab_results b' a) = [\<lparr>res_RequestID = req_ID r, res_Result = ANil,
                 res_Error = Some ErrShuttingDown, res_LatencyMs = Fin 0\<rparr>]
            \<and> ((\<forall>i. EvQueue i \<notin> set late) \<longrightarrow> queued (ab_qm b') = [])))"
proof -
  let ?res = "all_shut_down (queued (ab_qm b)) (ab_results b)"
  have own: "ch_buf (?res a) = [shutdown_result r]"
    unfolding all_shut_down_def
    by (rule send_all_own [of _ r]) (use assms(2-5) in \<open>auto simp: comp_def image_iff\<close>)
  have other: "?res a' = ab_results b a'" if "Some a' \<notin> req_ResultChan ` set (queued (ab_qm b))" for a'
    using that unfolding all_shut_down_def by (intro send_all_other) force
  have sub: "Submit None (Some r) (b'\<lparr>ab_stopping := x\<rparr>) = Ret (Some ErrShuttingDown, b'\<lparr>ab_stopping := x\<rparr>)"
    if "shut_down b'" for b'
    using that by (auto simp: Submit_whole Submit_closed shut_down_def)
  show ?thesis
    using run_exits [OF assms(1), of oob late turns] Stop_unstarted [OF assms(1), of late ctx_err] own other sub
    by (auto simp: shutdown_result_def shut_down_def)
qed

text \<open>
  C21: \<open>Submit\<close> on every branch, in the order of the code: a nil request, a batcher that is stopping
  (before the context is looked at), a context that is done, a full sub-queue; each returns its
  error and changes nothing. Otherwise the request is appended to the sub-queue of its traits, the
  counter goes up, and a wake is pending for the loop.
\<close>

theorem batcher_Submit:
  assumes "running hand b"
  shows "Submit ctx_err None b = Ret (Some ErrInvalidRequest, b)
    \<and> (ab_stopping b \<longrightarrow> Submit ctx_err (Some r) b = Ret (Some ErrShuttingDown, b))
    \<and> (\<not> ab_stopping b \<and> ctx_err = Some e \<longrightarrow> Submit ctx_err (Some r) b = Ret (Some e, b))
    \<and> (\<not> ab_stopping b \<and> ctx_err = None \<and> PerQueueCapacity (ab_qm b) \<le> int (length (lane (ab_qm b) (route r)))
         \<longrightarrow> Submit ctx_err (Some r) b = Ret (Some ErrQueueFull, b))
    \<and> (\<not> ab_stopping b \<and> ctx_err = None \<and> int (length (lane (ab_qm b) (route r))) < PerQueueCapacity (ab_qm b)
         \<longrightarrow> (\<exists>b'. Submit ctx_err (Some r) b = Ret (None, b')
               \<and> lane (ab_qm b') (route r) = lane (ab_qm b) (route r) @ [r]
               \<and> (\<forall>c. c \<noteq> route r \<longrightarrow> lane (ab_qm b') c = lane (ab_qm b) c)
               \<and> ab_requestsQueued b' = wrap64 (ab_requestsQueued b + 1)
               \<and> QueueDepth b' = QueueDepth b + 1
               \<and> ch_buf (EventChan (ab_qm b')) = [()]))"
proof -
  have q: "qm_inv (ab_qm b)" "\<not> qm_closed (ab_qm b)" using running_qm [OF assms] by auto
  show ?thesis
  proof (intro conjI impI)
    assume room: "\<not> ab_stopping b \<and> ctx_err = None \<and> int (length (lane (ab_qm b) (route r))) < PerQueueCapacity (ab_qm b)"
    let ?qm = "set_lane (route r) (lane (ab_qm b) (route r) @ [r]) (ab_qm b)"
    have inv: "qm_inv ?qm" using room by (intro submitted_inv [OF q(1)]) (simp add: PerQueueCapacity_def)
    have "Depth (Signal ?qm) = Depth (ab_qm b) + 1"
      by (simp add: Depth_def set_lane_def)
    then show "\<exists>b'. Submit ctx_err (Some r) b = Ret (None, b')
        \<and> lane (ab_qm b') (route r) = lane (ab_qm b) (route r) @ [r]
        \<and> (\<forall>c. c \<noteq> route r \<longrightarrow> lane (ab_qm b') c = lane (ab_qm b) c)
        \<and> ab_requestsQueued b' = wrap64 (ab_requestsQueued b + 1)
        \<and> QueueDepth b' = QueueDepth b + 1 \<and> ch_buf (EventChan (ab_qm b')) = [()]"
      using room Submit_open [OF q, of r] Signal_pending [OF inv]
      by (simp add: Submit_whole PerQueueCapacity_def EventChan_def QueueDepth_def)
  qed (use Submit_open [OF q, of r] in \<open>auto simp: Submit_whole PerQueueCapacity_def\<close>)
qed
lemma and_then_Waiting: "and_then m f = Waiting \<longleftrightarrow> m = Waiting \<or> (\<exists>x. m = Ret x \<and> f x = Waiting)"
  by (cases m) simp_all

lemma of_not_Waiting [simp]: "of_option x \<noteq> Waiting" "of_sum y \<noteq> Waiting"
  by (cases x; simp) (cases y; simp)

lemma Submit_queues_not_Waiting [simp]: "Submit_queues r b \<noteq> Waiting"
  by (auto simp: Submit_queues_def and_then_Waiting split: option.splits)

lemma Submit_not_Waiting [simp]: "Submit ctx_err req b \<noteq> Waiting"
  by (simp add: Submit_cases split: option.split)

lemma apply_event_not_Waiting [simp]: "apply_event e b \<noteq> Waiting"
  by (cases e) (auto simp: and_then_Waiting split: option.splits recv_result.splits sum.splits)

lemma apply_events_not_Waiting [simp]: "apply_events es b \<noteq> Waiting"
  by (induction es arbitrary: b) (auto simp: and_then_Waiting)

text \<open>A window that is still waiting when its rounds are used up is closed by the timer, or a stop.\<close>

lemma waiting_window:
  assumes "accumulate_loop s t p rt bk reqs rounds b = Waiting"
    and ready: "\<And>b. \<exists>b'. apply_events events b = Ret b' \<and> wake_ready t elapsed w b'" and w: "w \<noteq> WakeEvent"
  shows "\<exists>x. accumulate_loop s t p rt bk reqs (rounds @ [(events, elapsed, w)]) b = Ret x"
  using assms(1)
proof (induction rounds arbitrary: reqs b)
  case Nil
  let ?mx = "bat_MaxBatchSize (ab_cfg b)"
  have lt: "int (length reqs) < ?mx" using Nil by (subst (asm) accumulate_loop.simps) (auto split: if_splits)
  obtain more qm where d: "QueueMatrix_DrainFrom p rt bk (?mx - int (length reqs)) (ab_qm b) = Some (more, qm)"
    using Nil lt by (subst (asm) accumulate_loop.simps) (cases "QueueMatrix_DrainFrom p rt bk (?mx - int (length reqs)) (ab_qm b)", auto)
  obtain b' where b': "apply_events events (b\<lparr>ab_qm := qm\<rparr>) = Ret b'" "wake_ready t elapsed w b'"
    using ready by blast
  show ?case
    using Nil w by (subst accumulate_loop.simps, subst (asm) accumulate_loop.simps)
      (auto simp: lt d b' Let_def split: if_splits)
next
  case (Cons rd rounds)
  obtain es el w' where rd: "rd = (es, el, w')" by (cases rd)
  let ?mx = "bat_MaxBatchSize (ab_cfg b)"
  have lt: "int (length reqs) < ?mx" using Cons.prems by (subst (asm) accumulate_loop.simps) (auto split: if_splits)
  obtain more qm where d: "QueueMatrix_DrainFrom p rt bk (?mx - int (length reqs)) (ab_qm b) = Some (more, qm)"
    using Cons.prems lt by (subst (asm) accumulate_loop.simps) (cases "QueueMatrix_DrainFrom p rt bk (?mx - int (length reqs)) (ab_qm b)", auto)
  let ?reqs = "if length more > 0 then reqs @ more else reqs"
  let ?step = "\<lambda>rounds b. if \<not> wake_ready t el w' b then NotReady
      else if w' = WakeEvent then accumulate_loop s t p rt bk ?reqs rounds (recv_event b) else Ret (?reqs, b)"
  have wait: "and_then (apply_events es (b\<lparr>ab_qm := qm\<rparr>)) (?step rounds) = Waiting"
    using Cons.prems by (subst (asm) accumulate_loop.simps)
      (auto simp: lt d rd Let_def split: if_splits cong: if_cong)
  then obtain b1 where b1: "apply_events es (b\<lparr>ab_qm := qm\<rparr>) = Ret b1"
      "accumulate_loop s t p rt bk ?reqs rounds (recv_event b1) = Waiting" "wake_ready t el w' b1" "w' = WakeEvent"
    by (auto simp: and_then_Waiting split: if_splits)
  have "\<exists>x. accumulate_loop s t p rt bk ?reqs (rounds @ [(events, elapsed, w)]) (recv_event b1) = Ret x"
    by (rule Cons.IH [OF b1(2)])
  then show ?case
    using Cons.prems b1 by (subst accumulate_loop.simps, subst (asm) (3) accumulate_loop.simps)
      (auto simp: lt d rd Let_def split: if_splits cong: if_cong)
qed

lemma lane_DrainFrom_other:
  assumes "qm_inv qm" "\<not> qm_closed qm" "0 < mx" "QueueMatrix_DrainFrom p rt bk mx qm = Some (extra, qm')"
  shows "HasHigherPriorityThan p qm' = HasHigherPriorityThan p qm"
proof -
  have "lane qm' c = lane qm c" if "priorityIndex p < co_p c" for c
    using that assms(4) DrainFrom_open [OF assms(1-3) refl, of p rt bk] by auto
  then show ?thesis by (metis HasHigherPriorityThan_iff)
qed

text \<open>
  C22: The accumulation window. For every strategy and every behaviour of the others, it never
  panics or hangs; the batch it returns starts with the requests it was given, stays in their
  sub-queue and within the maximum size. Whatever has happened so far, a window still waiting is
  closed by its timer once the timeout has passed, by \<open>Stop\<close> and by the cancelled context; and it
  returns at once, without waiting, when a request of a higher priority is queued.
\<close>

theorem window_closes:
  assumes "running reqs b" "reqs \<noteq> []" "int (length reqs) \<le> bat_MaxBatchSize (ab_cfg b)"
    and "\<forall>r\<in>set reqs. route r = Coord (priorityIndex p) (typeIndex rt) (bucketIndex bk)"
  shows "(case accumulate_loop strategy timeout p rt bk reqs rounds b of
        Ret (reqs', b') \<Rightarrow> take (length reqs) reqs' = reqs \<and> int (length reqs') \<le> bat_MaxBatchSize (ab_cfg b)
          \<and> (\<forall>r\<in>set reqs'. route r = Coord (priorityIndex p) (typeIndex rt) (bucketIndex bk))
      | Panic e \<Rightarrow> False
      | Hangs \<Rightarrow> False
      | Waiting \<Rightarrow>
          (\<forall>elapsed. timeout \<le> elapsed \<longrightarrow>
            (\<exists>x. accumulate_loop strategy timeout p rt bk reqs (rounds @ [([], elapsed, WakeTimer)]) b = Ret x))
          \<and> (\<exists>x. accumulate_loop strategy timeout p rt bk reqs (rounds @ [([EvCancel], 0, WakeCtx)]) b = Ret x)
      | NotReady \<Rightarrow> True)
    \<and> (HasHigherPriorityThan p (ab_qm b) \<longrightarrow>
        (\<exists>x. accumulate_loop strategy timeout p rt bk reqs [] b = Ret x))"
proof
  let ?c = "Coord (priorityIndex p) (typeIndex rt) (bucketIndex bk)"
  have lane: "same_lane ?c reqs" using assms(2,4) by (simp add: same_lane_def)
  note s = accumulate_loop_running [OF assms(1) lane assms(3) refl, of strategy timeout rounds]
  show "case accumulate_loop strategy timeout p rt bk reqs rounds b of
        Ret (reqs', b') \<Rightarrow> take (length reqs) reqs' = reqs \<and> int (length reqs') \<le> bat_MaxBatchSize (ab_cfg b)
          \<and> (\<forall>r\<in>set reqs'. route r = ?c)
      | Panic e \<Rightarrow> False
      | Hangs \<Rightarrow> False
      | Waiting \<Rightarrow>
          (\<forall>elapsed. timeout \<le> elapsed \<longrightarrow>
            (\<exists>x. accumulate_loop strategy timeout p rt bk reqs (rounds @ [([], elapsed, WakeTimer)]) b = Ret x))
          \<and> (\<exists>x. accumulate_loop strategy timeout p rt bk reqs (rounds @ [([EvCancel], 0, WakeCtx)]) b = Ret x)
      | NotReady \<Rightarrow> True"
  proof (cases "accumulate_loop strategy timeout p rt bk reqs rounds b")
    case (Ret x)
    with s show ?thesis by (auto simp: same_lane_def)
  next
    case Waiting
    show ?thesis
      unfolding Waiting outcome.case
      by (intro conjI allI impI waiting_window [OF Waiting]) (simp_all add: wake_ready_def)
  qed (use s in simp_all)
  show "HasHigherPriorityThan p (ab_qm b) \<longrightarrow> (\<exists>x. accumulate_loop strategy timeout p rt bk reqs [] b = Ret x)"
  proof
    assume h: "HasHigherPriorityThan p (ab_qm b)"
    show "\<exists>x. accumulate_loop strategy timeout p rt bk reqs [] b = Ret x"
    proof (cases "int (length reqs) < bat_MaxBatchSize (ab_cfg b)")
      case True
      obtain more qm where d: "QueueMatrix_DrainFrom p rt bk (bat_MaxBatchSize (ab_cfg b) - int (length reqs)) (ab_qm b)
          = Some (more, qm)"
        using DrainFrom_running [OF assms(1) _ refl, of "bat_MaxBatchSize (ab_cfg b) - int (length reqs)" p rt bk] True
        by auto
      have "HasHigherPriorityThan p qm"
        using lane_DrainFrom_other [OF _ _ _ d] running_qm [OF assms(1)] True h by auto
      then show ?thesis by (subst accumulate_loop.simps) (auto simp: True d Let_def)
    qed (subst accumulate_loop.simps, simp)
  qed
qed
text \<open>
  The length of the window. It is never under a millisecond, whatever the strategy; with no
  strategy it is exactly that. A well-tuned queue-depth strategy never makes it longer than its
  longest wait (or a millisecond), and the latency-aware one over it never longer than twice that,
  while its multiplier is in the band and the target is finite. Only the strategy at the address
  in use changes, and nothing else of the batcher.
\<close>

theorem nextTimeout_bounds:
  "(let (timeout, b') = nextTimeout oob s b in
      millisecond \<le> timeout \<and> (s = None \<longrightarrow> timeout = millisecond)
      \<and> b' = b\<lparr>ab_store := ab_store b'\<rparr> \<and> (\<forall>a. s \<noteq> Some a \<longrightarrow> ab_store b' a = ab_store b a)
      \<and> (\<forall>a q. s = Some a \<and> ab_store b a = SQueueDepth q \<and> depth_tuned q \<longrightarrow>
            timeout \<le> max millisecond (qd_maxWaitMs q * millisecond))
      \<and> (\<forall>a q k t. s = Some a \<and> ab_store b a = SLatency (Some (SQueueDepth q)) k defaultKP t
            \<and> depth_tuned q \<and> in_band k \<and> \<not> infinite_target (ab_metrics b) \<longrightarrow>
            timeout \<le> max millisecond (qd_maxWaitMs q * 2000000)
            \<and> (\<exists>k'. ab_store b' a = SLatency (Some (SQueueDepth q)) k' defaultKP t \<and> in_band k')))"
proof (cases s)
  case None
  then show ?thesis by (simp add: nextTimeout_def minFormBatchWait_def)
next
  case (Some a)
  have lat: "fst (CalculateTimeout oob (SLatency (Some (SQueueDepth q)) k defaultKP t) d m) \<le> qd_maxWaitMs q * 2000000
      \<and> in_band (control_step defaultKP k m)"
    if "depth_tuned q" "in_band k" "\<not> infinite_target m" for q k t d m
  proof -
    obtain g where g: "defaultKP = Fin g" "0 < g" using defaultKP_finite by blast
    have k': "in_band (control_step (Fin g) k m)" by (rule control_step_band [OF g(2) that(2,3)])
    then obtain x where x: "control_step (Fin g) k m = Fin x" "1 / 2 \<le> x" "x \<le> 2" by (rule in_bandE)
    show ?thesis
      using depth_timeout.stretched [OF that(1) x(2,3), of oob oob d] k' by (simp add: g(1) x(1) Let_def)
  qed
  obtain timeout s' where c: "CalculateTimeout oob (ab_store b a) (Depth (ab_qm b)) (currentMetrics b) = (timeout, s')"
    by fastforce
  have q: "timeout \<le> qd_maxWaitMs q * millisecond" if "ab_store b a = SQueueDepth q" "depth_tuned q" for q
    using c that depth_timeout_bounds [OF that(2), of oob "Depth (ab_qm b)"] by auto
  have l: "timeout \<le> qd_maxWaitMs q * 2000000
      \<and> (\<exists>k'. s' = SLatency (Some (SQueueDepth q)) k' defaultKP t \<and> in_band k')"
    if "ab_store b a = SLatency (Some (SQueueDepth q)) k defaultKP t" "depth_tuned q" "in_band k"
      "\<not> infinite_target (ab_metrics b)" for q k t
    using lat [OF that(2-4), of t "Depth (ab_qm b)"] c that(1) by (auto simp: currentMetrics_def Let_def)
  show ?thesis
    using q l by (auto simp: nextTimeout_def Some c minFormBatchWait_def Let_def max_def)
qed
section \<open>Witnesses\<close>

definition sample_req :: InferenceRequest where
  "sample_req = sample_request ''r1'' 1 40"

definition sample_queued :: AdaptiveBatcher where
  "sample_queued = sample_batcher\<lparr>
     ab_qm := Signal (set_lane (route sample_req) [sample_req] (NewQueueMatrix 16)),
     ab_requestsQueued := 1, ab_accepted := [sample_req]\<rparr>"

lemma sample_batcher_simps:
  "ab_qm sample_batcher = NewQueueMatrix 16" "\<not> ab_stopping sample_batcher" "ab_requestsQueued sample_batcher = 0"
  "ab_accepted sample_batcher = []" "running [] sample_batcher" "bat_MaxBatchSize (ab_cfg sample_batcher) = 32"
  "ab_started sample_batcher = False" "ab_results sample_batcher = (\<lambda>_. NewResultChan)"
  using NewAdaptiveBatcher_running [OF sample_chans_ok, folded sample_batcher_def]
  by (simp_all add: NewAdaptiveBatcher_running [OF sample_chans_ok] sample_batcher_def)
    (simp_all add: NewAdaptiveBatcher_def sample_config_def Let_def)

lemma sample_capacity: "qm_perQueueCapacity (NewQueueMatrix 16) = 1"
  using per_queue_capacity [of 16] by simp

lemma sample_Submit: "Submit None (Some sample_req) sample_batcher = Ret (None, sample_queued)"
  using Submit_open [OF conjunct1 [OF NewQueueMatrix_inv] conjunct2 [OF NewQueueMatrix_inv], of sample_req 16]
  by (simp add: Submit_whole sample_batcher_simps sample_queued_def sample_capacity wrap64_id i64_def)

lemma sample_queued_running: "running [] sample_queued"
  using Submit_running [OF sample_batcher_simps(5), of "Some sample_req" None] by (simp add: sample_Submit)

lemma sample_queued_lane: "lane (ab_qm sample_queued) c = (if c = route sample_req then [sample_req] else [])"
  by (simp add: sample_queued_def)

lemma sample_queued_list: "queued (ab_qm sample_queued) = [sample_req]"
proof -
  have "mset (queued (ab_qm sample_queued)) = {#sample_req#}"
    using log_inv_mset [of "ab_qm sample_queued" "ab_accepted sample_queued" "dispatched sample_queued"]
      sample_queued_running
    by (simp add: running_def sample_queued_def dispatched_def sample_batcher_def NewAdaptiveBatcher_def Let_def)
  then show ?thesis by simp
qed

text \<open>One request is queued and told; another has passed its checks before \<open>Stop\<close> and is queued too late.\<close>

definition late_req :: InferenceRequest where
  "late_req = sample_request ''r2'' 1 40"

lemma Submit_queues_entering:
  "Submit_queues r (b\<lparr>ab_entering := x\<rparr>) = and_then (Submit_queues r b) (\<lambda>(e, b'). Ret (e, b'\<lparr>ab_entering := x\<rparr>))"
  by (cases "QueueMatrix_Submit (Some r) (ab_qm b)") (auto simp: Submit_queues_def split: option.split)

lemma sample_calls:
  "apply_events [EvEnter None (Some sample_req), EvEnter None (Some late_req), EvQueue 0, EvStop] sample_batcher
     = Ret (signal_stop (sample_queued\<lparr>ab_entering := [late_req]\<rparr>))"
proof -
  have "Submit_queues sample_req sample_batcher = Ret (None, sample_queued)"
    using sample_Submit by (simp add: Submit_cases sample_batcher_simps)
  moreover have "ab_entering sample_batcher = []" by (simp add: sample_batcher_def NewAdaptiveBatcher_def Let_def)
  ultimately show ?thesis
    by (simp add: Submit_checks_def sample_batcher_simps Submit_queues_entering)
qed

theorem batcher_life_witness:
  "\<exists>b. and_then (apply_events [EvEnter None (Some sample_req), EvEnter None (Some late_req), EvQueue 0, EvStop] sample_batcher)
       (Start (\<lambda>_. 0) [EvQueue 0] []) = Ret b
     \<and> ab_accepted b = [sample_req, late_req] \<and> ab_notified b = [sample_req] \<and> queued (ab_qm b) = [late_req]"
proof -
  let ?x = "(signal_stop (sample_queued\<lparr>ab_entering := [late_req]\<rparr>))\<lparr>ab_startOnce := True, ab_started := True\<rparr>"
  have run: "running [] ?x" using sample_queued_running by (simp add: signal_stop_def Let_def)
  have f: "shouldExit ?x" "\<not> ab_startOnce (signal_stop (sample_queued\<lparr>ab_entering := [late_req]\<rparr>))" "ab_entering ?x = [late_req]"
    "queued (ab_qm ?x) = [sample_req]" "ab_accepted ?x = [sample_req]" "ab_sent ?x = []"
    using sample_queued_list
    by (simp_all add: shouldExit_def signal_stop_def Let_def sample_queued_def sample_batcher_def NewAdaptiveBatcher_def)
  obtain b where b: "run (\<lambda>_. 0) [EvQueue 0] [] ?x = Ret b" "ab_notified b = [sample_req]"
    using run_exits [OF run f(1), of "\<lambda>_. 0" "[EvQueue 0]" "[]"] f(4) by auto
  let ?y = "(drain_all ?x)\<lparr>ab_entering := []\<rparr>"
  have ent: "ab_entering (drain_all ?x) = [late_req]"
    using f(3) notify_fold [of ab_entering] by (simp add: drain_all_def DrainAll_eq notifyShuttingDown_def)
  have "draining (drain_all ?x)" by (rule drain_all_draining [OF draining_running [OF run]])
  then have q: "qm_inv (ab_qm ?y)" "\<not> qm_closed (ab_qm ?y)" using draining_qm [of "drain_all ?x"] by simp_all
  have "lane (ab_qm ?y) (route late_req) = []" by (simp add: DrainAll_eq lane_def)
  then have "\<exists>y. Submit_queues late_req ?y = Ret (None, y) \<and> ab_accepted y = [sample_req, late_req] \<and> ab_sent y = []"
    using Submit_open [OF q, of late_req] qm_invD(1) [OF q(1)] f(5,6) by (simp add: Submit_queues_def)
  then have acc: "ab_accepted b = [sample_req, late_req]" "ab_sent b = []"
    using b(1) f(1) ent by (auto simp: run.simps exit_loop_def drain_def drain_close_def and_then_Ret)
  have start: "and_then (apply_events [EvEnter None (Some sample_req), EvEnter None (Some late_req), EvQueue 0, EvStop] sample_batcher)
       (Start (\<lambda>_. 0) [EvQueue 0] []) = Ret b"
    unfolding sample_calls using f(2) b(1) by (simp add: Start_def)
  have "mset (ab_accepted b) = mset (concat (map batch_Requests (ab_sent b))) + mset (ab_notified b) + mset (queued (ab_qm b))"
    using batcher_life [OF sample_chans_ok, where cfg = sample_config and s = None and store = "\<lambda>_. SFixed (NewFixedStrategy 5 32)"
        and results = "\<lambda>_. NewResultChan" and oob = "\<lambda>_. 0" and late = "[EvQueue 0]" and turns = "[]"
        and pre = "[EvEnter None (Some sample_req), EvEnter None (Some late_req), EvQueue 0, EvStop]"] start
    unfolding sample_batcher_def by simp
  then have "mset (queued (ab_qm b)) = {#late_req#}" by (simp add: acc b(2))
  then show ?thesis using start acc b(2) by auto
qed

theorem shutdown_notifies_witness:
  "\<exists>b'. run (\<lambda>_. 0) [EvEnter None (Some sample_req)] [] (signal_stop sample_queued) = Ret b' \<and> ab_stoppedCh b'
     \<and> ch_buf (ab_results b' 0) = [\<lparr>res_RequestID = ''r1'', res_Result = ANil,
          res_Error = Some ErrShuttingDown, res_LatencyMs = Fin 0\<rparr>]"
proof -
  let ?b = "signal_stop sample_queued"
  have run: "running [] ?b" using sample_queued_running by (simp add: signal_stop_def Let_def)
  have q: "queued (ab_qm ?b) = [sample_req]" "one_place (ab_results ?b 0)"
    using sample_queued_list
    by (simp_all add: signal_stop_def Let_def sample_queued_def sample_batcher_simps one_place_def NewResultChan_def)
  have stop: "shouldExit ?b"
    by (simp add: shouldExit_def signal_stop_def Let_def sample_queued_def sample_batcher_def NewAdaptiveBatcher_def)
  have ch: "req_ResultChan sample_req = Some 0" "req_ID sample_req = ''r1''"
    by (simp_all add: sample_req_def sample_request_def)
  show ?thesis
    using shutdown_notifies [OF run, of sample_req 0 "\<lambda>_. 0" "[EvEnter None (Some sample_req)]" "[]" True None] stop q ch by auto
qed

theorem batcher_Submit_witness:
  "\<exists>b'. Submit None (Some sample_req) sample_batcher = Ret (None, b')
     \<and> lane (ab_qm b') (route sample_req) = [sample_req]
     \<and> Submit None (Some sample_req) b' = Ret (Some ErrQueueFull, b')"
proof -
  have "PerQueueCapacity (ab_qm sample_queued) \<le> int (length (lane (ab_qm sample_queued) (route sample_req)))"
    by (simp add: sample_queued_lane PerQueueCapacity_def sample_queued_def sample_capacity)
  moreover have "\<not> ab_stopping sample_queued" by (simp add: sample_queued_def sample_batcher_simps)
  ultimately show ?thesis
    using batcher_Submit [OF sample_batcher_simps(5), of None sample_req ErrShuttingDown]
      batcher_Submit [OF sample_queued_running, of None sample_req ErrShuttingDown]
    by (simp add: sample_Submit sample_queued_lane)
qed

theorem window_closes_witness:
  "\<exists>b. running [sample_req] b
     \<and> (case accumulate_loop (Some 0) (5 * millisecond) 1 RequestTypeCompletion 0 [sample_req] [] b of
          Ret (reqs', b') \<Rightarrow> take 1 reqs' = [sample_req]
        | Waiting \<Rightarrow> \<exists>x. accumulate_loop (Some 0) (5 * millisecond) 1 RequestTypeCompletion 0 [sample_req]
            [([], 5 * millisecond, WakeTimer)] b = Ret x
        | NotReady \<Rightarrow> True | _ \<Rightarrow> False)"
proof -
  let ?c = "Coord (priorityIndex 1) (typeIndex RequestTypeCompletion) (bucketIndex 0)"
  let ?b = "sample_queued\<lparr>ab_qm := set_lane ?c [] (ab_qm sample_queued)\<rparr>"
  have c: "route sample_req = ?c"
    by (simp add: sample_req_def route_sample typeIndex_def bucketIndex_def RequestTypeCompletion_def
        RequestTypeEmbedding_def)
  have q: "qm_inv (ab_qm sample_queued)" "\<not> qm_closed (ab_qm sample_queued)"
    using running_qm [OF sample_queued_running] by auto
  have run: "running ([] @ [sample_req]) ?b"
    by (rule running_qm_step [OF sample_queued_running, of "OpDrainFrom 1 RequestTypeCompletion 0 32"])
      (simp add: DrainFrom_open [OF q] sample_queued_lane c)
  have mx: "bat_MaxBatchSize (ab_cfg ?b) = 32"
    by (simp add: sample_queued_def sample_batcher_simps)
  show ?thesis
    using window_closes [where reqs = "[sample_req]" and b = ?b and p = 1 and rt = RequestTypeCompletion
        and bk = 0 and strategy = "Some 0" and timeout = "5 * millisecond" and rounds = "[]"] run mx c
    by (intro exI [of _ ?b]) (auto split: outcome.splits)
qed

theorem nextTimeout_bounds_witness:
  "millisecond \<le> fst (nextTimeout (\<lambda>_. 0) (Some 0) (sample_batcher\<lparr>ab_store := (\<lambda>_. SQueueDepth sample_depth)\<rparr>))
   \<and> fst (nextTimeout (\<lambda>_. 0) (Some 0) (sample_batcher\<lparr>ab_store := (\<lambda>_. SQueueDepth sample_depth)\<rparr>)) \<le> 40 * millisecond"
proof -
  have t: "depth_tuned sample_depth" "qd_maxWaitMs sample_depth = 40"
    by (simp_all add: depth_tuned_def sample_depth_def NewQueueDepthStrategy_def)
  show ?thesis
    using nextTimeout_bounds [of "\<lambda>_. 0" "Some 0" "sample_batcher\<lparr>ab_store := (\<lambda>_. SQueueDepth sample_depth)\<rparr>"] t
    by (auto simp: split_beta Let_def)
qed


end
