(* ===== verification/Circuit.thy ===== *)
theory Circuit
  imports Prelude
begin

text \<open>
  internal/worker/circuit.go: the per-worker circuit breaker. Every operation holds the mutex from
  beginning to end, so each is one function here; \<open>now\<close> is what the clock says inside it.
\<close>

type_synonym CircuitState = int

abbreviation (input) CircuitClosed :: CircuitState where "CircuitClosed \<equiv> 0"
abbreviation (input) CircuitOpen :: CircuitState where "CircuitOpen \<equiv> 1"
abbreviation (input) CircuitHalfOpen :: CircuitState where "CircuitHalfOpen \<equiv> 2"

definition CircuitState_String :: "CircuitState \<Rightarrow> string" where
  "CircuitState_String s =
     (if s = CircuitClosed then ''closed''
      else if s = CircuitOpen then ''open''
      else if s = CircuitHalfOpen then ''half_open''
      else ''unknown'')"

record CircuitBreaker =
  cb_state :: CircuitState
  cb_failureCount :: int
  cb_lastFailureTime :: instant
  cb_failureThreshold :: int
  cb_recoveryTimeout :: duration

definition NewCircuitBreaker :: "int \<Rightarrow> duration \<Rightarrow> CircuitBreaker" where
  "NewCircuitBreaker failureThreshold recoveryTimeout =
     \<lparr>cb_state = CircuitClosed, cb_failureCount = 0, cb_lastFailureTime = zero_time,
      cb_failureThreshold = failureThreshold, cb_recoveryTimeout = recoveryTimeout\<rparr>"

definition RecordSuccess :: "CircuitBreaker \<Rightarrow> CircuitBreaker" where
  "RecordSuccess cb =
     (let cb = cb\<lparr>cb_failureCount := 0\<rparr>
      in if cb_state cb = CircuitHalfOpen then cb\<lparr>cb_state := CircuitClosed\<rparr> else cb)"

definition RecordFailure :: "instant \<Rightarrow> CircuitBreaker \<Rightarrow> CircuitBreaker" where
  "RecordFailure now cb =
     (let cb = cb\<lparr>cb_failureCount := wrap64 (cb_failureCount cb + 1), cb_lastFailureTime := now\<rparr>
      in if cb_failureThreshold cb \<le> cb_failureCount cb then cb\<lparr>cb_state := CircuitOpen\<rparr> else cb)"

definition CanExecute :: "instant \<Rightarrow> CircuitBreaker \<Rightarrow> bool \<times> CircuitBreaker" where
  "CanExecute now cb =
     (if cb_state cb = CircuitClosed then (True, cb)
      else if cb_state cb = CircuitOpen then
        (if cb_recoveryTimeout cb \<le> time_sub now (cb_lastFailureTime cb)
         then (True, cb\<lparr>cb_state := CircuitHalfOpen\<rparr>) else (False, cb))
      else if cb_state cb = CircuitHalfOpen then (True, cb)
      else (False, cb))"

definition State :: "CircuitBreaker \<Rightarrow> CircuitState" where
  "State cb = cb_state cb"

definition Reset :: "CircuitBreaker \<Rightarrow> CircuitBreaker" where
  "Reset cb = cb\<lparr>cb_state := CircuitClosed, cb_failureCount := 0, cb_lastFailureTime := zero_time\<rparr>"

section \<open>The state machine\<close>

text \<open>
  The breaker as a machine: the operations as labels, and the transitions of the specification
  between its three states, with the number of failures since the last success as \<open>n\<close>.
\<close>

datatype breaker_op = OpSuccess | OpFailure instant | OpCanExecute instant | OpReset

fun breaker_apply :: "breaker_op \<Rightarrow> CircuitBreaker \<Rightarrow> CircuitBreaker" where
  "breaker_apply OpSuccess cb = RecordSuccess cb"
| "breaker_apply (OpFailure now) cb = RecordFailure now cb"
| "breaker_apply (OpCanExecute now) cb = snd (CanExecute now cb)"
| "breaker_apply OpReset cb = Reset cb"

inductive breaker_edge :: "CircuitBreaker \<Rightarrow> breaker_op \<Rightarrow> CircuitState \<Rightarrow> CircuitState \<Rightarrow> bool" where
  trips: "cb_failureThreshold cb \<le> wrap64 (cb_failureCount cb + 1) \<Longrightarrow>
      breaker_edge cb (OpFailure now) s CircuitOpen"
| probes: "cb_recoveryTimeout cb \<le> time_sub now (cb_lastFailureTime cb) \<Longrightarrow>
      breaker_edge cb (OpCanExecute now) CircuitOpen CircuitHalfOpen"
| recovers: "breaker_edge cb OpSuccess CircuitHalfOpen CircuitClosed"
| resets: "breaker_edge cb OpReset s CircuitClosed"

inductive_cases breaker_edgeE: "breaker_edge cb op s s'"

lemma i64_0: "i64 0"
  by (simp add: i64_def)

definition breaker_inv :: "CircuitBreaker \<Rightarrow> bool" where
  "breaker_inv cb \<longleftrightarrow> cb_state cb \<in> {CircuitClosed, CircuitOpen, CircuitHalfOpen}
     \<and> i64 (cb_failureCount cb)"

lemmas breaker_defs = RecordSuccess_def RecordFailure_def CanExecute_def Reset_def Let_def

lemma breaker_apply_inv: "breaker_inv cb \<Longrightarrow> breaker_inv (breaker_apply op cb)"
  by (cases op) (auto simp: breaker_inv_def breaker_defs i64_0)

lemma breaker_apply_edge:
  assumes "breaker_inv cb"
  shows "cb_state (breaker_apply op cb) = cb_state cb
    \<or> breaker_edge cb op (cb_state cb) (cb_state (breaker_apply op cb))"
  using assms by (cases op) (auto simp: breaker_inv_def breaker_defs intro: breaker_edge.intros)

interpretation breaker: component "NewCircuitBreaker thr rec"
  "\<lambda>op cb. Some (breaker_apply op cb)" breaker_inv for thr rec
  by unfold_locales (simp_all add: breaker_apply_inv, simp add: breaker_inv_def NewCircuitBreaker_def i64_0)

text \<open>
  C23: The breaker's state machine. After any sequence of operations from any constructor arguments
  the state is one of the three, and the next operation either leaves it or takes one of four
  edges: to open by a failure that brings the count to the threshold, from open to half-open by
  \<open>CanExecute\<close> once the recovery time has passed since the last failure, from half-open to closed by
  a success, to closed by \<open>Reset\<close>. \<open>CanExecute\<close> answers yes exactly when the state it leaves is not
  open.
\<close>

theorem breaker_machine:
  "\<exists>cb. run_ops (\<lambda>op cb. Some (breaker_apply op cb)) ops (NewCircuitBreaker thr rec) = Some cb
     \<and> State cb \<in> {CircuitClosed, CircuitOpen, CircuitHalfOpen}
     \<and> (State (breaker_apply op cb) = State cb
        \<or> breaker_edge cb op (State cb) (State (breaker_apply op cb)))
     \<and> fst (CanExecute now cb) = (State (snd (CanExecute now cb)) \<noteq> CircuitOpen)"
proof -
  obtain cb where r: "run_ops (\<lambda>op cb. Some (breaker_apply op cb)) ops (NewCircuitBreaker thr rec) = Some cb"
    and inv: "breaker_inv cb"
    using breaker.run_total by blast
  have "fst (CanExecute now cb) = (State (snd (CanExecute now cb)) \<noteq> CircuitOpen)"
    using inv by (auto simp: CanExecute_def State_def breaker_inv_def)
  then show ?thesis
    using r inv breaker_apply_edge [OF inv, of op] by (auto simp: State_def breaker_inv_def)
qed

section \<open>What a worker sees\<close>

text \<open>
  A worker asks \<open>CanExecute\<close> at \<open>t\<close> and, when admitted, either makes no upstream call (all clients
  gone, or a payload that does not encode), or records the call's success, or its failure at \<open>t'\<close>.
\<close>

datatype call = NoCall | CallOk | CallFailed instant

fun attempts :: "(instant \<times> call) list \<Rightarrow> CircuitBreaker \<Rightarrow> bool list" where
  "attempts [] cb = []"
| "attempts ((t, c) # as) cb =
     (let (ok, cb) = CanExecute t cb in
      ok # attempts as (if \<not> ok then cb else
        (case c of NoCall \<Rightarrow> cb | CallOk \<Rightarrow> RecordSuccess cb | CallFailed t' \<Rightarrow> RecordFailure t' cb)))"

text \<open>
  The specification has no states: \<open>n\<close> failures since the last success, the last one at \<open>failed_at\<close>. A
  call is admitted when there were fewer than the threshold, or the recovery time has passed.
\<close>

fun admitted :: "int \<Rightarrow> duration \<Rightarrow> (instant \<times> call) list \<Rightarrow> int \<Rightarrow> instant \<Rightarrow> bool list" where
  "admitted thr rec [] n failed_at = []"
| "admitted thr rec ((t, c) # as) n failed_at =
     (let ok = (n < thr \<or> rec \<le> time_sub t failed_at) in
      ok # (if \<not> ok then admitted thr rec as n failed_at else
        (case c of
           NoCall \<Rightarrow> admitted thr rec as n failed_at
         | CallOk \<Rightarrow> admitted thr rec as 0 failed_at
         | CallFailed t' \<Rightarrow> admitted thr rec as (n + 1) t')))"

fun in_order :: "instant \<Rightarrow> (instant \<times> call) list \<Rightarrow> bool" where
  "in_order t0 [] = True"
| "in_order t0 ((t, c) # as) =
     (t0 \<le> t \<and> (case c of CallFailed t' \<Rightarrow> t \<le> t' \<and> in_order t' as | _ \<Rightarrow> in_order t as))"

definition tracks :: "instant \<Rightarrow> int \<Rightarrow> instant \<Rightarrow> CircuitBreaker \<Rightarrow> bool" where
  "tracks now n failed_at cb \<longleftrightarrow> cb_failureCount cb = n \<and> cb_lastFailureTime cb = failed_at \<and> 0 \<le> n
     \<and> ((cb_state cb = CircuitClosed \<and> n < cb_failureThreshold cb)
        \<or> (cb_state cb = CircuitOpen \<and> cb_failureThreshold cb \<le> n)
        \<or> (cb_state cb = CircuitHalfOpen \<and> cb_failureThreshold cb \<le> n
             \<and> cb_recoveryTimeout cb \<le> time_sub now failed_at))"

lemma tracks_CanExecute:
  assumes "tracks t0 n failed_at cb" "t0 \<le> t"
  shows "fst (CanExecute t cb) \<longleftrightarrow> n < cb_failureThreshold cb \<or> cb_recoveryTimeout cb \<le> time_sub t failed_at"
    and "tracks t n failed_at (snd (CanExecute t cb))"
  using assms time_sub_mono [OF assms(2), of failed_at]
  by (auto simp: tracks_def CanExecute_def)

lemma CanExecute_tuning [simp]:
  "cb_failureThreshold (snd (CanExecute t cb)) = cb_failureThreshold cb"
  "cb_recoveryTimeout (snd (CanExecute t cb)) = cb_recoveryTimeout cb"
  by (simp_all add: CanExecute_def)

lemma Record_tuning [simp]:
  "cb_failureThreshold (RecordSuccess cb) = cb_failureThreshold cb"
  "cb_recoveryTimeout (RecordSuccess cb) = cb_recoveryTimeout cb"
  "cb_failureThreshold (RecordFailure now cb) = cb_failureThreshold cb"
  "cb_recoveryTimeout (RecordFailure now cb) = cb_recoveryTimeout cb"
  by (simp_all add: RecordSuccess_def RecordFailure_def Let_def)

lemma in_order_mono: "in_order t as \<Longrightarrow> t0 \<le> t \<Longrightarrow> in_order t0 as"
  by (cases as) (auto split: call.splits)

lemma attempts_admitted:
  assumes "tracks t0 n failed_at cb" "in_order t0 as" "n + int (length as) < 2 ^ 63"
    "cb_failureThreshold cb = thr" "cb_recoveryTimeout cb = rec" "1 \<le> thr"
  shows "attempts as cb = admitted thr rec as n failed_at"
  using assms
proof (induction as arbitrary: t0 n failed_at cb)
  case (Cons a as)
  obtain t c where a: "a = (t, c)" by (cases a)
  obtain ok cb' where ce: "CanExecute t cb = (ok, cb')" by fastforce
  have le: "t0 \<le> t" using Cons.prems(2) by (simp add: a)
  have ok: "ok \<longleftrightarrow> n < thr \<or> rec \<le> time_sub t failed_at" and tr: "tracks t n failed_at cb'"
    using tracks_CanExecute [OF Cons.prems(1) le] Cons.prems(4,5) by (simp_all add: ce)
  have tun: "cb_failureThreshold cb' = thr" "cb_recoveryTimeout cb' = rec"
    using CanExecute_tuning [of t cb] Cons.prems(4,5) by (simp_all add: ce)
  have len: "n + int (length as) < 2 ^ 63" "n + 1 < 2 ^ 63" using Cons.prems(3) by simp_all
  have len0: "0 + int (length as) < 2 ^ 63" using len(1) tr by (simp add: tracks_def)
  show ?case
  proof (cases ok)
    case False
    have "in_order t0 as"
      using Cons.prems(2) le by (cases c) (auto simp: a intro: in_order_mono)
    moreover have "tracks t0 n failed_at cb'"
      using Cons.prems(1) ce False by (auto simp: CanExecute_def split: if_splits)
    ultimately have "attempts as cb' = admitted thr rec as n failed_at"
      using len tun Cons.prems(6) by (intro Cons.IH)
    then show ?thesis using False ok by (simp add: a ce)
  next
    case True
    show ?thesis
    proof (cases c)
      case NoCall
      have "attempts as cb' = admitted thr rec as n failed_at"
        using tr len tun Cons.prems(2,6) by (intro Cons.IH [of t]) (simp_all add: a NoCall)
      then show ?thesis using True ok by (simp add: a ce NoCall)
    next
      case CallOk
      have "tracks t 0 failed_at (RecordSuccess cb')"
        using tr tun Cons.prems(6) ce True
        by (auto simp: tracks_def breaker_defs CanExecute_def split: if_splits)
      then have "attempts as (RecordSuccess cb') = admitted thr rec as 0 failed_at"
        using len0 tun Cons.prems(2,6)
        by (intro Cons.IH [of t]) (simp_all add: a CallOk)
      then show ?thesis using True ok by (simp add: a ce CallOk)
    next
      case (CallFailed t')
      have "wrap64 (n + 1) = n + 1"
        using tr len(2) by (intro wrap64_id) (simp add: tracks_def i64_def)
      then have "tracks t' (n + 1) t' (RecordFailure t' cb')"
        using tr ce True by (auto simp: tracks_def breaker_defs CanExecute_def split: if_splits)
      then have "attempts as (RecordFailure t' cb') = admitted thr rec as (n + 1) t'"
        using len tun Cons.prems(2,3,6)
        by (intro Cons.IH [of t']) (simp_all add: a CallFailed)
      then show ?thesis using True ok by (simp add: a ce CallFailed)
    qed
  qed
qed simp

text \<open>
  C24: The breaker as a worker uses it refines a specification without states. For any sequence of
  attempts in the order of the clock (fewer than \<open>2 ^ 63\<close> of them), from a fresh breaker with a
  positive threshold, an attempt is admitted exactly when fewer calls than the threshold have
  failed since the last success, or the recovery time has passed since the last failure. In
  particular a failed probe closes the door again for the whole recovery time.
\<close>

theorem breaker_refines:
  assumes "1 \<le> thr" "in_order 0 as" "int (length as) < 2 ^ 63"
  shows "attempts as (NewCircuitBreaker thr rec) = admitted thr rec as 0 0"
  by (rule attempts_admitted [OF _ assms(2)])
    (use assms in \<open>simp_all add: tracks_def NewCircuitBreaker_def zero_time_def\<close>)

theorem breaker_refines_witness:
  "attempts [(1, CallFailed 2), (3, CallFailed 4), (5, CallOk), (20, CallFailed 21), (22, CallOk)]
     (NewCircuitBreaker 2 10) = [True, True, False, True, False]"
  using breaker_refines [of 2 "[(1, CallFailed 2), (3, CallFailed 4), (5, CallOk), (20, CallFailed 21), (22, CallOk)]" 10]
  by (simp add: time_sub_def)

end
