(* ===== verification/Proxy.thy ===== *)
theory Proxy
  imports Batcher Circuit
begin

text \<open>
  internal/worker/proxy.go and worker.go: a worker pulls batches in priority order, posts them to
  the upstream server and fans the results out. The HTTP client, the JSON codec and the request
  contexts are outside: \<open>exchange\<close> is what they do during one batch. A context's error is read at
  two moments, before the upstream call and after it.
\<close>

section \<open>worker.go\<close>

type_synonym WorkerStatus = int

abbreviation (input) WorkerIdle :: WorkerStatus where "WorkerIdle \<equiv> 0"
abbreviation (input) WorkerBusy :: WorkerStatus where "WorkerBusy \<equiv> 1"
abbreviation (input) WorkerUnhealthy :: WorkerStatus where "WorkerUnhealthy \<equiv> 2"

definition WorkerStatus_String :: "WorkerStatus \<Rightarrow> string" where
  "WorkerStatus_String s =
     (if s = WorkerIdle then ''idle''
      else if s = WorkerBusy then ''busy''
      else if s = WorkerUnhealthy then ''unhealthy''
      else ''unknown'')"

record ProxyWorkerConfig =
  wk_ID :: string
  wk_MaxBatchTokens :: int

record ProxyWorker =
  pw_workerConfig :: ProxyWorkerConfig
  pw_upstream :: UpstreamConfig
  pw_circuit :: CircuitBreaker
  pw_status :: WorkerStatus
  pw_batchesProcessed :: int
  pw_tokensProcessed :: int

definition NewProxyWorker :: "ProxyWorkerConfig \<Rightarrow> UpstreamConfig \<Rightarrow> CircuitBreaker \<Rightarrow> ProxyWorker" where
  "NewProxyWorker cfg upstream circuit =
     \<lparr>pw_workerConfig = cfg, pw_upstream = upstream, pw_circuit = circuit, pw_status = WorkerIdle,
      pw_batchesProcessed = 0, pw_tokensProcessed = 0\<rparr>"

section \<open>The outside world\<close>

text \<open>
  \<open>http.Client.Do\<close> fails, or gives a status and a body. The client is asked with the body of the
  request and whether the request's context was cancelled because every client had gone.
\<close>

datatype http_reply = TransportError error | Reply int string

record exchange =
  ex_now :: instant
  ex_failed_at :: instant
  ex_clock :: "nat \<Rightarrow> instant"
  ex_before :: "nat \<Rightarrow> error option"
  ex_after :: "nat \<Rightarrow> error option"
  ex_gone :: "nat \<Rightarrow> bool"
  ex_encode :: "Batch \<Rightarrow> error + string"
  ex_newRequest :: "string \<Rightarrow> string \<Rightarrow> error option"
  ex_do :: "string \<Rightarrow> bool \<Rightarrow> http_reply"
  ex_decode :: "string \<Rightarrow> RequestResult list option"

text \<open>
  \<open>ex_before\<close> and \<open>ex_after\<close> give \<open>ctx.Err()\<close> at the two checkpoints, \<open>ex_gone\<close> the contexts done
  while the call was in flight, \<open>ex_clock i\<close> the time at the \<open>i\<close>-th turn of a fan-out loop.
\<close>

section \<open>Fan-out\<close>

definition ctx_error :: "(nat \<Rightarrow> error option) \<Rightarrow> InferenceRequest \<Rightarrow> error option" where
  "ctx_error ctx req = (case req_Ctx req of None \<Rightarrow> None | Some c \<Rightarrow> ctx c)"

fun filter_walk ::
  "(nat \<Rightarrow> error option) \<Rightarrow> (nat \<Rightarrow> instant) \<Rightarrow> nat \<Rightarrow> InferenceRequest list \<Rightarrow> InferenceRequest list
     \<Rightarrow> results \<Rightarrow> InferenceRequest list \<times> results" where
  "filter_walk ctx clock i [] live res = (live, res)"
| "filter_walk ctx clock i (req # reqs) live res =
     (case ctx_error ctx req of
        Some err \<Rightarrow>
          filter_walk ctx clock (i + 1) reqs live
            (send_result req \<lparr>res_RequestID = req_ID req, res_Result = ANil, res_Error = Some err,
               res_LatencyMs = AgeMs (clock i) req\<rparr> res)
      | None \<Rightarrow> filter_walk ctx clock (i + 1) reqs (live @ [req]) res)"

definition filterCancelled ::
  "(nat \<Rightarrow> error option) \<Rightarrow> (nat \<Rightarrow> instant) \<Rightarrow> Batch \<Rightarrow> results \<Rightarrow> Batch \<times> results" where
  "filterCancelled ctx clock batch res =
     (let (live, res) = filter_walk ctx clock 0 (batch_Requests batch) [] res
      in (\<lparr>batch_ID = batch_ID batch, batch_Requests = live, batch_CreatedAt = batch_CreatedAt batch,
           batch_StrategyUsed = batch_StrategyUsed batch\<rparr>, res))"

fun results_walk ::
  "(nat \<Rightarrow> error option) \<Rightarrow> (nat \<Rightarrow> instant) \<Rightarrow> RequestResult list \<Rightarrow> nat \<Rightarrow> InferenceRequest list
     \<Rightarrow> results \<Rightarrow> results" where
  "results_walk ctx clock results i [] res = res"
| "results_walk ctx clock results i (req # reqs) res =
     (if ctx_error ctx req \<noteq> None then results_walk ctx clock results (i + 1) reqs res
      else
        (let r = (if i < length results then results ! i
                  else \<lparr>res_RequestID = req_ID req, res_Result = ANil, res_Error = None,
                        res_LatencyMs = AgeMs (clock i) req\<rparr>);
             r = r\<lparr>res_RequestID := req_ID req, res_LatencyMs := AgeMs (clock i) req\<rparr>
         in results_walk ctx clock results (i + 1) reqs (send_result req r res)))"

definition fanOutResults ::
  "(nat \<Rightarrow> error option) \<Rightarrow> (nat \<Rightarrow> instant) \<Rightarrow> Batch \<Rightarrow> RequestResult list \<Rightarrow> results \<Rightarrow> results" where
  "fanOutResults ctx clock batch results res = results_walk ctx clock results 0 (batch_Requests batch) res"

fun error_walk :: "(nat \<Rightarrow> instant) \<Rightarrow> error \<Rightarrow> nat \<Rightarrow> InferenceRequest list \<Rightarrow> results \<Rightarrow> results" where
  "error_walk clock err i [] res = res"
| "error_walk clock err i (req # reqs) res =
     error_walk clock err (i + 1) reqs
       (send_result req \<lparr>res_RequestID = req_ID req, res_Result = ANil, res_Error = Some err,
          res_LatencyMs = AgeMs (clock i) req\<rparr> res)"

definition fanOutError :: "(nat \<Rightarrow> instant) \<Rightarrow> Batch \<Rightarrow> error \<Rightarrow> results \<Rightarrow> results" where
  "fanOutError clock batch err res = error_walk clock err 0 (batch_Requests batch) res"

definition worker_failBatch :: "(nat \<Rightarrow> instant) \<Rightarrow> Batch \<Rightarrow> error \<Rightarrow> results \<Rightarrow> results" where
  "worker_failBatch clock batch err res = fanOutError clock batch err res"

definition decodeBatchResponse ::
  "(string \<Rightarrow> RequestResult list option) \<Rightarrow> string \<Rightarrow> RequestResult list" where
  "decodeBatchResponse decode body = (case decode body of None \<Rightarrow> [] | Some results \<Rightarrow> results)"

text \<open>
  The watcher goroutine: it waits on the requests' contexts in turn and cancels the call once all
  are done; a context that is not done by the time the call ends leaves it to the stop channel. It
  reads \<open>r.Ctx.Done()\<close> with no nil check.
\<close>

fun spawnAllCancelledWatcher :: "(nat \<Rightarrow> bool) \<Rightarrow> InferenceRequest list \<Rightarrow> go_panic + bool" where
  "spawnAllCancelledWatcher gone [] = Inr True"
| "spawnAllCancelledWatcher gone (r # rs) =
     (case req_Ctx r of
        None \<Rightarrow> Inl NilDereference
      | Some c \<Rightarrow> if gone c then spawnAllCancelledWatcher gone rs else Inr False)"

section \<open>process\<close>

definition process ::
  "exchange \<Rightarrow> bool \<Rightarrow> Batch \<Rightarrow> ProxyWorker \<times> results \<Rightarrow> go_panic + ProxyWorker \<times> results" where
  "process ex unhealthy batch = (\<lambda>(w, res).
     let w = w\<lparr>pw_status := WorkerBusy\<rparr>;
         idle = (\<lambda>w. w\<lparr>pw_status := WorkerIdle\<rparr>);
         (admitted, circuit) = (if unhealthy then (False, pw_circuit w) else CanExecute (ex_now ex) (pw_circuit w));
         w = w\<lparr>pw_circuit := circuit\<rparr>
     in if unhealthy \<or> \<not> admitted then
          Inr (idle w, worker_failBatch (ex_clock ex) batch ErrWorkerUnavailable res)
        else
          let (scrubbed, res) = filterCancelled (ex_before ex) (ex_clock ex) batch res
          in if length (batch_Requests scrubbed) = 0 then Inr (idle w, res)
             else
               (case ex_encode ex scrubbed of
                  Inl err \<Rightarrow> Inr (idle w, fanOutError (ex_clock ex) scrubbed err res)
                | Inr body \<Rightarrow>
                    (case spawnAllCancelledWatcher (ex_gone ex) (batch_Requests scrubbed) of
                       Inl panic \<Rightarrow> Inl panic
                     | Inr cancelled \<Rightarrow>
                         let failed = Inr (idle (w\<lparr>pw_circuit := RecordFailure (ex_failed_at ex) (pw_circuit w)\<rparr>),
                               fanOutError (ex_clock ex) scrubbed ErrWorkerUnavailable res)
                         in (case ex_newRequest ex (up_URL (pw_upstream w)) body of
                               Some err \<Rightarrow> failed
                             | None \<Rightarrow>
                                 (case ex_do ex body cancelled of
                                    TransportError err \<Rightarrow> failed
                                  | Reply status reply \<Rightarrow>
                                      if 500 \<le> status then failed
                                      else
                                        let results = decodeBatchResponse (ex_decode ex) reply
                                        in Inr (idle (w\<lparr>pw_circuit := RecordSuccess (pw_circuit w),
                                              pw_batchesProcessed := wrap64 (pw_batchesProcessed w + 1),
                                              pw_tokensProcessed :=
                                                wrap64 (pw_tokensProcessed w + TotalTokens scrubbed)\<rparr>),
                                            fanOutResults (ex_after ex) (ex_clock ex) scrubbed results res))))))"

section \<open>Run\<close>

text \<open>
  One pull: the four nested selects see the channels at four moments, since other workers and the
  batcher act in between; a select with several ready cases picks any of them.
\<close>

definition recv_ready :: "Batch chan \<Rightarrow> bool" where
  "recv_ready c \<longleftrightarrow> ch_buf c \<noteq> [] \<or> ch_closed c"

datatype pick = PickChan nat | PickCtx

record pull =
  pl_chans :: "nat \<Rightarrow> nat \<Rightarrow> Batch chan"
  pl_pick :: pick
  pl_ctxDone :: bool

datatype pulled = Pulled "nat \<times> Batch" | PulledClosed nat | PulledCtx | PullWaits | PullNotReady

definition receive :: "nat \<Rightarrow> (nat \<Rightarrow> Batch chan) \<Rightarrow> pulled" where
  "receive i chans =
     (case try_recv (chans i) of
        Received batch c \<Rightarrow> Pulled (i, batch)
      | RecvClosed \<Rightarrow> PulledClosed i
      | RecvBlocks \<Rightarrow> PullNotReady)"

definition select_from :: "nat list \<Rightarrow> pick \<Rightarrow> (nat \<Rightarrow> Batch chan) \<Rightarrow> pulled" where
  "select_from cases choice chans =
     (case choice of
        PickChan i \<Rightarrow> if i \<in> set cases then receive i chans else PullNotReady
      | PickCtx \<Rightarrow> PullNotReady)"

definition any_ready :: "nat list \<Rightarrow> (nat \<Rightarrow> Batch chan) \<Rightarrow> bool" where
  "any_ready cases chans \<longleftrightarrow> list_ex (\<lambda>i. recv_ready (chans i)) cases"

definition pull_batch :: "pull \<Rightarrow> pulled" where
  "pull_batch p =
     (if any_ready [3] (pl_chans p 0) then receive 3 (pl_chans p 0)
      else if any_ready [3, 2] (pl_chans p 1) then select_from [3, 2] (pl_pick p) (pl_chans p 1)
      else if any_ready [3, 2, 1] (pl_chans p 2) then select_from [3, 2, 1] (pl_pick p) (pl_chans p 2)
      else
        (case pl_pick p of
           PickCtx \<Rightarrow> if pl_ctxDone p then PulledCtx else PullWaits
         | PickChan i \<Rightarrow>
             if any_ready [3, 2, 1, 0] (pl_chans p 3) then select_from [3, 2, 1, 0] (pl_pick p) (pl_chans p 3)
             else PullWaits))"

fun worker_Run ::
  "(pull \<times> exchange \<times> bool) list \<Rightarrow> ProxyWorker \<times> results \<Rightarrow> (ProxyWorker \<times> results) outcome" where
  "worker_Run [] st = Waiting"
| "worker_Run ((p, ex, unhealthy) # turns) st =
     (case pull_batch p of
        Pulled (i, batch) \<Rightarrow> and_then (of_sum (process ex unhealthy batch st)) (worker_Run turns)
      | PulledClosed i \<Rightarrow> Ret st
      | PulledCtx \<Rightarrow> Ret st
      | PullWaits \<Rightarrow> Waiting
      | PullNotReady \<Rightarrow> NotReady)"
section \<open>Fan-out as a list of sends\<close>

definition error_result :: "(nat \<Rightarrow> instant) \<Rightarrow> nat \<Rightarrow> error \<Rightarrow> InferenceRequest \<Rightarrow> RequestResult" where
  "error_result clock i err req = \<lparr>res_RequestID = req_ID req, res_Result = ANil,
     res_Error = Some err, res_LatencyMs = AgeMs (clock i) req\<rparr>"

definition answer ::
  "(nat \<Rightarrow> instant) \<Rightarrow> RequestResult list \<Rightarrow> nat \<Rightarrow> InferenceRequest \<Rightarrow> RequestResult" where
  "answer clock results i req =
     (if i < length results then (results ! i)\<lparr>res_RequestID := req_ID req, res_LatencyMs := AgeMs (clock i) req\<rparr>
      else \<lparr>res_RequestID = req_ID req, res_Result = ANil, res_Error = None,
        res_LatencyMs = AgeMs (clock i) req\<rparr>)"

fun sends ::
  "(nat \<Rightarrow> InferenceRequest \<Rightarrow> RequestResult option) \<Rightarrow> nat \<Rightarrow> InferenceRequest list
     \<Rightarrow> (InferenceRequest \<times> RequestResult) list" where
  "sends f i [] = []"
| "sends f i (req # reqs) =
     (case f i req of None \<Rightarrow> sends f (i + 1) reqs | Some r \<Rightarrow> (req, r) # sends f (i + 1) reqs)"

lemma sends_fst: "set (map fst (sends f i reqs)) \<subseteq> set reqs"
  by (induction f i reqs rule: sends.induct) (auto split: option.splits)

lemma sends_reqs: "d \<in> set (sends f i reqs) \<Longrightarrow> fst d \<in> set reqs"
  using sends_fst [of f i reqs] by auto

lemma sends_distinct:
  "distinct (map req_ResultChan reqs) \<Longrightarrow> distinct (map (req_ResultChan \<circ> fst) (sends f i reqs))"
proof (induction f i reqs rule: sends.induct)
  case (2 f i req reqs)
  have "req_ResultChan req \<notin> (req_ResultChan \<circ> fst) ` set (sends f (i + 1) reqs)"
    using 2(3) sends_reqs [of _ f "i + 1" reqs] by (auto simp: image_iff)
  then show ?case using 2 by (auto split: option.split)
qed simp

lemma sends_nth:
  "j < length reqs \<Longrightarrow> f (i + j) (reqs ! j) = Some r \<Longrightarrow> (reqs ! j, r) \<in> set (sends f i reqs)"
proof (induction f i reqs arbitrary: j rule: sends.induct)
  case (2 f i req reqs)
  then show ?case by (cases j) (auto split: option.split)
qed simp

lemma sends_none:
  assumes "distinct (map req_ResultChan reqs)" "j < length reqs" "f (i + j) (reqs ! j) = None" "d \<in> set (sends f i reqs)"
  shows "req_ResultChan (fst d) \<noteq> req_ResultChan (reqs ! j)"
  using assms
proof (induction f i reqs arbitrary: j rule: sends.induct)
  case (2 f i req reqs)
  show ?case
  proof (cases j)
    case 0
    then have "d \<in> set (sends f (i + 1) reqs)" using 2(5,6) by (auto split: option.splits)
    then have "fst d \<in> set reqs" by (rule sends_reqs)
    then show ?thesis using 2(3) 0 by (auto simp: image_iff)
  next
    case (Suc k)
    show ?thesis
    proof (cases "d \<in> set (sends f (i + 1) reqs)")
      case True
      then show ?thesis using 2 Suc by (cases "f i req") auto
    next
      case False
      then have "fst d = req" using 2(6) by (auto split: option.splits)
      moreover have "reqs ! k \<in> set reqs" using 2(4) Suc by simp
      ultimately show ?thesis using 2(3) Suc by (auto simp: image_iff)
    qed
  qed
qed simp

lemma filter_walk_eq:
  "filter_walk ctx clock i reqs live res =
     (live @ filter (\<lambda>r. ctx_error ctx r = None) reqs,
      send_all (sends (\<lambda>i r. map_option (\<lambda>e. error_result clock i e r) (ctx_error ctx r)) i reqs) res)"
  by (induction ctx clock i reqs live res rule: filter_walk.induct)
    (auto simp: error_result_def split: option.split)

lemma error_walk_eq:
  "error_walk clock err i reqs res = send_all (sends (\<lambda>i r. Some (error_result clock i err r)) i reqs) res"
  by (induction clock err i reqs res rule: error_walk.induct) (auto simp: error_result_def)

lemma results_walk_eq:
  "results_walk ctx clock results i reqs res =
     send_all (sends (\<lambda>i r. if ctx_error ctx r = None then Some (answer clock results i r) else None) i reqs) res"
  by (induction ctx clock results i reqs res rule: results_walk.induct)
    (auto simp: answer_def Let_def split: option.split)

text \<open>What the \<open>j\<close>-th request of a batch with distinct channels finds in its empty channel.\<close>

lemma sends_deliver:
  assumes "distinct (map req_ResultChan reqs)" "j < length reqs" "req_ResultChan (reqs ! j) = Some a"
    "one_place (res a)"
  shows "ch_buf (send_all (sends f 0 reqs) res a) = (case f j (reqs ! j) of None \<Rightarrow> [] | Some r \<Rightarrow> [r])"
proof (cases "f j (reqs ! j)")
  case None
  then have "send_all (sends f 0 reqs) res a = res a"
    using sends_none [OF assms(1,2), of f 0] assms(3) by (intro send_all_other) force
  then show ?thesis using None assms(4) by (simp add: one_place_def)
next
  case (Some r)
  have "(reqs ! j, r) \<in> set (sends f 0 reqs)" using Some assms(2) by (intro sends_nth) simp_all
  then show ?thesis
    using Some send_all_own [OF sends_distinct [OF assms(1)], of "reqs ! j" r f 0 a res] assms(3,4) by simp
qed

lemma sends_keep:
  assumes "distinct (map req_ResultChan reqs)" "j < length reqs" "req_ResultChan (reqs ! j) = Some a"
    "f j (reqs ! j) = None"
  shows "send_all (sends f 0 reqs) res a = res a"
  using sends_none [OF assms(1,2), of f 0] assms(3,4) by (intro send_all_other) force

definition live_requests :: "exchange \<Rightarrow> Batch \<Rightarrow> InferenceRequest list" where
  "live_requests ex batch = filter (\<lambda>r. ctx_error (ex_before ex) r = None) (batch_Requests batch)"

definition scrubbed_batch :: "exchange \<Rightarrow> Batch \<Rightarrow> Batch" where
  "scrubbed_batch ex batch = batch\<lparr>batch_Requests := live_requests ex batch\<rparr>"

definition cancel_sends :: "exchange \<Rightarrow> Batch \<Rightarrow> (InferenceRequest \<times> RequestResult) list" where
  "cancel_sends ex batch = sends (\<lambda>i r. map_option (\<lambda>e. error_result (ex_clock ex) i e r)
     (ctx_error (ex_before ex) r)) 0 (batch_Requests batch)"

lemma filterCancelled_eq:
  "filterCancelled (ex_before ex) (ex_clock ex) batch res =
     (scrubbed_batch ex batch, send_all (cancel_sends ex batch) res)"
  by (simp add: filterCancelled_def filter_walk_eq scrubbed_batch_def live_requests_def cancel_sends_def)

lemma fanOutError_eq:
  "fanOutError clock batch err res =
     send_all (sends (\<lambda>i r. Some (error_result clock i err r)) 0 (batch_Requests batch)) res"
  by (simp add: fanOutError_def error_walk_eq)

lemma fanOutResults_eq:
  "fanOutResults ctx clock batch results res =
     send_all (sends (\<lambda>i r. if ctx_error ctx r = None then Some (answer clock results i r) else None) 0
       (batch_Requests batch)) res"
  by (simp add: fanOutResults_def results_walk_eq)

section \<open>The branches of process\<close>

datatype attempt_end = NotAdmitted | NoLive | NotEncoded error | Panicked go_panic | Failed | Answered string

text \<open>How a batch ends, from the outside world and the breaker alone.\<close>

definition attempt_of :: "exchange \<Rightarrow> bool \<Rightarrow> Batch \<Rightarrow> ProxyWorker \<Rightarrow> attempt_end" where
  "attempt_of ex unhealthy batch w =
     (if unhealthy \<or> \<not> fst (CanExecute (ex_now ex) (pw_circuit w)) then NotAdmitted
      else if live_requests ex batch = [] then NoLive
      else
        (case ex_encode ex (scrubbed_batch ex batch) of
           Inl err \<Rightarrow> NotEncoded err
         | Inr body \<Rightarrow>
             (case spawnAllCancelledWatcher (ex_gone ex) (live_requests ex batch) of
                Inl panic \<Rightarrow> Panicked panic
              | Inr cancelled \<Rightarrow>
                  (case ex_newRequest ex (up_URL (pw_upstream w)) body of
                     Some err \<Rightarrow> Failed
                   | None \<Rightarrow>
                       (case ex_do ex body cancelled of
                          TransportError err \<Rightarrow> Failed
                        | Reply status reply \<Rightarrow> if 500 \<le> status then Failed else Answered reply)))))"

definition probed :: "exchange \<Rightarrow> bool \<Rightarrow> ProxyWorker \<Rightarrow> CircuitBreaker" where
  "probed ex unhealthy w = (if unhealthy then pw_circuit w else snd (CanExecute (ex_now ex) (pw_circuit w)))"

lemma process_cases:
  "process ex unhealthy batch (w, res) =
     (let w1 = w\<lparr>pw_status := WorkerIdle, pw_circuit := probed ex unhealthy w\<rparr>;
          scrubbed = scrubbed_batch ex batch;
          res1 = send_all (cancel_sends ex batch) res
      in case attempt_of ex unhealthy batch w of
           NotAdmitted \<Rightarrow> Inr (w1, fanOutError (ex_clock ex) batch ErrWorkerUnavailable res)
         | NoLive \<Rightarrow> Inr (w1, res1)
         | NotEncoded err \<Rightarrow> Inr (w1, fanOutError (ex_clock ex) scrubbed err res1)
         | Panicked p \<Rightarrow> Inl p
         | Failed \<Rightarrow> Inr (w1\<lparr>pw_circuit := RecordFailure (ex_failed_at ex) (probed ex unhealthy w)\<rparr>,
             fanOutError (ex_clock ex) scrubbed ErrWorkerUnavailable res1)
         | Answered reply \<Rightarrow> Inr (w1\<lparr>pw_circuit := RecordSuccess (probed ex unhealthy w),
               pw_batchesProcessed := wrap64 (pw_batchesProcessed w + 1),
               pw_tokensProcessed := wrap64 (pw_tokensProcessed w + TotalTokens scrubbed)\<rparr>,
             fanOutResults (ex_after ex) (ex_clock ex) scrubbed (decodeBatchResponse (ex_decode ex) reply) res1))"
proof -
  obtain adm cb where ce: "CanExecute (ex_now ex) (pw_circuit w) = (adm, cb)" by fastforce
  have reqs: "batch_Requests (scrubbed_batch ex batch) = live_requests ex batch"
    by (simp add: scrubbed_batch_def)
  show ?thesis
    by (auto simp: process_def attempt_of_def probed_def ce Let_def filterCancelled_eq reqs worker_failBatch_def
        split: sum.split option.split http_reply.split)
qed
section \<open>Properties\<close>

lemma error_result_id [simp]:
  "res_RequestID (error_result clock i err req) = req_ID req"
  "res_Error (error_result clock i err req) = Some err"
  by (simp_all add: error_result_def)

lemma answer_id [simp]: "res_RequestID (answer clock results i req) = req_ID req"
  by (simp add: answer_def)

lemma deliver_live:
  assumes "distinct (map req_ResultChan (batch_Requests batch))" "r \<in> set (live_requests ex batch)"
    "req_ResultChan r = Some a" "one_place (res a)"
  shows "\<exists>j. j < length (live_requests ex batch) \<and> live_requests ex batch ! j = r
    \<and> (\<forall>f. ch_buf (send_all (sends f 0 (live_requests ex batch)) (send_all (cancel_sends ex batch) res) a)
       = (case f j r of None \<Rightarrow> [] | Some x \<Rightarrow> [x]))"
proof -
  obtain j where j: "j < length (live_requests ex batch)" "live_requests ex batch ! j = r"
    using assms(2) by (auto simp: in_set_conv_nth)
  obtain k where k: "k < length (batch_Requests batch)" "batch_Requests batch ! k = r"
    using assms(2) by (auto simp: live_requests_def in_set_conv_nth)
  have d: "distinct (map req_ResultChan (live_requests ex batch))"
    using assms(1) by (simp add: live_requests_def distinct_map_filter)
  have "ctx_error (ex_before ex) r = None" using assms(2) by (simp add: live_requests_def)
  then have "send_all (cancel_sends ex batch) res a = res a"
    unfolding cancel_sends_def using k assms(3) by (intro sends_keep [OF assms(1) k(1)]) simp_all
  then have one: "one_place (send_all (cancel_sends ex batch) res a)" using assms(4) by simp
  show ?thesis
  proof (intro exI [of _ j] conjI allI j)
    fix f
    show "ch_buf (send_all (sends f 0 (live_requests ex batch)) (send_all (cancel_sends ex batch) res) a)
       = (case f j r of None \<Rightarrow> [] | Some x \<Rightarrow> [x])"
      using sends_deliver [where res = "send_all (cancel_sends ex batch) res" and a = a, OF d j(1) _ one]
        j(2) assms(3) by simp
  qed
qed

lemma deliver_cancelled:
  assumes "distinct (map req_ResultChan (batch_Requests batch))" "r \<in> set (batch_Requests batch)"
    "ctx_error (ex_before ex) r = Some e" "req_ResultChan r = Some a" "one_place (res a)"
  shows "\<exists>i. ch_buf (send_all (cancel_sends ex batch) res a) = [error_result (ex_clock ex) i e r]
    \<and> (\<forall>f. send_all (sends f 0 (live_requests ex batch)) (send_all (cancel_sends ex batch) res) a
          = send_all (cancel_sends ex batch) res a)"
proof -
  obtain k where k: "k < length (batch_Requests batch)" "batch_Requests batch ! k = r"
    using assms(2) by (auto simp: in_set_conv_nth)
  have own: "ch_buf (send_all (cancel_sends ex batch) res a) = [error_result (ex_clock ex) k e r]"
    unfolding cancel_sends_def using sends_deliver [where res = res and a = a, OF assms(1) k(1) _ assms(5)] k(2) assms(3,4) by simp
  have inj: "x = r" if "x \<in> set (batch_Requests batch)" "req_ResultChan x = Some a" for x
    using assms(1,2,4) that by (metis distinct_map inj_onD)
  have none: "\<forall>d\<in>set (sends f 0 (live_requests ex batch)). req_ResultChan (fst d) \<noteq> Some a" for f
  proof (intro ballI notI)
    fix d assume d: "d \<in> set (sends f 0 (live_requests ex batch))" "req_ResultChan (fst d) = Some a"
    then have "fst d \<in> set (live_requests ex batch)" by (blast dest: sends_reqs)
    with d(2) inj assms(3) show False by (auto simp: live_requests_def)
  qed
  show ?thesis using own none by (auto intro!: exI [of _ k] send_all_other)
qed

text \<open>A full channel is left as it is.\<close>

lemma process_full:
  assumes "process ex unhealthy batch (w, res) = Inr (w', res')" "ch_cap (res a) \<le> length (ch_buf (res a))"
  shows "res' a = res a"
proof -
  have one: "send_all es res a = res a" for es using assms(2) by (rule send_all_full)
  moreover have "send_all ds (send_all es res) a = res a" for ds es
    using send_all_full [where res = "send_all es res" and a = a and ds = ds] assms(2) one by simp
  ultimately show ?thesis
    using assms(1) [unfolded process_cases Let_def]
    by (auto simp: fanOutError_eq fanOutResults_eq split: attempt_end.splits)
qed

text \<open>What a live request gets.\<close>

lemma process_live:
  assumes "process ex unhealthy batch (w, res) = Inr (w', res')"
    and "distinct (map req_ResultChan (batch_Requests batch))" "r \<in> set (live_requests ex batch)"
    and "req_ResultChan r = Some a" "one_place (res a)"
  shows "\<exists>j. (\<forall>reply. attempt_of ex unhealthy batch w = Answered reply \<longrightarrow>
        ch_buf (res' a) = (if ctx_error (ex_after ex) r = None
          then [answer (ex_clock ex) (decodeBatchResponse (ex_decode ex) reply) j r] else []))
    \<and> (attempt_of ex unhealthy batch w = Failed \<longrightarrow> ch_buf (res' a) = [error_result (ex_clock ex) j ErrWorkerUnavailable r])
    \<and> (\<forall>err. attempt_of ex unhealthy batch w = NotEncoded err \<longrightarrow> ch_buf (res' a) = [error_result (ex_clock ex) j err r])"
proof -
  note p = assms(1) [unfolded process_cases Let_def]
  obtain j where j: "\<And>f. ch_buf (send_all (sends f 0 (live_requests ex batch)) (send_all (cancel_sends ex batch) res) a)
      = (case f j r of None \<Rightarrow> [] | Some x \<Rightarrow> [x])"
    using deliver_live [where res = res and a = a, OF assms(2-5)] by blast
  show ?thesis
    by (rule exI [of _ j]) (use p in \<open>auto simp: fanOutResults_eq fanOutError_eq scrubbed_batch_def j\<close>)
qed

text \<open>What \<open>process\<close> puts into the channel of one of the batch's requests.\<close>

lemma process_channel:
  assumes "process ex unhealthy batch (w, res) = Inr (w', res')"
    and "distinct (map req_ResultChan (batch_Requests batch))" "r \<in> set (batch_Requests batch)"
    and "req_ResultChan r = Some a" "one_place (res a)"
  shows "length (ch_buf (res' a)) \<le> 1 \<and> (\<forall>x\<in>set (ch_buf (res' a)). res_RequestID x = req_ID r)
    \<and> (attempt_of ex unhealthy batch w = NotAdmitted \<longrightarrow> map res_Error (ch_buf (res' a)) = [Some ErrWorkerUnavailable])
    \<and> (attempt_of ex unhealthy batch w \<noteq> NotAdmitted \<longrightarrow>
        (case ctx_error (ex_before ex) r of
           Some e \<Rightarrow> map res_Error (ch_buf (res' a)) = [Some e]
         | None \<Rightarrow>
             (case attempt_of ex unhealthy batch w of
                Failed \<Rightarrow> map res_Error (ch_buf (res' a)) = [Some ErrWorkerUnavailable]
              | NotEncoded err \<Rightarrow> map res_Error (ch_buf (res' a)) = [Some err]
              | Answered reply \<Rightarrow> ch_buf (res' a) = [] \<longleftrightarrow> ctx_error (ex_after ex) r \<noteq> None
              | _ \<Rightarrow> False)))
    \<and> (\<forall>a'. ch_cap (res a') \<le> length (ch_buf (res a')) \<longrightarrow> res' a' = res a')"
proof -
  note p = assms(1) [unfolded process_cases Let_def]
  have keep: "\<forall>a'. ch_cap (res a') \<le> length (ch_buf (res a')) \<longrightarrow> res' a' = res a'"
    using process_full [OF assms(1)] by blast
  obtain k where k: "k < length (batch_Requests batch)" "batch_Requests batch ! k = r"
    using assms(3) by (auto simp: in_set_conv_nth)
  show ?thesis
  proof (cases "attempt_of ex unhealthy batch w = NotAdmitted")
    case True
    then have "res' = fanOutError (ex_clock ex) batch ErrWorkerUnavailable res" using p by simp
    then have "ch_buf (res' a) = [error_result (ex_clock ex) k ErrWorkerUnavailable r]"
      using sends_deliver [where res = res and a = a, OF assms(2) k(1) _ assms(5)] k(2) assms(4)
      by (simp add: fanOutError_eq)
    then show ?thesis using True keep by simp
  next
    case False
    let ?res1 = "send_all (cancel_sends ex batch) res"
    have res': "res' = ?res1 \<and> attempt_of ex unhealthy batch w = NoLive
        \<or> (\<exists>f. res' = send_all (sends f 0 (live_requests ex batch)) ?res1)"
      using p False by (auto simp: fanOutError_eq fanOutResults_eq scrubbed_batch_def split: attempt_end.splits)
    show ?thesis
    proof (cases "ctx_error (ex_before ex) r")
      case (Some e)
      obtain i where i: "ch_buf (?res1 a) = [error_result (ex_clock ex) i e r]"
        "\<And>f. send_all (sends f 0 (live_requests ex batch)) ?res1 a = ?res1 a"
        using deliver_cancelled [where res = res and a = a, OF assms(2,3) Some assms(4,5)] by blast
      have "ch_buf (res' a) = [error_result (ex_clock ex) i e r]" using res' i by auto
      then show ?thesis using Some False keep by simp
    next
      case None
      then have live: "r \<in> set (live_requests ex batch)" using assms(3) by (simp add: live_requests_def)
      have nolive: "attempt_of ex unhealthy batch w \<noteq> NoLive"
        using live by (auto simp: attempt_of_def split: sum.splits option.splits http_reply.splits)
      have "attempt_of ex unhealthy batch w \<noteq> Panicked e" for e using p by auto
      moreover obtain j where "\<forall>reply. attempt_of ex unhealthy batch w = Answered reply \<longrightarrow>
          ch_buf (res' a) = (if ctx_error (ex_after ex) r = None
            then [answer (ex_clock ex) (decodeBatchResponse (ex_decode ex) reply) j r] else [])"
        "attempt_of ex unhealthy batch w = Failed \<longrightarrow> ch_buf (res' a) = [error_result (ex_clock ex) j ErrWorkerUnavailable r]"
        "\<forall>err. attempt_of ex unhealthy batch w = NotEncoded err \<longrightarrow> ch_buf (res' a) = [error_result (ex_clock ex) j err r]"
        using process_live [OF assms(1,2) live assms(4,5)] by blast
      ultimately show ?thesis
        using False None nolive keep by (cases "attempt_of ex unhealthy batch w") auto
    qed
  qed
qed

text \<open>
  C25: What a request of a batch gets. With the batch's result channels distinct and the request's
  own channel empty, after \<open>process\<close> the channel holds at most one result, with the request's own
  identifier. It is ErrWorkerUnavailable when the worker was not admitted or the call failed, the
  context's error when the client had gone before the send, and the upstream's answer otherwise;
  it holds none only when the client went while the call was in flight. A result already in a
  channel is never replaced.
\<close>

theorem process_answers:
  assumes "process ex unhealthy batch (w, res) = Inr (w', res')"
    and "distinct (map req_ResultChan (batch_Requests batch))" "r \<in> set (batch_Requests batch)"
    and "req_ResultChan r = Some a" "one_place (res a)"
  shows "length (ch_buf (res' a)) \<le> 1 \<and> (\<forall>x\<in>set (ch_buf (res' a)). res_RequestID x = req_ID r)
    \<and> (attempt_of ex unhealthy batch w = NotAdmitted \<longrightarrow> map res_Error (ch_buf (res' a)) = [Some ErrWorkerUnavailable])
    \<and> (attempt_of ex unhealthy batch w \<noteq> NotAdmitted \<longrightarrow>
        (case ctx_error (ex_before ex) r of
           Some e \<Rightarrow> map res_Error (ch_buf (res' a)) = [Some e]
         | None \<Rightarrow>
             (case attempt_of ex unhealthy batch w of
                Failed \<Rightarrow> map res_Error (ch_buf (res' a)) = [Some ErrWorkerUnavailable]
              | NotEncoded err \<Rightarrow> map res_Error (ch_buf (res' a)) = [Some err]
              | Answered reply \<Rightarrow> ch_buf (res' a) = [] \<longleftrightarrow> ctx_error (ex_after ex) r \<noteq> None
              | _ \<Rightarrow> False)))
    \<and> (\<forall>a'. ch_cap (res a') \<le> length (ch_buf (res a')) \<longrightarrow> res' a' = res a')"
  using assms by (rule process_channel)

text \<open>Every request of the batch gets one result, unless its client went during the call; no other channel changes.\<close>

lemma process_one_result:
  assumes "process ex unhealthy batch (w, res) = Inr (w', res')"
    and "distinct (map req_ResultChan (batch_Requests batch))" "r \<in> set (batch_Requests batch)"
    and "req_ResultChan r = Some a" "one_place (res a)"
  shows "(\<exists>x. ch_buf (res' a) = [x] \<and> res_RequestID x = req_ID r)
    \<or> (ch_buf (res' a) = [] \<and> ctx_error (ex_after ex) r \<noteq> None)"
proof -
  note c = process_channel [OF assms]
  have "ch_buf (res' a) \<noteq> [] \<or> ctx_error (ex_after ex) r \<noteq> None"
    using c by (cases "attempt_of ex unhealthy batch w") (auto split: option.splits)
  moreover have "\<exists>x. ch_buf (res' a) = [x] \<and> res_RequestID x = req_ID r" if "ch_buf (res' a) \<noteq> []"
    using c that by (cases "ch_buf (res' a)") auto
  ultimately show ?thesis by blast
qed

lemma process_results:
  assumes "process ex unhealthy batch (w, res) = Inr (w', res')"
  shows "\<exists>ds. res' = send_all ds res \<and> (\<forall>d\<in>set ds. fst d \<in> set (batch_Requests batch))"
proof -
  have live: "set (live_requests ex batch) \<subseteq> set (batch_Requests batch)" by (auto simp: live_requests_def)
  let ?c = "cancel_sends ex batch"
  have c: "\<forall>d\<in>set ?c. fst d \<in> set (batch_Requests batch)"
    unfolding cancel_sends_def by (blast dest: sends_reqs)
  have "send_all (sends f 0 (live_requests ex batch)) (send_all ?c res)
      = send_all (?c @ sends f 0 (live_requests ex batch)) res
    \<and> (\<forall>d\<in>set (?c @ sends f 0 (live_requests ex batch)). fst d \<in> set (batch_Requests batch))" for f
    using c live by (auto simp: send_all_append dest!: sends_reqs)
  then have both: "\<exists>ds. send_all (sends f 0 (live_requests ex batch)) (send_all ?c res) = send_all ds res
    \<and> (\<forall>d\<in>set ds. fst d \<in> set (batch_Requests batch))" for f by blast
  have all: "\<exists>ds. send_all (sends f 0 (batch_Requests batch)) res = send_all ds res
    \<and> (\<forall>d\<in>set ds. fst d \<in> set (batch_Requests batch))" for f
    by (intro exI [of _ "sends f 0 (batch_Requests batch)"]) (auto dest: sends_reqs)
  show ?thesis
    using assms c both all
    by (auto simp: process_cases Let_def fanOutError_eq fanOutResults_eq scrubbed_batch_def split: attempt_end.splits)
qed

lemma process_other:
  assumes "process ex unhealthy batch (w, res) = Inr (w', res')"
    and "\<forall>r\<in>set (batch_Requests batch). req_ResultChan r \<noteq> Some a"
  shows "res' a = res a"
  using process_results [OF assms(1)] assms(2) send_all_other by blast

text \<open>With a context in every request the watcher does not panic.\<close>

lemma watcher_total: "\<forall>r\<in>set rs. req_Ctx r \<noteq> None \<Longrightarrow> \<exists>b. spawnAllCancelledWatcher gone rs = Inr b"
  by (induction rs) auto

lemma process_total:
  assumes "\<forall>r\<in>set (batch_Requests batch). req_Ctx r \<noteq> None"
  shows "\<exists>w' res'. process ex unhealthy batch (w, res) = Inr (w', res')"
proof -
  have "\<forall>r\<in>set (live_requests ex batch). req_Ctx r \<noteq> None" using assms by (simp add: live_requests_def)
  from watcher_total [OF this] obtain b where "spawnAllCancelledWatcher (ex_gone ex) (live_requests ex batch) = Inr b"
    by blast
  then have "\<forall>e. attempt_of ex unhealthy batch w \<noteq> Panicked e"
    by (auto simp: attempt_of_def split: sum.splits option.splits http_reply.splits)
  then show ?thesis by (cases "attempt_of ex unhealthy batch w") (simp_all add: process_cases Let_def)
qed

text \<open>The channel of a live request after an answered and after a failed call.\<close>

lemma answered_channel:
  assumes "process ex unhealthy batch (w, res) = Inr (w', res')" "attempt_of ex unhealthy batch w = Answered reply"
    and "distinct (map req_ResultChan (batch_Requests batch))"
    and "j < length (live_requests ex batch)" "r = live_requests ex batch ! j"
    and "req_ResultChan r = Some a" "one_place (res a)" "ctx_error (ex_after ex) r = None"
  shows "ch_buf (res' a) = [answer (ex_clock ex) (decodeBatchResponse (ex_decode ex) reply) j r]"
proof -
  let ?live = "live_requests ex batch" and ?res1 = "send_all (cancel_sends ex batch) res"
  have live: "r \<in> set ?live" using assms(4,5) by simp
  have dist: "distinct (map req_ResultChan ?live)"
    using assms(3) by (simp add: live_requests_def distinct_map_filter)
  obtain i where i: "i < length ?live" "?live ! i = r" "\<And>f. ch_buf (send_all (sends f 0 ?live) ?res1 a)
      = (case f i r of None \<Rightarrow> [] | Some x \<Rightarrow> [x])"
    using deliver_live [where res = res and a = a, OF assms(3) live assms(6,7)] by blast
  have "i = j"
    using dist i(1,2) assms(4,5) by (metis distinct_map nth_eq_iff_index_eq)
  moreover have "res' = fanOutResults (ex_after ex) (ex_clock ex) (scrubbed_batch ex batch)
      (decodeBatchResponse (ex_decode ex) reply) ?res1"
    using assms(1,2) by (simp add: process_cases Let_def)
  ultimately show ?thesis
    using i(3) assms(8) by (simp add: fanOutResults_eq scrubbed_batch_def)
qed

lemma failed_channel:
  assumes "process ex unhealthy batch (w, res) = Inr (w', res')" "attempt_of ex unhealthy batch w = Failed"
    and "distinct (map req_ResultChan (batch_Requests batch))" "r \<in> set (live_requests ex batch)"
    and "req_ResultChan r = Some a" "one_place (res a)"
  shows "map res_Error (ch_buf (res' a)) = [Some ErrWorkerUnavailable]"
proof -
  obtain i where i: "\<And>f. ch_buf (send_all (sends f 0 (live_requests ex batch)) (send_all (cancel_sends ex batch) res) a)
      = (case f i r of None \<Rightarrow> [] | Some x \<Rightarrow> [x])"
    using deliver_live [where res = res and a = a, OF assms(3,4,5,6)] by blast
  have "res' = fanOutError (ex_clock ex) (scrubbed_batch ex batch) ErrWorkerUnavailable (send_all (cancel_sends ex batch) res)"
    using assms(1,2) by (simp add: process_cases Let_def)
  then show ?thesis using i by (simp add: fanOutError_eq scrubbed_batch_def)
qed

text \<open>
  C26: The answers go to the right clients. When the upstream answers and the \<open>j\<close>-th request that was
  still live at the send is still waiting, its channel holds the \<open>j\<close>-th result of the reply, under
  the request's own identifier whatever the reply said, or an empty success when the reply has
  fewer results than the batch has requests.
\<close>

theorem process_positions:
  assumes "process ex unhealthy batch (w, res) = Inr (w', res')" "attempt_of ex unhealthy batch w = Answered reply"
    and "distinct (map req_ResultChan (batch_Requests batch))"
    and "j < length (live_requests ex batch)" "r = live_requests ex batch ! j"
    and "req_ResultChan r = Some a" "one_place (res a)" "ctx_error (ex_after ex) r = None"
  shows "let results = decodeBatchResponse (ex_decode ex) reply in
    ch_buf (res' a) =
      [if j < length results
       then (results ! j)\<lparr>res_RequestID := req_ID r, res_LatencyMs := AgeMs (ex_clock ex j) r\<rparr>
       else \<lparr>res_RequestID = req_ID r, res_Result = ANil, res_Error = None, res_LatencyMs = AgeMs (ex_clock ex j) r\<rparr>]"
  using answered_channel [OF assms] by (simp add: answer_def Let_def)

text \<open>
  The scope of the breaker. \<open>process\<close> leaves the worker idle, and its breaker hears of exactly the
  attempts that reached the upstream: a failure for a transport error, a request that could not
  be built or a status of at least 500, a success for any other reply, whatever its body holds.
  A batch refused, emptied or not encoded does not count. Only an answered batch is added to the
  worker's totals.
\<close>

theorem process_breaker:
  assumes "process ex unhealthy batch (w, res) = Inr (w', res')"
  shows "pw_status w' = WorkerIdle
    \<and> pw_circuit w' = (case attempt_of ex unhealthy batch w of
        Failed \<Rightarrow> RecordFailure (ex_failed_at ex) (probed ex unhealthy w)
      | Answered reply \<Rightarrow> RecordSuccess (probed ex unhealthy w)
      | _ \<Rightarrow> probed ex unhealthy w)
    \<and> (pw_batchesProcessed w', pw_tokensProcessed w') =
        (case attempt_of ex unhealthy batch w of
           Answered reply \<Rightarrow> (wrap64 (pw_batchesProcessed w + 1),
             wrap64 (pw_tokensProcessed w + TotalTokens (scrubbed_batch ex batch)))
         | _ \<Rightarrow> (pw_batchesProcessed w, pw_tokensProcessed w))
    \<and> (\<forall>decode w'' res''. process (ex\<lparr>ex_decode := decode\<rparr>) unhealthy batch (w, res) = Inr (w'', res'')
         \<longrightarrow> w'' = w')"
proof -
  have same: "attempt_of (ex\<lparr>ex_decode := decode\<rparr>) unhealthy batch w = attempt_of ex unhealthy batch w"
    "probed (ex\<lparr>ex_decode := decode\<rparr>) unhealthy w = probed ex unhealthy w"
    "scrubbed_batch (ex\<lparr>ex_decode := decode\<rparr>) batch = scrubbed_batch ex batch" for decode
    by (simp_all add: attempt_of_def probed_def live_requests_def scrubbed_batch_def
        split: sum.split option.split http_reply.split)
  show ?thesis
    using assms by (auto simp: process_cases Let_def same split: attempt_end.splits)
qed
text \<open>
  C27: Clients that leave trip the breaker. When every client of an admitted batch goes while the
  call is in flight, the watcher cancels the call, and with an HTTP client that fails a cancelled
  call the breaker records a failure although the upstream did nothing wrong: with a threshold of
  one, or one failure short of it, it opens.
\<close>

theorem gone_clients_trip:
  assumes "\<not> unhealthy" "fst (CanExecute (ex_now ex) (pw_circuit w))" "live_requests ex batch \<noteq> []"
    and "ex_encode ex (scrubbed_batch ex batch) = Inr body" "ex_newRequest ex (up_URL (pw_upstream w)) body = None"
    and "\<forall>r\<in>set (live_requests ex batch). \<exists>c. req_Ctx r = Some c \<and> ex_gone ex c"
    and "\<And>b. ex_do ex b True = TransportError ContextCanceled"
    and "cb_failureThreshold (pw_circuit w) \<le> cb_failureCount (pw_circuit w) + 1"
    and "0 \<le> cb_failureCount (pw_circuit w)" "cb_failureCount (pw_circuit w) < 2 ^ 62"
  shows "\<exists>w' res'. process ex unhealthy batch (w, res) = Inr (w', res')
    \<and> State (pw_circuit w') = CircuitOpen
    \<and> cb_failureCount (pw_circuit w') = cb_failureCount (pw_circuit w) + 1"
proof -
  have watch: "\<forall>r\<in>set rs. \<exists>c. req_Ctx r = Some c \<and> ex_gone ex c \<Longrightarrow>
      spawnAllCancelledWatcher (ex_gone ex) rs = Inr True" for rs
    by (induction rs) auto
  have a: "attempt_of ex unhealthy batch w = Failed"
    using assms(1-7) watch [OF assms(6)] by (simp add: attempt_of_def)
  have c: "wrap64 (cb_failureCount (pw_circuit w) + 1) = cb_failureCount (pw_circuit w) + 1"
    using assms(9,10) by (intro wrap64_id) (simp add: i64_def)
  have cnt: "cb_failureCount (snd (CanExecute (ex_now ex) (pw_circuit w))) = cb_failureCount (pw_circuit w)"
    by (simp add: CanExecute_def)
  show ?thesis
    using a assms(1,8) by (simp add: process_cases Let_def probed_def RecordFailure_def State_def cnt c)
qed

text \<open>
  A request without a context. \<open>filterCancelled\<close> takes it for live, but the watcher started for the
  call dereferences the context: an admitted batch that starts with such a request panics.
\<close>

theorem nil_context_panics:
  assumes "\<not> unhealthy" "fst (CanExecute (ex_now ex) (pw_circuit w))"
    and "batch_Requests batch = r # rs" "req_Ctx r = None" "ex_encode ex (scrubbed_batch ex batch) = Inr body"
  shows "process ex unhealthy batch (w, res) = Inl NilDereference"
proof -
  have "live_requests ex batch = r # filter (\<lambda>r. ctx_error (ex_before ex) r = None) rs"
    using assms(3,4) by (simp add: live_requests_def ctx_error_def)
  then have "attempt_of ex unhealthy batch w = Panicked NilDereference"
    using assms(1,2,4,5) by (simp add: attempt_of_def)
  then show ?thesis by (simp add: process_cases Let_def)
qed

text \<open>
  The token guard of the worker's configuration is never consulted: a worker with another limit
  does the same to every batch, result channel, breaker and total.
\<close>

theorem MaxBatchTokens_ignored:
  "process ex unhealthy batch (w\<lparr>pw_workerConfig := (pw_workerConfig w)\<lparr>wk_MaxBatchTokens := n\<rparr>\<rparr>, res)
   = (case process ex unhealthy batch (w, res) of
        Inl panic \<Rightarrow> Inl panic
      | Inr (w', res') \<Rightarrow> Inr (w'\<lparr>pw_workerConfig := (pw_workerConfig w)\<lparr>wk_MaxBatchTokens := n\<rparr>\<rparr>, res'))"
proof -
  let ?w = "w\<lparr>pw_workerConfig := (pw_workerConfig w)\<lparr>wk_MaxBatchTokens := n\<rparr>\<rparr>"
  have "attempt_of ex unhealthy batch ?w = attempt_of ex unhealthy batch w"
    "probed ex unhealthy ?w = probed ex unhealthy w"
    by (simp_all add: attempt_of_def probed_def split: sum.split option.split http_reply.split)
  then show ?thesis by (simp add: process_cases Let_def split: attempt_end.split)
qed

text \<open>
  C28: The pull order. Against channels that do not change during the pull, a worker only takes a
  batch from a channel when every channel of a higher priority is empty and open, and takes its
  oldest; whatever changes, a batch waiting in the critical channel at the first look is the one
  taken. When the first channel it looks at that is ready is closed and empty, \<open>Run\<close> returns, even
  though a channel of a lower priority may still hold batches, which are then left unanswered.
\<close>

theorem pull_priority:
  assumes "\<forall>k. pl_chans p k = cs"
  shows "(\<forall>i batch. pull_batch p = Pulled (i, batch) \<longrightarrow>
        i < 4 \<and> (\<exists>rest. ch_buf (cs i) = batch # rest)
        \<and> (\<forall>j<4. i < j \<longrightarrow> ch_buf (cs j) = [] \<and> \<not> ch_closed (cs j)))
    \<and> (ch_closed (cs 3) \<and> ch_buf (cs 3) = [] \<longrightarrow> worker_Run ((p, ex, unhealthy) # turns) st = Ret st)
    \<and> (ch_buf (pl_chans q 0 3) = b # rest \<longrightarrow> pull_batch q = Pulled (3, b))"
proof (intro conjI allI impI)
  fix i batch assume p: "pull_batch p = Pulled (i, batch)"
  have rcv: "receive k cs = Pulled (i, batch) \<Longrightarrow> k = i \<and> (\<exists>rest. ch_buf (cs i) = batch # rest)" for k
    by (auto simp: receive_def dest!: try_recv_ReceivedD split: recv_result.splits)
  have sel: "select_from ks c cs = Pulled (i, batch) \<Longrightarrow> i \<in> set ks \<and> (\<exists>rest. ch_buf (cs i) = batch # rest)" for ks c
    using rcv by (auto simp: select_from_def split: pick.splits if_splits)
  let ?R = "\<lambda>j. recv_ready (cs j)"
  have cases: "(\<exists>rest. ch_buf (cs i) = batch # rest) \<and> (i = 3 \<or> (i = 2 \<and> \<not> ?R 3) \<or> (i = 1 \<and> \<not> ?R 3 \<and> \<not> ?R 2)
      \<or> (i = 0 \<and> \<not> ?R 3 \<and> \<not> ?R 2 \<and> \<not> ?R 1))"
  proof -
    have ready: "?R i" if "\<exists>rest. ch_buf (cs i) = batch # rest"
      using that by (auto simp: recv_ready_def)
    show ?thesis
      using p ready unfolding pull_batch_def any_ready_def
      by (auto simp: assms dest!: sel rcv split: if_splits pick.splits)
  qed
  then show "\<exists>rest. ch_buf (cs i) = batch # rest" by blast
  show "i < 4" using cases by auto
  fix j :: nat assume "j < 4" "i < j"
  then have "\<not> ?R j" using cases by (auto simp: less_Suc_eq numeral_eq_Suc)
  then show "ch_buf (cs j) = []" "\<not> ch_closed (cs j)" by (simp_all add: recv_ready_def)
next
  assume "ch_closed (cs 3) \<and> ch_buf (cs 3) = []"
  then have "pull_batch p = PulledClosed 3"
    by (simp add: pull_batch_def any_ready_def recv_ready_def receive_def assms try_recv_def)
  then show "worker_Run ((p, ex, unhealthy) # turns) st = Ret st" by simp
next
  assume "ch_buf (pl_chans q 0 3) = b # rest"
  then show "pull_batch q = Pulled (3, b)"
    by (simp add: pull_batch_def any_ready_def recv_ready_def receive_def try_recv_def)
qed

section \<open>Witnesses\<close>

definition sample_worker :: ProxyWorker where
  "sample_worker = NewProxyWorker \<lparr>wk_ID = ''worker-0'', wk_MaxBatchTokens = 8192\<rparr>
     (cfg_Upstream default_config) (NewCircuitBreaker 1 (30 * second))"

definition client_req :: InferenceRequest where
  "client_req = sample_req\<lparr>req_Ctx := Some 7\<rparr>"

definition sample_batch :: Batch where
  "sample_batch = NewBatch ''b1'' 1 [client_req] ''fixed''"

definition sample_exchange :: "(nat \<Rightarrow> bool) \<Rightarrow> (string \<Rightarrow> bool \<Rightarrow> http_reply) \<Rightarrow> exchange" where
  "sample_exchange gone reply = \<lparr>ex_now = 5, ex_failed_at = 6, ex_clock = (\<lambda>_. 1), ex_before = (\<lambda>_. None),
     ex_after = (\<lambda>_. None), ex_gone = gone, ex_encode = (\<lambda>_. Inr ''{}''), ex_newRequest = (\<lambda>_ _. None),
     ex_do = reply, ex_decode = (\<lambda>_. Some [\<lparr>res_RequestID = ''x'', res_Result = AString ''ok'',
       res_Error = None, res_LatencyMs = Fin 0\<rparr>])\<rparr>"

lemmas sample_defs = sample_worker_def NewProxyWorker_def client_req_def sample_req_def sample_request_def
  sample_batch_def NewBatch_def sample_exchange_def live_requests_def ctx_error_def NewCircuitBreaker_def
  CanExecute_def scrubbed_batch_def

lemma sample_process:
  "attempt_of (sample_exchange (\<lambda>_. False) (\<lambda>_ _. Reply 200 ''[]'')) False sample_batch sample_worker = Answered ''[]''"
  by (simp add: attempt_of_def sample_defs)

lemma sample_process_ret:
  "\<exists>w' res'. process (sample_exchange (\<lambda>_. False) (\<lambda>_ _. Reply 200 ''[]'')) False sample_batch (sample_worker, \<lambda>_. NewResultChan)
     = Inr (w', res')"
  using sample_process by (simp add: process_cases Let_def)

lemma sample_req_chan: "req_ResultChan client_req = Some 0" "batch_Requests sample_batch = [client_req]"
  "one_place NewResultChan" "req_ID client_req = ''r1''"
  by (simp_all add: sample_defs one_place_def NewResultChan_def)

theorem process_answers_witness:
  "\<exists>w' res'. process (sample_exchange (\<lambda>_. False) (\<lambda>_ _. Reply 200 ''[]'')) False sample_batch (sample_worker, \<lambda>_. NewResultChan)
     = Inr (w', res') \<and> length (ch_buf (res' 0)) \<le> 1 \<and> ch_buf (res' 0) \<noteq> []
     \<and> (\<forall>x\<in>set (ch_buf (res' 0)). res_RequestID x = ''r1'')"
proof -
  obtain w' res' where p: "process (sample_exchange (\<lambda>_. False) (\<lambda>_ _. Reply 200 ''[]'')) False sample_batch
      (sample_worker, \<lambda>_. NewResultChan) = Inr (w', res')"
    using sample_process_ret by blast
  show ?thesis
    using process_answers [OF p, of client_req 0] p sample_req_chan sample_process
    by (simp add: sample_exchange_def ctx_error_def split: option.splits)
qed

theorem process_positions_witness:
  "\<exists>w' res'. process (sample_exchange (\<lambda>_. False) (\<lambda>_ _. Reply 200 ''[]'')) False sample_batch (sample_worker, \<lambda>_. NewResultChan)
     = Inr (w', res') \<and> map res_Result (ch_buf (res' 0)) = [AString ''ok'']"
proof -
  obtain w' res' where p: "process (sample_exchange (\<lambda>_. False) (\<lambda>_ _. Reply 200 ''[]'')) False sample_batch
      (sample_worker, \<lambda>_. NewResultChan) = Inr (w', res')"
    using sample_process_ret by blast
  have live: "live_requests (sample_exchange (\<lambda>_. False) (\<lambda>_ _. Reply 200 ''[]'')) sample_batch = [client_req]"
    by (simp add: sample_defs)
  show ?thesis
    using process_positions [OF p sample_process, of 0 client_req 0] p sample_req_chan live
    by (simp add: Let_def decodeBatchResponse_def) (simp add: sample_exchange_def ctx_error_def split: option.splits)
qed

theorem process_breaker_witness:
  "\<exists>w' res'. process (sample_exchange (\<lambda>_. False) (\<lambda>_ _. Reply 200 ''[]'')) False sample_batch (sample_worker, \<lambda>_. NewResultChan)
     = Inr (w', res') \<and> State (pw_circuit w') = CircuitClosed \<and> pw_batchesProcessed w' = 1"
proof -
  obtain w' res' where p: "process (sample_exchange (\<lambda>_. False) (\<lambda>_ _. Reply 200 ''[]'')) False sample_batch
      (sample_worker, \<lambda>_. NewResultChan) = Inr (w', res')"
    using sample_process_ret by blast
  show ?thesis
    using process_breaker [OF p] p sample_process
    by (simp add: State_def RecordSuccess_def Let_def probed_def) (simp add: sample_defs wrap64_id i64_def)
qed

theorem gone_clients_trip_witness:
  "\<exists>w' res'. process (sample_exchange (\<lambda>_. True) (\<lambda>_ gone. if gone then TransportError ContextCanceled else Reply 200 ''[]''))
      False sample_batch (sample_worker, \<lambda>_. NewResultChan) = Inr (w', res') \<and> State (pw_circuit w') = CircuitOpen"
proof -
  let ?ex = "sample_exchange (\<lambda>_. True) (\<lambda>_ gone. if gone then TransportError ContextCanceled else Reply 200 ''[]'')"
  have "\<exists>w' res'. process ?ex False sample_batch (sample_worker, \<lambda>_. NewResultChan) = Inr (w', res')
    \<and> State (pw_circuit w') = CircuitOpen
    \<and> cb_failureCount (pw_circuit w') = cb_failureCount (pw_circuit sample_worker) + 1"
    by (rule gone_clients_trip [where body = "''{}''"]) (simp_all add: sample_defs)
  then show ?thesis by blast
qed

theorem nil_context_panics_witness:
  "process (sample_exchange (\<lambda>_. False) (\<lambda>_ _. Reply 200 ''[]'')) False (NewBatch ''b'' 1 [sample_req] ''fixed'')
     (sample_worker, \<lambda>_. NewResultChan) = Inl NilDereference"
  by (rule nil_context_panics [where r = sample_req and rs = "[]" and body = "''{}''"]) (simp_all add: sample_defs)

theorem pull_priority_witness:
  "let cs = (\<lambda>i. if i = 3 then (make_chan 1)\<lparr>ch_closed := True\<rparr>
       else if i = 1 then (make_chan 1)\<lparr>ch_buf := [sample_batch]\<rparr> else make_chan 1)
   in worker_Run [(\<lparr>pl_chans = (\<lambda>_. cs), pl_pick = PickCtx, pl_ctxDone = False\<rparr>,
        sample_exchange (\<lambda>_. False) (\<lambda>_ _. Reply 200 ''[]''), False)] (sample_worker, \<lambda>_. NewResultChan)
      = Ret (sample_worker, \<lambda>_. NewResultChan) \<and> ch_buf (cs 1) = [sample_batch]"
  using pull_priority [of "\<lparr>pl_chans = (\<lambda>_ i. if i = 3 then (make_chan 1)\<lparr>ch_closed := True\<rparr>
       else if i = 1 then (make_chan 1)\<lparr>ch_buf := [sample_batch]\<rparr> else make_chan 1), pl_pick = PickCtx, pl_ctxDone = False\<rparr>"
     "\<lambda>i. if i = 3 then (make_chan 1)\<lparr>ch_closed := True\<rparr>
       else if i = 1 then (make_chan 1)\<lparr>ch_buf := [sample_batch]\<rparr> else make_chan 1"
     "sample_exchange (\<lambda>_. False) (\<lambda>_ _. Reply 200 ''[]'')" False "[]" "(sample_worker, \<lambda>_. NewResultChan)"]
  by (simp add: Let_def)


end
