(* ===== verification/Pool.thy ===== *)
theory Pool
  imports Proxy "HOL-Library.AList"
begin

text \<open>
  internal/worker/pool.go: the pool owns the workers, the four batch channels and the flag of the
  upstream ping. A breaker is shared between its worker and the pool's map from identifiers: the
  breaker is the field of the worker, and the map holds the worker's index. Launching the
  goroutines (\<open>Start\<close>) is the composition of \<open>worker_Run\<close> and \<open>pingLoop\<close>, whose turns are interleaved by
  the scheduler. \<open>make\<close> succeeds for every number of workers, where a size beyond the memory would
  panic.
\<close>

record WorkerInfo =
  wi_ID :: string
  wi_Status :: WorkerStatus
  wi_CircuitState :: CircuitState
  wi_BatchesProcessed :: int
  wi_TokensProcessed :: int

record WorkerPool =
  wp_workers :: "ProxyWorker list"
  wp_circuits :: "(string \<times> nat) list"
  wp_batchChans :: "nat \<Rightarrow> Batch chan"
  wp_upstream :: UpstreamConfig
  wp_upstreamUnhealthy :: bool
  wp_healthInterval :: duration
  wp_failureThreshold :: int

definition worker_id :: "nat \<Rightarrow> string" where
  "worker_id i = ''worker-'' @ show_nat i"

definition add_worker :: "WorkerConfig \<Rightarrow> HealthConfig \<Rightarrow> nat \<Rightarrow> WorkerPool \<Rightarrow> WorkerPool" where
  "add_worker cfg healthCfg i p =
     (let cb = NewCircuitBreaker (hc_FailureThreshold healthCfg) (hc_RecoveryTimeout healthCfg);
          w = NewProxyWorker \<lparr>wk_ID = worker_id i, wk_MaxBatchTokens = wc_MaxBatchTokens cfg\<rparr> (wp_upstream p) cb
      in p\<lparr>wp_circuits := AList.update (worker_id i) (length (wp_workers p)) (wp_circuits p),
           wp_workers := wp_workers p @ [w]\<rparr>)"

definition NewWorkerPool :: "WorkerConfig \<Rightarrow> HealthConfig \<Rightarrow> UpstreamConfig \<Rightarrow> WorkerPool" where
  "NewWorkerPool cfg healthCfg upstream =
     (let count = (if wc_Count cfg < 1 then 1 else wc_Count cfg);
          p = \<lparr>wp_workers = [], wp_circuits = [], wp_batchChans = (\<lambda>_. make_chan (nat count)),
               wp_upstream = upstream, wp_upstreamUnhealthy = False,
               wp_healthInterval = hc_CheckInterval healthCfg,
               wp_failureThreshold = hc_FailureThreshold healthCfg\<rparr>
      in fold (add_worker cfg healthCfg) [0..<nat count] p)"

definition BatchChans :: "WorkerPool \<Rightarrow> nat \<Rightarrow> Batch chan" where
  "BatchChans p = wp_batchChans p"

definition UpstreamUnhealthy :: "WorkerPool \<Rightarrow> bool" where
  "UpstreamUnhealthy p = wp_upstreamUnhealthy p"

definition breaker_of :: "WorkerPool \<Rightarrow> nat \<Rightarrow> CircuitBreaker" where
  "breaker_of p i = pw_circuit (wp_workers p ! i)"

definition AllWorkersUnhealthy :: "WorkerPool \<Rightarrow> bool" where
  "AllWorkersUnhealthy p =
     (if wp_upstreamUnhealthy p then True
      else list_all (\<lambda>(id, i). State (breaker_of p i) = CircuitOpen) (wp_circuits p))"

text \<open>A missing entry of the map is a nil breaker, whose method call panics.\<close>

fun status_walk :: "WorkerPool \<Rightarrow> ProxyWorker list \<Rightarrow> go_panic + WorkerInfo list" where
  "status_walk p [] = Inr []"
| "status_walk p (w # ws) =
     (case map_of (wp_circuits p) (wk_ID (pw_workerConfig w)) of
        None \<Rightarrow> Inl NilDereference
      | Some i \<Rightarrow>
          (case status_walk p ws of
             Inl panic \<Rightarrow> Inl panic
           | Inr infos \<Rightarrow>
               Inr (\<lparr>wi_ID = wk_ID (pw_workerConfig w), wi_Status = pw_status w,
                     wi_CircuitState = State (breaker_of p i),
                     wi_BatchesProcessed = pw_batchesProcessed w,
                     wi_TokensProcessed = pw_tokensProcessed w\<rparr> # infos)))"

definition GetStatus :: "WorkerPool \<Rightarrow> go_panic + WorkerInfo list" where
  "GetStatus p = status_walk p (wp_workers p)"

fun close_chans :: "nat list \<Rightarrow> WorkerPool \<Rightarrow> go_panic + WorkerPool" where
  "close_chans [] p = Inr p"
| "close_chans (i # is) p =
     (case close_chan (wp_batchChans p i) of
        Inl panic \<Rightarrow> Inl panic
      | Inr ch \<Rightarrow> close_chans is (p\<lparr>wp_batchChans := (wp_batchChans p)(i := ch)\<rparr>))"

definition CloseBatchChans :: "WorkerPool \<Rightarrow> go_panic + WorkerPool" where
  "CloseBatchChans p = close_chans [0, 1, 2, 3] p"

section \<open>The upstream ping\<close>

text \<open>\<open>ping\<close>: the request may fail to build or to complete; any status below 500 is healthy.\<close>

definition ping :: "error option \<Rightarrow> http_reply \<Rightarrow> bool" where
  "ping new_request reply =
     (case new_request of
        Some err \<Rightarrow> False
      | None \<Rightarrow> (case reply of TransportError err \<Rightarrow> False | Reply status body \<Rightarrow> status < 500))"

definition ping_tick :: "error option \<times> http_reply \<Rightarrow> int \<times> WorkerPool \<Rightarrow> int \<times> WorkerPool" where
  "ping_tick tick = (\<lambda>(consecutiveFailures, p).
     if ping (fst tick) (snd tick) then (0, p\<lparr>wp_upstreamUnhealthy := False\<rparr>)
     else
       let consecutiveFailures = wrap64 (consecutiveFailures + 1)
       in (consecutiveFailures,
           if wp_failureThreshold p \<le> consecutiveFailures then p\<lparr>wp_upstreamUnhealthy := True\<rparr> else p))"

text \<open>\<open>time.NewTicker\<close> panics for an interval that is not positive; nothing checks the configured one.\<close>

definition pingLoop :: "(error option \<times> http_reply) list \<Rightarrow> WorkerPool \<Rightarrow> go_panic + WorkerPool" where
  "pingLoop ticks p =
     (if wp_healthInterval p \<le> 0 then Inl NonPositiveInterval else Inr (snd (fold ping_tick ticks (0, p))))"

text \<open>\<open>Stop\<close> does nothing: \<open>main\<close> cancels the context of \<open>Start\<close>.\<close>

definition WorkerPool_Stop :: "WorkerPool \<Rightarrow> error option \<times> WorkerPool" where
  "WorkerPool_Stop p = (None, p)"

definition ping_url :: "WorkerPool \<Rightarrow> string" where
  "ping_url p = up_URL (wp_upstream p) @ up_HealthPath (wp_upstream p)"

section \<open>The pool as built\<close>

text \<open>Every worker is found under its own identifier.\<close>

definition pool_inv :: "WorkerPool \<Rightarrow> bool" where
  "pool_inv p \<longleftrightarrow> wp_circuits p = map (\<lambda>i. (worker_id i, i)) [0..<length (wp_workers p)]
     \<and> (\<forall>i<length (wp_workers p). wk_ID (pw_workerConfig (wp_workers p ! i)) = worker_id i)"

lemma worker_id_inject [simp]: "worker_id i = worker_id j \<longleftrightarrow> i = j"
  by (simp add: worker_id_def)

lemma update_new: "k \<notin> fst ` set al \<Longrightarrow> AList.update k v al = al @ [(k, v)]"
  by (induction al) auto

lemma add_worker_inv:
  assumes "pool_inv p" "length (wp_workers p) = i"
  shows "pool_inv (add_worker cfg health i p) \<and> length (wp_workers (add_worker cfg health i p)) = Suc i"
proof -
  have "AList.update (worker_id i) i (wp_circuits p) = wp_circuits p @ [(worker_id i, i)]"
    using assms by (intro update_new) (auto simp: pool_inv_def)
  then show ?thesis
    using assms by (auto simp: add_worker_def Let_def pool_inv_def NewProxyWorker_def nth_append less_Suc_eq)
qed

lemma fold_add_worker:
  "pool_inv p \<Longrightarrow> length (wp_workers p) = i \<Longrightarrow>
     pool_inv (fold (add_worker cfg health) [i..<i + n] p)
     \<and> length (wp_workers (fold (add_worker cfg health) [i..<i + n] p)) = i + n"
proof (induction n arbitrary: i p)
  case (Suc n)
  have "[i..<i + Suc n] = i # [Suc i..<Suc i + n]" by (simp add: upt_rec)
  with Suc.IH [of "add_worker cfg health i p" "Suc i"] add_worker_inv [OF Suc.prems, of cfg health]
  show ?case by simp
qed simp

lemma fold_add_worker_keeps:
  assumes "\<And>i p. f (add_worker cfg health i p) = f p"
  shows "f (fold (add_worker cfg health) is p) = f p"
  by (induction "is" arbitrary: p) (simp_all add: assms)

lemma add_worker_fields:
  "wp_batchChans (add_worker cfg health i p) = wp_batchChans p"
  "wp_upstreamUnhealthy (add_worker cfg health i p) = wp_upstreamUnhealthy p"
  "wp_failureThreshold (add_worker cfg health i p) = wp_failureThreshold p"
  "wp_healthInterval (add_worker cfg health i p) = wp_healthInterval p"
  by (simp_all add: add_worker_def Let_def)

lemma add_worker_all:
  assumes new: "\<And>i up. P (NewProxyWorker \<lparr>wk_ID = worker_id i, wk_MaxBatchTokens = wc_MaxBatchTokens cfg\<rparr> up
       (NewCircuitBreaker (hc_FailureThreshold health) (hc_RecoveryTimeout health)))"
  shows "list_all P (wp_workers p) \<Longrightarrow> list_all P (wp_workers (fold (add_worker cfg health) is p))"
proof (induction "is" arbitrary: p)
  case (Cons i "is")
  have "list_all P (wp_workers (add_worker cfg health i p))"
    using Cons.prems new by (simp add: add_worker_def Let_def)
  then show ?case using Cons.IH by simp
qed simp

definition empty_pool :: "WorkerConfig \<Rightarrow> HealthConfig \<Rightarrow> UpstreamConfig \<Rightarrow> WorkerPool" where
  "empty_pool cfg health up = \<lparr>wp_workers = [], wp_circuits = [],
      wp_batchChans = (\<lambda>_. make_chan (nat (max 1 (wc_Count cfg)))),
      wp_upstream = up, wp_upstreamUnhealthy = False, wp_healthInterval = hc_CheckInterval health,
      wp_failureThreshold = hc_FailureThreshold health\<rparr>"

lemma NewWorkerPool_fold:
  "NewWorkerPool cfg health up =
     fold (add_worker cfg health) [0..<0 + nat (max 1 (wc_Count cfg))] (empty_pool cfg health up)"
  by (simp add: NewWorkerPool_def Let_def empty_pool_def max_def not_less)

lemma NewWorkerPool_inv:
  "pool_inv (NewWorkerPool cfg health up)"
  "length (wp_workers (NewWorkerPool cfg health up)) = nat (max 1 (wc_Count cfg))"
proof -
  have "pool_inv (empty_pool cfg health up)" "length (wp_workers (empty_pool cfg health up)) = 0"
    by (simp_all add: empty_pool_def pool_inv_def)
  from fold_add_worker [OF this, of cfg health "nat (max 1 (wc_Count cfg))"]
  show "pool_inv (NewWorkerPool cfg health up)"
    "length (wp_workers (NewWorkerPool cfg health up)) = nat (max 1 (wc_Count cfg))"
    by (simp_all only: NewWorkerPool_fold)
qed

lemma NewWorkerPool_fields:
  "wp_upstreamUnhealthy (NewWorkerPool cfg health up) = False"
  "wp_batchChans (NewWorkerPool cfg health up) = (\<lambda>_. make_chan (nat (max 1 (wc_Count cfg))))"
  "wp_failureThreshold (NewWorkerPool cfg health up) = hc_FailureThreshold health"
  "wp_healthInterval (NewWorkerPool cfg health up) = hc_CheckInterval health"
  unfolding NewWorkerPool_fold
  by (subst fold_add_worker_keeps, simp add: add_worker_fields, simp add: empty_pool_def)+

lemma NewWorkerPool_circuits:
  "list_all (\<lambda>w. pw_circuit w = NewCircuitBreaker (hc_FailureThreshold health) (hc_RecoveryTimeout health))
     (wp_workers (NewWorkerPool cfg health up))"
  unfolding NewWorkerPool_fold
  by (rule add_worker_all) (simp_all add: NewProxyWorker_def empty_pool_def)

lemma flag_same: "wp_upstreamUnhealthy p = b \<Longrightarrow> p\<lparr>wp_upstreamUnhealthy := b\<rparr> = p"
  by (cases p) simp

lemma status_walk_inv:
  assumes "pool_inv p" "i \<le> length (wp_workers p)"
  shows "status_walk p (drop i (wp_workers p)) = Inr (map (\<lambda>w. \<lparr>wi_ID = wk_ID (pw_workerConfig w),
      wi_Status = pw_status w, wi_CircuitState = State (pw_circuit w),
      wi_BatchesProcessed = pw_batchesProcessed w, wi_TokensProcessed = pw_tokensProcessed w\<rparr>)
      (drop i (wp_workers p)))"
  using assms(2)
proof (induction "length (wp_workers p) - i" arbitrary: i)
  case (Suc n)
  then have i: "i < length (wp_workers p)" by simp
  let ?w = "wp_workers p ! i"
  have d: "drop i (wp_workers p) = ?w # drop (Suc i) (wp_workers p)" using i by (simp add: Cons_nth_drop_Suc)
  have "map_of (wp_circuits p) (wk_ID (pw_workerConfig ?w)) = Some i"
    using assms(1) i by (auto simp: pool_inv_def map_of_eq_Some_iff distinct_map inj_on_def comp_def)
  with Suc i d show ?case by (simp add: breaker_of_def)
qed simp

text \<open>
  A pool as the constructor builds it has at least one worker, each under its own identifier
  with a fresh breaker, and is not unhealthy. In any later state (workers keep their places) the
  admin snapshot never panics and reports, for each worker, its own breaker's state and totals; the
  handler's check is true exactly when the upstream flag is set or every worker's breaker is open,
  so one half-open breaker keeps the service accepting.
\<close>

theorem pool_health:
  "let p = NewWorkerPool cfg health up;
       p' = p\<lparr>wp_workers := ws, wp_upstreamUnhealthy := flag\<rparr>
   in 1 \<le> length (wp_workers p) \<and> \<not> AllWorkersUnhealthy p
      \<and> (map (\<lambda>w. wk_ID (pw_workerConfig w)) ws = map (\<lambda>w. wk_ID (pw_workerConfig w)) (wp_workers p) \<longrightarrow>
          GetStatus p' = Inr (map (\<lambda>w. \<lparr>wi_ID = wk_ID (pw_workerConfig w), wi_Status = pw_status w,
             wi_CircuitState = State (pw_circuit w), wi_BatchesProcessed = pw_batchesProcessed w,
             wi_TokensProcessed = pw_tokensProcessed w\<rparr>) ws)
          \<and> AllWorkersUnhealthy p' = (flag \<or> (\<forall>w\<in>set ws. State (pw_circuit w) = CircuitOpen)))"
proof -
  let ?p = "NewWorkerPool cfg health up"
  note n = NewWorkerPool_inv [of cfg health up] NewWorkerPool_fields [of cfg health up]
  have all: "AllWorkersUnhealthy q = (wp_upstreamUnhealthy q \<or> (\<forall>w\<in>set (wp_workers q). State (pw_circuit w) = CircuitOpen))"
    if "pool_inv q" for q
    using that by (auto simp: AllWorkersUnhealthy_def pool_inv_def list_all_iff breaker_of_def all_set_conv_all_nth)
  have inv: "pool_inv (?p\<lparr>wp_workers := ws, wp_upstreamUnhealthy := flag\<rparr>)"
    if eq: "map (\<lambda>w. wk_ID (pw_workerConfig w)) ws = map (\<lambda>w. wk_ID (pw_workerConfig w)) (wp_workers ?p)"
  proof -
    have len: "length ws = length (wp_workers ?p)" using eq by (metis length_map)
    have "wk_ID (pw_workerConfig (ws ! i)) = worker_id i" if "i < length ws" for i
      using n that len arg_cong [OF eq, of "\<lambda>xs. xs ! i"] by (simp add: pool_inv_def)
    then show ?thesis using n len by (simp add: pool_inv_def)
  qed
  have nonempty: "1 \<le> length (wp_workers ?p)" using n by simp
  then obtain w where "w \<in> set (wp_workers ?p)" by (cases "wp_workers ?p") auto
  then have "\<not> AllWorkersUnhealthy ?p"
    using all [OF n(1)] n(3) NewWorkerPool_circuits [of health cfg up]
    by (auto simp: State_def NewCircuitBreaker_def list_all_iff)
  then show ?thesis
    using nonempty inv all status_walk_inv [OF inv, of 0]
    by (simp add: Let_def GetStatus_def)
qed

theorem pool_health_witness:
  "GetStatus ((NewWorkerPool (cfg_Workers default_config) (cfg_Health default_config) (cfg_Upstream default_config))
      \<lparr>wp_upstreamUnhealthy := True\<rparr>) \<noteq> Inl NilDereference
   \<and> AllWorkersUnhealthy ((NewWorkerPool (cfg_Workers default_config) (cfg_Health default_config) (cfg_Upstream default_config))
      \<lparr>wp_upstreamUnhealthy := True\<rparr>)"
  using pool_health [where cfg = "cfg_Workers default_config" and health = "cfg_Health default_config"
      and up = "cfg_Upstream default_config" and flag = True
      and ws = "wp_workers (NewWorkerPool (cfg_Workers default_config) (cfg_Health default_config) (cfg_Upstream default_config))"]
  by (simp add: Let_def)

text \<open>
  The upstream flag. After any sequence of pings (fewer than \<open>2 ^ 63\<close>) on a pool with a positive
  threshold, the flag is set exactly when the last pings, at least as many as the threshold, all
  failed; one success clears it. Pings never touch a worker, so never a breaker. With an interval
  that is not positive the loop panics before its first ping.
\<close>

theorem ping_flag:
  assumes "1 \<le> hc_FailureThreshold health" "int (length ticks) < 2 ^ 63"
  shows "case pingLoop ticks (NewWorkerPool cfg health up) of
           Inl e \<Rightarrow> e = NonPositiveInterval \<and> hc_CheckInterval health \<le> 0
         | Inr p \<Rightarrow> 0 < hc_CheckInterval health
             \<and> UpstreamUnhealthy p = (hc_FailureThreshold health \<le> int (length (takeWhile (\<lambda>t. \<not> ping (fst t) (snd t)) (rev ticks))))
             \<and> wp_workers p = wp_workers (NewWorkerPool cfg health up)"
proof -
  let ?p = "NewWorkerPool cfg health up"
  let ?failing = "\<lambda>ticks. length (takeWhile (\<lambda>t. \<not> ping (fst t) (snd t)) (rev ticks))"
  have thr: "wp_failureThreshold ?p = hc_FailureThreshold health" "wp_upstreamUnhealthy ?p = False"
    by (rule NewWorkerPool_fields)+
  have "fold ping_tick ticks (0, ?p)
      = (int (?failing ticks), ?p\<lparr>wp_upstreamUnhealthy := hc_FailureThreshold health \<le> int (?failing ticks)\<rparr>)"
    using assms(2)
  proof (induction ticks rule: rev_induct)
    case Nil
    show ?case using assms(1) flag_same [OF thr(2)] by simp
  next
    case (snoc t ticks)
    have le: "?failing ticks \<le> length ticks"
      using length_takeWhile_le [of _ "rev ticks"] by simp
    have w: "wrap64 (int (?failing ticks) + 1) = int (?failing ticks) + 1"
      using snoc.prems le by (intro wrap64_id) (simp add: i64_def)
    have "0 < hc_FailureThreshold health" using assms(1) by simp
    then show ?case
      using snoc thr w by (auto simp: ping_tick_def Let_def)
  qed
  then show ?thesis by (simp add: pingLoop_def UpstreamUnhealthy_def NewWorkerPool_fields not_le)
qed

theorem ping_flag_witness:
  "let bad = (None, TransportError ErrBatchTimeout); good = (None, Reply 200 '''')
   in case pingLoop [bad, good, bad, bad, bad]
        (NewWorkerPool (cfg_Workers default_config) (cfg_Health default_config) (cfg_Upstream default_config))
      of Inl e \<Rightarrow> False | Inr p \<Rightarrow> UpstreamUnhealthy p"
  using ping_flag [of "cfg_Health default_config" "[(None, TransportError ErrBatchTimeout), (None, Reply 200 ''''),
      (None, TransportError ErrBatchTimeout), (None, TransportError ErrBatchTimeout), (None, TransportError ErrBatchTimeout)]"
      "cfg_Workers default_config" "cfg_Upstream default_config"]
  by (simp add: Let_def ping_def default_config_def split: sum.splits)

lemma CloseBatchChans_twice:
  "CloseBatchChans p = Inr p' \<Longrightarrow> CloseBatchChans p' = Inl CloseOfClosed \<and> (\<forall>i<4. ch_closed (wp_batchChans p' i))"
  by (auto simp: CloseBatchChans_def close_chan_def less_Suc_eq numeral_eq_Suc split: sum.splits if_splits)

end
