(* ===== verification/GoStrings.thy ===== *)
theory GoStrings
  imports Complex_Main Prelude
begin

text \<open>
  What the program uses of the package \<open>strings\<close>. A Go string is a list of bytes, here
  \<open>char\<close>s; the functions that look at runes look at their UTF-8 encodings.
\<close>

section \<open>Split\<close>

text \<open>\<open>strings.Split\<close> with a separator of one byte.\<close>

fun split_on :: "char \<Rightarrow> string \<Rightarrow> string list" where
  "split_on sep [] = [[]]"
| "split_on sep (x # xs) =
     (if x = sep then [] # split_on sep xs
      else (case split_on sep xs of [] \<Rightarrow> [[x]] | w # ws \<Rightarrow> (x # w) # ws))"

lemma split_on_word: "sep \<notin> set w \<Longrightarrow> split_on sep w = [w]"
  by (induction w) auto

lemma split_on_append: "sep \<notin> set w \<Longrightarrow> split_on sep (w @ sep # s) = w # split_on sep s"
  by (induction w) auto

fun join_on :: "char \<Rightarrow> string list \<Rightarrow> string" where
  "join_on sep [] = []"
| "join_on sep [w] = w"
| "join_on sep (w # ws) = w @ sep # join_on sep ws"

lemma split_join: "ws \<noteq> [] \<Longrightarrow> \<forall>w\<in>set ws. sep \<notin> set w \<Longrightarrow> split_on sep (join_on sep ws) = ws"
  by (induction sep ws rule: join_on.induct) (auto simp: split_on_word split_on_append)

lemma split_lines:
  "\<forall>w\<in>set ws. sep \<notin> set w \<Longrightarrow> split_on sep (concat (map (\<lambda>w. w @ [sep]) ws)) = ws @ [[]]"
  by (induction ws) (auto simp: split_on_append)

section \<open>TrimSpace\<close>

text \<open>The encodings of the white space of Unicode: six ASCII characters, then the others.\<close>

definition white_spaces :: "string list" where
  "white_spaces =
     [[CHR 0x09], [CHR 0x0A], [CHR 0x0B], [CHR 0x0C], [CHR 0x0D], [CHR 0x20],
      [CHR 0xC2, CHR 0x85], [CHR 0xC2, CHR 0xA0], [CHR 0xE1, CHR 0x9A, CHR 0x80],
      [CHR 0xE2, CHR 0x80, CHR 0xA8], [CHR 0xE2, CHR 0x80, CHR 0xA9], [CHR 0xE2, CHR 0x80, CHR 0xAF],
      [CHR 0xE2, CHR 0x81, CHR 0x9F], [CHR 0xE3, CHR 0x80, CHR 0x80]]
     @ map (\<lambda>k. [CHR 0xE2, CHR 0x80, char_of (128 + k)]) [0..<11]"

definition has_prefix :: "string \<Rightarrow> string \<Rightarrow> bool" where
  "has_prefix s w \<longleftrightarrow> take (length w) s = w"

lemma drop_prefix_shorter: "has_prefix s w \<Longrightarrow> w \<noteq> [] \<Longrightarrow> length (drop (length w) s) < length s"
  by (cases s) (auto simp: has_prefix_def)

function trim_prefixes :: "string list \<Rightarrow> string \<Rightarrow> string" where
  "trim_prefixes ws s =
     (case find (\<lambda>w. w \<noteq> [] \<and> has_prefix s w) ws of
        None \<Rightarrow> s
      | Some w \<Rightarrow> trim_prefixes ws (drop (length w) s))"
  by pat_completeness auto
termination
  by (relation "measure (length \<circ> snd)") (auto simp: find_Some_iff simp del: length_drop intro: drop_prefix_shorter)

declare trim_prefixes.simps [simp del]

definition TrimSpace :: "string \<Rightarrow> string" where
  "TrimSpace s = rev (trim_prefixes (map rev white_spaces) (rev (trim_prefixes white_spaces s)))"

section \<open>ToLower\<close>

text \<open>
  Exact on ASCII and on the two other runes whose lower case is ASCII (U+0130 and the Kelvin sign
  U+212A). Every other rune stays as it is here: its lower case is not ASCII either, which is all
  that a comparison with an ASCII name can see.
\<close>

definition lower_ascii :: "char \<Rightarrow> char" where
  "lower_ascii c = (let n = of_char c :: nat in if 65 \<le> n \<and> n \<le> 90 then char_of (n + 32) else c)"

fun ToLower :: "string \<Rightarrow> string" where
  "ToLower (a # b # c # s) =
     (if a = CHR 0xE2 \<and> b = CHR 0x84 \<and> c = CHR 0xAA then CHR ''k'' # ToLower s
      else if a = CHR 0xC4 \<and> b = CHR 0xB0 then CHR ''i'' # ToLower (c # s)
      else lower_ascii a # ToLower (b # c # s))"
| "ToLower [a, b] = (if a = CHR 0xC4 \<and> b = CHR 0xB0 then ''i'' else [lower_ascii a, lower_ascii b])"
| "ToLower [a] = [lower_ascii a]"
| "ToLower [] = []"

text \<open>A string is blank when it trims to nothing: the concatenations of white space.\<close>

lemma trim_prefixes_nil: "trim_prefixes ws s = [] \<Longrightarrow> \<exists>us. set us \<subseteq> set ws \<and> s = concat us"
proof (induction ws s rule: trim_prefixes.induct)
  case (1 ws s)
  show ?case
  proof (cases "find (\<lambda>w. w \<noteq> [] \<and> has_prefix s w) ws")
    case None
    then have "s = concat []" using 1(2) by (subst (asm) trim_prefixes.simps) simp
    then show ?thesis by (intro exI [of _ "[]"]) simp
  next
    case (Some w)
    then have w: "w \<in> set ws" "s = w @ drop (length w) s"
      by (auto simp: find_Some_iff has_prefix_def) (metis append_take_drop_id)
    have "trim_prefixes ws (drop (length w) s) = []"
      using 1(2) Some by (subst (asm) trim_prefixes.simps) simp
    from 1(1) [OF Some this] obtain us where "set us \<subseteq> set ws" "drop (length w) s = concat us" by blast
    moreover from this w(2) have "s = concat (w # us)" by simp
    ultimately show ?thesis using w(1) by (intro exI [of _ "w # us"]) simp
  qed
qed

section \<open>Decimal digits\<close>

definition is_digit :: "char \<Rightarrow> bool" where
  "is_digit c \<longleftrightarrow> 48 \<le> (of_char c :: nat) \<and> (of_char c :: nat) \<le> 57"

lemma show_nat_digits: "c \<in> set (show_nat n) \<Longrightarrow> is_digit c"
proof (induction n rule: show_nat.induct)
  case (1 n)
  have d: "is_digit (char_of (48 + m))" if "m < 10" for m :: nat
    using that by (simp add: is_digit_def of_char_of)
  show ?case
  proof (cases "n < 10")
    case True
    then show ?thesis using 1(2) d [OF True] show_nat.simps [of n] by simp
  next
    case False
    then have "c \<in> set (show_nat (n div 10)) \<or> c = char_of (48 + n mod 10)"
      using 1(2) show_nat.simps [of n] by auto
    then show ?thesis using 1(1) [OF False] d [of "n mod 10"] by auto
  qed
qed

lemma foldl_digits:
  fixes f :: "'a \<Rightarrow> nat"
  shows "foldl (\<lambda>a c. a * 10 + f c) m ys = m * 10 ^ length ys + foldl (\<lambda>a c. a * 10 + f c) 0 ys"
proof (induction ys arbitrary: m)
  case (Cons c ys)
  show ?case using Cons [of "m * 10 + f c"] Cons [of "f c"] by (simp add: distrib_right)
qed simp

lemma read_nat_append: "read_nat (xs @ ys) = read_nat xs * 10 ^ length ys + read_nat ys"
  unfolding read_nat_def foldl_append by (rule foldl_digits)

lemma read_nat_zeros: "read_nat (replicate k (CHR ''0'') @ s) = read_nat s"
  by (induction k) (simp_all add: read_nat_def)

lemma length_show_nat: "n < 10 ^ k \<Longrightarrow> 0 < k \<Longrightarrow> length (show_nat n) \<le> k"
proof (induction n arbitrary: k rule: show_nat.induct)
  case (1 n)
  show ?case
  proof (cases "n < 10")
    case True
    then show ?thesis using 1(3) by (subst show_nat.simps) simp
  next
    case False
    obtain j where j: "k = Suc j" using 1(3) by (cases k) auto
    have "0 < j" using False 1(2) j by (cases j) auto
    note k = j this
    then have "n div 10 < 10 ^ j" using 1(2) by (simp add: less_mult_imp_div_less)
    with 1(1) [OF False this k(2)] show ?thesis using False k(1) by (subst show_nat.simps) simp
  qed
qed

end
