(* ===== verification/MockUpstream.thy ===== *)
theory MockUpstream
  imports Workload Pool GoStrings
begin

text \<open>
  simulation/mock_upstream.go: the in-process inference server of the simulator, and what a worker
  of the pool gets from it. The HTTP server and the JSON codec are outside: \<open>decoded\<close> is what
  \<open>Decode\<close> makes of a request's body. The random source is threaded through the state.
\<close>

section \<open>The state\<close>

record MockUpstreamConfig =
  mk_BaseLatencyMs :: f64
  mk_PerTokenLatencyMs :: f64
  mk_PerMaxTokenLatencyMs :: f64
  mk_PerItemLatencyMs :: f64
  mk_LatencyVariance :: f64
  mk_FailureRate :: f64

definition DefaultMockUpstreamConfig :: MockUpstreamConfig where
  "DefaultMockUpstreamConfig =
     \<lparr>mk_BaseLatencyMs = Fin 8, mk_PerTokenLatencyMs = Fin 0, mk_PerMaxTokenLatencyMs = f64_of_rat (15 / 1000),
      mk_PerItemLatencyMs = f64_of_rat (8 / 10), mk_LatencyVariance = f64_of_rat (1 / 10), mk_FailureRate = Fin 0\<rparr>"

record 'r MockUpstream =
  mu_cfg :: MockUpstreamConfig
  mu_rand :: 'r
  mu_observedPriorities :: "Priority list"

definition NewMockUpstream :: "MockUpstreamConfig \<Rightarrow> 'r \<Rightarrow> 'r MockUpstream" where
  "NewMockUpstream cfg seed = \<lparr>mu_cfg = cfg, mu_rand = seed, mu_observedPriorities = []\<rparr>"

definition mock_HealthPath :: string where
  "mock_HealthPath = ''/health''"

definition SetFailureRate :: "f64 \<Rightarrow> 'r MockUpstream \<Rightarrow> 'r MockUpstream" where
  "SetFailureRate rate m = m\<lparr>mu_cfg := (mu_cfg m)\<lparr>mk_FailureRate := rate\<rparr>\<rparr>"

definition ObservedPriorities :: "'r MockUpstream \<Rightarrow> Priority list" where
  "ObservedPriorities m = mu_observedPriorities m"

section \<open>The handlers\<close>

text \<open>The status of a health check.\<close>

definition handleHealth :: "string \<Rightarrow> 'r MockUpstream \<Rightarrow> int" where
  "handleHealth meth m =
     (if meth \<noteq> ''GET'' then 405
      else let rate = mk_FailureRate (mu_cfg m) in if f_le (Fin 1) rate then 500 else 200)"

definition recordBatch :: "Batch \<Rightarrow> 'r MockUpstream \<Rightarrow> 'r MockUpstream" where
  "recordBatch batch m =
     (case batch_Requests batch of
        [] \<Rightarrow> m
      | r # _ \<Rightarrow> m\<lparr>mu_observedPriorities := mu_observedPriorities m @ [req_Priority r]\<rparr>)"

definition rollFailure :: "'r rng \<Rightarrow> 'r MockUpstream \<Rightarrow> bool \<times> 'r MockUpstream" where
  "rollFailure g m =
     (if f_le (mk_FailureRate (mu_cfg m)) (Fin 0) then (False, m)
      else let (u, s) = rg_Float64 g (mu_rand m) in (f_lt u (mk_FailureRate (mu_cfg m)), m\<lparr>mu_rand := s\<rparr>))"

definition computeLatency ::
    "(f64 \<Rightarrow> int) \<Rightarrow> 'r rng \<Rightarrow> int \<Rightarrow> int \<Rightarrow> int \<Rightarrow> 'r MockUpstream \<Rightarrow> duration \<times> 'r MockUpstream" where
  "computeLatency oob g batchSize totalTokens maxTokensInBatch m =
     (let (z, s) = rg_NormFloat64 g (mu_rand m);
          m = m\<lparr>mu_rand := s\<rparr>;
          c = mu_cfg m;
          jitter = f_mul (f_mul z (mk_BaseLatencyMs c)) (mk_LatencyVariance c);
          ms = f_add (f_add (f_add (f_add (mk_BaseLatencyMs c)
                 (f_mul (mk_PerTokenLatencyMs c) (f_of_int totalTokens)))
                 (f_mul (mk_PerMaxTokenLatencyMs c) (f_of_int maxTokensInBatch)))
                 (f_mul (mk_PerItemLatencyMs c) (f_of_int batchSize)))
                 jitter;
          ms = (if f_lt ms (Fin 1) then Fin 1 else ms)
      in (f_to_i64 oob (f_mul ms (Fin 1000000)), m))"

text \<open>A batch decoded from JSON is never nil, nor are its requests when a worker encoded it.\<close>

fun max_tokens_loop :: "int \<Rightarrow> InferenceRequest list \<Rightarrow> int" where
  "max_tokens_loop mx [] = mx"
| "max_tokens_loop mx (r # rs) = max_tokens_loop (if mx < req_EstimatedTokens r then req_EstimatedTokens r else mx) rs"

definition maxBatchTokens :: "Batch option \<Rightarrow> int" where
  "maxBatchTokens batch = (case batch of None \<Rightarrow> 0 | Some b \<Rightarrow> max_tokens_loop 0 (batch_Requests b))"

fun random_floats :: "'r rng \<Rightarrow> nat \<Rightarrow> 'r \<Rightarrow> f64 list \<times> 'r" where
  "random_floats g 0 s = ([], s)"
| "random_floats g (Suc n) s =
     (let (x, s) = rg_Float64 g s; (xs, s) = random_floats g n s in (x # xs, s))"

definition echo :: "string \<Rightarrow> string" where
  "echo prompt = TrimSpace (if 16 < length prompt then take 16 prompt else prompt) @ '' ...''"

definition fakeResult :: "'r rng \<Rightarrow> InferenceRequest \<Rightarrow> 'r MockUpstream \<Rightarrow> any \<times> 'r MockUpstream" where
  "fakeResult g req m =
     (if req_RequestType req = RequestTypeEmbedding then
        let (out, s) = random_floats g 8 (mu_rand m) in (AFloats out, m\<lparr>mu_rand := s\<rparr>)
      else (AString (echo (req_Prompt req)), m))"

fun fake_results :: "'r rng \<Rightarrow> InferenceRequest list \<Rightarrow> 'r MockUpstream \<Rightarrow> RequestResult list \<times> 'r MockUpstream" where
  "fake_results g [] m = ([], m)"
| "fake_results g (req # reqs) m =
     (let (x, m) = fakeResult g req m; (rs, m) = fake_results g reqs m
      in (\<lparr>res_RequestID = req_ID req, res_Result = x, res_Error = None, res_LatencyMs = Fin 0\<rparr> # rs, m))"

text \<open>
  A batch is answered with a status alone or with results, after the time it sleeps; \<open>gone\<close> tells
  that the client's context ended first, in which case nothing is written.
\<close>

datatype mock_reply = MockStatus int | MockResults duration "RequestResult list" | MockSilent

definition handleBatch ::
    "(f64 \<Rightarrow> int) \<Rightarrow> 'r rng \<Rightarrow> string \<Rightarrow> Batch option \<Rightarrow> bool \<Rightarrow> 'r MockUpstream \<Rightarrow> mock_reply \<times> 'r MockUpstream" where
  "handleBatch oob g meth decoded gone m =
     (if meth \<noteq> ''POST'' then (MockStatus 405, m)
      else
        (case decoded of
           None \<Rightarrow> (MockStatus 400, m)
         | Some batch \<Rightarrow>
             let m = recordBatch batch m; (failed, m) = rollFailure g m in
             if failed then (MockStatus 503, m)
             else
               let (sleep, m) = computeLatency oob g (int (length (batch_Requests batch))) (TotalTokens batch)
                     (maxBatchTokens (Some batch)) m in
               if gone then (MockSilent, m)
               else let (results, m) = fake_results g (batch_Requests batch) m in (MockResults sleep results, m)))"

section \<open>The sleep\<close>

lemma max_tokens_loop_ge: "mx \<le> max_tokens_loop mx rs"
  by (induction mx rs rule: max_tokens_loop.induct) (simp, fastforce)

lemma max_tokens_loop_mem: "r \<in> set rs \<Longrightarrow> req_EstimatedTokens r \<le> max_tokens_loop mx rs"
proof (induction mx rs rule: max_tokens_loop.induct)
  case (2 mx r' rs)
  then show ?case using max_tokens_loop_ge [of "req_EstimatedTokens r'" rs] max_tokens_loop_ge [of mx rs]
    by (cases "r \<in> set rs") (auto split: if_splits)
qed simp

lemma max_tokens_loop_eq: "max_tokens_loop mx rs = Max (insert mx (req_EstimatedTokens ` set rs))"
proof (induction mx rs rule: max_tokens_loop.induct)
  case (2 mx r rs)
  then show ?case
    by (cases "set rs = {}") (simp_all add: Max_insert max_def)
qed simp

lemma length_fake_results: "length (fst (fake_results g reqs m)) = length reqs"
  by (induction reqs arbitrary: m) (simp_all add: case_prod_beta Let_def)

lemma fakeResult_cfg [simp]: "mu_cfg (snd (fakeResult g req m)) = mu_cfg m"
  by (simp add: fakeResult_def case_prod_beta Let_def)

lemma fake_results_ids: "map res_RequestID (fst (fake_results g reqs m)) = map req_ID reqs
    \<and> (\<forall>r\<in>set (fst (fake_results g reqs m)). res_Error r = None)"
  by (induction reqs arbitrary: m) (simp_all add: case_prod_beta Let_def)

lemma fake_results_completion:
  "j < length reqs \<Longrightarrow> req_RequestType (reqs ! j) \<noteq> RequestTypeEmbedding
    \<Longrightarrow> res_Result (fst (fake_results g reqs m) ! j) = AString (echo (req_Prompt (reqs ! j)))"
proof (induction g reqs m arbitrary: j rule: fake_results.induct)
  case (2 g req reqs m)
  then show ?case
    by (cases j) (simp_all add: case_prod_beta Let_def fakeResult_def)
qed simp

lemma length_random_floats: "length (fst (random_floats g n s)) = n"
  by (induction n arbitrary: s) (simp_all add: case_prod_beta Let_def)

lemma fake_results_embedding:
  "j < length reqs \<Longrightarrow> req_RequestType (reqs ! j) = RequestTypeEmbedding
    \<Longrightarrow> \<exists>xs. res_Result (fst (fake_results g reqs m) ! j) = AFloats xs \<and> length xs = 8"
proof (induction g reqs m arbitrary: j rule: fake_results.induct)
  case (2 g req reqs m)
  then show ?case
    by (cases j) (simp_all add: case_prod_beta Let_def fakeResult_def length_random_floats)
qed simp

text \<open>The sum of the latency model for a jitter \<open>j\<close>, in milliseconds.\<close>

definition latency_ms :: "rat \<Rightarrow> rat \<Rightarrow> rat \<Rightarrow> rat \<Rightarrow> rat \<Rightarrow> int \<Rightarrow> int \<Rightarrow> int \<Rightarrow> rat" where
  "latency_ms b p q i j n t x = f64_round (f64_round (f64_round (f64_round (b
     + f64_round (p * of_int t)) + f64_round (q * of_int x)) + f64_round (i * of_int n)) + j)"

lemma f64_round_pow2: "f64_round (2 ^ k) = 2 ^ k"
  using f64_round_exact [of 1 "int k"] by (simp add: power_int_def)

lemma term_bounds:
  assumes "0 \<le> p" "p \<le> 2 ^ 10" "0 \<le> t" "t \<le> 2 ^ 28"
  shows "0 \<le> p * of_int t" "p * of_int t \<le> 2 ^ 38"
    "0 \<le> f64_round (p * of_int t)" "f64_round (p * of_int t) \<le> 2 ^ 38"
proof -
  have t: "(0::rat) \<le> of_int t" "(of_int t :: rat) \<le> 2 ^ 28"
    using assms(3,4) of_int_le_iff [where ?'a = rat, of t "2 ^ 28"] by simp_all
  show a: "0 \<le> p * of_int t" using assms(1) t(1) by simp
  have "p * of_int t \<le> 2 ^ 10 * 2 ^ 28" by (rule mult_mono [OF assms(2) t(2)]) (use assms t in simp_all)
  then show b: "p * of_int t \<le> 2 ^ 38" by simp
  show "0 \<le> f64_round (p * of_int t)" "f64_round (p * of_int t) \<le> 2 ^ 38"
    using f64.between [OF f64.zero f64_round_pow2 a b] by simp_all
qed

lemma round_sum:
  assumes "0 \<le> x" "x \<le> 2 ^ k" "0 \<le> y" "y \<le> 2 ^ k"
  shows "0 \<le> f64_round (x + y)" "f64_round (x + y) \<le> 2 ^ Suc k"
  using f64.between [OF f64.zero f64_round_pow2 [of "Suc k"], of "x + y"] assms by simp_all

definition bounded_config :: "MockUpstreamConfig \<Rightarrow> rat \<Rightarrow> rat \<Rightarrow> rat \<Rightarrow> rat \<Rightarrow> bool" where
  "bounded_config c b p q i \<longleftrightarrow> mk_BaseLatencyMs c = Fin b \<and> mk_PerTokenLatencyMs c = Fin p
     \<and> mk_PerMaxTokenLatencyMs c = Fin q \<and> mk_PerItemLatencyMs c = Fin i
     \<and> 0 \<le> b \<and> b \<le> 2 ^ 10 \<and> 0 \<le> p \<and> p \<le> 2 ^ 10 \<and> 0 \<le> q \<and> q \<le> 2 ^ 10 \<and> 0 \<le> i \<and> i \<le> 2 ^ 10"

lemma f_mul_term:
  assumes "0 \<le> p" "p \<le> 2 ^ 10" "0 \<le> t" "t \<le> 2 ^ 28"
  shows "f_mul (Fin p) (f_of_int t) = Fin (f64_round (p * of_int t))"
proof -
  have "f_of_int t = Fin (of_int t)" by (rule f_of_int_exact) (use assms in simp)
  moreover have "f_small (p * of_int t)"
    by (rule f_small_bound [of _ 38]) (use term_bounds [OF assms] in \<open>simp_all add: abs_if\<close>)
  ultimately show ?thesis by simp
qed

lemma computeLatency_eq:
  assumes "bounded_config (mu_cfg m) b p q i"
    and "f_mul (f_mul (fst (rg_NormFloat64 g (mu_rand m))) (mk_BaseLatencyMs (mu_cfg m))) (mk_LatencyVariance (mu_cfg m)) = Fin j"
    and "\<bar>j\<bar> \<le> 2 ^ 20" "0 \<le> n" "n \<le> 2 ^ 28" "0 \<le> t" "t \<le> 2 ^ 28" "0 \<le> x" "x \<le> 2 ^ 28"
  shows "fst (computeLatency oob g n t x m) = \<lfloor>f64_round (max 1 (latency_ms b p q i j n t x) * 1000000)\<rfloor>"
    and "latency_ms b p q i j n t x \<le> 2 ^ 42"
proof -
  note c = assms(1) [unfolded bounded_config_def]
  define T where "T = f64_round (p * of_int t)"
  define X where "X = f64_round (q * of_int x)"
  define N where "N = f64_round (i * of_int n)"
  have T: "0 \<le> T" "T \<le> 2 ^ 38" and X: "0 \<le> X" "X \<le> 2 ^ 38" and N: "0 \<le> N" "N \<le> 2 ^ 38"
    unfolding T_def X_def N_def by (rule term_bounds; use c assms(4-9) in blast)+
  define s1 where "s1 = f64_round (b + T)"
  define s2 where "s2 = f64_round (s1 + X)"
  define s3 where "s3 = f64_round (s2 + N)"
  have s1: "0 \<le> s1" "s1 \<le> 2 ^ 39" unfolding s1_def using round_sum [of b 38 T] c T by simp_all
  have s2: "0 \<le> s2" "s2 \<le> 2 ^ 40" unfolding s2_def using round_sum [of s1 39 X] s1 X by simp_all
  have s3: "0 \<le> s3" "s3 \<le> 2 ^ 41" unfolding s3_def using round_sum [of s2 40 N] s2 N by simp_all
  have small: "f_small (b + T)" "f_small (s1 + X)" "f_small (s2 + N)" "f_small (s3 + j)"
    by (rule f_small_bound [of _ 43]; use c T X N s1 s2 s3 assms(3) in \<open>simp add: abs_if split: if_splits\<close>)+
  have L: "latency_ms b p q i j n t x = f64_round (s3 + j)"
    by (simp add: latency_ms_def s3_def s2_def s1_def T_def X_def N_def)
  have "s3 + j \<le> 2 ^ 42" using s3 assms(3) by (simp add: abs_if split: if_splits)
  then show le: "latency_ms b p q i j n t x \<le> 2 ^ 42"
    unfolding L using f64_round_mono [of "s3 + j" "2 ^ 42"] by (simp only: f64_round_pow2)
  define ms where "ms = max 1 (latency_ms b p q i j n t x)"
  have ms: "1 \<le> ms" "ms \<le> 2 ^ 42" using le by (simp_all add: ms_def)
  have r: "0 \<le> f64_round (ms * 1000000)" "f64_round (ms * 1000000) \<le> 2 ^ 62"
    using f64.between [OF f64.zero f64_round_pow2 [of 62], of "ms * 1000000"] ms by simp_all
  show "fst (computeLatency oob g n t x m) = \<lfloor>f64_round (max 1 (latency_ms b p q i j n t x) * 1000000)\<rfloor>"
  proof -
    have tx: "f_mul (Fin p) (f_of_int t) = Fin T" "f_mul (Fin q) (f_of_int x) = Fin X" "f_mul (Fin i) (f_of_int n) = Fin N"
      unfolding T_def X_def N_def by (rule f_mul_term; use c assms(4-9) in blast)+
    have sums: "f_add (Fin b) (Fin T) = Fin s1" "f_add (Fin s1) (Fin X) = Fin s2" "f_add (Fin s2) (Fin N) = Fin s3"
      "f_add (Fin s3) (Fin j) = Fin (latency_ms b p q i j n t x)"
      using small by (simp_all add: s1_def s2_def s3_def L)
    have cl: "(if f_lt (Fin (latency_ms b p q i j n t x)) (Fin 1) then Fin 1 else Fin (latency_ms b p q i j n t x)) = Fin ms"
      by (simp add: ms_def max_def)
    have "f_small (ms * 1000000)" by (rule f_small_bound [of _ 62]) (use ms in \<open>simp_all add: abs_if\<close>)
    then have prod: "f_mul (Fin ms) (Fin 1000000) = Fin (f64_round (ms * 1000000))" by simp
    have "\<lfloor>f64_round (ms * 1000000)\<rfloor> \<le> 2 ^ 62" using floor_mono [OF r(2)] by simp
    moreover have "0 \<le> \<lfloor>f64_round (ms * 1000000)\<rfloor>" using r(1) by simp
    ultimately have to: "f_to_i64 oob (Fin (f64_round (ms * 1000000))) = \<lfloor>f64_round (ms * 1000000)\<rfloor>"
      using r(1) by (simp add: trunc_def i64_def)
    have cfg: "mu_cfg (m\<lparr>mu_rand := s\<rparr>) = mu_cfg m" for s by simp
    have coef: "mk_BaseLatencyMs (mu_cfg m) = Fin b" "mk_PerTokenLatencyMs (mu_cfg m) = Fin p"
      "mk_PerMaxTokenLatencyMs (mu_cfg m) = Fin q" "mk_PerItemLatencyMs (mu_cfg m) = Fin i"
      using c by blast+
    note jit = assms(2) [unfolded coef]
    have "fst (computeLatency oob g n t x m) = f_to_i64 oob (Fin (f64_round (ms * 1000000)))"
      by (simp only: computeLatency_def case_prod_beta Let_def fst_conv cfg coef jit tx sums cl prod)
    then show ?thesis unfolding to unfolding ms_def .
  qed
qed

lemma latency_ms_mono:
  assumes "0 \<le> p" "0 \<le> q" "0 \<le> i" "n \<le> n'" "t \<le> t'" "x \<le> x'"
  shows "latency_ms b p q i j n t x \<le> latency_ms b p q i j n' t' x'"
  unfolding latency_ms_def using assms
  by (intro f64_round_mono add_mono mult_left_mono order.refl) simp_all

text \<open>
  The time the mock takes for a batch. With coefficients between 0 and 1024 ms, a jitter that is
  finite and at most \<open>2 ^ 20\<close> ms, and counts up to \<open>2 ^ 28\<close>, it is at least one millisecond whatever
  the jitter, and with the same jitter it never shrinks when the batch has more requests, more
  tokens or a larger item. The largest item that \<open>handleBatch\<close> passes is the maximum of the
  estimates, and 0 for an empty batch.
\<close>

theorem mock_latency:
  assumes "bounded_config (mu_cfg m) b p q i"
    and "f_mul (f_mul (fst (rg_NormFloat64 g (mu_rand m))) (mk_BaseLatencyMs (mu_cfg m))) (mk_LatencyVariance (mu_cfg m)) = Fin j"
    and "\<bar>j\<bar> \<le> 2 ^ 20" "0 \<le> n" "n \<le> n'" "n' \<le> 2 ^ 28" "0 \<le> t" "t \<le> t'" "t' \<le> 2 ^ 28" "0 \<le> x" "x \<le> x'" "x' \<le> 2 ^ 28"
  shows "millisecond \<le> fst (computeLatency oob g n t x m)
    \<and> fst (computeLatency oob g n t x m) \<le> fst (computeLatency oob g n' t' x' m)
    \<and> maxBatchTokens (Some batch) = Max (insert 0 (req_EstimatedTokens ` set (batch_Requests batch)))"
proof -
  note c = assms(1) [unfolded bounded_config_def]
  have eq: "fst (computeLatency oob g n t x m) = \<lfloor>f64_round (max 1 (latency_ms b p q i j n t x) * 1000000)\<rfloor>"
    "fst (computeLatency oob g n' t' x' m) = \<lfloor>f64_round (max 1 (latency_ms b p q i j n' t' x') * 1000000)\<rfloor>"
    by (rule computeLatency_eq [OF assms(1-3)]; use assms in linarith)+
  have "latency_ms b p q i j n t x \<le> latency_ms b p q i j n' t' x'"
    by (rule latency_ms_mono) (use c assms in simp_all)
  then have "f64_round (max 1 (latency_ms b p q i j n t x) * 1000000)
      \<le> f64_round (max 1 (latency_ms b p q i j n' t' x') * 1000000)"
    by (intro f64_round_mono mult_right_mono max.mono) simp_all
  then have le: "fst (computeLatency oob g n t x m) \<le> fst (computeLatency oob g n' t' x' m)"
    unfolding eq by (rule floor_mono)
  have "of_int 1000000 \<le> f64_round (max 1 (latency_ms b p q i j n t x) * 1000000)"
    using f64_round_mono [of "of_int 1000000" "max 1 (latency_ms b p q i j n t x) * 1000000"] f64_round_int [of 1000000]
    by simp
  then have "1000000 \<le> fst (computeLatency oob g n t x m)" unfolding eq by (simp add: le_floor_iff)
  then show ?thesis using le by (simp add: maxBatchTokens_def max_tokens_loop_eq)
qed

text \<open>The default configuration without jitter, for batches of 1, 8 and 32 requests of 256 tokens.\<close>

definition default_mock :: "nat MockUpstream" where
  "default_mock = NewMockUpstream DefaultMockUpstreamConfig 0"

lemma default_coefficients:
  "f64_of_rat (15 / 1000) = Fin (f64_round (15 / 1000))" "f64_of_rat (8 / 10) = Fin (f64_round (8 / 10))"
  "f64_of_rat (1 / 10) = Fin (f64_round (1 / 10))"
  "0 \<le> f64_round (15 / 1000)" "f64_round (15 / 1000) \<le> 1" "0 \<le> f64_round (8 / 10)" "f64_round (8 / 10) \<le> 1"
proof -
  show "f64_of_rat (15 / 1000) = Fin (f64_round (15 / 1000))" "f64_of_rat (8 / 10) = Fin (f64_round (8 / 10))"
    "f64_of_rat (1 / 10) = Fin (f64_round (1 / 10))"
    by (rule f64_of_small, rule f_small_bound [of _ 1], simp_all)+
  show "0 \<le> f64_round (15 / 1000)" "f64_round (15 / 1000) \<le> 1" "0 \<le> f64_round (8 / 10)" "f64_round (8 / 10) \<le> 1"
    using f64.unit_interval [of "15 / 1000"] f64.unit_interval [of "8 / 10"] by simp_all
qed

lemma default_bounded:
  "bounded_config (mu_cfg default_mock) 8 0 (f64_round (15 / 1000)) (f64_round (8 / 10))"
  using default_coefficients
  by (simp add: bounded_config_def default_mock_def NewMockUpstream_def DefaultMockUpstreamConfig_def)

theorem mock_latency_witness:
  "millisecond \<le> fst (computeLatency (\<lambda>_. 0) sample_rng 8 2048 256 default_mock)
   \<and> fst (computeLatency (\<lambda>_. 0) sample_rng 8 2048 256 default_mock)
     \<le> fst (computeLatency (\<lambda>_. 0) sample_rng 32 8192 256 default_mock)"
proof -
  have "f_mul (f_mul (fst (rg_NormFloat64 sample_rng (mu_rand default_mock))) (mk_BaseLatencyMs (mu_cfg default_mock)))
      (mk_LatencyVariance (mu_cfg default_mock)) = Fin 0"
    using default_coefficients
    by (simp add: sample_rng_def default_mock_def NewMockUpstream_def DefaultMockUpstreamConfig_def)
      (simp add: f64_of_small f_small_bound [of _ 1])
  from mock_latency [OF default_bounded this, of 8 32 2048 8192 256 256] show ?thesis by simp
qed

lemma default_latency_below:
  assumes "0 \<le> n" "n \<le> 32"
  shows "fst (computeLatency oob sample_rng n (256 * n) 256 default_mock) \<le> 12000000 + 812500 * n"
proof -
  let ?q = "f64_round (15 / 1000)" and ?i = "f64_round (8 / 10)" and ?t = "256 * n"
  have jit: "f_mul (f_mul (fst (rg_NormFloat64 sample_rng (mu_rand default_mock))) (mk_BaseLatencyMs (mu_cfg default_mock)))
      (mk_LatencyVariance (mu_cfg default_mock)) = Fin 0"
    using default_coefficients
    by (simp add: sample_rng_def default_mock_def NewMockUpstream_def DefaultMockUpstreamConfig_def)
      (simp add: f64_of_small f_small_bound [of _ 1])
  have rep: "f64_round (of_int k / 16) = of_int k / 16" if "\<bar>k\<bar> \<le> 2 ^ 53" for k
  proof -
    have "(2::rat) powi - 4 = 1 / 16" by (simp add: power_int_minus)
    then show ?thesis using f64_round_exact [of k "- 4"] that by simp
  qed
  have n: "(0::rat) \<le> of_int n" "(of_int n :: rat) \<le> 32" using assms by simp_all
  have i: "?i \<le> 13 / 16" using f64_round_mono [of "8 / 10" "13 / 16"] rep [of 13] by simp
  have "f64_round (1 / 64) = 1 / 64" using f64_round_exact [of 1 "- 6"] by (simp add: power_int_minus)
  then have q: "?q \<le> 1 / 64" using f64_round_mono [of "15 / 1000" "1 / 64"] by simp
  have X: "f64_round (?q * of_int 256) \<le> 4"
    using f64_round_mono [of "?q * of_int 256" 4] f64_round_int [of 4] q by simp
  have N: "f64_round (?i * of_int n) \<le> of_int (13 * n) / 16"
  proof -
    have "?i * of_int n \<le> of_int (13 * n) / 16" using mult_right_mono [OF i n(1)] by simp
    then have "f64_round (?i * of_int n) \<le> f64_round (of_int (13 * n) / 16)" by (rule f64_round_mono)
    also have "\<dots> = of_int (13 * n) / 16" by (rule rep) (use assms in simp)
    finally show ?thesis .
  qed
  have s2: "f64_round (8 + f64_round (?q * of_int 256)) \<le> 12"
    using f64_round_mono [of "8 + f64_round (?q * of_int 256)" 12] f64_round_int [of 12] X by simp
  have tot: "f64_round (f64_round (8 + f64_round (?q * of_int 256)) + f64_round (?i * of_int n)) \<le> of_int (192 + 13 * n) / 16"
  proof -
    have "f64_round (8 + f64_round (?q * of_int 256)) + f64_round (?i * of_int n) \<le> 12 + of_int (13 * n) / 16"
      using s2 N by (rule add_mono)
    also have "\<dots> = of_int (192 + 13 * n) / 16" by simp
    finally have "f64_round (f64_round (8 + f64_round (?q * of_int 256)) + f64_round (?i * of_int n))
        \<le> f64_round (of_int (192 + 13 * n) / 16)" by (rule f64_round_mono)
    also have "\<dots> = of_int (192 + 13 * n) / 16" by (rule rep) (use assms in simp)
    finally show ?thesis .
  qed
  have "f64_round 8 = 8" using f64_round_int [of 8] by simp
  then have "latency_ms 8 0 ?q ?i 0 n ?t 256 \<le> of_int (192 + 13 * n) / 16"
    using tot by (simp only: latency_ms_def mult_zero_left f64.zero add_0_right f64_round_idem)
  then have "max 1 (latency_ms 8 0 ?q ?i 0 n ?t 256) * 1000000 \<le> of_int (12000000 + 812500 * n)"
    using n by (simp add: max_def)
  moreover have "f64_round (of_int (12000000 + 812500 * n)) = of_int (12000000 + 812500 * n)"
    by (rule f64_round_int) (use assms in simp)
  ultimately have "f64_round (max 1 (latency_ms 8 0 ?q ?i 0 n ?t 256) * 1000000) \<le> of_int (12000000 + 812500 * n)"
    using f64_round_mono by metis
  then have "\<lfloor>f64_round (max 1 (latency_ms 8 0 ?q ?i 0 n ?t 256) * 1000000)\<rfloor> \<le> 12000000 + 812500 * n"
    by (metis floor_mono floor_of_int)
  then show ?thesis
    using computeLatency_eq(1) [OF default_bounded jit, of n ?t 256] assms by simp
qed

section \<open>A worker in front of the mock\<close>

text \<open>
  What the wire keeps: \<open>encoding/json\<close> writes every string as valid UTF-8, which is what \<open>coerce\<close> does,
  the fields marked \<open>json:"-"\<close> are left out, and a list of numbers is decoded as a list of values.
\<close>

definition wire_request :: "(string \<Rightarrow> string) \<Rightarrow> InferenceRequest \<Rightarrow> InferenceRequest" where
  "wire_request coerce r = r\<lparr>req_ID := coerce (req_ID r), req_Prompt := coerce (req_Prompt r),
     req_Ctx := None, req_ResultChan := None\<rparr>"

definition wire_batch :: "(string \<Rightarrow> string) \<Rightarrow> Batch \<Rightarrow> Batch" where
  "wire_batch coerce b = b\<lparr>batch_Requests := map (wire_request coerce) (batch_Requests b)\<rparr>"

fun wire_any :: "(string \<Rightarrow> string) \<Rightarrow> any \<Rightarrow> any" where
  "wire_any coerce (AString s) = AString (coerce s)"
| "wire_any coerce (AFloats xs) = AList (map ANum xs)"
| "wire_any coerce x = x"

definition wire_result :: "(string \<Rightarrow> string) \<Rightarrow> RequestResult \<Rightarrow> RequestResult" where
  "wire_result coerce r = r\<lparr>res_RequestID := coerce (res_RequestID r), res_Result := wire_any coerce (res_Result r),
     res_Error := None\<rparr>"

definition mock_http :: "(RequestResult list \<Rightarrow> string) \<Rightarrow> mock_reply \<Rightarrow> http_reply" where
  "mock_http encode reply =
     (case reply of
        MockStatus s \<Rightarrow> Reply s ''''
      | MockResults d rs \<Rightarrow> Reply 200 (encode rs)
      | MockSilent \<Rightarrow> TransportError ContextCanceled)"

lemma recordBatch_cfg [simp]: "mu_cfg (recordBatch b m) = mu_cfg m"
  by (simp add: recordBatch_def split: list.split)

lemma handleBatch_serves:
  assumes "f_le (mk_FailureRate (mu_cfg m)) (Fin 0)"
  obtains d m1 where "fst (handleBatch oob g ''POST'' (Some batch) False m)
    = MockResults d (fst (fake_results g (batch_Requests batch) m1))"
proof -
  obtain d m1 where c: "computeLatency oob g (int (length (batch_Requests batch))) (TotalTokens batch)
      (maxBatchTokens (Some batch)) (recordBatch batch m) = (d, m1)" by fastforce
  have "fst (handleBatch oob g ''POST'' (Some batch) False m) = MockResults d (fst (fake_results g (batch_Requests batch) m1))"
    using assms by (simp add: handleBatch_def rollFailure_def Let_def c split: prod.split)
  then show ?thesis by (rule that)
qed

lemma f_le_one:
  assumes "f_le (Fin 1) y"
  shows "\<not> f_le y (Fin 0) \<and> (x < 1 \<longrightarrow> f_lt (Fin x) y)"
  using assms by (cases y) (auto simp: f_le_def f_eq_def)

lemma handleBatch_fails:
  assumes "f_le (Fin 1) (mk_FailureRate (mu_cfg m))" "rng_ok g"
  shows "fst (handleBatch oob g ''POST'' (Some batch) gone m) = MockStatus 503"
proof -
  obtain x s where x: "rg_Float64 g (mu_rand (recordBatch batch m)) = (Fin x, s)" "0 \<le> x" "x < 1"
    using assms(2) unfolding rng_ok_def by (metis prod.collapse)
  have "\<not> f_le (mk_FailureRate (mu_cfg m)) (Fin 0)" "f_lt (Fin x) (mk_FailureRate (mu_cfg m))"
    using f_le_one [OF assms(1)] x(3) by simp_all
  then have "rollFailure g (recordBatch batch m) = (True, (recordBatch batch m)\<lparr>mu_rand := s\<rparr>)"
    using x(1) by (simp add: rollFailure_def)
  then show ?thesis by (simp add: handleBatch_def)
qed

lemma mu_observed_sends [simp]:
  "mu_observedPriorities (snd (rollFailure g m)) = mu_observedPriorities m"
  "mu_observedPriorities (snd (computeLatency oob g n t x m)) = mu_observedPriorities m"
  by (auto simp: rollFailure_def computeLatency_def Let_def split: prod.split)

lemma fakeResult_observed [simp]: "mu_observedPriorities (snd (fakeResult g req m)) = mu_observedPriorities m"
  by (auto simp: fakeResult_def split: prod.split)

lemma fake_results_observed [simp]: "mu_observedPriorities (snd (fake_results g reqs m)) = mu_observedPriorities m"
proof (induction reqs arbitrary: m)
  case (Cons r reqs)
  obtain x m1 where f: "fakeResult g r m = (x, m1)" by fastforce
  obtain rs m2 where fs: "fake_results g reqs m1 = (rs, m2)" by fastforce
  show ?case using Cons.IH [of m1] fakeResult_observed [of g r m] f fs by simp
qed simp

lemma handleBatch_observed:
  "mu_observedPriorities (snd (handleBatch oob g ''POST'' (Some batch) gone m)) = mu_observedPriorities (recordBatch batch m)"
proof -
  have "mu_observedPriorities m2 = mu_observedPriorities m1" if "rollFailure g m1 = (x, m2)" for x m1 m2
    using mu_observed_sends(1) [of g m1] that by simp
  moreover have "mu_observedPriorities m2 = mu_observedPriorities m1" if "computeLatency oob g n t y m1 = (x, m2)" for x n t y m1 m2
    using mu_observed_sends(2) [of oob g n t y m1] that by simp
  moreover have "mu_observedPriorities m2 = mu_observedPriorities m1" if "fake_results g rs m1 = (x, m2)" for x rs m1 m2
    using fake_results_observed [of g rs m1] that by simp
  ultimately show ?thesis
    unfolding handleBatch_def by (auto simp: Let_def split: prod.split)
qed

text \<open>
  A worker that is about to send a batch to the mock: it may, somebody waits for the batch, it can be
  encoded, the HTTP client hands over what the mock replies and the codec reads back what it wrote.
\<close>

definition before_mock ::
  "(f64 \<Rightarrow> int) \<Rightarrow> 'r rng \<Rightarrow> (string \<Rightarrow> string) \<Rightarrow> (RequestResult list \<Rightarrow> string) \<Rightarrow> (string \<Rightarrow> Batch option)
    \<Rightarrow> 'r MockUpstream \<Rightarrow> exchange \<Rightarrow> ProxyWorker \<Rightarrow> Batch \<Rightarrow> string \<Rightarrow> bool" where
  "before_mock oob g coerce encode decode m ex w batch body \<longleftrightarrow>
     fst (CanExecute (ex_now ex) (pw_circuit w)) \<and> live_requests ex batch \<noteq> []
     \<and> ex_encode ex (scrubbed_batch ex batch) = Inr body
     \<and> spawnAllCancelledWatcher (ex_gone ex) (live_requests ex batch) = Inr False
     \<and> ex_newRequest ex (up_URL (pw_upstream w)) body = None
     \<and> decode body = Some (wire_batch coerce (scrubbed_batch ex batch))
     \<and> ex_do ex body False = mock_http encode (fst (handleBatch oob g ''POST'' (decode body) False m))
     \<and> (\<forall>d rs. fst (handleBatch oob g ''POST'' (decode body) False m) = MockResults d rs
           \<longrightarrow> ex_decode ex (encode rs) = Some (map (wire_result coerce) rs))"

lemma wire_requests:
  "batch_Requests (wire_batch coerce (scrubbed_batch ex batch)) = map (wire_request coerce) (live_requests ex batch)"
  by (simp add: wire_batch_def scrubbed_batch_def)

lemma before_mock_attempt:
  assumes "before_mock oob g coerce encode decode m ex w batch body"
  shows "attempt_of ex False batch w = (case ex_do ex body False of
      TransportError err \<Rightarrow> Failed | Reply status reply \<Rightarrow> if 500 \<le> status then Failed else Answered reply)"
  using assms by (simp add: before_mock_def attempt_of_def)

lemma before_mock_returns:
  assumes "before_mock oob g coerce encode decode m ex w batch body"
  shows "\<exists>w' res'. process ex False batch (w, res) = Inr (w', res')"
proof -
  have "attempt_of ex False batch w \<noteq> Panicked e" for e
    unfolding before_mock_attempt [OF assms] by (auto split: http_reply.split)
  then show ?thesis
    by (cases "attempt_of ex False batch w") (simp_all add: process_cases Let_def, blast)
qed

lemma before_mock_noted:
  assumes "before_mock oob g coerce encode decode m ex w batch body"
  shows "mu_observedPriorities (snd (handleBatch oob g ''POST'' (decode body) False m))
    = ObservedPriorities m @ [req_Priority (live_requests ex batch ! 0)]"
  using assms unfolding before_mock_def
  by (cases "live_requests ex batch")
    (simp_all add: handleBatch_observed recordBatch_def wire_requests ObservedPriorities_def wire_request_def)

text \<open>A mock that never fails: the reply, and what its results are.\<close>

lemma before_mock_answered:
  assumes "before_mock oob g coerce encode decode m ex w batch body" "f_le (mk_FailureRate (mu_cfg m)) (Fin 0)"
  obtains m1 where "attempt_of ex False batch w
      = Answered (encode (fst (fake_results g (map (wire_request coerce) (live_requests ex batch)) m1)))"
    "ex_decode ex (encode (fst (fake_results g (map (wire_request coerce) (live_requests ex batch)) m1)))
      = Some (map (wire_result coerce) (fst (fake_results g (map (wire_request coerce) (live_requests ex batch)) m1)))"
proof -
  obtain d m1 where "fst (handleBatch oob g ''POST'' (decode body) False m)
      = MockResults d (fst (fake_results g (map (wire_request coerce) (live_requests ex batch)) m1))"
    using handleBatch_serves [OF assms(2)] assms(1) unfolding before_mock_def wire_requests [symmetric] by metis
  then show thesis
    using that [of m1] assms(1) before_mock_attempt [OF assms(1)] by (simp add: before_mock_def mock_http_def)
qed

lemma fake_result_wire:
  fixes m :: "'r MockUpstream"
    and coerce g j rs
  assumes "j < length rs"
  defines "x \<equiv> wire_any coerce (res_Result (fst (fake_results g (map (wire_request coerce) rs) m) ! j))"
  shows "if req_RequestType (rs ! j) = RequestTypeEmbedding then (\<exists>xs. x = AList (map ANum xs) \<and> length xs = 8)
    else x = AString (coerce (echo (coerce (req_Prompt (rs ! j)))))"
proof -
  let ?ws = "map (wire_request coerce) rs"
  have q: "j < length ?ws" "req_RequestType (?ws ! j) = req_RequestType (rs ! j)" "req_Prompt (?ws ! j) = coerce (req_Prompt (rs ! j))"
    using assms(1) by (simp_all add: wire_request_def)
  show ?thesis
    using fake_results_embedding [OF q(1), of g m] fake_results_completion [OF q(1), of g m] unfolding q(2,3)
    by (cases "req_RequestType (rs ! j) = RequestTypeEmbedding")
      (auto simp: x_def intro: exI [where P = "\<lambda>ys. map ANum xs = map ANum ys \<and> length ys = 8" for xs])
qed

text \<open>
  C37: A worker in front of the mock. Take a batch that the worker is admitted to send, with the codec
  doing what it documents, and a request of it still waiting when the results arrive. With a failure
  rate of at most 0 its channel gets its own echo (the first 16 bytes of the prompt, trimmed) or its
  own eight numbers, under its own identifier (docs/spec/08-testing.md takes the default of the mock
  to be 128 numbers), the breaker hears a success, and the mock has noted the priority of the batch.
  With a rate of at least 1 it gets ErrWorkerUnavailable, the breaker hears a failure, and the health
  check fails as well, so the ping agrees with the traffic.
\<close>

theorem mock_serves:
  assumes "fst (CanExecute (ex_now ex) (pw_circuit w))" "distinct (map req_ResultChan (batch_Requests batch))"
    and "j < length (live_requests ex batch)" "r = live_requests ex batch ! j"
    and "req_ResultChan r = Some a" "one_place (res a)" "ctx_error (ex_after ex) r = None"
    and "ex_encode ex (scrubbed_batch ex batch) = Inr body"
    and "spawnAllCancelledWatcher (ex_gone ex) (live_requests ex batch) = Inr False"
    and "ex_newRequest ex (up_URL (pw_upstream w)) body = None"
    and "decode body = Some (wire_batch coerce (scrubbed_batch ex batch))"
    and "ex_do ex body False = mock_http encode (fst (handleBatch oob g ''POST'' (decode body) False m))"
    and "\<forall>d rs. fst (handleBatch oob g ''POST'' (decode body) False m) = MockResults d rs
           \<longrightarrow> ex_decode ex (encode rs) = Some (map (wire_result coerce) rs)"
  shows "\<exists>w' res'. process ex False batch (w, res) = Inr (w', res')
    \<and> (f_le (mk_FailureRate (mu_cfg m)) (Fin 0) \<longrightarrow>
        (\<exists>x. ch_buf (res' a) = [\<lparr>res_RequestID = req_ID r, res_Result = x, res_Error = None,
             res_LatencyMs = AgeMs (ex_clock ex j) r\<rparr>]
           \<and> (if req_RequestType r = RequestTypeEmbedding then (\<exists>xs. x = AList (map ANum xs) \<and> length xs = 8)
              else x = AString (coerce (echo (coerce (req_Prompt r))))))
        \<and> pw_circuit w' = RecordSuccess (probed ex False w))
    \<and> (f_le (Fin 1) (mk_FailureRate (mu_cfg m)) \<and> rng_ok g \<longrightarrow>
        map res_Error (ch_buf (res' a)) = [Some ErrWorkerUnavailable]
        \<and> pw_circuit w' = RecordFailure (ex_failed_at ex) (probed ex False w)
        \<and> \<not> ping None (Reply (handleHealth ''GET'' m) ''''))
    \<and> mu_observedPriorities (snd (handleBatch oob g ''POST'' (decode body) False m))
        = ObservedPriorities m @ [req_Priority (live_requests ex batch ! 0)]"
proof -
  have bm: "before_mock oob g coerce encode decode m ex w batch body" and live: "r \<in> set (live_requests ex batch)"
    using assms by (auto simp: before_mock_def)
  obtain w' res' where p: "process ex False batch (w, res) = Inr (w', res')" using before_mock_returns [OF bm] by blast
  have ok: "(\<exists>x. ch_buf (res' a) = [\<lparr>res_RequestID = req_ID r, res_Result = x, res_Error = None,
             res_LatencyMs = AgeMs (ex_clock ex j) r\<rparr>]
           \<and> (if req_RequestType r = RequestTypeEmbedding then (\<exists>xs. x = AList (map ANum xs) \<and> length xs = 8)
              else x = AString (coerce (echo (coerce (req_Prompt r))))))
        \<and> pw_circuit w' = RecordSuccess (probed ex False w)"
    if rate: "f_le (mk_FailureRate (mu_cfg m)) (Fin 0)"
  proof -
    let ?rs = "\<lambda>m. fst (fake_results g (map (wire_request coerce) (live_requests ex batch)) m)"
    obtain m1 where ans: "attempt_of ex False batch w = Answered (encode (?rs m1))"
      "ex_decode ex (encode (?rs m1)) = Some (map (wire_result coerce) (?rs m1))"
      by (rule before_mock_answered [OF bm rate])
    have "ch_buf (res' a) = [\<lparr>res_RequestID = req_ID r, res_Result = wire_any coerce (res_Result (?rs m1 ! j)),
        res_Error = None, res_LatencyMs = AgeMs (ex_clock ex j) r\<rparr>]"
      using answered_channel [OF p ans(1) assms(2-7)] assms(3) ans(2)
      by (simp add: decodeBatchResponse_def answer_def length_fake_results wire_result_def)
    then show ?thesis
      using fake_result_wire [OF assms(3), of coerce g m1] process_breaker [OF p] ans(1) assms(4) by auto
  qed
  have bad: "attempt_of ex False batch w = Failed" if "f_le (Fin 1) (mk_FailureRate (mu_cfg m)) \<and> rng_ok g"
    using handleBatch_fails [of m g oob _ False] that assms(11,12) by (simp add: before_mock_attempt [OF bm] mock_http_def)
  show ?thesis
    using p ok bad before_mock_noted [OF bm] failed_channel [OF p _ assms(2) live assms(5,6)] process_breaker [OF p]
    by (intro exI [of _ w'] exI [of _ res'] conjI impI) (auto simp: handleHealth_def ping_def)
qed

text \<open>One request in front of a mock that answers; a reply is named by a constant.\<close>

definition mock_exchange :: exchange where
  "mock_exchange =
     (let reply = fst (handleBatch (\<lambda>_. 0) sample_rng ''POST'' (Some (wire_batch id sample_batch)) False default_mock)
      in (sample_exchange (\<lambda>_. False) (\<lambda>_ _. mock_http (\<lambda>_. ''reply'') reply))
         \<lparr>ex_decode := (\<lambda>_. case reply of MockResults d rs \<Rightarrow> Some (map (wire_result id) rs) | _ \<Rightarrow> None)\<rparr>)"

lemma mock_exchange_fields:
  "live_requests mock_exchange sample_batch = [client_req]" "scrubbed_batch mock_exchange sample_batch = sample_batch"
  "ex_gone mock_exchange = (\<lambda>_. False)" "ex_after mock_exchange = (\<lambda>_. None)"
  "ex_encode mock_exchange = (\<lambda>_. Inr ''{}'')" "ex_newRequest mock_exchange = (\<lambda>_ _. None)"
  by (simp_all add: mock_exchange_def Let_def sample_defs)

theorem mock_serves_witness:
  "\<exists>w' res'. process mock_exchange False sample_batch (sample_worker, \<lambda>_. NewResultChan) = Inr (w', res')
     \<and> map res_Result (ch_buf (res' 0)) = [AString (echo (req_Prompt client_req))]"
proof -
  have adm: "fst (CanExecute (ex_now mock_exchange) (pw_circuit sample_worker))"
    by (simp add: mock_exchange_def Let_def sample_defs)
  have req: "req_ResultChan client_req = Some 0" "one_place NewResultChan" "req_RequestType client_req \<noteq> RequestTypeEmbedding"
    "batch_Requests sample_batch = [client_req]"
    using sample_req_chan by (simp_all add: client_req_def sample_req_def sample_request_def NewInferenceRequest_def
        RequestTypeEmbedding_def RequestTypeCompletion_def)
  have fields: "distinct (map req_ResultChan (batch_Requests sample_batch))"
    "0 < length (live_requests mock_exchange sample_batch)" "client_req = live_requests mock_exchange sample_batch ! 0"
    "ctx_error (ex_after mock_exchange) client_req = None"
    "ex_encode mock_exchange (scrubbed_batch mock_exchange sample_batch) = Inr ''{}''"
    "spawnAllCancelledWatcher (ex_gone mock_exchange) (live_requests mock_exchange sample_batch) = Inr False"
    "ex_newRequest mock_exchange (up_URL (pw_upstream sample_worker)) ''{}'' = None"
    "Some (wire_batch id sample_batch) = Some (wire_batch id (scrubbed_batch mock_exchange sample_batch))"
    by (simp_all add: mock_exchange_fields req(4)) (simp_all add: client_req_def sample_req_def sample_request_def
        NewInferenceRequest_def ctx_error_def)
  have sent: "ex_do mock_exchange ''{}'' False = mock_http (\<lambda>_. ''reply'')
      (fst (handleBatch (\<lambda>_. 0) sample_rng ''POST'' (Some (wire_batch id sample_batch)) False default_mock))"
    by (simp add: mock_exchange_def Let_def sample_exchange_def)
  have backw: "\<forall>d rs. fst (handleBatch (\<lambda>_. 0) sample_rng ''POST'' (Some (wire_batch id sample_batch)) False default_mock)
      = MockResults d rs \<longrightarrow> ex_decode mock_exchange ''reply'' = Some (map (wire_result id) rs)"
    by (simp add: mock_exchange_def Let_def)
  have rate: "f_le (mk_FailureRate (mu_cfg default_mock)) (Fin 0)"
    by (simp add: default_mock_def NewMockUpstream_def DefaultMockUpstreamConfig_def f_le_def)
  from mock_serves [where decode = "\<lambda>_. Some (wire_batch id sample_batch)" and encode = "\<lambda>_. ''reply''"
      and res = "\<lambda>_. NewResultChan" and m = default_mock, OF adm fields(1-3) req(1,2) fields(4-8) sent backw]
  show ?thesis using rate req(3) by auto
qed

end
