(* ===== verification/Handlers.thy ===== *)
theory Handlers
  imports Complex_Main Batcher Pool GoStrings
begin

text \<open>
  internal/api/handlers/inference.go and admin.go: the two inference endpoints from the decoded
  body to the response, and the administration endpoints. A handler runs in a goroutine of its own;
  what it meets at its only blocking point, the \<open>select\<close> between the result channel and its
  context, is an argument. Decoding the body (\<open>encoding/json\<close>) is an argument too: \<open>None\<close> is an
  error. \<open>sprint\<close> is the rendering of the verb \<open>%v\<close>.
\<close>

section \<open>The wire format\<close>

record CompletionRequest =
  cr_Prompt :: string
  cr_MaxTokens :: int
  cr_Priority :: string

record CompletionChoice =
  cc_Text :: string
  cc_Index :: int

record CompletionUsage =
  cu_PromptTokens :: int
  cu_CompletionTokens :: int
  cu_TotalTokens :: int

record CompletionResponse =
  cp_ID :: string
  cp_Object :: string
  cp_Created :: int
  cp_Choices :: "CompletionChoice list"
  cp_Usage :: CompletionUsage

record EmbeddingRequest =
  er_Input :: string
  er_Priority :: string

record EmbeddingObject =
  eo_Object :: string
  eo_Embedding :: "f64 list"
  eo_Index :: int

record EmbeddingResponse =
  ep_Object :: string
  ep_Data :: "EmbeddingObject list"

record ErrorBody =
  eb_Message :: string
  eb_Type :: string

datatype body =
    BodyCompletion CompletionResponse
  | BodyEmbedding EmbeddingResponse
  | BodyError ErrorBody
  | BodyStrategy string
  | BodyWorkers "WorkerInfo list"
  | BodyConfig Config
  | BodyMap "(string \<times> string) list"

text \<open>A response as \<open>writeJSON\<close> leaves it: the status and the encoded body.\<close>

type_synonym http_response = "int \<times> body"

definition writeJSON :: "int \<Rightarrow> body \<Rightarrow> http_response" where
  "writeJSON status b = (status, b)"

definition writeError :: "int \<Rightarrow> string \<Rightarrow> string \<Rightarrow> http_response" where
  "writeError status errType msg = writeJSON status (BodyError \<lparr>eb_Message = msg, eb_Type = errType\<rparr>)"

section \<open>inference.go: helpers\<close>

abbreviation (input) safetyMargin :: duration where
  "safetyMargin \<equiv> second"

text \<open>A context by its deadline, if any: \<open>WithTimeout\<close> keeps an earlier deadline of the parent.\<close>

definition deriveHandlerCtx :: "instant \<Rightarrow> instant option \<Rightarrow> duration \<Rightarrow> instant option" where
  "deriveHandlerCtx now parent writeTimeout =
     (let budget = wrap64 (writeTimeout - safetyMargin) in
      if budget \<le> 0 then parent
      else Some (case parent of None \<Rightarrow> now + budget | Some d \<Rightarrow> min d (now + budget)))"

definition handleSubmitError :: "error \<Rightarrow> http_response" where
  "handleSubmitError err =
     (if err = ErrQueueFull then writeError 503 ''capacity'' ''request queue is full''
      else if err = ErrShuttingDown then writeError 503 ''capacity'' ''server is shutting down''
      else if err = ErrInvalidRequest then writeError 400 ''invalid_request'' (Error err)
      else if err = ContextDeadlineExceeded \<or> err = ContextCanceled then
        writeError 504 ''timeout'' ''request timed out''
      else writeError 500 ''internal'' (Error err))"

definition parsePriority :: "string \<Rightarrow> Priority" where
  "parsePriority s =
     (let t = ToLower (TrimSpace s) in
      if t = ''critical'' then PriorityCritical
      else if t = ''high'' then PriorityHigh
      else if t = ''low'' then PriorityLow
      else PriorityNormal)"

definition estimatePromptTokens :: "string \<Rightarrow> int" where
  "estimatePromptTokens prompt =
     (let n = int (length prompt) sdiv 4 in if n = 0 \<and> 0 < length prompt then 1 else n)"

definition extractCompletionText :: "(any \<Rightarrow> string) \<Rightarrow> (f64 \<Rightarrow> int) \<Rightarrow> any \<Rightarrow> string \<times> int" where
  "extractCompletionText sprint oob payload =
     (let rendered = (let s = sprint payload in (s, estimatePromptTokens s)) in
      case payload of
        ANil \<Rightarrow> ('''', 0)
      | AString v \<Rightarrow> (v, estimatePromptTokens v)
      | AMap v \<Rightarrow>
          (case map_of v ''text'' of
             Some (AString txt) \<Rightarrow>
               (case map_of v ''completion_tokens'' of
                  Some (ANum f) \<Rightarrow> (txt, f_to_i64 oob f)
                | _ \<Rightarrow> (txt, estimatePromptTokens txt))
           | _ \<Rightarrow> rendered)
      | _ \<Rightarrow> rendered)"

text \<open>The loop that keeps the numbers of a list.\<close>

fun keep_floats :: "any list \<Rightarrow> f64 list" where
  "keep_floats [] = []"
| "keep_floats (e # es) = (case e of ANum f \<Rightarrow> f # keep_floats es | _ \<Rightarrow> keep_floats es)"

definition extractEmbedding :: "any \<Rightarrow> f64 list" where
  "extractEmbedding payload =
     (case payload of
        ANil \<Rightarrow> []
      | AFloats v \<Rightarrow> v
      | AList v \<Rightarrow> keep_floats v
      | AMap v \<Rightarrow> (case map_of v ''embedding'' of Some (AList emb) \<Rightarrow> keep_floats emb | _ \<Rightarrow> [])
      | _ \<Rightarrow> [])"

section \<open>inference.go: the two endpoints\<close>

text \<open>
  What a handler meets: the identity of its derived context and the error that context has when
  \<open>Submit\<close> looks at it, the clock, the fresh identifier and channel of the new request, the pool,
  and the case its \<open>select\<close> takes. A nil result pointer is \<open>GotResult None\<close>.
\<close>

datatype handler_wake = GotResult "RequestResult option" | CtxDone

record handler_env =
  he_pool :: "WorkerPool option"
  he_ctx :: nat
  he_ctxErr :: "error option"
  he_uuid :: string
  he_now :: instant
  he_chan :: nat
  he_wake :: handler_wake
  he_unix :: int

definition all_unhealthy :: "handler_env \<Rightarrow> bool" where
  "all_unhealthy env = (case he_pool env of None \<Rightarrow> False | Some p \<Rightarrow> AllWorkersUnhealthy p)"

definition await_result :: "handler_wake \<Rightarrow> (any \<Rightarrow> http_response) \<Rightarrow> http_response" where
  "await_result wake respond =
     (case wake of
        GotResult None \<Rightarrow> writeError 500 ''internal'' ''empty result''
      | GotResult (Some result) \<Rightarrow>
          (case res_Error result of
             Some e \<Rightarrow>
               if e = ErrShuttingDown then writeError 503 ''capacity'' (Error e)
               else writeError 500 ''internal'' (Error e)
           | None \<Rightarrow> respond (res_Result result))
      | CtxDone \<Rightarrow> writeError 504 ''timeout'' ''request timed out'')"

definition completion_answer ::
    "(any \<Rightarrow> string) \<Rightarrow> (f64 \<Rightarrow> int) \<Rightarrow> handler_env \<Rightarrow> string \<Rightarrow> any \<Rightarrow> http_response" where
  "completion_answer sprint oob env prompt payload =
     (let (txt, completionTokens) = extractCompletionText sprint oob payload in
      writeJSON 200 (BodyCompletion
        \<lparr>cp_ID = ''cmpl-'' @ he_uuid env, cp_Object = ''text_completion'', cp_Created = he_unix env,
         cp_Choices = [\<lparr>cc_Text = txt, cc_Index = 0\<rparr>],
         cp_Usage = \<lparr>cu_PromptTokens = estimatePromptTokens prompt, cu_CompletionTokens = completionTokens,
           cu_TotalTokens = wrap64 (estimatePromptTokens prompt + completionTokens)\<rparr>\<rparr>))"

definition HandleCompletions ::
    "(any \<Rightarrow> string) \<Rightarrow> (f64 \<Rightarrow> int) \<Rightarrow> handler_env \<Rightarrow> CompletionRequest option \<Rightarrow> AdaptiveBatcher
       \<Rightarrow> (http_response \<times> AdaptiveBatcher) outcome" where
  "HandleCompletions sprint oob env decoded b =
     (case decoded of
        None \<Rightarrow> Ret (writeError 400 ''invalid_request'' ''invalid JSON body'', b)
      | Some req \<Rightarrow>
          if TrimSpace (cr_Prompt req) = '''' then
            Ret (writeError 400 ''invalid_request'' ''prompt is required'', b)
          else if cr_MaxTokens req \<le> 0 then
            Ret (writeError 400 ''invalid_request'' ''max_tokens must be > 0'', b)
          else if all_unhealthy env then
            Ret (writeError 503 ''capacity'' ''all workers unavailable'', b)
          else
            let infReq = NewInferenceRequest (he_uuid env) (he_now env) (he_chan env) (Some (he_ctx env))
                  (cr_Prompt req) (cr_MaxTokens req) (parsePriority (cr_Priority req)) RequestTypeCompletion in
            and_then (Batcher.Submit (he_ctxErr env) (Some infReq) b) (\<lambda>(err, b).
              case err of
                Some e \<Rightarrow> Ret (handleSubmitError e, b)
              | None \<Rightarrow> Ret (await_result (he_wake env) (completion_answer sprint oob env (cr_Prompt req)), b)))"

definition embedding_answer :: "any \<Rightarrow> http_response" where
  "embedding_answer payload =
     writeJSON 200 (BodyEmbedding \<lparr>ep_Object = ''list'',
       ep_Data = [\<lparr>eo_Object = ''embedding'', eo_Embedding = extractEmbedding payload, eo_Index = 0\<rparr>]\<rparr>)"

definition HandleEmbeddings ::
    "handler_env \<Rightarrow> EmbeddingRequest option \<Rightarrow> AdaptiveBatcher \<Rightarrow> (http_response \<times> AdaptiveBatcher) outcome" where
  "HandleEmbeddings env decoded b =
     (case decoded of
        None \<Rightarrow> Ret (writeError 400 ''invalid_request'' ''invalid JSON body'', b)
      | Some req \<Rightarrow>
          if TrimSpace (er_Input req) = '''' then
            Ret (writeError 400 ''invalid_request'' ''input is required'', b)
          else if all_unhealthy env then
            Ret (writeError 503 ''capacity'' ''all workers unavailable'', b)
          else
            let infReq = NewInferenceRequest (he_uuid env) (he_now env) (he_chan env) (Some (he_ctx env))
                  (er_Input req) 0 (parsePriority (er_Priority req)) RequestTypeEmbedding in
            and_then (Batcher.Submit (he_ctxErr env) (Some infReq) b) (\<lambda>(err, b).
              case err of
                Some e \<Rightarrow> Ret (handleSubmitError e, b)
              | None \<Rightarrow> Ret (await_result (he_wake env) embedding_answer, b)))"

section \<open>admin.go\<close>

text \<open>The new strategy is a fresh object, at the address \<open>fresh\<close> of the store.\<close>

definition HandleSetStrategy ::
    "nat \<Rightarrow> BatchingConfig option \<Rightarrow> string option \<Rightarrow> AdaptiveBatcher \<Rightarrow> http_response \<times> AdaptiveBatcher" where
  "HandleSetStrategy fresh batchingCfg decoded b =
     (case decoded of
        None \<Rightarrow> (writeError 400 ''invalid_request'' ''invalid JSON body'', b)
      | Some name \<Rightarrow>
          (case handlers_buildStrategy name batchingCfg of
             Inl err \<Rightarrow> (writeError 400 ''invalid_request'' (Error err), b)
           | Inr strategy \<Rightarrow>
               (writeJSON 200 (BodyStrategy (Name strategy)),
                SetStrategy (Some fresh) (b\<lparr>ab_store := (ab_store b)(fresh := strategy)\<rparr>))))"

definition HandleGetConfig :: "Config \<Rightarrow> http_response" where
  "HandleGetConfig cfg = writeJSON 200 (BodyConfig cfg)"

definition HandleGetWorkers :: "WorkerPool option \<Rightarrow> go_panic + http_response" where
  "HandleGetWorkers pool =
     (case pool of
        None \<Rightarrow> Inr (writeJSON 200 (BodyWorkers []))
      | Some p \<Rightarrow> map_sum id (\<lambda>infos. writeJSON 200 (BodyWorkers infos)) (GetStatus p))"

definition HandleHealth :: http_response where
  "HandleHealth = writeJSON 200 (BodyMap [(''status'', ''ok'')])"

section \<open>Priorities on the wire\<close>

lemma ToLower_ascii: "\<forall>c\<in>set s. (of_char c :: nat) < 128 \<Longrightarrow> ToLower s = map lower_ascii s"
  by (induction s rule: ToLower.induct) auto

text \<open>A byte whose lower case is a letter is an ASCII letter, so it starts no white space.\<close>

definition letter :: "char \<Rightarrow> bool" where
  "letter c \<longleftrightarrow> (let n = of_char c :: nat in (65 \<le> n \<and> n \<le> 90) \<or> (97 \<le> n \<and> n \<le> 122))"

lemma lower_ascii_letter:
  assumes "97 \<le> (of_char (lower_ascii c) :: nat)" "(of_char (lower_ascii c) :: nat) \<le> 122"
  shows "letter c"
  using assms by (auto simp: lower_ascii_def letter_def Let_def of_char_of split: if_splits)

lemma white_space_bytes: "u \<in> set white_spaces \<Longrightarrow> u \<noteq> [] \<and> \<not> letter (hd u) \<and> \<not> letter (List.last u)"
  by (auto simp: white_spaces_def letter_def)

lemma white_space_prefix_free:
  "\<forall>u\<in>set white_spaces. \<forall>v\<in>set white_spaces. take (length v) u = v \<longrightarrow> u = v"
  "\<forall>u\<in>set white_spaces. \<forall>v\<in>set white_spaces. take (length v) (rev u) = rev v \<longrightarrow> u = v"
  by code_simp+

lemma trim_prefixes_concat:
  assumes free: "\<forall>u\<in>set ws. \<forall>v\<in>set ws. take (length v) u = v \<longrightarrow> u = v" and ne: "[] \<notin> set ws"
    and us: "set us \<subseteq> set ws" and stop: "\<forall>v\<in>set ws. \<not> has_prefix t v"
  shows "trim_prefixes ws (concat us @ t) = t"
  using us
proof (induction us)
  case Nil
  have "find (\<lambda>w. w \<noteq> [] \<and> has_prefix t w) ws = None"
    unfolding find_None_iff using stop by blast
  then show ?case by (subst trim_prefixes.simps) simp
next
  case (Cons u us)
  let ?s = "concat (u # us) @ t"
  have u: "u \<in> set ws" "u \<noteq> []" using Cons.prems ne by auto
  have "has_prefix ?s u" by (simp add: has_prefix_def)
  with u have "find (\<lambda>w. w \<noteq> [] \<and> has_prefix ?s w) ws \<noteq> None"
    unfolding find_None_iff by blast
  then obtain w where f: "find (\<lambda>w. w \<noteq> [] \<and> has_prefix ?s w) ws = Some w" by blast
  then have w: "w \<in> set ws" "take (length w) ?s = w" by (auto simp: find_Some_iff has_prefix_def)
  have "w = u"
  proof (cases "length w \<le> length u")
    case True
    then have "take (length w) u = w" using w(2) by simp
    then show ?thesis using free u w by blast
  next
    case False
    then have "take (length u) w = take (length u) (take (length w) ?s)" using w(2) by simp
    then have "take (length u) w = u" using False by simp
    then show ?thesis using free u w by blast
  qed
  then have "trim_prefixes ws ?s = trim_prefixes ws (concat us @ t)"
    using f by (subst trim_prefixes.simps) simp
  then show ?case using Cons by simp
qed

lemma TrimSpace_pad:
  assumes "set us \<subseteq> set white_spaces" "set vs \<subseteq> set white_spaces"
    "w \<noteq> []" "letter (hd w)" "letter (List.last w)"
  shows "TrimSpace (concat us @ w @ concat vs) = w"
proof -
  have hd: "\<not> has_prefix (w @ s) u" if u: "u \<in> set white_spaces" for u s
  proof
    assume "has_prefix (w @ s) u"
    then have "hd (w @ s) = hd u" using white_space_bytes [OF u] by (metis has_prefix_def hd_take length_greater_0_conv)
    then show False using white_space_bytes [OF u] assms(3,4) by simp
  qed
  have "trim_prefixes white_spaces (concat us @ w @ concat vs) = w @ concat vs"
    using white_space_prefix_free(1) white_space_bytes assms(1) hd by (intro trim_prefixes_concat) auto
  moreover have "trim_prefixes (map rev white_spaces) (concat (map rev (rev vs)) @ rev w) = rev w"
  proof (rule trim_prefixes_concat)
    show "\<forall>u\<in>set (map rev white_spaces). \<forall>v\<in>set (map rev white_spaces). take (length v) u = v \<longrightarrow> u = v"
      using white_space_prefix_free(2) by (metis (no_types, lifting) imageE length_rev list.set_map)
    show "[] \<notin> set (map rev white_spaces)" using white_space_bytes by auto
    show "set (map rev (rev vs)) \<subseteq> set (map rev white_spaces)" using assms(2) by auto
    show "\<forall>v\<in>set (map rev white_spaces). \<not> has_prefix (rev w) v"
    proof
      fix v assume "v \<in> set (map rev white_spaces)"
      then obtain u where u: "u \<in> set white_spaces" "v = rev u" by auto
      show "\<not> has_prefix (rev w) v"
      proof
        assume "has_prefix (rev w) v"
        then have "hd (rev w) = hd v"
          using white_space_bytes [OF u(1)] u(2) by (metis has_prefix_def hd_take length_greater_0_conv rev_is_Nil_conv)
        then have "List.last w = List.last u" using u white_space_bytes [OF u(1)] assms(3) by (simp add: hd_rev)
        then show False using white_space_bytes [OF u(1)] assms(5) by simp
      qed
    qed
  qed
  moreover have "rev (w @ concat vs) = concat (map rev (rev vs)) @ rev w"
    by (simp add: rev_concat rev_map)
  ultimately show ?thesis by (simp add: TrimSpace_def)
qed

lemma map_lower_letters:
  assumes "map lower_ascii w = name" "\<forall>c\<in>set name. 97 \<le> (of_char c :: nat) \<and> (of_char c :: nat) \<le> 122"
  shows "\<forall>c\<in>set w. letter c"
proof
  fix c assume "c \<in> set w"
  then have "lower_ascii c \<in> set name" using assms(1) by auto
  then show "letter c" using assms(2) lower_ascii_letter by blast
qed

text \<open>
  C34: Priorities on the wire. The name of each of the four priorities, in any capitalisation and
  with any white space around it, parses to that priority, so \<open>String\<close> and \<open>parsePriority\<close> are
  inverse; and whatever the client sends, the result is one of the four, and not \<open>normal\<close> only when
  the trimmed lower-case text is the name of another one.
\<close>

theorem priority_roundtrip:
  assumes "0 \<le> p" "p \<le> 3" "map lower_ascii w = Priority_String p"
    "set us \<subseteq> set white_spaces" "set vs \<subseteq> set white_spaces"
  shows "parsePriority (concat us @ w @ concat vs) = p
    \<and> parsePriority s \<in> {0, 1, 2, 3}
    \<and> (parsePriority s \<noteq> PriorityNormal \<longrightarrow> ToLower (TrimSpace s) = Priority_String (parsePriority s))"
proof -
  have p: "p = 0 \<or> p = 1 \<or> p = 2 \<or> p = 3" using assms(1,2) by arith
  have "\<forall>c\<in>set (Priority_String p). 97 \<le> (of_char c :: nat) \<and> (of_char c :: nat) \<le> 122"
    using p by (auto simp: Priority_String_def)
  then have letters: "\<forall>c\<in>set w. letter c" by (rule map_lower_letters [OF assms(3)])
  have ne: "w \<noteq> []" using assms(3) p by (auto simp: Priority_String_def)
  then have trim: "TrimSpace (concat us @ w @ concat vs) = w"
    using letters assms(4,5) by (intro TrimSpace_pad) simp_all
  have "\<forall>c\<in>set w. (of_char c :: nat) < 128" using letters by (auto simp: letter_def Let_def)
  then have "ToLower w = Priority_String p" using ToLower_ascii assms(3) by simp
  then have "parsePriority (concat us @ w @ concat vs) = p"
    using p trim by (auto simp: parsePriority_def Priority_String_def)
  moreover have "parsePriority s \<in> {0, 1, 2, 3}" by (simp add: parsePriority_def Let_def)
  moreover have "parsePriority s \<noteq> 1 \<Longrightarrow> ToLower (TrimSpace s) = Priority_String (parsePriority s)"
    by (auto simp: parsePriority_def Priority_String_def Let_def split: if_splits)
  ultimately show ?thesis by blast
qed

theorem priority_roundtrip_witness:
  "parsePriority (concat [[CHR 0xE2, CHR 0x80, CHR 0xAF], '' ''] @ ''HiGh'' @ concat [[CHR 0x09]]) = 2"
proof -
  have "map lower_ascii ''HiGh'' = Priority_String 2" by code_simp
  from priority_roundtrip [OF _ _ this, of "[[CHR 0xE2, CHR 0x80, CHR 0xAF], '' '']" "[[CHR 0x09]]" "[]"]
  show ?thesis by (simp add: white_spaces_def)
qed

section \<open>Every answer of the inference endpoints\<close>

text \<open>The statuses the endpoints use and the error type each one carries.\<close>

fun error_type :: "int \<Rightarrow> string" where
  "error_type s = (if s = 400 then ''invalid_request'' else if s = 503 then ''capacity''
     else if s = 504 then ''timeout'' else ''internal'')"

definition is_error :: "http_response \<Rightarrow> bool" where
  "is_error r \<longleftrightarrow> fst r \<in> {400, 500, 503, 504}
     \<and> (\<exists>m. snd r = BodyError \<lparr>eb_Message = m, eb_Type = error_type (fst r)\<rparr>)"

lemma is_error_writeError [simp]:
  "is_error (writeError s ty m) \<longleftrightarrow> s \<in> {400, 500, 503, 504} \<and> ty = error_type s"
  by (auto simp: is_error_def writeError_def writeJSON_def)

lemma handleSubmitError_error: "is_error (handleSubmitError e)"
  by (simp add: handleSubmitError_def)

lemma fst_writeError [simp]: "fst (writeError s ty m) = s"
  by (simp add: writeError_def writeJSON_def)

lemma handleSubmitError_status: "fst (handleSubmitError e) \<noteq> 200"
  by (simp add: handleSubmitError_def)

definition has_reply :: "handler_wake \<Rightarrow> bool" where
  "has_reply wake \<longleftrightarrow> (\<exists>r. wake = GotResult (Some r) \<and> res_Error r = None)"

lemma await_result_cases:
  "(has_reply wake \<longrightarrow> (\<exists>r. wake = GotResult (Some r) \<and> await_result wake f = f (res_Result r)))
   \<and> (\<not> has_reply wake \<longrightarrow> is_error (await_result wake f))"
  by (auto simp: await_result_def has_reply_def split: handler_wake.splits option.splits)

text \<open>What both endpoints do once the body has been accepted.\<close>

definition submit_and_wait ::
    "handler_env \<Rightarrow> InferenceRequest \<Rightarrow> (any \<Rightarrow> http_response) \<Rightarrow> AdaptiveBatcher
       \<Rightarrow> (http_response \<times> AdaptiveBatcher) outcome" where
  "submit_and_wait env infReq respond b =
     (if all_unhealthy env then Ret (writeError 503 ''capacity'' ''all workers unavailable'', b)
      else and_then (Batcher.Submit (he_ctxErr env) (Some infReq) b) (\<lambda>(err, b).
        case err of Some e \<Rightarrow> Ret (handleSubmitError e, b)
        | None \<Rightarrow> Ret (await_result (he_wake env) respond, b)))"

lemma Submit_returns:
  assumes "running hand b"
  shows "\<exists>err b'. Batcher.Submit ctx_err (Some r) b = Ret (err, b') \<and> running hand b'
    \<and> ab_accepted b' = ab_accepted b @ (case err of None \<Rightarrow> [r] | _ \<Rightarrow> [])"
proof -
  have "qm_inv (ab_qm b)" using running_qm [OF assms] by simp
  then obtain e qm where "QueueMatrix_Submit (Some r) (ab_qm b) = Inr (e, qm)"
    using Submit_inv by blast
  then have "\<exists>err b'. Batcher.Submit ctx_err (Some r) b = Ret (err, b')"
    by (cases "ab_stopping b"; cases ctx_err; cases e) (simp_all add: Submit_whole)
  then obtain err b' where s: "Batcher.Submit ctx_err (Some r) b = Ret (err, b')" by blast
  then show ?thesis
    using Submit_running [OF assms, where ctx_err = ctx_err and req = "Some r"]
    by (auto split: option.splits)
qed

text \<open>What an answer \<open>res\<close> promises, the batcher having gone from \<open>b\<close> to \<open>b'\<close>.\<close>

definition good_answer ::
    "handler_env \<Rightarrow> bool \<Rightarrow> InferenceRequest \<Rightarrow> (any \<Rightarrow> http_response) \<Rightarrow> AdaptiveBatcher \<Rightarrow> http_response \<Rightarrow> AdaptiveBatcher \<Rightarrow> bool" where
  "good_answer env valid infReq respond b res b' \<longleftrightarrow>
     (fst res = 200 \<or> is_error res)
     \<and> (\<not> valid \<longrightarrow> fst res = 400 \<and> b' = b)
     \<and> (valid \<and> all_unhealthy env \<longrightarrow> fst res = 503 \<and> b' = b)
     \<and> (fst res = 200 \<longrightarrow> valid \<and> \<not> all_unhealthy env \<and> ab_accepted b' = ab_accepted b @ [infReq]
          \<and> (\<exists>r. he_wake env = GotResult (Some r) \<and> res_Error r = None \<and> res = respond (res_Result r)))
     \<and> (ab_accepted b' \<noteq> ab_accepted b \<and> has_reply (he_wake env) \<longrightarrow> fst res = 200)"

lemma submit_and_wait_answers:
  assumes "running hand b" "\<And>x. fst (respond x) = 200"
  shows "\<exists>res b'. submit_and_wait env infReq respond b = Ret (res, b') \<and> running hand b'
    \<and> good_answer env True infReq respond b res b'"
proof (cases "all_unhealthy env")
  case True
  then show ?thesis using assms(1) by (simp add: submit_and_wait_def good_answer_def)
next
  case False
  obtain err b' where s: "Batcher.Submit (he_ctxErr env) (Some infReq) b = Ret (err, b')" "running hand b'"
    "ab_accepted b' = ab_accepted b @ (case err of None \<Rightarrow> [infReq] | _ \<Rightarrow> [])"
    using Submit_returns [OF assms(1)] by blast
  show ?thesis
  proof (cases err)
    case (Some e)
    then show ?thesis using s False handleSubmitError_error [of e] handleSubmitError_status [of e]
      by (simp add: submit_and_wait_def good_answer_def)
  next
    case None
    define res where "res = await_result (he_wake env) respond"
    have ret: "submit_and_wait env infReq respond b = Ret (res, b')"
      using s(1) False None by (simp add: submit_and_wait_def res_def)
    have err: "is_error res \<Longrightarrow> fst res \<noteq> 200" by (auto simp: is_error_def)
    have reply: "has_reply (he_wake env) \<Longrightarrow>
        \<exists>r. he_wake env = GotResult (Some r) \<and> res_Error r = None \<and> res = respond (res_Result r)"
      using await_result_cases [of "he_wake env" respond] by (auto simp: res_def has_reply_def)
    have none: "\<not> has_reply (he_wake env) \<Longrightarrow> is_error res"
      using await_result_cases [of "he_wake env" respond] by (simp add: res_def)
    have "good_answer env True infReq respond b res b'"
      unfolding good_answer_def using s(3) None False assms(2) err reply none by force
    then show ?thesis using ret s(2) by blast
  qed
qed

definition completion_req :: "handler_env \<Rightarrow> CompletionRequest \<Rightarrow> InferenceRequest" where
  "completion_req env req = NewInferenceRequest (he_uuid env) (he_now env) (he_chan env) (Some (he_ctx env))
     (cr_Prompt req) (cr_MaxTokens req) (parsePriority (cr_Priority req)) RequestTypeCompletion"

definition embedding_req :: "handler_env \<Rightarrow> EmbeddingRequest \<Rightarrow> InferenceRequest" where
  "embedding_req env req = NewInferenceRequest (he_uuid env) (he_now env) (he_chan env) (Some (he_ctx env))
     (er_Input req) 0 (parsePriority (er_Priority req)) RequestTypeEmbedding"

lemma answers_200 [simp]:
  "fst (completion_answer sprint oob env prompt x) = 200" "fst (embedding_answer x) = 200"
  by (simp_all add: completion_answer_def embedding_answer_def writeJSON_def case_prod_beta)

text \<open>
  C33: Every answer of the inference endpoints. In front of a running batcher a handler never panics
  and leaves it running. It answers 200, or one of 400, 500, 503 and 504 with an error body whose type
  is the one of that status. An invalid body is a 400 and reaches nothing; a pool without a healthy
  worker is a 503 and queues nothing. A 200 is given only for a valid request that the batcher
  accepted, that same request with its own context and result channel, and for which a reply
  without an error arrived, whose payload it carries; and every accepted request for which such a
  reply arrives gets a 200.
\<close>

theorem endpoints_answer:
  assumes "running hand b"
  shows "(\<exists>res b'. HandleCompletions sprint oob env (Some req) b = Ret (res, b') \<and> running hand b'
      \<and> good_answer env (TrimSpace (cr_Prompt req) \<noteq> [] \<and> 0 < cr_MaxTokens req) (completion_req env req)
          (completion_answer sprint oob env (cr_Prompt req)) b res b')
    \<and> (\<exists>res b'. HandleEmbeddings env (Some ereq) b = Ret (res, b') \<and> running hand b'
      \<and> good_answer env (TrimSpace (er_Input ereq) \<noteq> []) (embedding_req env ereq) embedding_answer b res b')
    \<and> HandleCompletions sprint oob env None b = Ret (writeError 400 ''invalid_request'' ''invalid JSON body'', b)
    \<and> HandleEmbeddings env None b = Ret (writeError 400 ''invalid_request'' ''invalid JSON body'', b)"
proof (intro conjI)
  let ?f = "completion_answer sprint oob env (cr_Prompt req)"
  show "\<exists>res b'. HandleCompletions sprint oob env (Some req) b = Ret (res, b') \<and> running hand b'
      \<and> good_answer env (TrimSpace (cr_Prompt req) \<noteq> [] \<and> 0 < cr_MaxTokens req) (completion_req env req) ?f b res b'"
  proof (cases "TrimSpace (cr_Prompt req) \<noteq> [] \<and> 0 < cr_MaxTokens req")
    case True
    then have "HandleCompletions sprint oob env (Some req) b = submit_and_wait env (completion_req env req) ?f b"
      by (simp add: HandleCompletions_def submit_and_wait_def completion_req_def Let_def)
    then show ?thesis
      using submit_and_wait_answers [where respond = ?f and env = env and infReq = "completion_req env req", OF assms] True
      by simp
  next
    case False
    then have "\<exists>m. HandleCompletions sprint oob env (Some req) b = Ret (writeError 400 ''invalid_request'' m, b)"
      by (auto simp: HandleCompletions_def)
    moreover have "good_answer env (TrimSpace (cr_Prompt req) \<noteq> [] \<and> 0 < cr_MaxTokens req) (completion_req env req) ?f b
        (writeError 400 ''invalid_request'' m) b" for m
      unfolding good_answer_def using False by auto
    ultimately show ?thesis using assms by metis
  qed
  show "\<exists>res b'. HandleEmbeddings env (Some ereq) b = Ret (res, b') \<and> running hand b'
      \<and> good_answer env (TrimSpace (er_Input ereq) \<noteq> []) (embedding_req env ereq) embedding_answer b res b'"
  proof (cases "TrimSpace (er_Input ereq) \<noteq> []")
    case True
    then have "HandleEmbeddings env (Some ereq) b = submit_and_wait env (embedding_req env ereq) embedding_answer b"
      by (simp add: HandleEmbeddings_def submit_and_wait_def embedding_req_def Let_def)
    then show ?thesis
      using submit_and_wait_answers [where respond = embedding_answer and env = env and infReq = "embedding_req env ereq", OF assms] True
      by simp
  next
    case False
    then have "HandleEmbeddings env (Some ereq) b = Ret (writeError 400 ''invalid_request'' ''input is required'', b)"
      by (simp add: HandleEmbeddings_def)
    then show ?thesis using assms False by (simp add: good_answer_def)
  qed
qed (simp_all add: HandleCompletions_def HandleEmbeddings_def)

text \<open>A reply without an error and without a payload, as the proxy leaves it for an upstream error
  of one request: the client gets a 200 with an empty text.\<close>

definition sample_env :: handler_env where
  "sample_env = \<lparr>he_pool = None, he_ctx = 0, he_ctxErr = None, he_uuid = ''u'', he_now = 1, he_chan = 0,
     he_wake = GotResult (Some \<lparr>res_RequestID = ''u'', res_Result = ANil, res_Error = None, res_LatencyMs = Fin 3\<rparr>),
     he_unix = 7\<rparr>"

theorem endpoints_answer_witness:
  "\<exists>res b'. HandleCompletions (\<lambda>_. '''') (\<lambda>_. 0) sample_env
        (Some \<lparr>cr_Prompt = ''hi'', cr_MaxTokens = 4, cr_Priority = ''high''\<rparr>) sample_batcher = Ret (res, b')
     \<and> (fst res = 200 \<or> is_error res)"
  using endpoints_answer [OF sample_batcher_simps(5), of "\<lambda>_. ''''" "\<lambda>_. 0" sample_env
      "\<lparr>cr_Prompt = ''hi'', cr_MaxTokens = 4, cr_Priority = ''high''\<rparr>" "\<lparr>er_Input = ''x'', er_Priority = ''low''\<rparr>"]
  by (auto simp: good_answer_def)

end
