(* ===== verification/Latency.thy ===== *)
theory Latency
  imports Complex_Main GoFloat GoChan
begin

text \<open>
  internal/metrics/latency.go: a reservoir of latency samples and the percentiles that a ticker
  recomputes from it. The mutex makes \<open>Add\<close> and \<open>Reset\<close> atomic; \<open>materialize\<close> works on a copy taken
  under the lock. \<open>rand.Int63n\<close> is the argument \<open>j\<close> of \<open>Add\<close>, in the range its documentation gives.
  \<open>sort.Float64s\<close> puts NaN first: that is the order of the type class instance below.
\<close>

section \<open>The order of sort.Float64s\<close>

instantiation f64 :: linorder
begin

fun f64_rank :: "f64 \<Rightarrow> nat" where
  "f64_rank NaN = 0"
| "f64_rank NegInf = 1"
| "f64_rank (Fin x) = 2"
| "f64_rank PosInf = 3"

fun f64_value :: "f64 \<Rightarrow> rat" where
  "f64_value (Fin x) = x"
| "f64_value y = 0"

definition less_eq_f64 :: "f64 \<Rightarrow> f64 \<Rightarrow> bool" where
  "x \<le> y \<longleftrightarrow> f64_rank x < f64_rank y \<or> (f64_rank x = f64_rank y \<and> f64_value x \<le> f64_value y)"

definition less_f64 :: "f64 \<Rightarrow> f64 \<Rightarrow> bool" where
  "x < y \<longleftrightarrow> f64_rank x < f64_rank y \<or> (f64_rank x = f64_rank y \<and> f64_value x < f64_value y)"

instance
proof
  fix x y z :: f64
  show "x < y \<longleftrightarrow> x \<le> y \<and> \<not> y \<le> x" by (auto simp: less_f64_def less_eq_f64_def)
  show "x \<le> x" by (simp add: less_eq_f64_def)
  show "x \<le> y \<Longrightarrow> y \<le> z \<Longrightarrow> x \<le> z" by (auto simp: less_eq_f64_def)
  show "x \<le> y \<Longrightarrow> y \<le> x \<Longrightarrow> x = y" by (cases x; cases y) (simp_all add: less_eq_f64_def)
  show "x \<le> y \<or> y \<le> x" by (auto simp: less_eq_f64_def)
qed

end

lemma f64_less_eq_f_le: "x \<noteq> NaN \<Longrightarrow> y \<noteq> NaN \<Longrightarrow> x \<le> y \<longleftrightarrow> f_le x y"
  by (cases x; cases y) (auto simp: less_eq_f64_def f_le_def)

section \<open>The tracker\<close>

record LatencyTracker =
  lt_samples :: "f64 list"
  lt_count :: int
  lt_size :: int
  lt_alpha :: f64
  lt_seeded :: bool
  lt_p50 :: f64
  lt_p90 :: f64
  lt_p99 :: f64
  lt_p999 :: f64
  lt_p99Smoothed :: f64

definition NewLatencyTracker :: "int \<Rightarrow> f64 \<Rightarrow> LatencyTracker" where
  "NewLatencyTracker windowSize alpha =
     \<lparr>lt_samples = [], lt_count = 0, lt_size = (if windowSize < 1 then 1 else windowSize),
      lt_alpha = alpha, lt_seeded = False, lt_p50 = Fin 0, lt_p90 = Fin 0, lt_p99 = Fin 0,
      lt_p999 = Fin 0, lt_p99Smoothed = Fin 0\<rparr>"

definition Latency_Add :: "int \<Rightarrow> f64 \<Rightarrow> LatencyTracker \<Rightarrow> LatencyTracker" where
  "Latency_Add j latencyMs lt =
     (let lt = lt\<lparr>lt_count := wrap64 (lt_count lt + 1)\<rparr> in
      if int (length (lt_samples lt)) < lt_size lt then lt\<lparr>lt_samples := lt_samples lt @ [latencyMs]\<rparr>
      else if j < lt_size lt then lt\<lparr>lt_samples := (lt_samples lt)[nat j := latencyMs]\<rparr>
      else lt)"

definition pctile :: "(f64 \<Rightarrow> int) \<Rightarrow> f64 list \<Rightarrow> f64 \<Rightarrow> go_panic + f64" where
  "pctile oob snap p =
     (if length snap = 0 then Inr (Fin 0)
      else
        let idx = f_to_i64 oob (f_div (f_mul (f_of_int (int (length snap))) p) (Fin 100));
            idx = (if int (length snap) \<le> idx then int (length snap) - 1 else idx)
        in if idx < 0 then Inl IndexOutOfRange else Inr (snap ! nat idx))"

text \<open>The four percentiles; \<open>99.9\<close> is the nearest float64.\<close>

definition materialize :: "(f64 \<Rightarrow> int) \<Rightarrow> LatencyTracker \<Rightarrow> go_panic + LatencyTracker" where
  "materialize oob lt =
     (let snap = lt_samples lt in
      if length snap = 0 then Inr lt
      else
        let snap = sort snap in
        (case (pctile oob snap (Fin 99), pctile oob snap (Fin 50), pctile oob snap (Fin 90),
               pctile oob snap (f64_of_rat (999 / 10))) of
           (Inr raw99, Inr raw50, Inr raw90, Inr raw999) \<Rightarrow>
             let lt = lt\<lparr>lt_p50 := raw50, lt_p90 := raw90, lt_p99 := raw99, lt_p999 := raw999\<rparr> in
             if \<not> lt_seeded lt then Inr (lt\<lparr>lt_p99Smoothed := raw99, lt_seeded := True\<rparr>)
             else
               let prev = lt_p99Smoothed lt;
                   smoothed = f_add (f_mul (lt_alpha lt) raw99) (f_mul (f_sub (Fin 1) (lt_alpha lt)) prev)
               in Inr (lt\<lparr>lt_p99Smoothed := smoothed\<rparr>)
         | _ \<Rightarrow> Inl IndexOutOfRange))"

definition P50 :: "LatencyTracker \<Rightarrow> f64" where "P50 lt = lt_p50 lt"
definition P90 :: "LatencyTracker \<Rightarrow> f64" where "P90 lt = lt_p90 lt"
definition P99 :: "LatencyTracker \<Rightarrow> f64" where "P99 lt = lt_p99 lt"
definition P999 :: "LatencyTracker \<Rightarrow> f64" where "P999 lt = lt_p999 lt"
definition P99Smoothed :: "LatencyTracker \<Rightarrow> f64" where "P99Smoothed lt = lt_p99Smoothed lt"
definition SampleCount :: "LatencyTracker \<Rightarrow> int" where "SampleCount lt = lt_count lt"

definition Latency_Reset :: "LatencyTracker \<Rightarrow> LatencyTracker" where
  "Latency_Reset lt = lt\<lparr>lt_samples := [], lt_count := 0, lt_p50 := Fin 0, lt_p90 := Fin 0,
     lt_p99 := Fin 0, lt_p999 := Fin 0, lt_p99Smoothed := Fin 0, lt_seeded := False\<rparr>"
section \<open>The reservoir\<close>

text \<open>A run of \<open>Add\<close>: the samples with the random numbers drawn for them.\<close>

definition add_all :: "(int \<times> f64) list \<Rightarrow> LatencyTracker \<Rightarrow> LatencyTracker" where
  "add_all draws lt = fold (\<lambda>(j, x). Latency_Add j x) draws lt"

definition reservoir_inv :: "f64 list \<Rightarrow> LatencyTracker \<Rightarrow> bool" where
  "reservoir_inv xs lt \<longleftrightarrow> 1 \<le> lt_size lt \<and> lt_count lt = int (length xs)
     \<and> int (length (lt_samples lt)) = min (lt_size lt) (int (length xs))
     \<and> set (lt_samples lt) \<subseteq> set xs
     \<and> (int (length xs) \<le> lt_size lt \<longrightarrow> lt_samples lt = xs)"

lemma set_update_subset: "set (xs[i := x]) \<subseteq> insert x (set xs)"
  by (rule set_update_subset_insert)

lemma Latency_Add_inv:
  assumes "reservoir_inv xs lt" "int (length xs) < 2 ^ 62" "0 \<le> j"
  shows "reservoir_inv (xs @ [x]) (Latency_Add j x lt)"
proof -
  have w: "wrap64 (lt_count lt + 1) = int (length xs) + 1" and cnt: "lt_count lt = int (length xs)"
    using assms(1,2) wrap64_id [of "int (length xs) + 1"] by (simp_all add: reservoir_inv_def i64_def)
  show ?thesis
  proof (cases "int (length (lt_samples lt)) < lt_size lt")
    case True
    then have "int (length xs) < lt_size lt" using assms(1) by (auto simp: reservoir_inv_def)
    then show ?thesis using assms(1) True w
      by (auto simp: reservoir_inv_def Latency_Add_def Let_def)
  next
    case False
    then have full: "lt_size lt \<le> int (length xs)" "int (length (lt_samples lt)) = lt_size lt"
      using assms(1) by (auto simp: reservoir_inv_def)
    show ?thesis
      using assms(1) False full set_update_subset [of "lt_samples lt" "nat j" x]
      by (auto simp: reservoir_inv_def Latency_Add_def w [unfolded cnt] Let_def)
  qed
qed

lemma add_all_inv:
  assumes "reservoir_inv xs lt" "int (length xs + length draws) < 2 ^ 62" "\<forall>d\<in>set draws. 0 \<le> fst d"
  shows "reservoir_inv (xs @ map snd draws) (add_all draws lt)"
  using assms
proof (induction draws arbitrary: xs lt)
  case (Cons d draws)
  obtain j x where d: "d = (j, x)" by (cases d)
  have "reservoir_inv (xs @ [x]) (Latency_Add j x lt)"
    using Cons.prems by (intro Latency_Add_inv) (simp_all add: d)
  from Cons.IH [OF this] Cons.prems show ?case by (simp add: d add_all_def)
qed (simp add: add_all_def)

text \<open>
  C29: The reservoir. After any run of samples, with draws in the range the documentation of
  \<open>rand.Int63n\<close> gives, the tracker counts all of them, holds as many as its window at most, all of
  them samples that were added; until the window is full it holds exactly the samples, in order.
\<close>

theorem reservoir:
  assumes "int (length draws) < 2 ^ 62" "\<forall>d\<in>set draws. 0 \<le> fst d"
  shows "let lt = add_all draws (NewLatencyTracker windowSize alpha) in
    SampleCount lt = int (length draws)
    \<and> int (length (lt_samples lt)) = min (max 1 windowSize) (int (length draws))
    \<and> set (lt_samples lt) \<subseteq> snd ` set draws
    \<and> (int (length draws) \<le> windowSize \<longrightarrow> lt_samples lt = map snd draws)"
proof -
  have size: "lt_size (add_all draws lt) = lt_size lt" for lt
    unfolding add_all_def by (induction draws arbitrary: lt) (auto simp: Latency_Add_def Let_def)
  have "reservoir_inv [] (NewLatencyTracker windowSize alpha)"
    by (simp add: reservoir_inv_def NewLatencyTracker_def)
  from add_all_inv [OF this, of draws] assms
  have "reservoir_inv (map snd draws) (add_all draws (NewLatencyTracker windowSize alpha))" by simp
  then show ?thesis
    using size [of "NewLatencyTracker windowSize alpha"]
    by (auto simp: reservoir_inv_def SampleCount_def NewLatencyTracker_def Let_def max_def split: if_splits)
qed

theorem reservoir_witness:
  "let lt = add_all [(0, Fin 5), (0, Fin 7), (1, Fin 9)] (NewLatencyTracker 2 (Fin 1)) in
     SampleCount lt = 3 \<and> length (lt_samples lt) = 2"
  using reservoir [of "[(0, Fin 5), (0, Fin 7), (1, Fin 9)]" 2 "Fin 1"] by (simp add: Let_def)

section \<open>Percentiles\<close>

definition pct_index :: "nat \<Rightarrow> rat \<Rightarrow> nat" where
  "pct_index n p = min (nat \<lfloor>f64_round (f64_round (of_nat n * p) / 100)\<rfloor>) (n - 1)"

lemma pctile_eq:
  assumes "0 < length snap" "int (length snap) \<le> 2 ^ 50" "0 \<le> p" "p \<le> 100"
  shows "pctile oob snap (Fin p) = Inr (snap ! pct_index (length snap) p)"
proof -
  let ?n = "of_nat (length snap) :: rat"
  have n: "?n \<le> 2 ^ 50" using assms(2) by (metis of_int_le_iff of_int_of_nat_eq of_int_numeral of_int_power)
  have np: "0 \<le> ?n * p" "?n * p \<le> 2 ^ 50 * 100"
    using assms(3,4) n by (simp, intro mult_mono) simp_all
  have r57: "f64_round (2 ^ 57) = 2 ^ 57" using f64_round_exact [of 1 57] by (simp add: power_int_def)
  have r1: "0 \<le> f64_round (?n * p)" "f64_round (?n * p) \<le> 2 ^ 57"
    using f64.between [OF f64.zero r57 np(1)] np(2) by simp_all
  have d: "0 \<le> f64_round (?n * p) / 100" "f64_round (?n * p) / 100 \<le> 2 ^ 57"
    using r1 by simp_all
  have r2: "0 \<le> f64_round (f64_round (?n * p) / 100)" "f64_round (f64_round (?n * p) / 100) \<le> 2 ^ 57"
    using f64.between [OF f64.zero r57 d(1)] d(2) by simp_all
  have small: "f_small (?n * p)" "f_small (f64_round (?n * p) / 100)"
    by (rule f_small_bound [of _ 57]; use np d in simp)+
  let ?i = "\<lfloor>f64_round (f64_round (?n * p) / 100)\<rfloor>"
  have "?i \<le> 2 ^ 57" using floor_mono [OF r2(2)] by simp
  then have "i64 ?i" "0 \<le> ?i" using r2(1) by (simp_all add: i64_def)
  then have idx: "f_to_i64 oob (f_div (f_mul (f_of_int (int (length snap))) (Fin p)) (Fin 100)) = ?i"
    using small r2 n f_of_int_exact [of "int (length snap)"] assms(2) by (simp add: trunc_def)
  obtain k where k: "?i = int k" using \<open>0 \<le> ?i\<close> by (rule nonneg_int_cases)
  have pi: "pct_index (length snap) p = min k (length snap - 1)"
    unfolding pct_index_def k by simp
  have "pctile oob snap (Fin p) =
      (let i = (if int (length snap) \<le> int k then int (length snap) - 1 else int k)
       in if i < 0 then Inl IndexOutOfRange else Inr (snap ! nat i))"
    using assms(1) unfolding pctile_def idx k by simp
  also have "\<dots> = Inr (snap ! min k (length snap - 1))"
    using assms(1) by (cases "length snap") (auto simp: Let_def min_def)
  finally show ?thesis unfolding pi .
qed

lemma pct_index_less: "0 < n \<Longrightarrow> pct_index n p < n"
  by (simp add: pct_index_def min_def) linarith

lemma pct_index_mono: "p \<le> q \<Longrightarrow> pct_index n p \<le> pct_index n q"
proof -
  assume "p \<le> q"
  then have "f64_round (f64_round (of_nat n * p) / 100) \<le> f64_round (f64_round (of_nat n * q) / 100)"
    by (intro f64_round_mono divide_right_mono mult_left_mono) simp_all
  then show ?thesis
    unfolding pct_index_def by (intro min.mono nat_mono floor_mono) simp_all
qed

lemma p999_bounds: "\<exists>q. f64_of_rat (999 / 10) = Fin q \<and> 99 \<le> q \<and> q \<le> 100"
proof -
  have "f_small (999 / 10)" by (rule f_small_bound [of _ 7]) simp_all
  moreover have "99 \<le> f64_round (999 / 10)" "f64_round (999 / 10) \<le> 100"
    using f64.between [of 99 100 "999 / 10"] f64_round_int [of 99] f64_round_int [of 100] by simp_all
  ultimately show ?thesis by simp
qed

lemma materialize_eq:
  assumes "0 < length (lt_samples lt)" "int (length (lt_samples lt)) \<le> 2 ^ 50"
  obtains q where "99 \<le> q" "q \<le> 100"
    "materialize oob lt = Inr (let n = length (lt_samples lt); pick = (\<lambda>p. sort (lt_samples lt) ! pct_index n p) in
       lt\<lparr>lt_p50 := pick 50, lt_p90 := pick 90, lt_p99 := pick 99, lt_p999 := pick q,
         lt_p99Smoothed := (if lt_seeded lt
           then f_add (f_mul (lt_alpha lt) (pick 99)) (f_mul (f_sub (Fin 1) (lt_alpha lt)) (lt_p99Smoothed lt))
           else pick 99), lt_seeded := True\<rparr>)"
proof -
  obtain q where q: "f64_of_rat (999 / 10) = Fin q" "99 \<le> q" "q \<le> 100"
    using p999_bounds by blast
  let ?s = "sort (lt_samples lt)"
  have s: "0 < length ?s" "int (length ?s) \<le> 2 ^ 50" using assms by simp_all
  have pc: "pctile oob ?s (Fin p) = Inr (?s ! pct_index (length (lt_samples lt)) p)" if "0 \<le> p" "p \<le> 100" for p
    using pctile_eq [OF s that] by simp
  have seed: "lt\<lparr>lt_p50 := a, lt_p90 := b, lt_p99 := c, lt_p999 := d, lt_p99Smoothed := e\<rparr>
      = lt\<lparr>lt_p50 := a, lt_p90 := b, lt_p99 := c, lt_p999 := d, lt_p99Smoothed := e, lt_seeded := True\<rparr>"
    if "lt_seeded lt" for a b c d e
    using that by (cases lt) simp
  have ne: "lt_samples lt \<noteq> []" using assms(1) by auto
  show ?thesis
    by (rule that [OF q(2,3)])
      (use ne q seed pc [of 99] pc [of 50] pc [of 90] pc [of q] in \<open>simp add: materialize_def Let_def\<close>)
qed

text \<open>What a tick leaves, with the percentiles picked by \<open>pick\<close>.\<close>

definition after_tick :: "(rat \<Rightarrow> f64) \<Rightarrow> rat \<Rightarrow> LatencyTracker \<Rightarrow> LatencyTracker" where
  "after_tick pick q lt = lt\<lparr>lt_p50 := pick 50, lt_p90 := pick 90, lt_p99 := pick 99, lt_p999 := pick q,
     lt_p99Smoothed := (if lt_seeded lt
       then f_add (f_mul (lt_alpha lt) (pick 99)) (f_mul (f_sub (Fin 1) (lt_alpha lt)) (lt_p99Smoothed lt))
       else pick 99), lt_seeded := True\<rparr>"

lemma after_tick_reads [simp]:
  "P50 (after_tick pick q lt) = pick 50" "P90 (after_tick pick q lt) = pick 90"
  "P99 (after_tick pick q lt) = pick 99" "P999 (after_tick pick q lt) = pick q"
  "lt_samples (after_tick pick q lt) = lt_samples lt" "lt_seeded (after_tick pick q lt)"
  "P99Smoothed (after_tick pick q lt) = (if lt_seeded lt
     then f_add (f_mul (lt_alpha lt) (pick 99)) (f_mul (f_sub (Fin 1) (lt_alpha lt)) (P99Smoothed lt))
     else pick 99)"
  by (simp_all add: after_tick_def P50_def P90_def P99_def P999_def P99Smoothed_def)

text \<open>
  C30: A tick of the materialisation. With no samples it changes nothing. Otherwise (up to \<open>2 ^ 50\<close>
  samples) it never indexes out of range, each percentile is one of the samples, and p50, p90, p99
  and p99.9 are ordered in the order of the sort; p99 is the sorted sample at the rounded
  \<open>n * 99 / 100\<close>, cut off at the last one. The first tick after construction or \<open>Reset\<close> seeds the
  smoothed value with the raw p99; later ones apply the weighted mean.
\<close>

theorem materialize_correct:
  assumes "int (length (lt_samples lt)) \<le> 2 ^ 50"
  shows "(lt_samples lt = [] \<longrightarrow> materialize oob lt = Inr lt)
    \<and> (lt_samples lt \<noteq> [] \<longrightarrow> (\<exists>lt'. materialize oob lt = Inr lt'
         \<and> lt_samples lt' = lt_samples lt \<and> lt_seeded lt'
         \<and> {P50 lt', P90 lt', P99 lt', P999 lt'} \<subseteq> set (lt_samples lt)
         \<and> P50 lt' \<le> P90 lt' \<and> P90 lt' \<le> P99 lt' \<and> P99 lt' \<le> P999 lt'
         \<and> P99 lt' = sort (lt_samples lt) !
              min (nat \<lfloor>f64_round (f64_round (of_nat (length (lt_samples lt)) * 99) / 100)\<rfloor>) (length (lt_samples lt) - 1)
         \<and> P99Smoothed lt' = (if lt_seeded lt
              then f_add (f_mul (lt_alpha lt) (P99 lt')) (f_mul (f_sub (Fin 1) (lt_alpha lt)) (P99Smoothed lt))
              else P99 lt')))
    \<and> \<not> lt_seeded (NewLatencyTracker windowSize alpha) \<and> \<not> lt_seeded (Latency_Reset lt)"
proof (intro conjI impI)
  show "lt_samples lt = [] \<Longrightarrow> materialize oob lt = Inr lt"
    by (simp add: materialize_def)
  show "\<not> lt_seeded (NewLatencyTracker windowSize alpha)" "\<not> lt_seeded (Latency_Reset lt)"
    by (simp_all add: NewLatencyTracker_def Latency_Reset_def)
next
  assume ne: "lt_samples lt \<noteq> []"
  then have pos: "0 < length (lt_samples lt)" by simp
  define n s pick where "n = length (lt_samples lt)" "s = sort (lt_samples lt)"
    "pick = (\<lambda>p. s ! pct_index n p)"
  note defs = this
  obtain q where q: "99 \<le> q" "q \<le> 100" and m: "materialize oob lt = Inr (after_tick pick q lt)"
    using materialize_eq [OF pos assms, of oob] unfolding Let_def after_tick_def defs by blast
  have mem: "pick p \<in> set (lt_samples lt)" for p
    using pct_index_less [OF pos, of p] nth_mem [of "pct_index n p" s] by (simp add: defs)
  have mono: "pick p \<le> pick p'" if "p \<le> p'" for p p'
    unfolding defs using pct_index_less [OF pos, of p'] pct_index_mono [OF that, of n]
    by (intro sorted_nth_mono) (simp_all add: defs)
  have p99: "pick 99 = sort (lt_samples lt) !
      min (nat \<lfloor>f64_round (f64_round (of_nat (length (lt_samples lt)) * 99) / 100)\<rfloor>) (length (lt_samples lt) - 1)"
    by (simp only: defs pct_index_def)
  have ord: "pick 50 \<le> pick 90" "pick 90 \<le> pick 99" "pick 99 \<le> pick q"
    using q(1) by (auto intro: mono)
  have sub: "{pick 50, pick 90, pick 99, pick q} \<subseteq> set (lt_samples lt)" using mem by blast
  show "\<exists>lt'. materialize oob lt = Inr lt'
         \<and> lt_samples lt' = lt_samples lt \<and> lt_seeded lt'
         \<and> {P50 lt', P90 lt', P99 lt', P999 lt'} \<subseteq> set (lt_samples lt)
         \<and> P50 lt' \<le> P90 lt' \<and> P90 lt' \<le> P99 lt' \<and> P99 lt' \<le> P999 lt'
         \<and> P99 lt' = sort (lt_samples lt) !
              min (nat \<lfloor>f64_round (f64_round (of_nat (length (lt_samples lt)) * 99) / 100)\<rfloor>) (length (lt_samples lt) - 1)
         \<and> P99Smoothed lt' = (if lt_seeded lt
              then f_add (f_mul (lt_alpha lt) (P99 lt')) (f_mul (f_sub (Fin 1) (lt_alpha lt)) (P99Smoothed lt))
              else P99 lt')"
    by (rule exI [of _ "after_tick pick q lt"])
      (use m ord sub p99 in \<open>simp only: after_tick_reads simp_thms refl\<close>)
qed

theorem materialize_correct_witness:
  "\<exists>lt'. materialize (\<lambda>_. 0) (add_all [(0, Fin 30), (0, Fin 10)] (NewLatencyTracker 1000 (Fin 1))) = Inr lt'
     \<and> P50 lt' \<le> P99 lt' \<and> P99Smoothed lt' = P99 lt'"
proof -
  let ?lt = "add_all [(0, Fin 30), (0, Fin 10)] (NewLatencyTracker 1000 (Fin 1))"
  have s: "lt_samples ?lt = [Fin 30, Fin 10]" "\<not> lt_seeded ?lt"
    by (simp_all add: add_all_def Latency_Add_def NewLatencyTracker_def Let_def)
  obtain lt' where "materialize (\<lambda>_. 0) ?lt = Inr lt'" "P50 lt' \<le> P90 lt'" "P90 lt' \<le> P99 lt'"
    "P99Smoothed lt' = P99 lt'"
    using materialize_correct [of ?lt "\<lambda>_. 0" 1 "Fin 1"] s by (simp del: subset_insert_iff insert_subset) blast
  then show ?thesis by (blast intro: order.trans)
qed

end
