(* ===== verification/Aggregator.thy ===== *)
theory Aggregator
  imports Complex_Main GoFloat GoChan
begin

text \<open>
  internal/metrics/aggregator.go: per metric, a ring of 300 recent points and a ring of 60
  downsampled ones. A nil slice and an empty one are the same list here. The mutexes make each
  operation atomic; every \<open>time.Now()\<close> is an argument, in the order of the calls.
\<close>

section \<open>The rings\<close>

record DataPoint =
  dp_Timestamp :: instant
  dp_Value :: f64

definition no_point :: DataPoint where
  "no_point = \<lparr>dp_Timestamp = zero_time, dp_Value = Fin 0\<rparr>"

record timeSeries =
  ts_short :: "DataPoint list"
  ts_shortHead :: int
  ts_long :: "DataPoint list"
  ts_longHead :: int

definition new_timeSeries :: timeSeries where
  "new_timeSeries = \<lparr>ts_short = replicate 300 no_point, ts_shortHead = 0,
     ts_long = replicate 60 no_point, ts_longHead = 0\<rparr>"

text \<open>A write at the head of a ring, and the head after it.\<close>

definition ring_put :: "DataPoint \<Rightarrow> DataPoint list \<Rightarrow> int \<Rightarrow> go_panic + DataPoint list \<times> int" where
  "ring_put p ring head =
     (if head < 0 \<or> int (length ring) \<le> head then Inl IndexOutOfRange
      else Inr (ring[nat head := p], (head + 1) smod int (length ring)))"

definition timeSeries_Add :: "DataPoint \<Rightarrow> timeSeries \<Rightarrow> go_panic + timeSeries" where
  "timeSeries_Add p ts =
     (case ring_put p (ts_short ts) (ts_shortHead ts) of
        Inl e \<Rightarrow> Inl e
      | Inr (short, head) \<Rightarrow> Inr (ts\<lparr>ts_short := short, ts_shortHead := head\<rparr>))"

text \<open>The loop of \<open>readRingBackward\<close> over the counters it has left.\<close>

fun read_from :: "DataPoint list \<Rightarrow> int \<Rightarrow> instant \<Rightarrow> nat list \<Rightarrow> go_panic + DataPoint list" where
  "read_from ring head cutoff [] = Inr []"
| "read_from ring head cutoff (i # is) =
     (let n = int (length ring);
          idx = (head - 1 - int i + n) smod n in
      if idx < 0 \<or> n \<le> idx then Inl IndexOutOfRange
      else
        let p = ring ! nat idx in
        if dp_Timestamp p = zero_time then read_from ring head cutoff is
        else if dp_Timestamp p < cutoff then Inr []
        else map_sum id (\<lambda>result. p # result) (read_from ring head cutoff is))"

definition readRingBackward :: "DataPoint list \<Rightarrow> int \<Rightarrow> instant \<Rightarrow> go_panic + DataPoint list" where
  "readRingBackward ring head cutoff = read_from ring head cutoff [0..<length ring]"

section \<open>The aggregator\<close>

type_synonym TimeSeriesAggregator = "string \<rightharpoonup> timeSeries"

definition NewTimeSeriesAggregator :: TimeSeriesAggregator where
  "NewTimeSeriesAggregator = Map.empty"

definition getOrCreate :: "string \<Rightarrow> TimeSeriesAggregator \<Rightarrow> timeSeries \<times> TimeSeriesAggregator" where
  "getOrCreate name a =
     (case a name of
        Some ts \<Rightarrow> (ts, a)
      | None \<Rightarrow> (new_timeSeries, a(name \<mapsto> new_timeSeries)))"

definition Aggregator_Add ::
    "instant \<Rightarrow> string \<Rightarrow> f64 \<Rightarrow> TimeSeriesAggregator \<Rightarrow> go_panic + TimeSeriesAggregator" where
  "Aggregator_Add now metricName value a =
     (let (ts, a) = getOrCreate metricName a in
      case timeSeries_Add \<lparr>dp_Timestamp = now, dp_Value = value\<rparr> ts of
        Inl e \<Rightarrow> Inl e
      | Inr ts' \<Rightarrow> Inr (a(metricName \<mapsto> ts')))"

abbreviation (input) shortWindow :: duration where
  "shortWindow \<equiv> 5 * minute"

definition GetHistory ::
    "instant \<Rightarrow> instant \<Rightarrow> string \<Rightarrow> duration \<Rightarrow> TimeSeriesAggregator \<Rightarrow> go_panic + DataPoint list" where
  "GetHistory now1 now2 metricName duration a =
     (case a metricName of
        None \<Rightarrow> Inr []
      | Some ts \<Rightarrow>
          let cutoff = now1 + wrap64 (- duration) in
          if duration \<le> shortWindow then readRingBackward (ts_short ts) (ts_shortHead ts) cutoff
          else
            (case (readRingBackward (ts_short ts) (ts_shortHead ts) cutoff,
                   readRingBackward (ts_long ts) (ts_longHead ts) cutoff) of
               (Inr shortPoints, Inr longPoints) \<Rightarrow>
                 let shortCutoff = now2 - shortWindow in
                 Inr (shortPoints @ [p \<leftarrow> longPoints. dp_Timestamp p \<noteq> zero_time \<and> dp_Timestamp p < shortCutoff])
             | _ \<Rightarrow> Inl IndexOutOfRange))"

text \<open>The body of the downsampling loop for one series.\<close>

definition in_minute :: "instant \<Rightarrow> DataPoint \<Rightarrow> bool" where
  "in_minute cutoff p \<longleftrightarrow> dp_Timestamp p \<noteq> zero_time \<and> cutoff < dp_Timestamp p"

definition downsample :: "instant \<Rightarrow> instant \<Rightarrow> timeSeries \<Rightarrow> go_panic + timeSeries" where
  "downsample cutoff now ts =
     (let (sum, count) = fold (\<lambda>p (sum, count).
            if in_minute cutoff p then (f_add sum (dp_Value p), count + 1) else (sum, count))
            (ts_short ts) (Fin 0, 0 :: int) in
      if 0 < count then
        (case ring_put \<lparr>dp_Timestamp = now, dp_Value = f_div sum (f_of_int count)\<rparr> (ts_long ts) (ts_longHead ts) of
           Inl e \<Rightarrow> Inl e
         | Inr (long, head) \<Rightarrow> Inr (ts\<lparr>ts_long := long, ts_longHead := head\<rparr>))
      else Inr ts)"

text \<open>\<open>names\<close> is the order in which the loop meets the keys, with the clock read for each.\<close>

fun downsample_names ::
    "instant \<Rightarrow> (string \<times> instant) list \<Rightarrow> TimeSeriesAggregator \<Rightarrow> go_panic + TimeSeriesAggregator" where
  "downsample_names cutoff [] a = Inr a"
| "downsample_names cutoff ((name, now) # names) a =
     (case a name of
        None \<Rightarrow> Inl NilDereference
      | Some ts \<Rightarrow>
          (case downsample cutoff now ts of
             Inl e \<Rightarrow> Inl e
           | Inr ts' \<Rightarrow> downsample_names cutoff names (a(name \<mapsto> ts'))))"

definition downsampleAll ::
    "instant \<Rightarrow> (string \<times> instant) list \<Rightarrow> TimeSeriesAggregator \<Rightarrow> go_panic + TimeSeriesAggregator" where
  "downsampleAll now names a = downsample_names (now - minute) names a"

section \<open>A ring is the tail of its history\<close>

text \<open>
  The abstraction: a ring of capacity \<open>n\<close> into which the points \<open>pts\<close> (oldest first) have been
  written holds the \<open>n\<close> newest ones, the newest just behind the head.
\<close>

definition ring_slot :: "nat \<Rightarrow> DataPoint list \<Rightarrow> nat \<Rightarrow> DataPoint" where
  "ring_slot n pts k = fold (\<lambda>(i, p) q. if i mod n = k then p else q) (enumerate 0 pts) no_point"

definition ring_rep :: "nat \<Rightarrow> DataPoint list \<Rightarrow> DataPoint list \<Rightarrow> int \<Rightarrow> bool" where
  "ring_rep n pts ring head \<longleftrightarrow> 0 < n \<and> length ring = n \<and> head = int (length pts mod n)
     \<and> (\<forall>k<n. ring ! k = ring_slot n pts k)"

lemma enumerate_snoc: "enumerate m (xs @ [x]) = enumerate m xs @ [(m + length xs, x)]"
  by (simp add: enumerate_append_eq)

lemma ring_slot_snoc: "ring_slot n (pts @ [p]) k = (if length pts mod n = k then p else ring_slot n pts k)"
  by (simp add: ring_slot_def enumerate_snoc)

lemma smod_nonneg_eq: "0 \<le> (a::int) \<Longrightarrow> 0 < b \<Longrightarrow> a smod b = a mod b"
  by (cases "a = 0") (simp_all add: signed_modulo_int_def)

lemma ring_rep_empty: "0 < n \<Longrightarrow> ring_rep n [] (replicate n no_point) 0"
  by (simp add: ring_rep_def ring_slot_def)

lemma ring_put_rep:
  assumes "ring_rep n pts ring head"
  shows "\<exists>ring' head'. ring_put p ring head = Inr (ring', head') \<and> ring_rep n (pts @ [p]) ring' head'"
proof -
  have n: "0 < n" "length ring = n" "head = int (length pts mod n)" "length pts mod n < n"
    using assms by (simp_all add: ring_rep_def)
  have h: "(head + 1) smod int n = int (Suc (length pts) mod n)"
    using n by (simp add: smod_nonneg_eq zmod_int mod_simps add.commute)
  show ?thesis
    using assms n h by (auto simp: ring_put_def ring_rep_def ring_slot_snoc nth_list_update)
qed

text \<open>The slot \<open>i\<close> steps behind the head.\<close>

lemma ring_slot_back:
  assumes "0 < n"
  shows "i < n \<Longrightarrow> ring_slot n pts ((length pts + (n - 1 - i)) mod n)
     = (if i < length pts then pts ! (length pts - 1 - i) else no_point)"
proof (induction pts arbitrary: i rule: rev_induct)
  case Nil
  then show ?case by (simp add: ring_slot_def)
next
  case (snoc p pts)
  show ?case
  proof (cases i)
    case 0
    have "(Suc (length pts) + (n - 1)) mod n = length pts mod n"
      using assms by (metis Suc_diff_1 add_Suc_shift mod_add_self2 plus_1_eq_Suc add.commute diff_Suc_1)
    then show ?thesis using 0 by (simp add: ring_slot_snoc)
  next
    case (Suc j)
    then have j: "j < n" "n - 1 - i = n - 1 - Suc j" "Suc (length pts) + (n - 1 - i) = length pts + (n - 1 - j)"
      using snoc.prems by auto
    have "(length pts + (n - 1 - j)) mod n \<noteq> length pts mod n"
    proof
      assume "(length pts + (n - 1 - j)) mod n = length pts mod n"
      then have "n dvd (n - 1 - j)" by (metis add.commute add_diff_cancel_right' mod_eq_dvd_iff_nat le_add1 diff_add_inverse)
      moreover have "0 < n - 1 - j" "n - 1 - j < n" using Suc snoc.prems by auto
      ultimately show False using nat_dvd_not_less by blast
    qed
    then have ne: "\<not> length pts mod n = (length pts + (n - 1 - j)) mod n" by metis
    have len: "length (pts @ [p]) + (n - 1 - i) = length pts + (n - 1 - j)" using j(3) by simp
    have "ring_slot n (pts @ [p]) ((length (pts @ [p]) + (n - 1 - i)) mod n)
        = (if j < length pts then pts ! (length pts - 1 - j) else no_point)"
      unfolding len ring_slot_snoc if_not_P [OF ne] by (rule snoc.IH [OF j(1)])
    then show ?thesis using Suc by (auto simp: nth_append)
  qed
qed

lemma read_from_eq:
  assumes "ring_rep n pts ring head" "\<forall>p\<in>set pts. dp_Timestamp p \<noteq> zero_time"
  shows "i \<le> n \<Longrightarrow> read_from ring head cutoff [i..<n]
     = Inr (takeWhile (\<lambda>p. cutoff \<le> dp_Timestamp p) (take (n - i) (drop i (rev pts))))"
proof (induction "n - i" arbitrary: i)
  case 0
  then show ?case by simp
next
  case (Suc m)
  have n: "0 < n" "length ring = n" "head = int (length pts mod n)" and i: "i < n"
    and slots: "\<forall>k<n. ring ! k = ring_slot n pts k"
    using assms(1) Suc.hyps(2) by (auto simp: ring_rep_def)
  define k where "k = (length pts + (n - 1 - i)) mod n"
  have k: "k < n" using n(1) by (simp add: k_def)
  have nn: "0 \<le> head - 1 - int i + int n" using n(3) i by simp
  have idx: "(head - 1 - int i + int n) smod int n = int k"
  proof -
    have "head - 1 - int i + int n = int (length pts mod n) + int (n - 1 - i)" using n(3) i by simp
    then show ?thesis using nn n(1) by (simp add: k_def smod_nonneg_eq zmod_int mod_add_left_eq)
  qed
  have upt: "[i..<n] = i # [Suc i..<n]" using i by (rule upt_conv_Cons)
  have p: "ring ! k = (if i < length pts then pts ! (length pts - 1 - i) else no_point)"
    using slots k ring_slot_back [OF n(1) i, of pts] by (simp add: k_def)
  have IH: "read_from ring head cutoff [Suc i..<n]
     = Inr (takeWhile (\<lambda>p. cutoff \<le> dp_Timestamp p) (take (n - Suc i) (drop (Suc i) (rev pts))))"
    using Suc.hyps i by simp
  have step: "read_from ring head cutoff (i # [Suc i..<n]) =
      (if dp_Timestamp (ring ! k) = zero_time then read_from ring head cutoff [Suc i..<n]
       else if dp_Timestamp (ring ! k) < cutoff then Inr []
       else map_sum id (\<lambda>result. ring ! k # result) (read_from ring head cutoff [Suc i..<n]))"
    using k by (simp add: n(2) idx Let_def)
  show ?case
  proof (cases "i < length pts")
    case True
    then have d: "drop i (rev pts) = pts ! (length pts - 1 - i) # drop (Suc i) (rev pts)"
      by (metis Cons_nth_drop_Suc diff_Suc_eq_diff_pred length_rev rev_nth)
    have t: "take (n - i) (drop i (rev pts)) = pts ! (length pts - 1 - i) # take (n - Suc i) (drop (Suc i) (rev pts))"
      unfolding d using i by (simp add: take_Cons' Suc_diff_Suc)
    have "pts ! (length pts - 1 - i) \<in> set pts" using True by simp
    with assms(2) have "dp_Timestamp (pts ! (length pts - 1 - i)) \<noteq> zero_time" by blast
    then show ?thesis unfolding upt step t p using True IH by auto
  next
    case False
    then show ?thesis unfolding upt step p using IH by (simp add: no_point_def)
  qed
qed

text \<open>A read with the head inside the ring answers with points of the ring.\<close>

lemma read_from_total:
  assumes "0 \<le> head" "head < int (length ring)"
  shows "\<forall>i\<in>set is. i < length ring \<Longrightarrow> \<exists>ps. read_from ring head cutoff is = Inr ps \<and> set ps \<subseteq> set ring"
proof (induction "is")
  case (Cons i "is")
  let ?idx = "(head - 1 - int i + int (length ring)) smod int (length ring)"
  have "0 \<le> head - 1 - int i + int (length ring)" "0 < int (length ring)" using assms Cons.prems by auto
  then have "?idx = (head - 1 - int i + int (length ring)) mod int (length ring)" "0 < int (length ring)"
    by (simp_all only: smod_nonneg_eq)
  then have idx: "0 \<le> ?idx" "?idx < int (length ring)" by simp_all
  then have mem: "ring ! nat ?idx \<in> set ring" by (intro nth_mem) linarith
  obtain ps where "read_from ring head cutoff is = Inr ps" "set ps \<subseteq> set ring" using Cons by auto
  then show ?case using idx mem by (auto simp: Let_def)
qed simp

lemma readRingBackward_eq:
  assumes "ring_rep n pts ring head" "\<forall>p\<in>set pts. dp_Timestamp p \<noteq> zero_time"
  shows "readRingBackward ring head cutoff
     = Inr (takeWhile (\<lambda>p. cutoff \<le> dp_Timestamp p) (take n (rev pts)))"
  using read_from_eq [OF assms, of 0] assms(1) by (simp add: readRingBackward_def ring_rep_def)

lemma ring_rep_set:
  assumes "ring_rep n pts ring head"
  shows "set ring \<subseteq> insert no_point (set pts)"
proof
  fix q assume "q \<in> set ring"
  then obtain k where "k < n" "q = ring_slot n pts k"
    using assms by (auto simp: in_set_conv_nth ring_rep_def)
  moreover have "ring_slot n pts k \<in> insert no_point (set pts)"
    by (induction pts rule: rev_induct) (auto simp: ring_slot_snoc ring_slot_def [of _ "[]"])
  ultimately show "q \<in> insert no_point (set pts)" by simp
qed

lemma add_mod_cancel:
  fixes x :: nat
  assumes "(a + x) mod n = (a + y) mod n" "x < n" "y < n"
  shows "x = y"
  using assms
proof (induction x y rule: linorder_wlog)
  case (le x y)
  then have "n dvd (a + y) - (a + x)" using mod_eq_dvd_iff_nat [of "a + x" "a + y" n] by simp
  then show ?case using le nat_dvd_not_less [of "y - x" n] by (cases "y = x") auto
qed simp

lemma filter_replicate_mset: "filter_mset P (replicate_mset n a) = (if P a then replicate_mset n a else {#})"
  by (induction n) auto

text \<open>The slots behind the head, newest first, are all the slots of the ring.\<close>

lemma slots_behind:
  assumes "0 < n"
  shows "mset (map (\<lambda>i. (m + (n - 1 - i)) mod n) [0..<n]) = mset [0..<n]"
proof -
  define behind where "behind = (\<lambda>i. (m + (n - 1 - i)) mod n)"
  have inj: "inj_on behind {0..<n}"
  proof (rule inj_onI)
    fix i j assume ij: "i \<in> {0..<n}" "j \<in> {0..<n}" "behind i = behind j"
    then have l: "i < n" "j < n" by simp_all
    have "n - 1 - i = n - 1 - j"
      by (rule add_mod_cancel [OF ij(3) [unfolded behind_def]]) (use l in simp_all)
    with l show "i = j" by linarith
  qed
  have "behind ` {0..<n} \<subseteq> {0..<n}" using assms by (auto simp: behind_def)
  then have "behind ` {0..<n} = {0..<n}"
    using inj by (intro endo_inj_surj) simp_all
  then have "set (map behind [0..<n]) = set [0..<n]" by (simp only: set_map set_upt)
  moreover have "distinct (map behind [0..<n])" using inj by (simp only: distinct_map set_upt distinct_upt)
  ultimately show ?thesis
    unfolding behind_def [symmetric] using set_eq_iff_mset_eq_distinct distinct_upt by blast
qed

text \<open>As a multiset, a ring is the tail of its history and the slots not yet written.\<close>

lemma ring_rep_mset:
  assumes "ring_rep n pts ring head"
  shows "mset ring = mset (take n (rev pts)) + replicate_mset (n - length pts) no_point"
proof -
  have n: "0 < n" "length ring = n" and slots: "\<forall>k<n. ring ! k = ring_slot n pts k"
    using assms by (simp_all add: ring_rep_def)
  let ?slots = "map (\<lambda>i. (length pts + (n - 1 - i)) mod n) [0..<n]"
  have slot: "ring ! (?slots ! i) = (take n (rev pts) @ replicate (n - length pts) no_point) ! i" if i: "i < n" for i
  proof -
    have "ring ! (?slots ! i) = ring_slot n pts ((length pts + (n - 1 - i)) mod n)"
      using slots n(1) i by simp
    also have "\<dots> = (if i < length pts then pts ! (length pts - 1 - i) else no_point)"
      by (rule ring_slot_back [OF n(1) i])
    also have "\<dots> = (take n (rev pts) @ replicate (n - length pts) no_point) ! i"
      using i by (simp add: nth_append rev_nth)
    finally show ?thesis .
  qed
  have "mset ring = mset (map ((!) ring) [0..<n])"
    using map_nth [of ring] n(2) by simp
  also have "\<dots> = mset (map ((!) ring) ?slots)"
    unfolding mset_map [of "(!) ring"] slots_behind [OF n(1)] ..
  also have "map ((!) ring) ?slots = take n (rev pts) @ replicate (n - length pts) no_point"
    by (rule nth_equalityI) (use slot in simp_all)
  finally show ?thesis by simp
qed

section \<open>The downsampled point\<close>

definition recent_mean :: "f64 list \<Rightarrow> f64" where
  "recent_mean vs = f_div (fold (\<lambda>v s. f_add s v) vs (Fin 0)) (f_of_int (int (length vs)))"

lemma downsample_loop:
  "fold (\<lambda>p (sum, count). if in_minute cutoff p then (f_add sum (dp_Value p), count + 1) else (sum, count :: int)) ps (s, c)
     = (fold (\<lambda>v s. f_add s v) (map dp_Value (filter (in_minute cutoff) ps)) s, c + int (length (filter (in_minute cutoff) ps)))"
  by (induction ps arbitrary: s c) auto

definition series_rep :: "DataPoint list \<Rightarrow> DataPoint list \<Rightarrow> timeSeries \<Rightarrow> bool" where
  "series_rep pts lpts ts \<longleftrightarrow> ring_rep 300 pts (ts_short ts) (ts_shortHead ts)
     \<and> ring_rep 60 lpts (ts_long ts) (ts_longHead ts)"

lemma series_rep_new: "series_rep [] [] new_timeSeries"
  by (simp add: series_rep_def new_timeSeries_def ring_rep_empty)

lemma timeSeries_Add_rep:
  assumes "series_rep pts lpts ts"
  shows "\<exists>ts'. timeSeries_Add p ts = Inr ts' \<and> series_rep (pts @ [p]) lpts ts'"
  using assms ring_put_rep [of 300 pts "ts_short ts" "ts_shortHead ts" p]
  by (auto simp: series_rep_def timeSeries_Add_def)

lemma downsample_rep:
  assumes "series_rep pts lpts ts"
  obtains ts' vs where "downsample cutoff now ts = Inr ts'"
    "mset vs = mset (map dp_Value (filter (in_minute cutoff) (take 300 (rev pts))))"
    "series_rep pts (if vs = [] then lpts else lpts @ [\<lparr>dp_Timestamp = now, dp_Value = recent_mean vs\<rparr>]) ts'"
proof -
  define vs where "vs = map dp_Value (filter (in_minute cutoff) (ts_short ts))"
  have np: "\<not> in_minute cutoff no_point" by (simp add: in_minute_def no_point_def)
  have "mset vs = image_mset dp_Value (filter_mset (in_minute cutoff) (mset (ts_short ts)))"
    by (simp add: vs_def mset_filter)
  also have "\<dots> = mset (map dp_Value (filter (in_minute cutoff) (take 300 (rev pts))))"
    using assms ring_rep_mset [of 300 pts "ts_short ts" "ts_shortHead ts"]
    by (simp add: series_rep_def np mset_filter filter_replicate_mset)
  finally have m: "mset vs = mset (map dp_Value (filter (in_minute cutoff) (take 300 (rev pts))))" .
  have d: "downsample cutoff now ts =
      (if 0 < length vs then
        (case ring_put \<lparr>dp_Timestamp = now, dp_Value = recent_mean vs\<rparr> (ts_long ts) (ts_longHead ts) of
           Inl e \<Rightarrow> Inl e
         | Inr (long, head) \<Rightarrow> Inr (ts\<lparr>ts_long := long, ts_longHead := head\<rparr>))
      else Inr ts)"
    unfolding downsample_def downsample_loop recent_mean_def vs_def by simp
  show ?thesis
  proof (cases "vs = []")
    case True
    then show ?thesis using that [of ts vs] m d assms by simp
  next
    case False
    obtain long head where "ring_put \<lparr>dp_Timestamp = now, dp_Value = recent_mean vs\<rparr> (ts_long ts) (ts_longHead ts) = Inr (long, head)"
      "ring_rep 60 (lpts @ [\<lparr>dp_Timestamp = now, dp_Value = recent_mean vs\<rparr>]) long head"
      using assms ring_put_rep unfolding series_rep_def by blast
    then show ?thesis
      using that [of "ts\<lparr>ts_long := long, ts_longHead := head\<rparr>" vs] m d assms False
      by (simp add: series_rep_def)
  qed
qed

section \<open>The aggregator refines a pair of histories per metric\<close>

text \<open>
  The abstract state: for each metric every point it was ever given and every point the
  downsampler made of them, both oldest first.
\<close>

type_synonym histories = "string \<Rightarrow> DataPoint list \<times> DataPoint list"

definition agg_rep :: "histories \<Rightarrow> TimeSeriesAggregator \<Rightarrow> bool" where
  "agg_rep h a \<longleftrightarrow> (\<forall>m. case a m of None \<Rightarrow> h m = ([], []) | Some ts \<Rightarrow> series_rep (fst (h m)) (snd (h m)) ts)"

text \<open>The abstract query: what is kept of each history, newest first, down to the cutoff.\<close>

definition history_spec :: "instant \<Rightarrow> instant \<Rightarrow> duration \<Rightarrow> DataPoint list \<times> DataPoint list \<Rightarrow> DataPoint list" where
  "history_spec now1 now2 duration ps =
     (let newer = takeWhile (\<lambda>p. now1 + wrap64 (- duration) \<le> dp_Timestamp p) in
      newer (take 300 (rev (fst ps)))
      @ (if duration \<le> shortWindow then []
         else [p \<leftarrow> newer (take 60 (rev (snd ps))). dp_Timestamp p < now2 - shortWindow]))"

lemma agg_rep_upd:
  "agg_rep h a \<Longrightarrow> series_rep ps ls ts \<Longrightarrow> agg_rep (h(m := (ps, ls))) (a(m \<mapsto> ts))"
  unfolding agg_rep_def by (metis fst_conv snd_conv fun_upd_apply option.simps(5))

lemma agg_rep_Some: "agg_rep h a \<Longrightarrow> a m = Some ts \<Longrightarrow> series_rep (fst (h m)) (snd (h m)) ts"
  by (auto simp: agg_rep_def dest: spec [of _ m])

lemma agg_rep_None: "agg_rep h a \<Longrightarrow> a m = None \<Longrightarrow> h m = ([], [])"
  by (auto simp: agg_rep_def dest: spec [of _ m])

lemma Aggregator_Add_rep:
  assumes "agg_rep h a"
  shows "\<exists>a'. Aggregator_Add now m v a = Inr a'
    \<and> agg_rep (h(m := (fst (h m) @ [\<lparr>dp_Timestamp = now, dp_Value = v\<rparr>], snd (h m)))) a'"
proof -
  obtain ts b where g: "getOrCreate m a = (ts, b)" "series_rep (fst (h m)) (snd (h m)) ts" "agg_rep h b"
  proof (cases "a m")
    case None
    then have "agg_rep (h(m := ([], []))) (a(m \<mapsto> new_timeSeries))"
      using assms series_rep_new by (intro agg_rep_upd)
    moreover have "h(m := ([], [])) = h" using agg_rep_None [OF assms None] by auto
    ultimately show ?thesis
      using that [of new_timeSeries "a(m \<mapsto> new_timeSeries)"] None agg_rep_None [OF assms None] series_rep_new
      by (simp add: getOrCreate_def)
  next
    case (Some ts)
    then show ?thesis using that [of ts a] assms agg_rep_Some by (simp add: getOrCreate_def)
  qed
  obtain ts' where "timeSeries_Add \<lparr>dp_Timestamp = now, dp_Value = v\<rparr> ts = Inr ts'"
    "series_rep (fst (h m) @ [\<lparr>dp_Timestamp = now, dp_Value = v\<rparr>]) (snd (h m)) ts'"
    using timeSeries_Add_rep [OF g(2)] by blast
  then show ?thesis using g(1) agg_rep_upd [OF g(3)] by (simp add: Aggregator_Add_def)
qed

lemma readRingBackward_total:
  "ring_rep n pts ring head \<Longrightarrow> \<exists>ps. readRingBackward ring head cutoff = Inr ps \<and> set ps \<subseteq> set ring"
  unfolding readRingBackward_def by (rule read_from_total) (auto simp: ring_rep_def)

lemma GetHistory_total:
  assumes "agg_rep h a"
  shows "\<exists>ps. GetHistory now1 now2 m d a = Inr ps \<and> set ps \<subseteq> insert no_point (set (fst (h m)) \<union> set (snd (h m)))"
proof (cases "a m")
  case None
  then show ?thesis by (simp add: GetHistory_def)
next
  case (Some ts)
  note rep = agg_rep_Some [OF assms Some, unfolded series_rep_def]
  obtain ps where ps: "readRingBackward (ts_short ts) (ts_shortHead ts) (now1 + wrap64 (- d)) = Inr ps" "set ps \<subseteq> set (ts_short ts)"
    using readRingBackward_total rep by blast
  obtain ls where ls: "readRingBackward (ts_long ts) (ts_longHead ts) (now1 + wrap64 (- d)) = Inr ls" "set ls \<subseteq> set (ts_long ts)"
    using readRingBackward_total rep by blast
  have "set (ts_short ts) \<subseteq> insert no_point (set (fst (h m)))" "set (ts_long ts) \<subseteq> insert no_point (set (snd (h m)))"
    using ring_rep_set rep by blast+
  then show ?thesis using ps ls Some by (auto simp: GetHistory_def Let_def)
qed

lemma GetHistory_rep:
  assumes "agg_rep h a" "\<forall>p\<in>set (fst (h m)) \<union> set (snd (h m)). dp_Timestamp p \<noteq> zero_time"
  shows "GetHistory now1 now2 m d a = Inr (history_spec now1 now2 d (h m))"
proof (cases "a m")
  case None
  then show ?thesis using agg_rep_None [OF assms(1)] by (simp add: GetHistory_def history_spec_def)
next
  case (Some ts)
  note rep = agg_rep_Some [OF assms(1) Some, unfolded series_rep_def]
  let ?cut = "now1 + wrap64 (- d)"
  have short: "readRingBackward (ts_short ts) (ts_shortHead ts) ?cut
      = Inr (takeWhile (\<lambda>p. ?cut \<le> dp_Timestamp p) (take 300 (rev (fst (h m)))))"
    using rep assms(2) by (intro readRingBackward_eq) auto
  have long: "readRingBackward (ts_long ts) (ts_longHead ts) ?cut
      = Inr (takeWhile (\<lambda>p. ?cut \<le> dp_Timestamp p) (take 60 (rev (snd (h m)))))"
    using rep assms(2) by (intro readRingBackward_eq) auto
  have nz: "dp_Timestamp p \<noteq> zero_time"
    if "p \<in> set (takeWhile (\<lambda>p. ?cut \<le> dp_Timestamp p) (take 60 (rev (snd (h m)))))" for p
    using set_takeWhileD [OF that] assms(2) by (auto dest: in_set_takeD)
  have filt: "[p \<leftarrow> takeWhile (\<lambda>p. ?cut \<le> dp_Timestamp p) (take 60 (rev (snd (h m)))).
        dp_Timestamp p \<noteq> zero_time \<and> dp_Timestamp p < now2 - shortWindow]
      = [p \<leftarrow> takeWhile (\<lambda>p. ?cut \<le> dp_Timestamp p) (take 60 (rev (snd (h m)))). dp_Timestamp p < now2 - shortWindow]"
    by (rule filter_cong) (use nz in auto)
  show ?thesis
    by (simp only: GetHistory_def Some option.case short long Let_def sum.case prod.case filt history_spec_def)
      simp
qed

text \<open>
  One pass of the downsampler over the abstract state: a metric with points in the last minute
  gets their mean, in whatever order the sum met them; the others are left alone.
\<close>

definition minute_values :: "instant \<Rightarrow> DataPoint list \<Rightarrow> f64 list" where
  "minute_values now pts = map dp_Value (filter (in_minute (now - minute)) (take 300 (rev pts)))"

text \<open>While the ring keeps the whole minute, every value of it counts.\<close>

lemma minute_values_all:
  "length pts \<le> 300 \<Longrightarrow> \<forall>p\<in>set pts. in_minute (now - minute) p \<Longrightarrow> minute_values now pts = map dp_Value (rev pts)"
  by (simp add: minute_values_def filter_id_conv)

definition mean_step :: "instant \<Rightarrow> instant \<Rightarrow> DataPoint list \<times> DataPoint list \<Rightarrow> DataPoint list \<times> DataPoint list \<Rightarrow> bool" where
  "mean_step now now' ps ps' \<longleftrightarrow> fst ps' = fst ps
     \<and> (if minute_values now (fst ps) = [] then snd ps' = snd ps
        else \<exists>vs. mset vs = mset (minute_values now (fst ps))
               \<and> snd ps' = snd ps @ [\<lparr>dp_Timestamp = now', dp_Value = recent_mean vs\<rparr>])"

lemma downsample_names_rep:
  assumes "agg_rep h a" "distinct (map fst names)" "fst ` set names \<subseteq> dom a"
  shows "\<exists>a' h'. downsample_names (now - minute) names a = Inr a' \<and> agg_rep h' a' \<and> dom a' = dom a
    \<and> (\<forall>(m, t)\<in>set names. mean_step now t (h m) (h' m)) \<and> (\<forall>m. m \<notin> fst ` set names \<longrightarrow> h' m = h m)"
  using assms
proof (induction names arbitrary: h a)
  case Nil
  then show ?case by auto
next
  case (Cons nt names)
  obtain n t where nt: "nt = (n, t)" by (cases nt)
  obtain ts where ts: "a n = Some ts" using Cons.prems(3) nt by auto
  obtain ts' vs where d: "downsample (now - minute) t ts = Inr ts'"
    and vs: "mset vs = mset (minute_values now (fst (h n)))"
    and rep: "series_rep (fst (h n)) (if vs = [] then snd (h n)
          else snd (h n) @ [\<lparr>dp_Timestamp = t, dp_Value = recent_mean vs\<rparr>]) ts'"
    using downsample_rep [OF agg_rep_Some [OF Cons.prems(1) ts]] unfolding minute_values_def by metis
  define hn where "hn = (fst (h n), if vs = [] then snd (h n) else snd (h n) @ [\<lparr>dp_Timestamp = t, dp_Value = recent_mean vs\<rparr>])"
  have "vs = [] \<longleftrightarrow> minute_values now (fst (h n)) = []" using vs by (metis mset_zero_iff)
  then have step: "mean_step now t (h n) hn"
    using vs by (auto simp: mean_step_def hn_def)
  have "agg_rep (h(n := hn)) (a(n \<mapsto> ts'))"
    unfolding hn_def by (rule agg_rep_upd [OF Cons.prems(1) rep])
  moreover have "distinct (map fst names)" "fst ` set names \<subseteq> dom (a(n \<mapsto> ts'))"
    using Cons.prems(2,3) by auto
  ultimately have "\<exists>a' h'. downsample_names (now - minute) names (a(n \<mapsto> ts')) = Inr a' \<and> agg_rep h' a'
      \<and> dom a' = dom (a(n \<mapsto> ts')) \<and> (\<forall>(m, t)\<in>set names. mean_step now t ((h(n := hn)) m) (h' m))
      \<and> (\<forall>m. m \<notin> fst ` set names \<longrightarrow> h' m = (h(n := hn)) m)"
    by (rule Cons.IH)
  then obtain a' h' where
    IH: "downsample_names (now - minute) names (a(n \<mapsto> ts')) = Inr a'" "agg_rep h' a'" "dom a' = dom (a(n \<mapsto> ts'))"
      "\<forall>(m, t)\<in>set names. mean_step now t ((h(n := hn)) m) (h' m)"
      "\<forall>m. m \<notin> fst ` set names \<longrightarrow> h' m = (h(n := hn)) m"
    by (elim exE conjE) (rule that)
  have new: "n \<notin> fst ` set names" using Cons.prems(2) nt by auto
  then have "\<forall>(m, t)\<in>set names. mean_step now t (h m) (h' m)"
    using IH(4) by (force simp: image_iff)
  moreover have "h' n = hn" using IH(5) new by simp
  moreover have "downsample_names (now - minute) (nt # names) a = Inr a'"
    using IH(1) ts d by (simp add: nt)
  moreover have "dom a' = dom a" using IH(3) ts by (auto simp: insert_absorb)
  moreover have "\<forall>m. m \<notin> fst ` set (nt # names) \<longrightarrow> h' m = h m" using IH(5) by (simp add: nt)
  ultimately show ?case using IH(2) step by (intro exI [of _ a'] exI [of _ h']) (simp add: nt)
qed

text \<open>
  C31: The aggregator implements its contract. Starting from the empty one, \<open>Add\<close> never panics and
  appends the point to its metric alone; a pass of the downsampler over the keys in any order never
  panics, keeps every point and gives each metric with points in the last minute exactly one new
  point, the mean of those values, which are all of them up to the 300 the ring keeps, and not just
  the last 60 as docs/spec/04-metrics.md has it for \<open>StartDownsampler\<close>; and \<open>GetHistory\<close> answers with what the rings retain: the newest
  300 points, and past five minutes also the newest 60 downsampled ones older than that, newest
  first and down to the first one before the cutoff.
\<close>

theorem aggregator_refines:
  assumes "agg_rep h a"
  shows "agg_rep (\<lambda>_. ([], [])) NewTimeSeriesAggregator
    \<and> (\<forall>now m v. \<exists>a'. Aggregator_Add now m v a = Inr a'
          \<and> agg_rep (h(m := (fst (h m) @ [\<lparr>dp_Timestamp = now, dp_Value = v\<rparr>], snd (h m)))) a')
    \<and> (\<forall>now names. distinct (map fst names) \<and> fst ` set names = dom a \<longrightarrow>
          (\<exists>a' h'. downsampleAll now names a = Inr a' \<and> agg_rep h' a'
             \<and> (\<forall>(m, t)\<in>set names. mean_step now t (h m) (h' m))
             \<and> (\<forall>m. m \<notin> dom a \<longrightarrow> h' m = h m)))
    \<and> (\<forall>now1 now2 m d. (\<forall>p\<in>set (fst (h m)) \<union> set (snd (h m)). dp_Timestamp p \<noteq> zero_time) \<longrightarrow>
          GetHistory now1 now2 m d a = Inr (history_spec now1 now2 d (h m)))"
proof (intro conjI allI impI)
  show "agg_rep (\<lambda>_. ([], [])) NewTimeSeriesAggregator"
    by (simp add: agg_rep_def NewTimeSeriesAggregator_def)
next
  fix now m v
  show "\<exists>a'. Aggregator_Add now m v a = Inr a'
      \<and> agg_rep (h(m := (fst (h m) @ [\<lparr>dp_Timestamp = now, dp_Value = v\<rparr>], snd (h m)))) a'"
    by (rule Aggregator_Add_rep [OF assms])
next
  fix now and names :: "(string \<times> instant) list"
  assume "distinct (map fst names) \<and> fst ` set names = dom a"
  then show "\<exists>a' h'. downsampleAll now names a = Inr a' \<and> agg_rep h' a'
             \<and> (\<forall>(m, t)\<in>set names. mean_step now t (h m) (h' m)) \<and> (\<forall>m. m \<notin> dom a \<longrightarrow> h' m = h m)"
    using downsample_names_rep [OF assms, of names now] unfolding downsampleAll_def by auto
next
  fix now1 now2 m d
  assume "\<forall>p\<in>set (fst (h m)) \<union> set (snd (h m)). dp_Timestamp p \<noteq> zero_time"
  then show "GetHistory now1 now2 m d a = Inr (history_spec now1 now2 d (h m))"
    by (rule GetHistory_rep [OF assms])
qed

theorem aggregator_refines_witness:
  "\<exists>a. Aggregator_Add 5 ''queue_depth'' (Fin 1) NewTimeSeriesAggregator = Inr a
     \<and> agg_rep ((\<lambda>_. ([], []))(''queue_depth'' := ([\<lparr>dp_Timestamp = 5, dp_Value = Fin 1\<rparr>], []))) a"
proof -
  have "agg_rep (\<lambda>_. ([], [])) NewTimeSeriesAggregator"
    by (simp add: agg_rep_def NewTimeSeriesAggregator_def)
  from aggregator_refines [OF this] show ?thesis by force
qed

section \<open>Means of integer values\<close>

lemma fold_add_ints:
  "\<bar>s\<bar> + (\<Sum>k\<leftarrow>ks. \<bar>k\<bar>) \<le> 2 ^ 53 \<Longrightarrow>
     fold (\<lambda>v s. f_add s v) (map (\<lambda>k. Fin (of_int k)) ks) (Fin (of_int s)) = Fin (of_int (s + sum_list ks))"
proof (induction ks arbitrary: s)
  case (Cons k ks)
  have "0 \<le> (\<Sum>k\<leftarrow>ks. \<bar>k\<bar>)" by (rule sum_list_nonneg) auto
  then have b: "\<bar>s + k\<bar> \<le> 2 ^ 53" "\<bar>s + k\<bar> + (\<Sum>k\<leftarrow>ks. \<bar>k\<bar>) \<le> 2 ^ 53" using Cons.prems by simp_all
  have "f_add (Fin (of_int s)) (Fin (of_int k)) = Fin (of_int (s + k))"
    using f_of_int_exact [OF b(1)] by (simp add: f_of_int_def)
  then show ?case using Cons.IH [OF b(2)] by (simp add: add.assoc)
qed simp

lemma sum_list_bounds:
  fixes ks :: "int list"
  shows "int (length ks) * Min (set ks) \<le> sum_list ks \<and> sum_list ks \<le> int (length ks) * Max (set ks)"
proof -
  have "\<forall>k\<in>set ks. lo \<le> k \<and> k \<le> hi \<Longrightarrow> int (length ks) * lo \<le> sum_list ks \<and> sum_list ks \<le> int (length ks) * hi"
    for lo hi :: int
    by (induction ks) (auto simp: algebra_simps intro: add_mono)
  from this [of "Min (set ks)" "Max (set ks)"] show ?thesis by simp
qed

lemma abs_le_sum_list: "k \<in> set ks \<Longrightarrow> \<bar>k\<bar> \<le> (\<Sum>k\<leftarrow>ks. \<bar>k :: int\<bar>)"
proof (induction ks)
  case (Cons a ks)
  have "0 \<le> (\<Sum>k\<leftarrow>ks. \<bar>k\<bar>)" by (rule sum_list_nonneg) auto
  then show ?case using Cons by auto
qed simp

lemma recent_mean_ints:
  assumes "mset vs = mset (map (\<lambda>k. Fin (of_int k)) ks)" "(\<Sum>k\<leftarrow>ks. \<bar>k\<bar>) \<le> 2 ^ 53" "ks \<noteq> []"
    "length ks \<le> 300"
  shows "recent_mean vs = Fin (f64_round (of_int (sum_list ks) / of_nat (length ks)))"
    "of_int (Min (set ks)) \<le> f64_round (of_int (sum_list ks) / of_nat (length ks))"
    "f64_round (of_int (sum_list ks) / of_nat (length ks)) \<le> of_int (Max (set ks))"
proof -
  let ?f = "\<lambda>k::int. Fin (of_int k)"
  have inj: "inv ?f (?f k) = k" for k by (rule inv_f_f) (simp add: inj_on_def)
  define js where "js = map (inv ?f) vs"
  have "mset js = image_mset (inv ?f) (mset (map ?f ks))" using assms(1) by (simp add: js_def)
  also have "\<dots> = mset ks" by (simp add: image_mset.compositionality comp_def inj)
  finally have perm: "mset js = mset ks" .
  have "set vs = ?f ` set ks" using assms(1) by (metis set_mset_mset set_map)
  then have "map ?f js = vs" unfolding js_def map_map by (intro map_idI) (auto simp: inj)
  note js = this [symmetric] perm
  have same: "sum_list js = sum_list ks" "(\<Sum>k\<leftarrow>js. \<bar>k\<bar>) = (\<Sum>k\<leftarrow>ks. \<bar>k\<bar>)" "length js = length ks"
    using js(2) by (metis sum_mset_sum_list, metis mset_map sum_mset_sum_list, metis size_mset)
  let ?n = "of_nat (length ks) :: rat"
  have n: "1 \<le> ?n" using assms(3) by (cases ks) simp_all
  have "Min (set ks) \<in> set ks" "Max (set ks) \<in> set ks" using assms(3) by simp_all
  then have minmax: "\<bar>Min (set ks)\<bar> \<le> 2 ^ 53" "\<bar>Max (set ks)\<bar> \<le> 2 ^ 53"
    using abs_le_sum_list assms(2) order.trans by blast+
  have b: "of_int (int (length ks) * Min (set ks)) \<le> (of_int (sum_list ks) :: rat)"
    "(of_int (sum_list ks) :: rat) \<le> of_int (int (length ks) * Max (set ks))"
    using sum_list_bounds [of ks] by (simp_all only: of_int_le_iff)
  have q: "of_int (Min (set ks)) \<le> of_int (sum_list ks) / ?n" "of_int (sum_list ks) / ?n \<le> of_int (Max (set ks))"
    using b n assms(3) by (simp_all add: le_divide_eq divide_le_eq mult.commute)
  show lo: "of_int (Min (set ks)) \<le> f64_round (of_int (sum_list ks) / ?n)"
    and hi: "f64_round (of_int (sum_list ks) / ?n) \<le> of_int (Max (set ks))"
    using f64.between [OF f64_round_int [OF minmax(1)] f64_round_int [OF minmax(2)] q] by simp_all
  have "\<bar>of_int (sum_list ks) / ?n\<bar> \<le> 2 ^ 53"
  proof -
    have "- (2 ^ 53) \<le> (of_int (Min (set ks)) :: rat)" "(of_int (Max (set ks)) :: rat) \<le> 2 ^ 53"
      using minmax by (metis abs_le_iff minus_le_iff of_int_le_iff of_int_minus of_int_numeral of_int_power)+
    then show ?thesis using q unfolding abs_le_iff by linarith
  qed
  then have "f_small (of_int (sum_list ks) / ?n)" by (rule f_small_bound) simp
  moreover have "f_of_int (int (length ks)) = Fin ?n"
    using f_of_int_exact [of "int (length ks)"] assms(4) by simp
  moreover have "fold (\<lambda>v s. f_add s v) vs (Fin 0) = Fin (of_int (sum_list ks))"
    using fold_add_ints [of 0 js] assms(2) by (simp add: js(1) same)
  ultimately show "recent_mean vs = Fin (f64_round (of_int (sum_list ks) / ?n))"
    using assms(3) by (simp add: recent_mean_def js(1) same)
qed

text \<open>
  The downsampled mean of integer values, such as the queue depth. When the values of the last
  minute are integers whose absolute values add up to at most \<open>2 ^ 53\<close>, the order of the ring does
  not matter: one pass appends to the long ring the point with their exact mean, rounded once, and
  it lies between the smallest and the largest of them.
\<close>

theorem downsample_mean:
  assumes "series_rep pts lpts ts" "minute_values now pts = map (\<lambda>k. Fin (of_int k)) ks"
    "ks \<noteq> []" "(\<Sum>k\<leftarrow>ks. \<bar>k\<bar>) \<le> 2 ^ 53"
  shows "\<exists>ts' mean. downsample (now - minute) now' ts = Inr ts'
    \<and> series_rep pts (lpts @ [\<lparr>dp_Timestamp = now', dp_Value = Fin mean\<rparr>]) ts'
    \<and> mean = f64_round (of_int (sum_list ks) / of_nat (length ks))
    \<and> of_int (Min (set ks)) \<le> mean \<and> mean \<le> of_int (Max (set ks))"
proof -
  obtain ts' vs where d: "downsample (now - minute) now' ts = Inr ts'"
    and vs: "mset vs = mset (map (\<lambda>k. Fin (of_int k)) ks)"
    and rep: "series_rep pts (if vs = [] then lpts
        else lpts @ [\<lparr>dp_Timestamp = now', dp_Value = recent_mean vs\<rparr>]) ts'"
    using downsample_rep [OF assms(1), of "now - minute" now'] assms(2) unfolding minute_values_def by metis
  have "length ks = length (minute_values now pts)" using assms(2) by simp
  also have "\<dots> \<le> 300"
    unfolding minute_values_def by (simp add: le_trans [OF length_filter_le])
  finally have "length ks \<le> 300" .
  note mean = recent_mean_ints [OF vs assms(4,3) this]
  have "vs \<noteq> []" using vs assms(3) by auto
  then show ?thesis
    using d rep mean by (intro exI [of _ ts'] exI [of _ "f64_round (of_int (sum_list ks) / of_nat (length ks))"]) simp
qed

theorem downsample_mean_witness:
  "\<exists>ts ts'. timeSeries_Add \<lparr>dp_Timestamp = 10, dp_Value = Fin 3\<rparr> new_timeSeries = Inr ts
     \<and> downsample (20 - minute) 20 ts = Inr ts'
     \<and> series_rep [\<lparr>dp_Timestamp = 10, dp_Value = Fin 3\<rparr>] [\<lparr>dp_Timestamp = 20, dp_Value = Fin 3\<rparr>] ts'"
proof -
  let ?p = "\<lparr>dp_Timestamp = 10, dp_Value = Fin 3\<rparr>"
  obtain ts where ts: "timeSeries_Add ?p new_timeSeries = Inr ts" "series_rep [?p] [] ts"
    using timeSeries_Add_rep [OF series_rep_new, of ?p] by auto
  have "minute_values 20 [?p] = map (\<lambda>k. Fin (of_int k)) [3]"
    by (simp add: minute_values_def in_minute_def zero_time_def)
  from downsample_mean [OF ts(2) this] have "\<exists>ts'. downsample (20 - minute) 20 ts = Inr ts'
      \<and> series_rep [?p] [\<lparr>dp_Timestamp = 20, dp_Value = Fin (f64_round (of_int 3))\<rparr>] ts'"
    by auto
  then show ?thesis using ts(1) f64_round_int [of 3] by auto
qed

section \<open>What the short ring retains\<close>

text \<open>
  Retention. A series that is given a point every \<open>step\<close> keeps the points of the last
  \<open>299 * step\<close> only, and a query for more than five minutes fills in downsampled points only where
  they are older than five minutes: whenever \<open>299 * step\<close> is shorter than five minutes (with the
  default collection interval of 100 ms it is 29.9 s), every history has a hole between the two.
\<close>

theorem retention_gap:
  assumes "agg_rep h a" "fst (h m) = map (\<lambda>i. \<lparr>dp_Timestamp = t0 + int i * step, dp_Value = v i\<rparr>) [0..<n]"
    "0 < t0" "0 < step" "300 \<le> n" "\<forall>p\<in>set (snd (h m)). dp_Timestamp p \<noteq> zero_time"
  shows "\<exists>r. GetHistory now1 now2 m d a = Inr r
    \<and> (\<forall>p\<in>set r. t0 + int (n - 300) * step \<le> dp_Timestamp p
         \<or> (shortWindow < d \<and> dp_Timestamp p < now2 - shortWindow))"
proof -
  have nz: "\<forall>p\<in>set (fst (h m)) \<union> set (snd (h m)). dp_Timestamp p \<noteq> zero_time"
  proof
    fix p assume "p \<in> set (fst (h m)) \<union> set (snd (h m))"
    then show "dp_Timestamp p \<noteq> zero_time"
    proof
      assume "p \<in> set (fst (h m))"
      then obtain i where "p = \<lparr>dp_Timestamp = t0 + int i * step, dp_Value = v i\<rparr>"
        unfolding assms(2) by (auto simp del: DataPoint.simps)
      then have "dp_Timestamp p = t0 + int i * step" by simp
      moreover have "0 \<le> int i * step" using assms(4) by simp
      ultimately show ?thesis using assms(3) by (simp add: zero_time_def)
    qed (use assms(6) in blast)
  qed
  have recent: "t0 + int (n - 300) * step \<le> dp_Timestamp p" if p: "p \<in> set (take 300 (rev (fst (h m))))" for p
  proof -
    have "take 300 (rev (fst (h m))) = rev (drop (n - 300) (fst (h m)))"
      by (simp add: take_rev assms(2))
    then have "p \<in> set (drop (n - 300) (fst (h m)))" using p by simp
    then obtain i where "n - 300 \<le> i" "dp_Timestamp p = t0 + int i * step"
      unfolding assms(2) by (auto simp: drop_map drop_upt)
    then show ?thesis using assms(4) by (simp add: mult_right_mono)
  qed
  have "\<forall>p\<in>set (history_spec now1 now2 d (h m)). t0 + int (n - 300) * step \<le> dp_Timestamp p
      \<or> (shortWindow < d \<and> dp_Timestamp p < now2 - shortWindow)"
    by (auto simp: history_spec_def Let_def dest!: set_takeWhileD recent split: if_splits)
  then show ?thesis using GetHistory_rep [OF assms(1) nz] by blast
qed

lemma agg_rep_exists: "\<exists>a. agg_rep ((\<lambda>_. ([], []))(m := (pts, []))) a"
proof (induction pts rule: rev_induct)
  case Nil
  have "agg_rep (\<lambda>_. ([], [])) NewTimeSeriesAggregator"
    by (simp add: agg_rep_def NewTimeSeriesAggregator_def)
  then show ?case by (auto simp: fun_upd_idem)
next
  case (snoc p pts)
  then obtain a where "agg_rep ((\<lambda>_. ([], []))(m := (pts, []))) a" by blast
  moreover have "\<lparr>dp_Timestamp = dp_Timestamp p, dp_Value = dp_Value p\<rparr> = p" by (cases p) simp
  ultimately show ?case
    using Aggregator_Add_rep [of "(\<lambda>_. ([], []))(m := (pts, []))" a "dp_Timestamp p" m "dp_Value p"]
    by (simp only: fun_upd_same fun_upd_upd fst_conv snd_conv) blast
qed

theorem retention_gap_witness:
  "\<exists>a r. GetHistory (301 * second) (301 * second) ''latency_p99'' (10 * minute) a = Inr r
     \<and> (\<forall>p\<in>set r. 271 * second \<le> dp_Timestamp p \<or> dp_Timestamp p < second)"
proof -
  let ?pts = "map (\<lambda>i. \<lparr>dp_Timestamp = second + int i * (100 * millisecond), dp_Value = Fin 0\<rparr>) [0..<3000]"
  obtain a where "agg_rep ((\<lambda>_. ([], []))(''latency_p99'' := (?pts, []))) a"
    using agg_rep_exists by blast
  from retention_gap [OF this, of "''latency_p99''" second "100 * millisecond" "\<lambda>_. Fin 0" 3000
      "301 * second" "301 * second" "10 * minute"]
  obtain r where "GetHistory (301 * second) (301 * second) ''latency_p99'' (10 * minute) a = Inr r"
    "\<forall>p\<in>set r. second + int (3000 - 300) * (100 * millisecond) \<le> dp_Timestamp p
        \<or> (shortWindow < 10 * minute \<and> dp_Timestamp p < 301 * second - shortWindow)"
    by (simp del: upt_conv_Cons_Cons) blast
  then show ?thesis by (intro exI conjI) auto
qed

end
