(* ===== verification/Collector.thy ===== *)
theory Collector
  imports Complex_Main Batcher Pool Latency Aggregator GoStrings
begin

text \<open>
  internal/metrics/collector.go and exporter.go, the adapter between the worker pool and the
  collector, and the periodic push of cmd/server/main.go. The Prometheus client is third-party
  code: what the collector does to it is the list of the calls it makes, oldest first. Each method
  is one atomic step here: in the code every field of the collector is an atomic of its own.
\<close>

section \<open>Durations in seconds and wall-clock times\<close>

definition duration_seconds :: "duration \<Rightarrow> f64" where
  "duration_seconds d = f_add (f_of_int (d sdiv second)) (f_div (f_of_int (d smod second)) (Fin 1000000000))"

text \<open>\<open>UnixNano\<close> and \<open>time.Unix(0, n)\<close>: the Unix epoch is that many nanoseconds after the zero time.\<close>

definition unix_epoch :: instant where
  "unix_epoch = 62135596800 * second"

definition UnixNano :: "instant \<Rightarrow> int" where
  "UnixNano t = wrap64 (t - unix_epoch)"

definition time_unix_nano :: "int \<Rightarrow> instant" where
  "time_unix_nano n = unix_epoch + n"

lemma time_unix_nano_UnixNano: "i64 (t - unix_epoch) \<Longrightarrow> time_unix_nano (UnixNano t) = t"
  by (simp add: time_unix_nano_def UnixNano_def wrap64_id)

section \<open>collector.go\<close>

datatype prom_call =
    Gauge_Set string "string option" f64
  | Counter_Inc string "string option"
  | Histogram_Observe string f64

record WorkerSnapshot =
  ws_ID :: string
  ws_Status :: int
  ws_CircuitState :: int
  ws_BatchesProcessed :: int
  ws_TokensProcessed :: int

record MetricsSnapshot =
  ms_Timestamp :: instant
  ms_QueueDepth :: int
  ms_LatencyP50Ms :: f64
  ms_LatencyP99Ms :: f64
  ms_ThroughputRPS :: f64
  ms_Workers :: "WorkerSnapshot list"
  ms_UpstreamOK :: bool

text \<open>\<open>co_hasProvider\<close> tells whether \<open>workerProvider\<close> is set; what its two methods answer is an
  argument of \<open>BuildSnapshot\<close>.\<close>

record Collector =
  co_Latency :: LatencyTracker
  co_hasProvider :: bool
  co_requestCount :: int
  co_prevSnapshotTime :: int
  co_queueDepth :: int
  co_prom :: "prom_call list"

definition prom :: "prom_call \<Rightarrow> Collector \<Rightarrow> Collector" where
  "prom call c = c\<lparr>co_prom := co_prom c @ [call]\<rparr>"

definition NewCollector :: "instant \<Rightarrow> int \<Rightarrow> f64 \<Rightarrow> Collector" where
  "NewCollector now latencyWindowSize alpha =
     \<lparr>co_Latency = NewLatencyTracker latencyWindowSize alpha, co_hasProvider = False,
      co_requestCount = 0, co_prevSnapshotTime = UnixNano now, co_queueDepth = 0, co_prom = []\<rparr>"

definition SetWorkerProvider :: "bool \<Rightarrow> Collector \<Rightarrow> Collector" where
  "SetWorkerProvider p c = c\<lparr>co_hasProvider := p\<rparr>"

definition RecordRequest :: "Collector \<Rightarrow> Collector" where
  "RecordRequest c =
     (let c = prom (Counter_Inc ''requests_total'' None) c
      in c\<lparr>co_requestCount := wrap64 (co_requestCount c + 1)\<rparr>)"

definition RecordError :: "Collector \<Rightarrow> Collector" where
  "RecordError c = prom (Counter_Inc ''requests_errors_total'' None) c"

definition RecordBatch :: "int \<Rightarrow> Collector \<Rightarrow> Collector" where
  "RecordBatch batchSize c = prom (Histogram_Observe ''batcher_batch_size'' (f_of_int batchSize)) c"

definition RecordLatency :: "int \<Rightarrow> f64 \<Rightarrow> Collector \<Rightarrow> Collector" where
  "RecordLatency j ms c =
     (let c = prom (Histogram_Observe ''request_latency_ms'' ms) c
      in c\<lparr>co_Latency := Latency_Add j ms (co_Latency c)\<rparr>)"

definition RecordDispatchBlocked :: "string \<Rightarrow> Collector \<Rightarrow> Collector" where
  "RecordDispatchBlocked priority c = prom (Counter_Inc ''batcher_dispatch_blocked_total'' (Some priority)) c"

definition SetQueueDepth :: "int \<Rightarrow> Collector \<Rightarrow> Collector" where
  "SetQueueDepth depth c =
     (let c = prom (Gauge_Set ''batcher_queue_depth'' None (f_of_int depth)) c
      in c\<lparr>co_queueDepth := depth\<rparr>)"

definition SetWorkerStatus :: "string \<Rightarrow> int \<Rightarrow> Collector \<Rightarrow> Collector" where
  "SetWorkerStatus wid status c = prom (Gauge_Set ''worker_utilization'' (Some wid) (f_of_int status)) c"

definition SetCircuitState :: "string \<Rightarrow> int \<Rightarrow> Collector \<Rightarrow> Collector" where
  "SetCircuitState wid state c = prom (Gauge_Set ''circuit_breaker_state'' (Some wid) (f_of_int state)) c"

definition SetUpstreamUnhealthy :: "bool \<Rightarrow> Collector \<Rightarrow> Collector" where
  "SetUpstreamUnhealthy b c =
     (if b then prom (Gauge_Set ''upstream_unhealthy'' None (Fin 1)) c
      else prom (Gauge_Set ''upstream_unhealthy'' None (Fin 0)) c)"

definition BuildSnapshot ::
    "instant \<Rightarrow> WorkerSnapshot list \<times> bool \<Rightarrow> Collector \<Rightarrow> MetricsSnapshot \<times> Collector" where
  "BuildSnapshot now provider c =
     (let prevTime = time_unix_nano (co_prevSnapshotTime c);
          elapsed = duration_seconds (time_sub now prevTime);
          c = c\<lparr>co_prevSnapshotTime := UnixNano now\<rparr>;
          reqs = co_requestCount c;
          c = c\<lparr>co_requestCount := 0\<rparr>;
          rps = (if f_lt (Fin 0) elapsed then f_div (f_of_int reqs) elapsed else Fin 0);
          (workers, upstreamOK) = (if co_hasProvider c then (fst provider, \<not> snd provider) else ([], True))
      in (\<lparr>ms_Timestamp = now, ms_QueueDepth = co_queueDepth c, ms_LatencyP50Ms = P50 (co_Latency c),
           ms_LatencyP99Ms = P99 (co_Latency c), ms_ThroughputRPS = rps, ms_Workers = workers,
           ms_UpstreamOK = upstreamOK\<rparr>, c))"

section \<open>The adapter and the periodic push\<close>

definition GetWorkerSnapshots :: "WorkerPool \<Rightarrow> go_panic + WorkerSnapshot list" where
  "GetWorkerSnapshots p = map_sum id (map (\<lambda>info.
     \<lparr>ws_ID = wi_ID info, ws_Status = wi_Status info, ws_CircuitState = wi_CircuitState info,
      ws_BatchesProcessed = wi_BatchesProcessed info, ws_TokensProcessed = wi_TokensProcessed info\<rparr>)) (GetStatus p)"

definition push_interval :: "duration \<Rightarrow> duration" where
  "push_interval interval = (if interval \<le> 0 then 100 * millisecond else interval)"

text \<open>One tick; \<open>now\<close> gives the clock readings of the snapshot and of the four points.\<close>

definition push_tick ::
    "(nat \<Rightarrow> instant) \<Rightarrow> f64 \<Rightarrow> WorkerPool \<Rightarrow> AdaptiveBatcher \<times> Collector \<times> TimeSeriesAggregator
       \<Rightarrow> go_panic + AdaptiveBatcher \<times> Collector \<times> TimeSeriesAggregator" where
  "push_tick now targetP99Ms pool = (\<lambda>(b, c, agg).
     let queueDepth = QueueDepth b;
         c = SetUpstreamUnhealthy (UpstreamUnhealthy pool) (SetQueueDepth queueDepth c) in
     case (GetStatus pool, GetWorkerSnapshots pool) of
       (Inr infos, Inr workers) \<Rightarrow>
         let c = fold (\<lambda>info c. SetCircuitState (wi_ID info) (wi_CircuitState info)
                   (SetWorkerStatus (wi_ID info) (wi_Status info) c)) infos c;
             (snap, c) = BuildSnapshot (now 0) (workers, UpstreamUnhealthy pool) c in
         (case Aggregator_Add (now 1) ''queue_depth'' (f_of_int queueDepth) agg of Inl e \<Rightarrow> Inl e | Inr agg \<Rightarrow>
         (case Aggregator_Add (now 2) ''latency_p99'' (P99 (co_Latency c)) agg of Inl e \<Rightarrow> Inl e | Inr agg \<Rightarrow>
         (case Aggregator_Add (now 3) ''latency_p99_smoothed'' (P99Smoothed (co_Latency c)) agg of Inl e \<Rightarrow> Inl e | Inr agg \<Rightarrow>
         (case Aggregator_Add (now 4) ''throughput_rps'' (ms_ThroughputRPS snap) agg of Inl e \<Rightarrow> Inl e | Inr agg \<Rightarrow>
           Inr (UpdateStrategyMetrics \<lparr>sm_P99LatencyMs = P99Smoothed (co_Latency c), sm_TargetP99Ms = targetP99Ms\<rparr> b,
                c, agg)))))
     | _ \<Rightarrow> Inl NilDereference)"

section \<open>exporter.go\<close>

text \<open>The verb \<open>%f\<close>: six decimals of the exact value, half to even.\<close>

definition format_micro :: "nat \<Rightarrow> string" where
  "format_micro n =
     (let frac = show_nat (n mod 1000000)
      in show_nat (n div 1000000) @ ''.'' @ replicate (6 - length frac) (CHR ''0'') @ frac)"

fun format_f :: "f64 \<Rightarrow> string" where
  "format_f NaN = ''NaN''"
| "format_f PosInf = ''+Inf''"
| "format_f NegInf = ''-Inf''"
| "format_f (Fin x) = (if x < 0 then ''-'' else '''') @ format_micro (nat (rne (\<bar>x\<bar> * 1000000)))"

text \<open>\<open>format_time\<close> is \<open>Format(time.RFC3339Nano)\<close> in the zone of the machine.\<close>

definition csv_line :: "(instant \<Rightarrow> string) \<Rightarrow> DataPoint \<Rightarrow> string" where
  "csv_line format_time p = format_time (dp_Timestamp p) @ '','' @ format_f (dp_Value p) @ [CHR 0x0A]"

definition CSVExport ::
    "(instant \<Rightarrow> string) \<Rightarrow> instant \<Rightarrow> instant \<Rightarrow> TimeSeriesAggregator \<Rightarrow> string \<Rightarrow> duration \<Rightarrow> go_panic + string" where
  "CSVExport format_time now1 now2 agg metricName duration =
     map_sum id (\<lambda>points. ''timestamp,value'' @ [CHR 0x0A] @ concat (map (csv_line format_time) points))
       (GetHistory now1 now2 metricName duration agg)"

section \<open>What a snapshot counts\<close>

text \<open>The methods of the collector as the steps of its clients.\<close>

datatype collector_call =
    CallRecordRequest
  | CallRecordError
  | CallRecordBatch int
  | CallRecordLatency int f64
  | CallRecordDispatchBlocked string
  | CallSetQueueDepth int
  | CallSetWorkerStatus string int
  | CallSetCircuitState string int
  | CallSetUpstreamUnhealthy bool
  | CallBuildSnapshot instant "WorkerSnapshot list \<times> bool"

fun collector_step :: "collector_call \<Rightarrow> Collector \<Rightarrow> MetricsSnapshot list \<times> Collector" where
  "collector_step CallRecordRequest c = ([], RecordRequest c)"
| "collector_step CallRecordError c = ([], RecordError c)"
| "collector_step (CallRecordBatch n) c = ([], RecordBatch n c)"
| "collector_step (CallRecordLatency j ms) c = ([], RecordLatency j ms c)"
| "collector_step (CallRecordDispatchBlocked p) c = ([], RecordDispatchBlocked p c)"
| "collector_step (CallSetQueueDepth n) c = ([], SetQueueDepth n c)"
| "collector_step (CallSetWorkerStatus w n) c = ([], SetWorkerStatus w n c)"
| "collector_step (CallSetCircuitState w n) c = ([], SetCircuitState w n c)"
| "collector_step (CallSetUpstreamUnhealthy b) c = ([], SetUpstreamUnhealthy b c)"
| "collector_step (CallBuildSnapshot t p) c = (case BuildSnapshot t p c of (s, c) \<Rightarrow> ([s], c))"

fun collector_run :: "collector_call list \<Rightarrow> Collector \<Rightarrow> MetricsSnapshot list \<times> Collector" where
  "collector_run [] c = ([], c)"
| "collector_run (e # es) c =
     (case collector_step e c of (s, c) \<Rightarrow> (case collector_run es c of (ss, c) \<Rightarrow> (s @ ss, c)))"

fun is_snapshot :: "collector_call \<Rightarrow> bool" where
  "is_snapshot (CallBuildSnapshot t p) = True"
| "is_snapshot e = False"

fun depth_after :: "collector_call \<Rightarrow> int \<Rightarrow> int" where
  "depth_after (CallSetQueueDepth n) d = n"
| "depth_after e d = d"

definition requests_in :: "collector_call list \<Rightarrow> int" where
  "requests_in es = int (length (filter (\<lambda>e. e = CallRecordRequest) es))"

lemmas collector_defs = RecordRequest_def RecordError_def RecordBatch_def RecordLatency_def
  RecordDispatchBlocked_def SetQueueDepth_def SetWorkerStatus_def SetCircuitState_def
  SetUpstreamUnhealthy_def prom_def Let_def

lemma collector_run_append:
  "collector_run (es @ fs) c = (case collector_run es c of (s1, c1) \<Rightarrow>
     (case collector_run fs c1 of (s2, c2) \<Rightarrow> (s1 @ s2, c2)))"
  by (induction es arbitrary: c) (auto split: prod.splits)

lemma collector_step_quiet:
  assumes "\<not> is_snapshot e"
  shows "fst (collector_step e c) = [] \<and> co_prevSnapshotTime (snd (collector_step e c)) = co_prevSnapshotTime c
    \<and> co_requestCount (snd (collector_step e c)) =
        (if e = CallRecordRequest then wrap64 (co_requestCount c + 1) else co_requestCount c)
    \<and> co_hasProvider (snd (collector_step e c)) = co_hasProvider c"
  using assms by (cases e) (simp_all add: collector_defs)

lemma collector_step_depth: "co_queueDepth (snd (collector_step e c)) = depth_after e (co_queueDepth c)"
  by (cases e) (simp_all add: collector_defs BuildSnapshot_def split: prod.splits if_splits)

lemma collector_run_depth: "co_queueDepth (snd (collector_run es c)) = fold depth_after es (co_queueDepth c)"
proof (induction es arbitrary: c)
  case (Cons e es)
  then show ?case using collector_step_depth [of e c] by (auto split: prod.splits) (metis snd_conv)
qed simp

lemma collector_run_quiet:
  assumes "\<forall>e\<in>set es. \<not> is_snapshot e" "0 \<le> co_requestCount c" "co_requestCount c + int (length es) < 2 ^ 63"
  shows "fst (collector_run es c) = []
    \<and> co_prevSnapshotTime (snd (collector_run es c)) = co_prevSnapshotTime c
    \<and> co_requestCount (snd (collector_run es c)) = co_requestCount c + requests_in es
    \<and> co_hasProvider (snd (collector_run es c)) = co_hasProvider c"
  using assms
proof (induction es arbitrary: c)
  case Nil
  then show ?case by (simp add: requests_in_def)
next
  case (Cons e es)
  obtain s c1 where step: "collector_step e c = (s, c1)" by (cases "collector_step e c")
  have q: "s = []" "co_prevSnapshotTime c1 = co_prevSnapshotTime c" "co_hasProvider c1 = co_hasProvider c"
    "co_requestCount c1 = (if e = CallRecordRequest then co_requestCount c + 1 else co_requestCount c)"
    using collector_step_quiet [of e c] Cons.prems step wrap64_id [of "co_requestCount c + 1"]
    by (simp_all add: i64_def)
  have "fst (collector_run es c1) = []
    \<and> co_prevSnapshotTime (snd (collector_run es c1)) = co_prevSnapshotTime c1
    \<and> co_requestCount (snd (collector_run es c1)) = co_requestCount c1 + requests_in es
    \<and> co_hasProvider (snd (collector_run es c1)) = co_hasProvider c1"
    using Cons.prems q by (intro Cons.IH) auto
  then show ?case using q step by (auto simp: requests_in_def split: prod.splits)
qed

lemma seconds_zero_rate: "f_lt (Fin 0) y \<Longrightarrow> f_div (f_of_int 0) y = Fin 0"
  using f_of_int_exact [of 0] by (cases y) (simp_all add: f64_of_small f_small_def)

text \<open>
  What a snapshot counts. Between two consecutive snapshots at \<open>t1\<close> and \<open>t2\<close>, whatever else the
  clients of the collector record, the second one's throughput is the number of recorded requests
  over the seconds between them (zero when the clock has not advanced), its depth is the last one
  set, and it leaves the counter at zero, so no request is counted twice. A collector that nobody
  tells of requests reports a throughput of zero for ever.
\<close>

theorem snapshot_counts:
  assumes "\<forall>e\<in>set mid. \<not> is_snapshot e" "int (length mid) < 2 ^ 63" "i64 (t1 - unix_epoch)"
  shows "let (snaps, c) = collector_run (pre @ [CallBuildSnapshot t1 p1] @ mid @ [CallBuildSnapshot t2 p2])
                            (NewCollector t0 window alpha);
             snap = List.last snaps; elapsed = duration_seconds (time_sub t2 t1)
         in ms_Timestamp snap = t2
          \<and> ms_ThroughputRPS snap = (if f_lt (Fin 0) elapsed then f_div (f_of_int (requests_in mid)) elapsed else Fin 0)
          \<and> ms_QueueDepth snap = fold depth_after (pre @ mid) 0
          \<and> co_requestCount c = 0
          \<and> (CallRecordRequest \<notin> set mid \<longrightarrow> ms_ThroughputRPS snap = Fin 0)"
proof -
  obtain s0 c0 where pre: "collector_run pre (NewCollector t0 window alpha) = (s0, c0)" by fastforce
  obtain s1 c1 where one: "BuildSnapshot t1 p1 c0 = (s1, c1)" by fastforce
  have c1: "co_requestCount c1 = 0" "co_prevSnapshotTime c1 = UnixNano t1" "co_queueDepth c1 = co_queueDepth c0"
    using one by (auto simp: BuildSnapshot_def Let_def split: prod.splits if_splits)
  obtain s2 c2 where mid: "collector_run mid c1 = (s2, c2)" by fastforce
  have c2: "s2 = []" "co_prevSnapshotTime c2 = UnixNano t1" "co_requestCount c2 = requests_in mid"
    using collector_run_quiet [OF assms(1), of c1] assms(2) c1 mid by simp_all
  have depth: "co_queueDepth c2 = fold depth_after (pre @ mid) 0"
    using collector_run_depth [of pre "NewCollector t0 window alpha"] collector_run_depth [of mid c1] pre mid c1(3)
    by (simp add: NewCollector_def)
  obtain s3 c3 where two: "BuildSnapshot t2 p2 c2 = (s3, c3)" by fastforce
  have run: "collector_run (pre @ [CallBuildSnapshot t1 p1] @ mid @ [CallBuildSnapshot t2 p2])
      (NewCollector t0 window alpha) = (s0 @ [s1] @ [s3], c3)"
    using pre one mid two c2(1) by (simp add: collector_run_append)
  have "ms_Timestamp s3 = t2" "co_requestCount c3 = 0" "ms_QueueDepth s3 = co_queueDepth c2"
    "ms_ThroughputRPS s3 = (if f_lt (Fin 0) (duration_seconds (time_sub t2 t1))
       then f_div (f_of_int (requests_in mid)) (duration_seconds (time_sub t2 t1)) else Fin 0)"
    using two time_unix_nano_UnixNano [OF assms(3)] c2
    by (auto simp: BuildSnapshot_def Let_def split: prod.splits if_splits)
  moreover have "requests_in mid = 0" if "CallRecordRequest \<notin> set mid"
    using that by (auto simp: requests_in_def filter_empty_conv)
  ultimately show ?thesis
    using run depth seconds_zero_rate by simp
qed

theorem snapshot_counts_witness:
  "let (snaps, c) = collector_run ([] @ [CallBuildSnapshot unix_epoch ([], False)]
         @ [CallRecordRequest, CallRecordLatency 0 (Fin 12), CallRecordRequest]
         @ [CallBuildSnapshot (unix_epoch + 2 * second) ([], False)]) (NewCollector unix_epoch 100 (Fin 1))
   in ms_ThroughputRPS (List.last snaps) = Fin 1 \<and> co_requestCount c = 0"
proof -
  have "duration_seconds (time_sub (unix_epoch + 2 * second) unix_epoch) = Fin 2"
    using f_of_int_exact [of 2] f_of_int_exact [of 0] f64_round_int [of 2]
    by (simp add: duration_seconds_def time_sub_def f_small_def signed_divide_int_def signed_modulo_int_def)
  moreover have "f_div (f_of_int 2) (Fin 2) = Fin 1"
    using f_of_int_exact [of 2] f64_round_int [of 1] by (simp add: f_small_def)
  ultimately show ?thesis
    using snapshot_counts [of "[CallRecordRequest, CallRecordLatency 0 (Fin 12), CallRecordRequest]" unix_epoch "[]"
        "([], False)" "unix_epoch + 2 * second" "([], False)" unix_epoch 100 "Fin 1"]
    by (simp add: i64_def requests_in_def Let_def case_prod_beta
        del: collector_run.simps append_Nil append_Cons append.simps)
qed

section \<open>One tick of the push\<close>

lemma worker_gauges:
  fixes infos :: "WorkerInfo list"
  defines "f \<equiv> \<lambda>info c. SetCircuitState (wi_ID info) (wi_CircuitState info) (SetWorkerStatus (wi_ID info) (wi_Status info) c)"
  shows "fold f infos c = c\<lparr>co_prom := co_prom c @ concat (map (\<lambda>info.
      [Gauge_Set ''worker_utilization'' (Some (wi_ID info)) (f_of_int (wi_Status info)),
       Gauge_Set ''circuit_breaker_state'' (Some (wi_ID info)) (f_of_int (wi_CircuitState info))]) infos)\<rparr>"
  by (induction infos arbitrary: c) (simp_all add: f_def collector_defs)

definition with_point :: "string \<Rightarrow> instant \<Rightarrow> f64 \<Rightarrow> histories \<Rightarrow> histories" where
  "with_point m t v h = h(m := (fst (h m) @ [\<lparr>dp_Timestamp = t, dp_Value = v\<rparr>], snd (h m)))"

lemma BuildSnapshot_after:
  assumes "BuildSnapshot now provider c = (snap, c')"
  shows "c' = c\<lparr>co_prevSnapshotTime := UnixNano now, co_requestCount := 0\<rparr>"
    "co_requestCount c = 0 \<Longrightarrow> ms_ThroughputRPS snap = Fin 0"
  using assms seconds_zero_rate by (auto simp: BuildSnapshot_def Let_def split: prod.splits if_splits)

lemma Aggregator_Add_point:
  "agg_rep h a \<Longrightarrow> \<exists>a'. Aggregator_Add t m v a = Inr a' \<and> agg_rep (with_point m t v h) a'"
  unfolding with_point_def by (rule Aggregator_Add_rep)

text \<open>What the gauges of a tick are set to, and what a tick leaves.\<close>

definition push_gauges :: "int \<Rightarrow> bool \<Rightarrow> WorkerInfo list \<Rightarrow> prom_call list" where
  "push_gauges depth unhealthy infos =
     [Gauge_Set ''batcher_queue_depth'' None (f_of_int depth),
      Gauge_Set ''upstream_unhealthy'' None (Fin (if unhealthy then 1 else 0))]
     @ concat (map (\<lambda>info. [Gauge_Set ''worker_utilization'' (Some (wi_ID info)) (f_of_int (wi_Status info)),
         Gauge_Set ''circuit_breaker_state'' (Some (wi_ID info)) (f_of_int (wi_CircuitState info))]) infos)"

lemma push_tick_run:
  assumes "GetStatus pool = Inr infos" "agg_rep h agg"
  obtains c' agg' rps where
    "push_tick now target pool (b, c, agg)
       = Inr (b\<lparr>ab_metrics := Some \<lparr>sm_P99LatencyMs = lt_p99Smoothed (co_Latency c), sm_TargetP99Ms = target\<rparr>\<rparr>, c', agg')"
    "c' = c\<lparr>co_queueDepth := QueueDepth b, co_prevSnapshotTime := UnixNano (now 0), co_requestCount := 0,
       co_prom := co_prom c @ push_gauges (QueueDepth b) (UpstreamUnhealthy pool) infos\<rparr>"
    "agg_rep (with_point ''throughput_rps'' (now 4) rps
        (with_point ''latency_p99_smoothed'' (now 3) (lt_p99Smoothed (co_Latency c))
        (with_point ''latency_p99'' (now 2) (lt_p99 (co_Latency c))
        (with_point ''queue_depth'' (now 1) (f_of_int (QueueDepth b)) h)))) agg'"
    "co_requestCount c = 0 \<longrightarrow> rps = Fin 0"
proof -
  obtain ws where ws: "GetWorkerSnapshots pool = Inr ws" using assms(1) by (auto simp: GetWorkerSnapshots_def)
  define c2 where "c2 = fold (\<lambda>info c. SetCircuitState (wi_ID info) (wi_CircuitState info)
      (SetWorkerStatus (wi_ID info) (wi_Status info) c)) infos
      (SetUpstreamUnhealthy (UpstreamUnhealthy pool) (SetQueueDepth (QueueDepth b) c))"
  have c2: "c2 = c\<lparr>co_queueDepth := QueueDepth b,
      co_prom := co_prom c @ push_gauges (QueueDepth b) (UpstreamUnhealthy pool) infos\<rparr>"
    unfolding c2_def worker_gauges by (simp add: push_gauges_def collector_defs)
  obtain snap c3 where s: "BuildSnapshot (now 0) (ws, UpstreamUnhealthy pool) c2 = (snap, c3)" by fastforce
  have c3: "c3 = c2\<lparr>co_prevSnapshotTime := UnixNano (now 0), co_requestCount := 0\<rparr>"
    and rps: "co_requestCount c = 0 \<Longrightarrow> ms_ThroughputRPS snap = Fin 0"
    using BuildSnapshot_after [OF s] by (simp_all add: c2)
  have lt: "co_Latency c3 = co_Latency c" by (simp add: c3 c2)
  obtain a1 where a1: "Aggregator_Add (now 1) ''queue_depth'' (f_of_int (QueueDepth b)) agg = Inr a1"
      "agg_rep (with_point ''queue_depth'' (now 1) (f_of_int (QueueDepth b)) h) a1"
    using Aggregator_Add_point [OF assms(2)] by blast
  obtain a2 where a2: "Aggregator_Add (now 2) ''latency_p99'' (lt_p99 (co_Latency c)) a1 = Inr a2"
      "agg_rep (with_point ''latency_p99'' (now 2) (lt_p99 (co_Latency c))
         (with_point ''queue_depth'' (now 1) (f_of_int (QueueDepth b)) h)) a2"
    using Aggregator_Add_point [OF a1(2)] by blast
  obtain a3 where a3: "Aggregator_Add (now 3) ''latency_p99_smoothed'' (lt_p99Smoothed (co_Latency c)) a2 = Inr a3"
      "agg_rep (with_point ''latency_p99_smoothed'' (now 3) (lt_p99Smoothed (co_Latency c))
         (with_point ''latency_p99'' (now 2) (lt_p99 (co_Latency c))
         (with_point ''queue_depth'' (now 1) (f_of_int (QueueDepth b)) h))) a3"
    using Aggregator_Add_point [OF a2(2)] by blast
  obtain a4 where a4: "Aggregator_Add (now 4) ''throughput_rps'' (ms_ThroughputRPS snap) a3 = Inr a4"
      "agg_rep (with_point ''throughput_rps'' (now 4) (ms_ThroughputRPS snap)
         (with_point ''latency_p99_smoothed'' (now 3) (lt_p99Smoothed (co_Latency c))
         (with_point ''latency_p99'' (now 2) (lt_p99 (co_Latency c))
         (with_point ''queue_depth'' (now 1) (f_of_int (QueueDepth b)) h)))) a4"
    using Aggregator_Add_point [OF a3(2)] by blast
  have "push_tick now target pool (b, c, agg)
      = Inr (b\<lparr>ab_metrics := Some \<lparr>sm_P99LatencyMs = lt_p99Smoothed (co_Latency c), sm_TargetP99Ms = target\<rparr>\<rparr>, c3, a4)"
    using assms(1) ws s a1(1) a2(1) a3(1) a4(1) lt
    by (simp add: push_tick_def c2_def [symmetric] P99_def P99Smoothed_def UpdateStrategyMetrics_def Let_def)
  then show thesis using that a4(2) rps by (simp add: c3 c2)
qed

text \<open>
  C32: One tick of the metrics push. When the pool's status can be read, the tick never panics. The
  strategy's next input is the smoothed p99 with the configured target; the collector's depth is the
  batcher's and two gauges are set for each worker, the upstream gauge last set to the pool's flag;
  exactly one point goes into each of the four series the dashboard reads; and the tick consumes the
  request count, so the throughput point covers the time since any previous snapshot.
\<close>

theorem push_tick_correct:
  assumes "GetStatus pool = Inr infos" "agg_rep h agg"
  shows "\<exists>b' c' agg' rps. push_tick now target pool (b, c, agg) = Inr (b', c', agg')
    \<and> b' = b\<lparr>ab_metrics := Some \<lparr>sm_P99LatencyMs = lt_p99Smoothed (co_Latency c), sm_TargetP99Ms = target\<rparr>\<rparr>
    \<and> co_queueDepth c' = QueueDepth b \<and> co_requestCount c' = 0 \<and> co_Latency c' = co_Latency c
    \<and> co_prom c' = co_prom c @ [Gauge_Set ''batcher_queue_depth'' None (f_of_int (QueueDepth b)),
          Gauge_Set ''upstream_unhealthy'' None (Fin (if UpstreamUnhealthy pool then 1 else 0))]
        @ concat (map (\<lambda>info. [Gauge_Set ''worker_utilization'' (Some (wi_ID info)) (f_of_int (wi_Status info)),
            Gauge_Set ''circuit_breaker_state'' (Some (wi_ID info)) (f_of_int (wi_CircuitState info))]) infos)
    \<and> agg_rep (with_point ''throughput_rps'' (now 4) rps
        (with_point ''latency_p99_smoothed'' (now 3) (lt_p99Smoothed (co_Latency c))
        (with_point ''latency_p99'' (now 2) (lt_p99 (co_Latency c))
        (with_point ''queue_depth'' (now 1) (f_of_int (QueueDepth b)) h)))) agg'"
proof -
  obtain c' agg' rps where
    "push_tick now target pool (b, c, agg)
       = Inr (b\<lparr>ab_metrics := Some \<lparr>sm_P99LatencyMs = lt_p99Smoothed (co_Latency c), sm_TargetP99Ms = target\<rparr>\<rparr>, c', agg')"
    "c' = c\<lparr>co_queueDepth := QueueDepth b, co_prevSnapshotTime := UnixNano (now 0), co_requestCount := 0,
       co_prom := co_prom c @ push_gauges (QueueDepth b) (UpstreamUnhealthy pool) infos\<rparr>"
    "agg_rep (with_point ''throughput_rps'' (now 4) rps
        (with_point ''latency_p99_smoothed'' (now 3) (lt_p99Smoothed (co_Latency c))
        (with_point ''latency_p99'' (now 2) (lt_p99 (co_Latency c))
        (with_point ''queue_depth'' (now 1) (f_of_int (QueueDepth b)) h)))) agg'"
    using push_tick_run [OF assms] by blast
  then show ?thesis by (auto simp: push_gauges_def)
qed

theorem push_tick_correct_witness:
  "\<forall>b. \<exists>b' c' agg'. push_tick (\<lambda>i. int i + 1) (Fin 100)
        (NewWorkerPool (cfg_Workers default_config) (cfg_Health default_config) (cfg_Upstream default_config))
        (b, NewCollector 0 1000 (Fin 1), NewTimeSeriesAggregator) = Inr (b', c', agg')
      \<and> co_queueDepth c' = QueueDepth b"
proof
  fix b
  let ?p = "NewWorkerPool (cfg_Workers default_config) (cfg_Health default_config) (cfg_Upstream default_config)"
  obtain infos where i: "GetStatus ?p = Inr infos"
    using status_walk_inv [OF NewWorkerPool_inv(1), of 0] by (auto simp: GetStatus_def)
  have a: "agg_rep (\<lambda>_. ([], [])) NewTimeSeriesAggregator"
    by (simp add: agg_rep_def NewTimeSeriesAggregator_def)
  show "\<exists>b' c' agg'. push_tick (\<lambda>i. int i + 1) (Fin 100) ?p
        (b, NewCollector 0 1000 (Fin 1), NewTimeSeriesAggregator) = Inr (b', c', agg')
      \<and> co_queueDepth c' = QueueDepth b"
    using push_tick_correct [OF i a, of "\<lambda>i. int i + 1" "Fin 100" b "NewCollector 0 1000 (Fin 1)"] by blast
qed

section \<open>The CSV export reads back\<close>

lemma digits_not: "\<not> is_digit c \<Longrightarrow> c \<notin> set (show_nat n)"
  using show_nat_digits by blast

lemma format_micro_chars: "c \<in> set (format_micro n) \<Longrightarrow> is_digit c \<or> c = CHR ''.''"
  by (auto simp: format_micro_def Let_def is_digit_def dest: show_nat_digits)

lemma format_f_chars:
  "CHR '','' \<notin> set (format_f v)" "CHR 0x0A \<notin> set (format_f v)"
  by (cases v; auto simp: is_digit_def dest!: format_micro_chars)+

text \<open>Without the point the digits are the number of millionths.\<close>

lemma read_format_micro: "read_nat (filter (\<lambda>c. c \<noteq> CHR ''.'') (format_micro n)) = n"
proof -
  have dot: "\<not> is_digit (CHR ''.'')" by (simp add: is_digit_def)
  have keep: "filter (\<lambda>c. c \<noteq> CHR ''.'') (show_nat m) = show_nat m" for m
    using digits_not [OF dot, of m] by (intro filter_True) auto
  let ?f = "show_nat (n mod 1000000)"
  have len: "length (replicate (6 - length ?f) (CHR ''0'') @ ?f) = 6"
    using length_show_nat [of "n mod 1000000" 6] by simp
  have "filter (\<lambda>c. c \<noteq> CHR ''.'') (format_micro n)
      = show_nat (n div 1000000) @ (replicate (6 - length ?f) (CHR ''0'') @ ?f)"
    by (simp add: format_micro_def Let_def keep)
  moreover have "read_nat (show_nat (n div 1000000) @ (replicate (6 - length ?f) (CHR ''0'') @ ?f))
      = n div 1000000 * 10 ^ 6 + n mod 1000000"
    by (subst read_nat_append) (simp only: len read_nat_zeros read_show_nat)
  ultimately show ?thesis by simp
qed

text \<open>
  The CSV export reads back. When the time format uses neither commas nor line breaks, splitting
  the export into lines and the lines at their commas gives the header and then, for each point of
  the history in order, its two formatted columns, with nothing after the last line break; and the
  digits of the second column are the value in millionths, rounded once.
\<close>

theorem csv_roundtrip:
  assumes "\<forall>t. CHR '','' \<notin> set (format_time t) \<and> CHR 0x0A \<notin> set (format_time t)"
    "GetHistory now1 now2 m d agg = Inr points"
  shows "\<exists>csv. CSVExport format_time now1 now2 agg m d = Inr csv
    \<and> map (split_on (CHR '','')) (split_on (CHR 0x0A) csv)
        = [''timestamp'', ''value''] # map (\<lambda>p. [format_time (dp_Timestamp p), format_f (dp_Value p)]) points @ [['''']]
    \<and> (\<forall>p\<in>set points. \<forall>x. dp_Value p = Fin x \<and> 0 \<le> x \<longrightarrow>
          read_nat (filter (\<lambda>c. c \<noteq> CHR ''.'') (format_f (dp_Value p))) = nat (rne (x * 1000000)))"
proof -
  let ?line = "\<lambda>p. format_time (dp_Timestamp p) @ CHR '','' # format_f (dp_Value p)"
  let ?ws = "''timestamp,value'' # map ?line points"
  have csv: "CSVExport format_time now1 now2 agg m d = Inr (concat (map (\<lambda>w. w @ [CHR 0x0A]) ?ws))"
    by (simp add: CSVExport_def assms(2) comp_def csv_line_def [abs_def])
  have "CHR 0x0A \<notin> set (?line p)" for p using assms(1) format_f_chars by simp
  then have lines: "split_on (CHR 0x0A) (concat (map (\<lambda>w. w @ [CHR 0x0A]) ?ws)) = ?ws @ [[]]"
    by (intro split_lines) auto
  have cols: "split_on (CHR '','') (?line p) = [format_time (dp_Timestamp p), format_f (dp_Value p)]" for p
    using assms(1) by (simp add: split_on_append split_on_word format_f_chars)
  show ?thesis
    unfolding csv by (rule exI, rule conjI [OF refl], unfold lines) (auto simp: cols comp_def read_format_micro)
qed

theorem csv_roundtrip_witness:
  "\<exists>csv. CSVExport (\<lambda>t. show_nat (nat t)) 0 0 NewTimeSeriesAggregator ''queue_depth'' minute = Inr csv
     \<and> split_on (CHR 0x0A) csv = [''timestamp,value'', '''']"
proof -
  have ft: "\<forall>t. CHR '','' \<notin> set (show_nat (nat t)) \<and> CHR 0x0A \<notin> set (show_nat (nat t))"
    using digits_not by (simp add: is_digit_def)
  have h: "GetHistory 0 0 ''queue_depth'' minute NewTimeSeriesAggregator = Inr []"
    by (simp add: GetHistory_def NewTimeSeriesAggregator_def)
  from csv_roundtrip [OF ft h] show ?thesis
    by (auto simp: CSVExport_def h)
qed

end
