(* ===== verification/Runner.thy ===== *)
theory Runner
  imports MockUpstream Handlers Collector
begin

text \<open>
  simulation/runner.go: one run of a scenario against the production components. \<open>Run\<close> starts one
  goroutine per generated request, so a run is a sequence of steps: the main loop starts a
  goroutine, a goroutine submits, a goroutine gets out of its \<open>select\<close>, the strategy metrics are
  pushed, and the batcher's own goroutine leaves the batcher in another state. The wait group is the number of goroutines that have not returned.
\<close>

section \<open>The result accumulator\<close>

record SimulationResult =
  sr_ScenarioName :: string
  sr_StrategyName :: string
  sr_Duration :: duration
  sr_TotalRequests :: int
  sr_TotalErrors :: int
  sr_ErrorRate :: f64
  sr_ThroughputRPS :: f64
  sr_LatencyP50Ms :: f64
  sr_LatencyP90Ms :: f64
  sr_LatencyP99Ms :: f64
  sr_AvgBatchSize :: f64

record resultAccumulator =
  ra_latencies :: "f64 list"
  ra_submitted :: int
  ra_completed :: int
  ra_errors :: int

definition newResultAccumulator :: resultAccumulator where
  "newResultAccumulator = \<lparr>ra_latencies = [], ra_submitted = 0, ra_completed = 0, ra_errors = 0\<rparr>"

definition recordLatency :: "f64 \<Rightarrow> resultAccumulator \<Rightarrow> resultAccumulator" where
  "recordLatency ms r =
     (let r = r\<lparr>ra_completed := wrap64 (ra_completed r + 1)\<rparr> in r\<lparr>ra_latencies := ra_latencies r @ [ms]\<rparr>)"

definition recordError :: "resultAccumulator \<Rightarrow> resultAccumulator" where
  "recordError r = r\<lparr>ra_errors := wrap64 (ra_errors r + 1)\<rparr>"

definition percentile :: "(f64 \<Rightarrow> int) \<Rightarrow> f64 list \<Rightarrow> f64 \<Rightarrow> f64" where
  "percentile oob samples p =
     (if length samples = 0 then Fin 0
      else
        let idx = f_to_i64 oob (f_div (f_mul (f_of_int (int (length samples))) p) (Fin 100));
            idx = (if int (length samples) \<le> idx then int (length samples) - 1 else idx);
            idx = (if idx < 0 then 0 else idx)
        in samples ! nat idx)"

definition build ::
    "(f64 \<Rightarrow> int) \<Rightarrow> Scenario \<Rightarrow> Strategy option \<Rightarrow> duration \<Rightarrow> AdaptiveBatcher \<Rightarrow> resultAccumulator \<Rightarrow> SimulationResult" where
  "build oob scenario strategy elapsed adaptive r =
     (let samples = sort (ra_latencies r);
          submitted = ra_submitted r;
          errs = ra_errors r;
          errRate = (if 0 < submitted then f_div (f_of_int errs) (f_of_int submitted) else Fin 0);
          rps = (if 0 < elapsed then f_div (f_of_int (wrap64 (submitted - errs))) (duration_seconds elapsed) else Fin 0);
          strategyName = (case strategy of None \<Rightarrow> '''' | Some s \<Rightarrow> Name s);
          bm = Metrics adaptive
      in \<lparr>sr_ScenarioName = sc_Name scenario, sr_StrategyName = strategyName, sr_Duration = elapsed,
          sr_TotalRequests = submitted, sr_TotalErrors = errs, sr_ErrorRate = errRate, sr_ThroughputRPS = rps,
          sr_LatencyP50Ms = percentile oob samples (Fin 50), sr_LatencyP90Ms = percentile oob samples (Fin 90),
          sr_LatencyP99Ms = percentile oob samples (Fin 99), sr_AvgBatchSize = bm_AvgBatchSize bm\<rparr>)"

section \<open>One request\<close>

text \<open>
  \<open>handleRequest\<close> up to its \<open>select\<close>, and from there. The flag tells whether it goes on to the
  \<open>select\<close>; \<open>j\<close> is the random number of the latency reservoir.
\<close>

definition handleRequest_submit ::
    "error option \<Rightarrow> InferenceRequest \<Rightarrow> AdaptiveBatcher \<times> Collector \<times> resultAccumulator
       \<Rightarrow> (bool \<times> AdaptiveBatcher \<times> Collector \<times> resultAccumulator) outcome" where
  "handleRequest_submit ctx_err req = (\<lambda>(adaptive, collector, out).
     let collector = RecordRequest collector in
     and_then (Batcher.Submit ctx_err (Some req) adaptive) (\<lambda>(err, adaptive).
       if err \<noteq> None then Ret (False, adaptive, RecordError collector, recordError out)
       else Ret (True, adaptive, collector, out)))"

definition handleRequest_wait ::
    "int \<Rightarrow> handler_wake \<Rightarrow> Collector \<times> resultAccumulator \<Rightarrow> Collector \<times> resultAccumulator" where
  "handleRequest_wait j wake = (\<lambda>(collector, out).
     case wake of
       GotResult None \<Rightarrow> (RecordError collector, recordError out)
     | GotResult (Some res) \<Rightarrow>
         if res_Error res \<noteq> None then (RecordError collector, recordError out)
         else (RecordLatency j (res_LatencyMs res) collector, recordLatency (res_LatencyMs res) out)
     | CtxDone \<Rightarrow> (RecordError collector, recordError out))"

section \<open>Setting up and running\<close>

definition simRequestTimeout :: duration where "simRequestTimeout = 5 * second"

definition cloneConfigForSim :: "Config \<Rightarrow> string \<Rightarrow> Config" where
  "cloneConfigForSim src mock_url =
     (let dup = src;
          dup = dup\<lparr>cfg_Upstream := (cfg_Upstream src)\<lparr>up_URL := mock_url @ ''/v1/batch''\<rparr>\<rparr>;
          dup = dup\<lparr>cfg_Upstream := (cfg_Upstream dup)\<lparr>up_HealthPath := mock_HealthPath\<rparr>\<rparr>
      in if up_RequestTimeout (cfg_Upstream src) \<le> 0 \<or> simRequestTimeout < up_RequestTimeout (cfg_Upstream src)
         then dup\<lparr>cfg_Upstream := (cfg_Upstream dup)\<lparr>up_RequestTimeout := simRequestTimeout\<rparr>\<rparr>
         else dup)"

definition strategy_push :: "f64 \<Rightarrow> Collector \<Rightarrow> AdaptiveBatcher \<Rightarrow> AdaptiveBatcher" where
  "strategy_push targetP99Ms c b =
     UpdateStrategyMetrics \<lparr>sm_P99LatencyMs = P99Smoothed (co_Latency c), sm_TargetP99Ms = targetP99Ms\<rparr> b"

text \<open>The runner's adapter between pool and collector, a copy of the server's.\<close>

definition poolWorkerAdapter_GetWorkerSnapshots :: "WorkerPool \<Rightarrow> go_panic + WorkerSnapshot list" where
  "poolWorkerAdapter_GetWorkerSnapshots pool =
     (case GetStatus pool of
        Inl e \<Rightarrow> Inl e
      | Inr infos \<Rightarrow> Inr (map (\<lambda>info.
          \<lparr>ws_ID = wi_ID info, ws_Status = wi_Status info, ws_CircuitState = wi_CircuitState info,
           ws_BatchesProcessed = wi_BatchesProcessed info, ws_TokensProcessed = wi_TokensProcessed info\<rparr>) infos))"

lemma adapters_agree: "poolWorkerAdapter_GetWorkerSnapshots pool = GetWorkerSnapshots pool"
  by (simp add: poolWorkerAdapter_GetWorkerSnapshots_def GetWorkerSnapshots_def split: sum.split)

record sim_state =
  sim_batcher :: AdaptiveBatcher
  sim_collector :: Collector
  sim_out :: resultAccumulator
  sim_started :: "InferenceRequest list"
  sim_waiting :: "InferenceRequest list"

text \<open>The components of a run, with the strategy at an address of the store.\<close>

definition sim_init :: "Config \<Rightarrow> string \<Rightarrow> instant \<Rightarrow> nat \<Rightarrow> Strategy \<Rightarrow> results \<Rightarrow> sim_state \<times> WorkerPool" where
  "sim_init template mock_url now addr strategy results =
     (let cfg = cloneConfigForSim template mock_url;
          collector = NewCollector now (mc_PercentileWindowSize (cfg_Metrics cfg)) (mc_P99SmoothingAlpha (cfg_Metrics cfg));
          pool = NewWorkerPool (cfg_Workers cfg) (cfg_Health cfg) (cfg_Upstream cfg);
          collector = SetWorkerProvider True collector;
          adaptive = NewAdaptiveBatcher (NewBatcherConfig (cfg_Batching cfg) (cfg_Workers cfg)) (Some addr)
            (\<lambda>i. if i < 4 then Some (BatchChans pool i) else None) (\<lambda>_. strategy) results;
          adaptive = SetDispatchBlockedHook True adaptive
      in (\<lparr>sim_batcher = adaptive, sim_collector = collector, sim_out = newResultAccumulator,
           sim_started = [], sim_waiting = []\<rparr>, pool))"

datatype sim_event =
    SimRequest InferenceRequest
  | SimSubmit nat "error option"
  | SimReturn nat int handler_wake
  | SimPush f64
  | SimBatcher AdaptiveBatcher

definition remove_nth :: "nat \<Rightarrow> 'a list \<Rightarrow> 'a list" where
  "remove_nth i xs = take i xs @ drop (Suc i) xs"

fun sim_step :: "sim_event \<Rightarrow> sim_state \<Rightarrow> sim_state outcome" where
  "sim_step (SimRequest req) s =
     Ret (s\<lparr>sim_out := (sim_out s)\<lparr>ra_submitted := wrap64 (ra_submitted (sim_out s) + 1)\<rparr>,
            sim_started := sim_started s @ [req]\<rparr>)"
| "sim_step (SimSubmit i ctx_err) s =
     (if \<not> i < length (sim_started s) then NotReady
      else and_then (handleRequest_submit ctx_err (sim_started s ! i) (sim_batcher s, sim_collector s, sim_out s))
        (\<lambda>(goes_on, b, c, out). Ret (s\<lparr>sim_batcher := b, sim_collector := c, sim_out := out,
           sim_started := remove_nth i (sim_started s),
           sim_waiting := (if goes_on then sim_waiting s @ [sim_started s ! i] else sim_waiting s)\<rparr>)))"
| "sim_step (SimReturn i j wake) s =
     (if \<not> i < length (sim_waiting s) then NotReady
      else case handleRequest_wait j wake (sim_collector s, sim_out s) of
        (c, out) \<Rightarrow> Ret (s\<lparr>sim_collector := c, sim_out := out, sim_waiting := remove_nth i (sim_waiting s)\<rparr>))"
| "sim_step (SimPush target) s = Ret (s\<lparr>sim_batcher := strategy_push target (sim_collector s) (sim_batcher s)\<rparr>)"
| "sim_step (SimBatcher b) s = Ret (s\<lparr>sim_batcher := b\<rparr>)"

fun sim_run :: "sim_event list \<Rightarrow> sim_state \<Rightarrow> sim_state outcome" where
  "sim_run [] s = Ret s"
| "sim_run (e # es) s = and_then (sim_step e s) (sim_run es)"

text \<open>The goroutines that have not returned: the counter of the wait group.\<close>

definition inflight :: "sim_state \<Rightarrow> int" where
  "inflight s = int (length (sim_started s)) + int (length (sim_waiting s))"

section \<open>Accounting\<close>

lemma length_remove_nth: "i < length xs \<Longrightarrow> length (remove_nth i xs) = length xs - 1"
  by (simp add: remove_nth_def)

fun is_request :: "sim_event \<Rightarrow> bool" where
  "is_request (SimRequest r) = True"
| "is_request e = False"

text \<open>
  The account of a run of which \<open>n\<close> requests were generated and \<open>k\<close> steps taken: every request is
  completed, failed or in flight, and the collector has heard of the ones whose goroutine began.
\<close>

definition sim_inv :: "nat \<Rightarrow> nat \<Rightarrow> sim_state \<Rightarrow> bool" where
  "sim_inv n k s \<longleftrightarrow> n \<le> k \<and> qm_inv (ab_qm (sim_batcher s))
     \<and> ra_submitted (sim_out s) = int n
     \<and> int n = ra_completed (sim_out s) + ra_errors (sim_out s) + inflight s
     \<and> int (length (ra_latencies (sim_out s))) = ra_completed (sim_out s)
     \<and> 0 \<le> ra_errors (sim_out s)
     \<and> co_requestCount (sim_collector s) = int n - int (length (sim_started s))
     \<and> lt_count (co_Latency (sim_collector s)) = ra_completed (sim_out s)"

lemma RecordError_fields [simp]:
  "co_requestCount (RecordError c) = co_requestCount c" "co_Latency (RecordError c) = co_Latency c"
  by (simp_all add: collector_defs)

lemma RecordLatency_fields [simp]:
  "co_requestCount (RecordLatency j ms c) = co_requestCount c"
  "lt_count (co_Latency (RecordLatency j ms c)) = wrap64 (lt_count (co_Latency c) + 1)"
  by (simp_all add: collector_defs Latency_Add_def)

lemma RecordRequest_fields [simp]:
  "co_requestCount (RecordRequest c) = wrap64 (co_requestCount c + 1)" "co_Latency (RecordRequest c) = co_Latency c"
  by (simp_all add: collector_defs)

lemma Submit_qm_inv:
  assumes "qm_inv (ab_qm b)"
  obtains err b' where "Batcher.Submit ctx_err (Some r) b = Ret (err, b')" "qm_inv (ab_qm b')"
proof (cases "ab_stopping b \<or> ctx_err \<noteq> None")
  case True
  then show ?thesis using that assms
    by (cases "ab_stopping b"; cases ctx_err) (auto simp: Submit_whole)
next
  case False
  obtain e qm where "QueueMatrix_Submit (Some r) (ab_qm b) = Inr (e, qm)" "qm_inv qm"
    using Submit_inv [OF assms] by blast
  then show ?thesis using that False by (cases e) (auto simp: Submit_whole)
qed

lemma sim_inv_range:
  assumes "sim_inv n k s" "int k < 2 ^ 62"
  shows "wrap64 (ra_submitted (sim_out s) + 1) = int n + 1"
    "wrap64 (ra_completed (sim_out s) + 1) = ra_completed (sim_out s) + 1"
    "wrap64 (ra_errors (sim_out s) + 1) = ra_errors (sim_out s) + 1"
    "wrap64 (co_requestCount (sim_collector s) + 1) = co_requestCount (sim_collector s) + 1"
    "wrap64 (lt_count (co_Latency (sim_collector s)) + 1) = lt_count (co_Latency (sim_collector s)) + 1"
  using assms by (auto simp: sim_inv_def inflight_def i64_def intro!: wrap64_id)

lemma sim_step_inv:
  assumes "sim_inv n k s" "int k < 2 ^ 62" "\<forall>b. e = SimBatcher b \<longrightarrow> qm_inv (ab_qm b)"
  shows "safe (sim_inv (if is_request e then Suc n else n) (Suc k)) (sim_step e s)"
proof (cases e)
  case (SimRequest req)
  then show ?thesis using assms(1) sim_inv_range [OF assms(1,2)]
    by (simp add: sim_inv_def inflight_def)
next
  case (SimSubmit i ctx_err)
  show ?thesis
  proof (cases "i < length (sim_started s)")
    case True
    have "qm_inv (ab_qm (sim_batcher s))" using assms(1) by (simp add: sim_inv_def)
    then obtain err b' where sub: "Batcher.Submit ctx_err (Some (sim_started s ! i)) (sim_batcher s) = Ret (err, b')"
      "qm_inv (ab_qm b')"
      by (rule Submit_qm_inv)
    then show ?thesis
      using SimSubmit True assms(1) sim_inv_range [OF assms(1,2)] length_remove_nth [OF True]
      by (cases err) (auto simp: sim_inv_def inflight_def handleRequest_submit_def recordError_def of_nat_diff)
  qed (simp add: SimSubmit)
next
  case (SimReturn i j wake)
  show ?thesis
  proof (cases "i < length (sim_waiting s)")
    case True
    have "sim_inv n (Suc k) (s\<lparr>sim_collector := c, sim_out := out, sim_waiting := remove_nth i (sim_waiting s)\<rparr>)"
      if "handleRequest_wait j wake (sim_collector s, sim_out s) = (c, out)" for c out
      using that assms(1) sim_inv_range [OF assms(1,2)] length_remove_nth [OF True] True
      by (auto simp: sim_inv_def inflight_def handleRequest_wait_def recordError_def recordLatency_def Let_def of_nat_diff
          split: handler_wake.splits option.splits if_splits)
    then show ?thesis using SimReturn True by (auto split: prod.split)
  qed (simp add: SimReturn)
next
  case (SimPush target)
  then show ?thesis using assms(1)
    by (simp add: sim_inv_def inflight_def strategy_push_def UpdateStrategyMetrics_def)
next
  case (SimBatcher b)
  then show ?thesis using assms(1,3) by (simp add: sim_inv_def inflight_def)
qed

lemma sim_run_inv:
  assumes "sim_inv n k s" "int k + int (length es) < 2 ^ 62" "\<forall>b. SimBatcher b \<in> set es \<longrightarrow> qm_inv (ab_qm b)"
  shows "safe (sim_inv (n + length (filter is_request es)) (k + length es)) (sim_run es s)"
  using assms
proof (induction es arbitrary: n k s)
  case (Cons e es)
  define n' where "n' = (if is_request e then Suc n else n)"
  have step: "safe (sim_inv n' (Suc k)) (sim_step e s)"
    unfolding n'_def by (rule sim_step_inv [OF Cons.prems(1)]) (use Cons.prems in auto)
  show ?case
    unfolding sim_run.simps
  proof (rule safe_and_then [OF step])
    fix s' assume "sim_inv n' (Suc k) s'"
    then have "safe (sim_inv (n' + length (filter is_request es)) (Suc k + length es)) (sim_run es s')"
      by (rule Cons.IH) (use Cons.prems in auto)
    then show "safe (sim_inv (n + length (filter is_request (e # es))) (k + length (e # es))) (sim_run es s')"
      by (cases "is_request e") (simp_all add: n'_def)
  qed
qed simp

lemma sim_init_inv: "sim_inv 0 0 (fst (sim_init template mock_url now addr strategy results))"
  by (simp add: sim_inv_def inflight_def sim_init_def Let_def newResultAccumulator_def NewAdaptiveBatcher_def
      SetDispatchBlockedHook_def NewQueueMatrix_inv NewCollector_def SetWorkerProvider_def NewLatencyTracker_def)

text \<open>
  The accounts of a run. Whatever the order in which requests are generated, submitted and
  answered, the metrics are pushed and the batcher works, a run never panics and never hangs (its
  outcome may only be that a step was not possible), and every generated request is counted exactly
  once: as completed with its latency, as an error, or as one of the goroutines still in flight. The
  collector's own counters agree: it has heard of every request whose goroutine began, and its
  latency tracker of every completion.
\<close>

theorem run_accounts:
  assumes "int (length es) < 2 ^ 62" "\<forall>b. SimBatcher b \<in> set es \<longrightarrow> qm_inv (ab_qm b)"
  shows "case sim_run es (fst (sim_init template mock_url now addr strategy results)) of
      Ret s \<Rightarrow>
        (let out = sim_out s in
         ra_submitted out = int (length (filter is_request es))
         \<and> ra_submitted out = ra_completed out + ra_errors out + inflight s
         \<and> ra_completed out = int (length (ra_latencies out))
         \<and> co_requestCount (sim_collector s) = ra_submitted out - int (length (sim_started s))
         \<and> SampleCount (co_Latency (sim_collector s)) = ra_completed out)
    | NotReady \<Rightarrow> True
    | _ \<Rightarrow> False"
proof -
  have s: "safe (sim_inv (length (filter is_request es)) (length es)) (sim_run es (fst (sim_init template mock_url now addr strategy results)))"
    using sim_run_inv [OF sim_init_inv, of es] assms by simp
  have nw: "sim_run es st \<noteq> Waiting" for st
  proof (induction es arbitrary: st)
    case (Cons e es)
    have "sim_step e st \<noteq> Waiting"
      by (cases e) (auto simp: handleRequest_submit_def Let_def and_then_Waiting split: prod.split)
    then show ?case using Cons by (cases "sim_step e st") simp_all
  qed simp
  show ?thesis
    using s nw by (cases "sim_run es (fst (sim_init template mock_url now addr strategy results))")
      (simp_all add: sim_inv_def Let_def SampleCount_def)
qed

section \<open>The result of a run\<close>

text \<open>The runner's percentile is the latency tracker's, with index 0 where the latter would panic.\<close>

lemma percentile_pctile:
  "percentile oob samples p = (case pctile oob samples p of Inr x \<Rightarrow> x | Inl e \<Rightarrow> samples ! 0)"
  by (simp add: percentile_def pctile_def Let_def)

lemma percentile_pick:
  assumes "samples \<noteq> []" "int (length samples) \<le> 2 ^ 50" "0 \<le> p" "p \<le> 100"
  shows "percentile oob samples (Fin p) = samples ! pct_index (length samples) p"
  using pctile_eq [of samples p oob] assms by (simp add: percentile_pctile)

lemma error_rate_unit:
  assumes "0 \<le> e" "e \<le> n" "0 < n" "n \<le> 2 ^ 50"
  shows "\<exists>x. f_div (f_of_int e) (f_of_int n) = Fin x \<and> 0 \<le> x \<and> x \<le> 1"
proof -
  have f: "f_of_int e = Fin (of_int e)" "f_of_int n = Fin (of_int n)"
    by (rule f_of_int_exact, use assms in simp)+
  have q: "0 \<le> (of_int e :: rat) / of_int n" "(of_int e :: rat) / of_int n \<le> 1"
    using assms by (simp_all add: divide_le_eq)
  have "f_small (of_int e / of_int n)" by (rule f_small_bound [of _ 1]) (use q in \<open>simp_all add: abs_if\<close>)
  then show ?thesis using f assms(3) f64.unit_interval [OF q] by simp
qed

text \<open>The percentiles of a result are elements of the latencies, in order, and the last agrees with the tracker's.\<close>

lemma build_percentiles:
  assumes "int (length (ra_latencies out)) \<le> 2 ^ 50" "xs = ra_latencies out" "r = build oob scenario strategy elapsed b out"
  shows "(xs = [] \<longrightarrow> sr_LatencyP50Ms r = Fin 0 \<and> sr_LatencyP90Ms r = Fin 0 \<and> sr_LatencyP99Ms r = Fin 0)
    \<and> (xs \<noteq> [] \<longrightarrow> {sr_LatencyP50Ms r, sr_LatencyP90Ms r, sr_LatencyP99Ms r} \<subseteq> set xs
         \<and> sr_LatencyP50Ms r \<le> sr_LatencyP90Ms r \<and> sr_LatencyP90Ms r \<le> sr_LatencyP99Ms r)
    \<and> pctile oob (sort xs) (Fin 99) = Inr (sr_LatencyP99Ms r)"
proof -
  have per: "sr_LatencyP50Ms r = percentile oob (sort xs) (Fin 50)" "sr_LatencyP90Ms r = percentile oob (sort xs) (Fin 90)"
    "sr_LatencyP99Ms r = percentile oob (sort xs) (Fin 99)"
    by (simp_all add: assms(2,3) build_def Let_def)
  have len: "int (length xs) \<le> 2 ^ 50" using assms(1,2) by simp
  define pick where "pick = (\<lambda>p. sort xs ! pct_index (length xs) p)"
  have pk: "percentile oob (sort xs) (Fin p) = pick p" if "xs \<noteq> []" "0 \<le> p" "p \<le> 100" for p
    using percentile_pick [of "sort xs" p oob] that len by (simp add: pick_def) (metis length_0_conv length_sort)
  have mem: "pick p \<in> set xs" if "xs \<noteq> []" for p
    using pct_index_less [of "length xs" p] nth_mem [of "pct_index (length xs) p" "sort xs"] that by (simp add: pick_def)
  have ord: "pick p \<le> pick p'" if "xs \<noteq> []" "p \<le> p'" for p p'
    unfolding pick_def using pct_index_less [of "length xs" p'] pct_index_mono [OF that(2), of "length xs"] that(1)
    by (intro sorted_nth_mono) simp_all
  have "sr_LatencyP50Ms r = Fin 0 \<and> sr_LatencyP90Ms r = Fin 0 \<and> sr_LatencyP99Ms r = Fin 0" if "xs = []"
    by (simp add: per that percentile_def)
  moreover have "{sr_LatencyP50Ms r, sr_LatencyP90Ms r, sr_LatencyP99Ms r} \<subseteq> set xs
         \<and> sr_LatencyP50Ms r \<le> sr_LatencyP90Ms r \<and> sr_LatencyP90Ms r \<le> sr_LatencyP99Ms r" if "xs \<noteq> []"
    using mem [OF that] ord [OF that] pk [OF that] by (simp add: per)
  moreover have "pctile oob (sort xs) (Fin 99) = Inr (sr_LatencyP99Ms r)"
    using pctile_eq [of "sort xs" 99 oob] pk [of 99] len by (cases "xs = []") (simp_all add: per pick_def pctile_def percentile_def)
  ultimately show ?thesis by blast
qed

text \<open>
  The result of a run. Its totals are the generated requests and the errors among them, its error
  rate lies between 0 and 1, and its throughput is the number of requests that have not failed over
  the seconds elapsed: the completed ones and any goroutine still in flight when the grace period
  ends. With no completion the percentiles are 0; otherwise they are latencies of the run, ordered,
  and the very ones that the latency tracker of the server would pick from these samples.
\<close>

theorem run_result:
  assumes "sim_run es (fst (sim_init template mock_url now addr strategy results)) = Ret s"
    and "int (length es) \<le> 2 ^ 50" "\<forall>b. SimBatcher b \<in> set es \<longrightarrow> qm_inv (ab_qm b)" "0 < elapsed"
  shows "let out = sim_out s; r = build oob scenario strategy' elapsed (sim_batcher s) out; xs = ra_latencies out in
    sr_TotalRequests r = int (length (filter is_request es))
    \<and> sr_TotalErrors r = sr_TotalRequests r - int (length xs) - inflight s
    \<and> (\<exists>x. sr_ErrorRate r = Fin x \<and> 0 \<le> x \<and> x \<le> 1)
    \<and> sr_ThroughputRPS r = f_div (f_of_int (int (length xs) + inflight s)) (duration_seconds elapsed)
    \<and> (xs = [] \<longrightarrow> sr_LatencyP50Ms r = Fin 0 \<and> sr_LatencyP90Ms r = Fin 0 \<and> sr_LatencyP99Ms r = Fin 0)
    \<and> (xs \<noteq> [] \<longrightarrow> {sr_LatencyP50Ms r, sr_LatencyP90Ms r, sr_LatencyP99Ms r} \<subseteq> set xs
         \<and> sr_LatencyP50Ms r \<le> sr_LatencyP90Ms r \<and> sr_LatencyP90Ms r \<le> sr_LatencyP99Ms r)
    \<and> pctile oob (sort xs) (Fin 99) = Inr (sr_LatencyP99Ms r)"
proof -
  define out where "out = sim_out s"
  define xs where "xs = ra_latencies out"
  define r where "r = build oob scenario strategy' elapsed (sim_batcher s) out"
  have "safe (sim_inv (length (filter is_request es)) (length es)) (sim_run es (fst (sim_init template mock_url now addr strategy results)))"
    using sim_run_inv [OF sim_init_inv, of es] assms(2,3) by simp
  then have inv: "sim_inv (length (filter is_request es)) (length es) s" using assms(1) by simp
  define n where "n = int (length (filter is_request es))"
  have fl: "0 \<le> inflight s" by (simp add: inflight_def)
  have "int (length (filter is_request es)) \<le> int (length es)" by simp
  then have n50: "n \<le> 2 ^ 50" using assms(2) unfolding n_def by linarith
  have n: "0 \<le> n" "n \<le> 2 ^ 50" "ra_submitted out = n" "n = int (length xs) + ra_errors out + inflight s" "0 \<le> ra_errors out"
    using inv n50 by (auto simp: sim_inv_def n_def out_def xs_def)
  have wr: "wrap64 (n - ra_errors out) = int (length xs) + inflight s"
    using n fl by (subst wrap64_id) (simp_all add: i64_def)
  have tot: "sr_TotalRequests r = n" "sr_TotalErrors r = ra_errors out"
    "sr_ThroughputRPS r = f_div (f_of_int (int (length xs) + inflight s)) (duration_seconds elapsed)"
    "sr_ErrorRate r = (if 0 < n then f_div (f_of_int (ra_errors out)) (f_of_int n) else Fin 0)"
    using assms(4) by (simp_all add: r_def build_def Let_def n(3) wr)
  have rate: "\<exists>x. sr_ErrorRate r = Fin x \<and> 0 \<le> x \<and> x \<le> 1"
    using error_rate_unit [of "ra_errors out" n] n fl tot(4) by (cases "0 < n") simp_all
  have len: "int (length xs) \<le> 2 ^ 50" using n fl by simp
  note pct = build_percentiles [OF len [unfolded xs_def] xs_def r_def]
  have errs: "sr_TotalErrors r = sr_TotalRequests r - int (length xs) - inflight s"
    using tot(1,2) n(4) by linarith
  show ?thesis
    unfolding Let_def out_def [symmetric] r_def [symmetric] xs_def [symmetric] n_def [symmetric]
    using tot(1) errs rate tot(3) pct by (intro conjI) simp_all
qed

section \<open>Witnesses\<close>

definition sample_sim :: sim_state where
  "sample_sim = fst (sim_init default_config ''http://127.0.0.1:9'' 0 0 (SFixed (NewFixedStrategy 5 32)) (\<lambda>_. NewResultChan))"

theorem run_accounts_witness:
  "case sim_run [SimRequest client_req, SimRequest client_req, SimSubmit 1 None] sample_sim of
     Ret s \<Rightarrow> ra_submitted (sim_out s) = 2 \<and> co_requestCount (sim_collector s) = 2 - int (length (sim_started s))
   | NotReady \<Rightarrow> True
   | _ \<Rightarrow> False"
proof -
  have l: "int (length [SimRequest client_req, SimRequest client_req, SimSubmit 1 None]) < 2 ^ 62"
    "\<forall>b. SimBatcher b \<in> set [SimRequest client_req, SimRequest client_req, SimSubmit 1 None] \<longrightarrow> qm_inv (ab_qm b)"
    by simp_all
  have c: "length (filter is_request [SimRequest client_req, SimRequest client_req, SimSubmit 1 None]) = 2" by simp
  show ?thesis
    using run_accounts [OF l, of default_config "''http://127.0.0.1:9''" 0 0 "SFixed (NewFixedStrategy 5 32)" "\<lambda>_. NewResultChan"]
    unfolding c sample_sim_def [symmetric]
    by (auto simp: Let_def split: outcome.splits)
qed

theorem run_result_witness:
  "\<exists>s. sim_run [SimRequest client_req, SimSubmit 0 (Some ContextCanceled)] sample_sim = Ret s
     \<and> sr_TotalErrors (build (\<lambda>_. 0) SteadyState None second (sim_batcher s) (sim_out s)) = 1"
proof -
  have b: "sim_started sample_sim = []" "sim_waiting sample_sim = []" "\<not> ab_stopping (sim_batcher sample_sim)"
    by (simp_all add: sample_sim_def sim_init_def Let_def NewAdaptiveBatcher_def SetDispatchBlockedHook_def)
  obtain s where s: "sim_run [SimRequest client_req, SimSubmit 0 (Some ContextCanceled)] sample_sim = Ret s"
    "sim_started s = []" "sim_waiting s = []" "ra_latencies (sim_out s) = []"
    using b by (simp add: handleRequest_submit_def Submit_whole Let_def remove_nth_def recordError_def
        sample_sim_def sim_init_def newResultAccumulator_def)
  show ?thesis
    using run_result [OF s(1) [unfolded sample_sim_def], where elapsed = second and scenario = SteadyState and strategy' = None and oob = "\<lambda>_. 0"] s
    by (simp add: Let_def inflight_def)
qed

end
