(* ===== verification/SimulatorCli.thy ===== *)
theory SimulatorCli
  imports Runner Config
begin

text \<open>
  cmd/simulator/main.go: the comparison matrix of scenarios and strategies and its output, and the
  routing of cmd/dashboard/main.go. The flags, the file system and the writers are arguments: \<open>abs_path\<close> is
  \<open>filepath.Abs\<close>, \<open>chdir\<close> the system call, \<open>load\<close> the result of \<open>config.Load\<close> in that directory, \<open>quote\<close>
  the verb \<open>%q\<close>, \<open>run_one\<close> the method \<open>Runner.Run\<close>, which carries the state of the world along.
\<close>

section \<open>The arguments\<close>

definition allStrategyNames :: "string list" where
  "allStrategyNames = [''fixed'', ''queue_depth'', ''latency_aware'']"

definition allScenarioNames :: "string list" where
  "allScenarioNames = [''steady_state'', ''ramp_up'', ''spike_test'', ''mixed_priority'', ''long_tail'']"

fun contains :: "string list \<Rightarrow> string \<Rightarrow> bool" where
  "contains [] needle = False"
| "contains (s # haystack) needle = (if s = needle then True else contains haystack needle)"

fun resolve_loop ::
    "(string \<Rightarrow> string) \<Rightarrow> string list \<Rightarrow> string \<Rightarrow> string list \<Rightarrow> string set \<Rightarrow> string list \<Rightarrow> error + string list" where
  "resolve_loop quote known label [] seen out = Inr out"
| "resolve_loop quote known label (p # parts) seen out =
     (let name = TrimSpace p in
      if name = '''' then resolve_loop quote known label parts seen out
      else if \<not> contains known name then
        Inl (OtherError (''unknown '' @ label @ '' '' @ quote name @ '' (known: '' @ join_on (CHR '','') known @ '')''))
      else if name \<in> seen then resolve_loop quote known label parts seen out
      else resolve_loop quote known label parts (insert name seen) (out @ [name]))"

definition resolveList :: "(string \<Rightarrow> string) \<Rightarrow> string \<Rightarrow> string list \<Rightarrow> string \<Rightarrow> error + string list" where
  "resolveList quote arg known label =
     (if arg = '''' \<or> arg = ''all'' then Inr known
      else
        (case resolve_loop quote known label (split_on (CHR '','') arg) {} [] of
           Inl err \<Rightarrow> Inl err
         | Inr out \<Rightarrow> if length out = 0 then Inl (OtherError (''no '' @ label @ '' selected'')) else Inr out))"

definition resolveScenarios :: "(string \<Rightarrow> string) \<Rightarrow> string \<Rightarrow> error + string list" where
  "resolveScenarios quote arg = resolveList quote arg allScenarioNames ''scenarios''"

definition resolveStrategies :: "(string \<Rightarrow> string) \<Rightarrow> string \<Rightarrow> error + string list" where
  "resolveStrategies quote arg = resolveList quote arg allStrategyNames ''strategies''"

text \<open>\<open>filepath.Split\<close>: after the last separator.\<close>

definition path_split :: "string \<Rightarrow> string \<times> string" where
  "path_split path = (let base = rev (takeWhile (\<lambda>c. c \<noteq> CHR ''/'') (rev path))
     in (take (length path - length base) path, base))"

definition loadConfig ::
    "(string \<Rightarrow> string) \<Rightarrow> (string \<Rightarrow> error + string) \<Rightarrow> (string \<Rightarrow> error option) \<Rightarrow> (string option \<Rightarrow> error + Config)
       \<Rightarrow> string \<Rightarrow> error + Config" where
  "loadConfig quote abs_path chdir load path =
     (let finish = (\<lambda>dir. case load dir of
            Inl err \<Rightarrow> Inl (OtherError (''load config: '' @ Error err))
          | Inr cfg \<Rightarrow> Inr cfg)
      in if path \<noteq> '''' \<and> path \<noteq> ''config.yaml'' then
           (case abs_path path of
              Inl err \<Rightarrow> Inl (OtherError (''resolve --config path: '' @ Error err))
            | Inr a \<Rightarrow>
                let (dir, base) = path_split a in
                if base \<noteq> ''config.yaml'' then
                  Inl (OtherError (''--config must point to a file named config.yaml (got '' @ quote base @ '')''))
                else
                  (case chdir dir of
                     Some err \<Rightarrow> Inl (OtherError (''chdir to '' @ quote dir @ '': '' @ Error err))
                   | None \<Rightarrow> finish (Some dir)))
         else finish None)"

section \<open>The output\<close>

text \<open>\<open>FormatFloat\<close> with the verb f: the exact value rounded half to even at \<open>prec\<close> decimals.\<close>

definition format_fixed :: "nat \<Rightarrow> nat \<Rightarrow> string" where
  "format_fixed prec n =
     (let frac = show_nat (n mod 10 ^ prec)
      in show_nat (n div 10 ^ prec) @ ''.'' @ replicate (prec - length frac) (CHR ''0'') @ frac)"

fun formatFloat :: "f64 \<Rightarrow> nat \<Rightarrow> string" where
  "formatFloat NaN prec = ''NaN''"
| "formatFloat PosInf prec = ''+Inf''"
| "formatFloat NegInf prec = ''-Inf''"
| "formatFloat (Fin x) prec = (if x < 0 then ''-'' else '''') @ format_fixed prec (nat (rne (\<bar>x\<bar> * 10 ^ prec)))"

definition FormatInt :: "int \<Rightarrow> string" where
  "FormatInt n = (if n < 0 then ''-'' @ show_nat (nat (- n)) else show_nat (nat n))"

text \<open>A row of the table, before the tab writer aligns it, and the rows of the CSV.\<close>

definition table_header :: "string list" where
  "table_header = [''Scenario'', ''Strategy'', ''RPS'', ''P50'', ''P90'', ''P99'', ''ErrorRate'', ''AvgBatch'']"

definition table_row :: "SimulationResult \<Rightarrow> string list" where
  "table_row r =
     [sr_ScenarioName r, sr_StrategyName r, formatFloat (sr_ThroughputRPS r) 1, formatFloat (sr_LatencyP50Ms r) 2,
      formatFloat (sr_LatencyP90Ms r) 2, formatFloat (sr_LatencyP99Ms r) 2,
      formatFloat (f_mul (sr_ErrorRate r) (Fin 100)) 2 @ ''%'', formatFloat (sr_AvgBatchSize r) 2]"

definition csv_header :: "string list" where
  "csv_header =
     [''scenario'', ''strategy'', ''duration_ms'', ''total_requests'', ''total_errors'', ''error_rate'',
      ''throughput_rps'', ''latency_p50_ms'', ''latency_p90_ms'', ''latency_p99_ms'', ''avg_batch_size'']"

definition csv_row :: "SimulationResult \<Rightarrow> string list" where
  "csv_row r =
     [sr_ScenarioName r, sr_StrategyName r, FormatInt (duration_ms (sr_Duration r)), FormatInt (sr_TotalRequests r),
      FormatInt (sr_TotalErrors r), formatFloat (sr_ErrorRate r) 4, formatFloat (sr_ThroughputRPS r) 2,
      formatFloat (sr_LatencyP50Ms r) 2, formatFloat (sr_LatencyP90Ms r) 2, formatFloat (sr_LatencyP99Ms r) 2,
      formatFloat (sr_AvgBatchSize r) 2]"

text \<open>The quoting of \<open>encoding/csv\<close> for a writer with its default settings.\<close>

definition field_needs_quotes :: "string \<Rightarrow> bool" where
  "field_needs_quotes field \<longleftrightarrow> field \<noteq> '''' \<and>
     (field = [CHR 0x5C, CHR ''.''] \<or> list_ex (\<lambda>c. c \<in> {CHR 0x0A, CHR 0x0D, CHR 0x22, CHR '',''}) field
      \<or> list_ex (has_prefix field) white_spaces)"

definition csv_field :: "string \<Rightarrow> string" where
  "csv_field field =
     (if field_needs_quotes field
      then CHR 0x22 # concat (map (\<lambda>c. if c = CHR 0x22 then [CHR 0x22, CHR 0x22] else [c]) field) @ [CHR 0x22]
      else field)"

definition csv_record :: "string list \<Rightarrow> string" where
  "csv_record cols = join_on (CHR '','') (map csv_field cols) @ [CHR 0x0A]"

definition writeCSV :: "SimulationResult list \<Rightarrow> string" where
  "writeCSV results = csv_record csv_header @ concat (map (\<lambda>r. csv_record (csv_row r)) results)"

datatype sim_output = OutTable "string list list" | OutCSV string | OutJSON "SimulationResult list"

definition writeOutput :: "(string \<Rightarrow> string) \<Rightarrow> string \<Rightarrow> SimulationResult list \<Rightarrow> error + sim_output" where
  "writeOutput quote format results =
     (if format = '''' \<or> format = ''table'' then Inr (OutTable (table_header # map table_row results))
      else if format = ''csv'' then Inr (OutCSV (writeCSV results))
      else if format = ''json'' then Inr (OutJSON results)
      else Inl (OtherError (''unknown output format '' @ quote format @ '' (want table|csv|json)'')))"

section \<open>The matrix\<close>

text \<open>The two nested loops, over the pairs in their order; \<open>ctx_err k\<close> is the context's error at the \<open>k\<close>-th.\<close>

fun run_matrix ::
    "(string \<Rightarrow> string) \<Rightarrow> Config \<Rightarrow> (nat \<Rightarrow> error option) \<Rightarrow> (Scenario \<Rightarrow> Strategy \<Rightarrow> 'w \<Rightarrow> SimulationResult \<times> 'w)
       \<Rightarrow> nat \<Rightarrow> (string \<times> string) list \<Rightarrow> SimulationResult list \<Rightarrow> 'w \<Rightarrow> (error + SimulationResult list) \<times> 'w" where
  "run_matrix quote cfg ctx_err run_one k [] results w = (Inr results, w)"
| "run_matrix quote cfg ctx_err run_one k ((sname, stratName) # rest) results w =
     (case ctx_err k of
        Some e \<Rightarrow> (Inl e, w)
      | None \<Rightarrow>
          (case ScenarioByName sname of
             Inl e \<Rightarrow> (Inl e, w)
           | Inr scenario \<Rightarrow>
               (case simulator_buildStrategy quote stratName (cfg_Batching cfg) of
                  Inl e \<Rightarrow> (Inl e, w)
                | Inr strategy \<Rightarrow>
                    let (res, w) = run_one scenario strategy w
                    in run_matrix quote cfg ctx_err run_one (k + 1) rest (results @ [res]) w)))"

definition runSimulator ::
    "(string \<Rightarrow> string) \<Rightarrow> error + Config \<Rightarrow> (nat \<Rightarrow> error option) \<Rightarrow> (Config \<Rightarrow> Scenario \<Rightarrow> Strategy \<Rightarrow> 'w \<Rightarrow> SimulationResult \<times> 'w)
       \<Rightarrow> string \<Rightarrow> string \<Rightarrow> string \<Rightarrow> 'w \<Rightarrow> (error + sim_output) \<times> 'w" where
  "runSimulator quote loaded ctx_err run_one scenariosArg strategiesArg output w =
     (case loaded of
        Inl err \<Rightarrow> (Inl err, w)
      | Inr cfg \<Rightarrow>
          (case resolveScenarios quote scenariosArg of
             Inl err \<Rightarrow> (Inl err, w)
           | Inr scenarioNames \<Rightarrow>
               (case resolveStrategies quote strategiesArg of
                  Inl err \<Rightarrow> (Inl err, w)
                | Inr strategyNames \<Rightarrow>
                    (case run_matrix quote cfg ctx_err (run_one cfg) 0
                        [(s, t). s \<leftarrow> scenarioNames, t \<leftarrow> strategyNames] [] w of
                       (Inl err, w) \<Rightarrow> (Inl err, w)
                     | (Inr results, w) \<Rightarrow> (writeOutput quote output results, w)))))"

section \<open>The dashboard command\<close>

definition dashboard_wsURL :: "string \<Rightarrow> string" where
  "dashboard_wsURL apiURL = (let wsURL = TrimSpace apiURL in if wsURL = '''' then ''ws://localhost:8080/ws'' else wsURL)"

datatype dashboard_page = IndexPage string | StaticFile string

definition buildMux :: "string \<Rightarrow> string \<Rightarrow> dashboard_page" where
  "buildMux wsURL path = (if path = ''/'' \<or> path = ''/index.html'' then IndexPage wsURL else StaticFile path)"

section \<open>Resolving a list of names\<close>

lemma contains_iff: "contains known name \<longleftrightarrow> name \<in> set known"
  by (induction known name rule: contains.induct) auto

text \<open>The names of an argument: its trimmed parts that are not empty.\<close>

definition arg_names :: "string \<Rightarrow> string list" where
  "arg_names arg = filter (\<lambda>n. n \<noteq> '''') (map TrimSpace (split_on (CHR '','') arg))"

text \<open>First occurrences only, in order, without the ones already seen.\<close>

fun firsts :: "'a set \<Rightarrow> 'a list \<Rightarrow> 'a list" where
  "firsts seen [] = []"
| "firsts seen (x # xs) = (if x \<in> seen then firsts seen xs else x # firsts (insert x seen) xs)"

lemma firsts_set: "set (firsts seen xs) = set xs - seen"
  by (induction seen xs rule: firsts.induct) auto

lemma firsts_distinct: "distinct (firsts seen xs)"
  by (induction seen xs rule: firsts.induct) (auto simp: firsts_set)

lemma firsts_seen: "seen \<inter> set xs = {} \<Longrightarrow> distinct xs \<Longrightarrow> firsts seen xs = xs"
  by (induction seen xs rule: firsts.induct) auto

lemma resolve_loop_eq:
  "resolve_loop quote known label parts seen out =
     (let names = filter (\<lambda>n. n \<noteq> '''') (map TrimSpace parts) in
      case find (\<lambda>n. n \<notin> set known) names of
        Some name \<Rightarrow> Inl (OtherError (''unknown '' @ label @ '' '' @ quote name @ '' (known: '' @ join_on (CHR '','') known @ '')''))
      | None \<Rightarrow> Inr (out @ firsts seen names))"
  by (induction quote known label parts seen out rule: resolve_loop.induct)
    (auto simp: contains_iff Let_def split: option.splits)

text \<open>Selected names, joined again, select themselves.\<close>

lemma resolve_again:
  assumes "\<forall>n\<in>set out. n \<noteq> '''' \<and> n \<noteq> ''all'' \<and> TrimSpace n = n \<and> CHR '','' \<notin> set n"
    and "out \<noteq> []" "distinct out" "set out \<subseteq> set known"
  shows "resolveList quote (join_on (CHR '','') out) known label = Inr out"
proof -
  have parts: "split_on (CHR '','') (join_on (CHR '','') out) = out" using assms(1,2) by (intro split_join) auto
  have trimmed: "map TrimSpace out = out" using assms(1) by (simp add: map_idI)
  have "filter (\<lambda>n. n \<noteq> '''') (map TrimSpace out) = out" using assms(1) unfolding trimmed by (intro filter_True) auto
  then have names: "arg_names (join_on (CHR '','') out) = out" by (simp add: arg_names_def parts)
  have "join_on (CHR '','') out \<noteq> ''''" using parts assms(1,2) by (metis list.set_intros(1) split_on.simps(1))
  moreover have "join_on (CHR '','') out \<noteq> ''all''"
  proof
    assume "join_on (CHR '','') out = ''all''"
    then have "out = [''all'']" using parts by simp
    then show False using assms(1) by simp
  qed
  moreover have "find (\<lambda>n. n \<notin> set known) out = None" using assms(4) by (auto simp: find_None_iff)
  moreover have "firsts {} out = out" using assms(3) by (intro firsts_seen) simp_all
  ultimately show ?thesis
    using names assms(2) by (simp add: resolveList_def resolve_loop_eq arg_names_def Let_def)
qed

text \<open>
  The arguments of the simulator. An empty argument or \<open>all\<close> selects every known name. Otherwise
  the parts between commas are trimmed and the empty ones skipped; the first unknown name is
  reported, an argument with no name at all is refused, and what is accepted are the names in the
  order of their first occurrence, each once: a list without repetitions that a second call, given
  the names joined with commas, returns unchanged.
\<close>

theorem resolveList_correct:
  assumes "\<forall>n\<in>set known. n \<noteq> '''' \<and> n \<noteq> ''all'' \<and> TrimSpace n = n \<and> CHR '','' \<notin> set n"
  shows "case resolveList quote arg known label of
      Inl err \<Rightarrow> arg \<noteq> '''' \<and> arg \<noteq> ''all''
        \<and> (case find (\<lambda>n. n \<notin> set known) (arg_names arg) of
             Some name \<Rightarrow> err = OtherError (''unknown '' @ label @ '' '' @ quote name @ '' (known: '' @ join_on (CHR '','') known @ '')'')
           | None \<Rightarrow> arg_names arg = [] \<and> err = OtherError (''no '' @ label @ '' selected''))
    | Inr out \<Rightarrow>
        out = (if arg = '''' \<or> arg = ''all'' then known else firsts {} (arg_names arg))
        \<and> (arg \<noteq> '''' \<and> arg \<noteq> ''all'' \<longrightarrow> out \<noteq> [] \<and> distinct out \<and> set out = set (arg_names arg) \<and> set out \<subseteq> set known
             \<and> resolveList quote (join_on (CHR '','') out) known label = Inr out)"
proof (cases "arg = '''' \<or> arg = ''all''")
  case True
  then show ?thesis by (auto simp: resolveList_def)
next
  case False
  let ?names = "arg_names arg"
  show ?thesis
  proof (cases "find (\<lambda>n. n \<notin> set known) ?names")
    case (Some name)
    then show ?thesis using False
      by (auto simp: resolveList_def resolve_loop_eq arg_names_def Let_def)
  next
    case None
    have known: "set ?names \<subseteq> set known" using None by (auto simp: find_None_iff)
    define out where "out = firsts {} ?names"
    have res: "resolveList quote arg known label =
        (if out = [] then Inl (OtherError (''no '' @ label @ '' selected'')) else Inr out)"
      using None False by (simp add: resolveList_def resolve_loop_eq arg_names_def Let_def out_def)
    have set: "set out = set ?names" by (simp add: out_def firsts_set)
    show ?thesis
    proof (cases "out = []")
      case True
      then have "?names = []" using set by simp
      then show ?thesis using True False None res by simp
    next
      case ne: False
      have "\<forall>n\<in>set out. n \<noteq> '''' \<and> n \<noteq> ''all'' \<and> TrimSpace n = n \<and> CHR '','' \<notin> set n"
        using assms known set by blast
      then have again: "resolveList quote (join_on (CHR '','') out) known label = Inr out"
        using ne known set by (intro resolve_again) (simp_all add: out_def firsts_distinct)
      show ?thesis
        using res ne False set known again by (simp add: out_def firsts_distinct)
    qed
  qed
qed

lemma simulator_names:
  "\<forall>n\<in>set allScenarioNames \<union> set allStrategyNames. n \<noteq> '''' \<and> n \<noteq> ''all'' \<and> TrimSpace n = n \<and> CHR '','' \<notin> set n"
proof
  fix n assume "n \<in> set allScenarioNames \<union> set allStrategyNames"
  then have "n \<noteq> '''' \<and> n \<noteq> ''all'' \<and> letter (hd n) \<and> letter (List.last n) \<and> CHR '','' \<notin> set n"
    by (auto simp: allScenarioNames_def allStrategyNames_def letter_def)
  then show "n \<noteq> '''' \<and> n \<noteq> ''all'' \<and> TrimSpace n = n \<and> CHR '','' \<notin> set n"
    using TrimSpace_pad [of "[]" "[]" n] by simp
qed

theorem resolveList_correct_witness:
  "resolveScenarios (\<lambda>n. n) ''long_tail,ramp_up,long_tail'' = Inr [''long_tail'', ''ramp_up'']"
proof -
  have known: "\<forall>n\<in>set allScenarioNames. n \<noteq> '''' \<and> n \<noteq> ''all'' \<and> TrimSpace n = n \<and> CHR '','' \<notin> set n"
    using simulator_names by blast
  have mem: "''long_tail'' \<in> set allScenarioNames" "''ramp_up'' \<in> set allScenarioNames"
    by (simp_all add: allScenarioNames_def)
  then have names: "arg_names ''long_tail,ramp_up,long_tail'' = [''long_tail'', ''ramp_up'', ''long_tail'']"
    using known by (simp add: arg_names_def)
  have "find (\<lambda>n. n \<notin> set allScenarioNames) [''long_tail'', ''ramp_up'', ''long_tail''] = None"
    using mem by simp
  then show ?thesis
    using resolveList_correct [OF known, where quote = "\<lambda>n. n" and arg = "''long_tail,ramp_up,long_tail''" and label = "''scenarios''"]
    unfolding names resolveScenarios_def by (auto split: sum.splits)
qed

section \<open>The comparison matrix\<close>

lemma resolveList_known:
  assumes "resolveList quote arg known label = Inr out"
  shows "set out \<subseteq> set known"
  using assms
  by (auto simp: resolveList_def resolve_loop_eq Let_def firsts_set find_None_iff split: if_splits sum.splits option.splits)

lemma ScenarioByName_known: "name \<in> set allScenarioNames \<Longrightarrow> \<exists>sc. ScenarioByName name = Inr sc \<and> sc_Name sc = name"
  by (auto simp: allScenarioNames_def ScenarioByName_def SteadyState_def RampUp_def SpikeTest_def MixedPriority_def
      LongTail_def Let_def)

lemma simulator_buildStrategy_known:
  "name \<in> set allStrategyNames \<Longrightarrow> \<exists>st. simulator_buildStrategy quote name cfg = Inr st \<and> Name st = name"
  by (auto simp: allStrategyNames_def simulator_buildStrategy_def NewLatencyAwareStrategy_def Let_def)

text \<open>Characters that a CSV field holds as they are.\<close>

definition plain :: "char \<Rightarrow> bool" where
  "plain c \<longleftrightarrow> is_digit c \<or> letter c \<or> c \<in> {CHR ''_'', CHR ''.'', CHR ''-'', CHR ''+''}"

lemma white_space_not_plain: "u \<in> set white_spaces \<Longrightarrow> u \<noteq> [] \<and> \<not> plain (hd u)"
  by (auto simp: white_spaces_def plain_def letter_def is_digit_def)

lemma plain_field:
  assumes "\<forall>c\<in>set f. plain c"
  shows "csv_field f = f" "CHR '','' \<notin> set f" "CHR 0x0A \<notin> set f"
proof -
  have special: "\<not> plain c" if "c \<in> {CHR 0x0A, CHR 0x0D, CHR 0x22, CHR '','', CHR 0x5C}" for c
    using that by (auto simp: plain_def letter_def is_digit_def)
  then show "CHR '','' \<notin> set f" "CHR 0x0A \<notin> set f" using assms by auto
  have "\<not> has_prefix f u" if u: "u \<in> set white_spaces" for u
  proof
    assume "has_prefix f u"
    then have "f = u @ drop (length u) f" unfolding has_prefix_def by (metis append_take_drop_id)
    then have "set u \<subseteq> set f" by (metis Un_upper1 set_append)
    then have "hd u \<in> set f" using white_space_not_plain [OF u] hd_in_set by blast
    then show False using assms white_space_not_plain [OF u] by blast
  qed
  then have "\<not> list_ex (has_prefix f) white_spaces" by (simp add: list_ex_iff)
  moreover have "\<not> list_ex (\<lambda>c. c \<in> {CHR 0x0A, CHR 0x0D, CHR 0x22, CHR '','' }) f"
  proof
    assume "list_ex (\<lambda>c. c \<in> {CHR 0x0A, CHR 0x0D, CHR 0x22, CHR '','' }) f"
    then obtain c where c: "c \<in> set f" "c \<in> {CHR 0x0A, CHR 0x0D, CHR 0x22, CHR '','' }"
      by (simp only: list_ex_iff bex_simps Bex_def) (elim exE conjE)
    have "plain c" using assms c(1) by (rule bspec)
    moreover have "\<not> plain c" by (rule special, use c(2) in \<open>simp only: insert_iff empty_iff\<close>, elim disjE, simp_all)
    ultimately show False by (rule notE [rotated])
  qed
  moreover have "f \<noteq> [CHR 0x5C, CHR ''.'']"
    using assms special [of "CHR 0x5C"] by (metis insertCI list.set_intros(1))
  ultimately show "csv_field f = f" by (simp add: csv_field_def field_needs_quotes_def)
qed

lemma plain_chars:
  "plain (CHR ''0'')" "plain (CHR ''.'')" "plain (CHR ''-'')" "plain (CHR ''+'')" "plain (CHR ''N'')" "plain (CHR ''a'')"
  "plain (CHR ''I'')" "plain (CHR ''n'')" "plain (CHR ''f'')"
  by (simp_all add: plain_def letter_def is_digit_def)

lemma show_nat_plain: "c \<in> set (show_nat n) \<Longrightarrow> plain c"
  by (simp add: plain_def show_nat_digits)

lemma formatFloat_plain: "c \<in> set (formatFloat v prec) \<Longrightarrow> plain c"
  by (cases v) (auto simp: format_fixed_def Let_def show_nat_plain plain_chars split: if_splits)

lemma FormatInt_plain: "c \<in> set (FormatInt n) \<Longrightarrow> plain c"
  by (auto simp: FormatInt_def show_nat_plain plain_chars split: if_splits)

lemma names_plain: "\<forall>n\<in>set (allScenarioNames @ allStrategyNames). \<forall>c\<in>set n. plain c"
  by code_simp

lemma csv_record_back:
  assumes "cols \<noteq> []" "\<forall>f\<in>set cols. \<forall>c\<in>set f. plain c"
  shows "csv_record cols = join_on (CHR '','') cols @ [CHR 0x0A]"
    "split_on (CHR '','') (join_on (CHR '','') cols) = cols" "CHR 0x0A \<notin> set (join_on (CHR '','') cols)"
proof -
  have "map csv_field cols = cols" using assms(2) plain_field(1) by (simp add: map_idI)
  then show "csv_record cols = join_on (CHR '','') cols @ [CHR 0x0A]" by (simp add: csv_record_def)
  show "split_on (CHR '','') (join_on (CHR '','') cols) = cols"
    using assms plain_field(2) by (intro split_join) auto
  have "\<forall>f\<in>set cols. CHR 0x0A \<notin> set f" using assms(2) plain_field(3) by blast
  then show "CHR 0x0A \<notin> set (join_on (CHR '','') cols)"
    by (induction "CHR '',''" cols rule: join_on.induct) auto
qed

lemma run_matrix_all:
  assumes "\<forall>p\<in>set pairs. fst p \<in> set allScenarioNames \<and> snd p \<in> set allStrategyNames"
    and "\<forall>k. ctx_err k = None"
    and "\<forall>sc st w. \<exists>oob elapsed b out. fst (run_one sc st w) = build oob sc (Some st) elapsed b out"
  shows "\<exists>results w'. run_matrix quote cfg ctx_err run_one k pairs acc w = (Inr (acc @ results), w')
    \<and> map (\<lambda>r. (sr_ScenarioName r, sr_StrategyName r)) results = pairs"
  using assms(1)
proof (induction pairs arbitrary: k acc w)
  case (Cons p pairs)
  obtain s t where p: "p = (s, t)" by (cases p)
  have "s \<in> set allScenarioNames" "t \<in> set allStrategyNames" using Cons.prems p by auto
  then obtain sc st where sc: "ScenarioByName s = Inr sc" "sc_Name sc = s"
    and st: "simulator_buildStrategy quote t (cfg_Batching cfg) = Inr st" "Name st = t"
    using ScenarioByName_known simulator_buildStrategy_known by meson
  obtain res w1 where res: "run_one sc st w = (res, w1)" by fastforce
  then obtain oob elapsed b out where "res = build oob sc (Some st) elapsed b out" using assms(3) by (metis fst_conv)
  then have names: "sr_ScenarioName res = s" "sr_StrategyName res = t" by (simp_all add: build_def Let_def sc st)
  obtain results w' where "run_matrix quote cfg ctx_err run_one (k + 1) pairs (acc @ [res]) w1 = (Inr (acc @ res # results), w')"
    "map (\<lambda>r. (sr_ScenarioName r, sr_StrategyName r)) results = pairs"
    using Cons.IH [of "k + 1" "acc @ [res]" w1] Cons.prems by auto
  then have both: "run_matrix quote cfg ctx_err run_one k (p # pairs) acc w = (Inr (acc @ res # results), w')
      \<and> map (\<lambda>r. (sr_ScenarioName r, sr_StrategyName r)) (res # results) = p # pairs"
    using assms(2) sc st res names p by simp
  show ?case by (rule exI [of _ "res # results"], rule exI [of _ w'], rule both)
qed simp

text \<open>
  C38: The comparison matrix and its CSV. With valid arguments, a run that is never cancelled and a
  runner that returns results built by \<open>build\<close> for what it was given, the simulator runs every
  selected strategy in every selected scenario exactly once, in the order of the arguments, and
  succeeds. The CSV it writes needs no quoting: splitting it into lines and the lines at their
  commas gives the header and one row of eleven columns per result, and nothing else; the totals
  read back from their columns.
\<close>

theorem simulator_matrix:
  assumes "resolveScenarios quote scenariosArg = Inr scs" "resolveStrategies quote strategiesArg = Inr sts"
    and "\<forall>k. ctx_err k = None"
    and "\<forall>sc st w. \<exists>oob elapsed b out. fst (run_one cfg sc st w) = build oob sc (Some st) elapsed b out"
  shows "\<exists>results w' csv. runSimulator quote (Inr cfg) ctx_err run_one scenariosArg strategiesArg ''csv'' w = (Inr (OutCSV csv), w')
    \<and> map (\<lambda>r. (sr_ScenarioName r, sr_StrategyName r)) results = [(s, t). s \<leftarrow> scs, t \<leftarrow> sts]
    \<and> map (split_on (CHR '','')) (split_on (CHR 0x0A) csv) = csv_header # map csv_row results @ [['''']]
    \<and> (\<forall>r\<in>set results. length (csv_row r) = length csv_header
         \<and> (0 \<le> sr_TotalRequests r \<longrightarrow> read_nat (csv_row r ! 3) = nat (sr_TotalRequests r)))"
proof -
  have sub: "set scs \<subseteq> set allScenarioNames" "set sts \<subseteq> set allStrategyNames"
    using assms(1,2) resolveList_known unfolding resolveScenarios_def resolveStrategies_def by blast+
  define pairs where "pairs = [(s, t). s \<leftarrow> scs, t \<leftarrow> sts]"
  have mem: "\<forall>p\<in>set pairs. fst p \<in> set allScenarioNames \<and> snd p \<in> set allStrategyNames"
    using sub by (auto simp: pairs_def)
  obtain results w' where r: "run_matrix quote cfg ctx_err (run_one cfg) 0 pairs [] w = (Inr results, w')"
    "map (\<lambda>r. (sr_ScenarioName r, sr_StrategyName r)) results = pairs"
    using run_matrix_all [OF mem assms(3,4), of quote cfg 0 "[]" w] by auto
  have names: "sr_ScenarioName x \<in> set allScenarioNames \<and> sr_StrategyName x \<in> set allStrategyNames" if "x \<in> set results" for x
  proof -
    have "(sr_ScenarioName x, sr_StrategyName x) \<in> set pairs" using that r(2) by (metis (no_types, lifting) image_eqI list.set_map)
    then show ?thesis using mem by fastforce
  qed
  have row: "csv_row x \<noteq> [] \<and> (\<forall>f\<in>set (csv_row x). \<forall>c\<in>set f. plain c)" if "x \<in> set results" for x
    using names [OF that] names_plain by (auto simp: csv_row_def formatFloat_plain FormatInt_plain)
  have header: "csv_header \<noteq> [] \<and> (\<forall>f\<in>set csv_header. \<forall>c\<in>set f. plain c)" by code_simp
  let ?rows = "csv_header # map csv_row results"
  let ?lines = "map (join_on (CHR '','')) ?rows"
  have rows: "\<forall>cols\<in>set ?rows. cols \<noteq> [] \<and> (\<forall>f\<in>set cols. \<forall>c\<in>set f. plain c)" using row header by auto
  have "writeCSV results = concat (map csv_record ?rows)" by (simp add: writeCSV_def comp_def)
  also have "map csv_record ?rows = map (\<lambda>w. w @ [CHR 0x0A]) ?lines"
    unfolding map_map using rows csv_record_back(1) by (intro map_cong) (auto simp: comp_def)
  finally have csv: "writeCSV results = concat (map (\<lambda>w. w @ [CHR 0x0A]) ?lines)" .
  have "split_on (CHR 0x0A) (writeCSV results) = ?lines @ [[]]"
    unfolding csv using rows csv_record_back(3) by (intro split_lines) auto
  moreover have "map (split_on (CHR '','')) ?lines = ?rows"
    unfolding map_map using rows csv_record_back(2) by (intro map_idI) (auto simp: comp_def)
  ultimately have back_lines: "map (split_on (CHR '','')) (split_on (CHR 0x0A) (writeCSV results)) = csv_header # map csv_row results @ [['''']]"
    by simp
  have run: "runSimulator quote (Inr cfg) ctx_err run_one scenariosArg strategiesArg ''csv'' w = (Inr (OutCSV (writeCSV results)), w')"
    using assms(1,2) r(1) by (simp add: runSimulator_def writeOutput_def pairs_def)
  have cols: "\<forall>r\<in>set results. length (csv_row r) = length csv_header
         \<and> (0 \<le> sr_TotalRequests r \<longrightarrow> read_nat (csv_row r ! 3) = nat (sr_TotalRequests r))"
    by (simp add: csv_row_def csv_header_def FormatInt_def)
  show ?thesis
    by (rule exI [of _ results], rule exI [of _ w'], rule exI [of _ "writeCSV results"])
      (intro conjI run r(2) [unfolded pairs_def] back_lines cols)
qed

definition sample_run_one :: "Config \<Rightarrow> Scenario \<Rightarrow> Strategy \<Rightarrow> nat \<Rightarrow> SimulationResult \<times> nat" where
  "sample_run_one cfg sc st w = (build (\<lambda>_. 0) sc (Some st) second sample_batcher newResultAccumulator, w + 1)"

theorem simulator_matrix_witness:
  "\<exists>w' csv. runSimulator (\<lambda>n. n) (Inr default_config) (\<lambda>_. None) sample_run_one '''' ''all'' ''csv'' 0 = (Inr (OutCSV csv), w')
     \<and> length (split_on (CHR 0x0A) csv) = 17"
proof -
  have args: "resolveScenarios (\<lambda>n. n) '''' = Inr allScenarioNames" "resolveStrategies (\<lambda>n. n) ''all'' = Inr allStrategyNames"
    by (simp_all add: resolveScenarios_def resolveStrategies_def resolveList_def)
  have runs: "\<forall>sc st w. \<exists>oob elapsed b out. fst (sample_run_one default_config sc st w) = build oob sc (Some st) elapsed b out"
    unfolding sample_run_one_def fst_conv by blast
  obtain results w' csv where r: "runSimulator (\<lambda>n. n) (Inr default_config) (\<lambda>_. None) sample_run_one '''' ''all'' ''csv'' 0 = (Inr (OutCSV csv), w')"
    "map (\<lambda>r. (sr_ScenarioName r, sr_StrategyName r)) results = [(s, t). s \<leftarrow> allScenarioNames, t \<leftarrow> allStrategyNames]"
    "map (split_on (CHR '','')) (split_on (CHR 0x0A) csv) = csv_header # map csv_row results @ [['''']]"
    using simulator_matrix [OF args, where ctx_err = "\<lambda>_. None" and run_one = sample_run_one and cfg = default_config
        and w = "0 :: nat"] runs by auto
  have a: "length results = 15" using arg_cong [OF r(2), of length] by (simp add: allScenarioNames_def allStrategyNames_def)
  have b: "length (split_on (CHR 0x0A) csv) = 17" using arg_cong [OF r(3), of length] a by simp
  show ?thesis
    using r(1) b by blast
qed

end
