(* ===== verification/Concurrency.thy ===== *)
theory Concurrency
  imports QueueMatrix "HOL-Library.Multiset"
begin

text \<open>
  The queue matrix at the grain of its atomic operations: any number of goroutines inside
  \<open>QueueMatrix.Submit\<close> (queue_matrix.go) interleaved with the batcher's goroutine (adaptive.go: the wake,
  the receives and the depth update of \<open>drainSubqueue\<close>, the deferred re-arm of \<open>formBatch\<close>, and the
  shutdown's \<open>DrainAll\<close> and \<open>Close\<close>). \<open>QueueMatrix\<close> and \<open>Batcher\<close> treat each of these operations as one
  step; here they are taken apart at their channel operations, atomics and the \<open>sync.RWMutex\<close>, on which
  \<open>Submit\<close> and \<open>Close\<close> wait for each other.
\<close>

section \<open>The read-write lock\<close>

text \<open>
  A writer announces itself first, which keeps new readers out, and then waits for the readers that
  are in. Here there is one writer, since \<open>closeOnce\<close> lets one call of \<open>Close\<close> through.
\<close>

datatype rw_writer = NoWriter | WriterWaits | WriterIn

record rwmutex =
  rw_readers :: nat
  rw_writer :: rw_writer

definition RLock :: "rwmutex \<Rightarrow> rwmutex option" where
  "RLock l = (if rw_writer l = NoWriter then Some (l\<lparr>rw_readers := rw_readers l + 1\<rparr>) else None)"

definition RUnlock :: "rwmutex \<Rightarrow> rwmutex" where
  "RUnlock l = l\<lparr>rw_readers := rw_readers l - 1\<rparr>"

definition Lock_announce :: "rwmutex \<Rightarrow> rwmutex option" where
  "Lock_announce l = (if rw_writer l = NoWriter then Some (l\<lparr>rw_writer := WriterWaits\<rparr>) else None)"

definition Lock_enter :: "rwmutex \<Rightarrow> rwmutex option" where
  "Lock_enter l = (if rw_writer l = WriterWaits \<and> rw_readers l = 0 then Some (l\<lparr>rw_writer := WriterIn\<rparr>) else None)"

definition Unlock :: "rwmutex \<Rightarrow> rwmutex" where
  "Unlock l = l\<lparr>rw_writer := NoWriter\<rparr>"

section \<open>A submitter\<close>

datatype sub_pc =
    SubStart InferenceRequest
  | SubHolds InferenceRequest
  | SubChecked InferenceRequest
  | SubSent InferenceRequest
  | SubCounted InferenceRequest
  | SubLeaves InferenceRequest "error option"
  | SubReturned InferenceRequest "error option"
  | SubPanicked InferenceRequest

text \<open>
  One step of \<open>Submit\<close>: take the read lock, which may have to wait, look at \<open>closed\<close>, the non-blocking
  send, the increment of the depth, the signal, and the deferred \<open>RUnlock\<close>.
\<close>

fun sub_next :: "sub_pc \<Rightarrow> rwmutex \<times> QueueMatrix \<Rightarrow> (sub_pc \<times> rwmutex \<times> QueueMatrix) option" where
  "sub_next (SubStart r) (l, qm) = map_option (\<lambda>l. (SubHolds r, l, qm)) (RLock l)"
| "sub_next (SubHolds r) (l, qm) =
     Some (if qm_closed qm then SubLeaves r (Some ErrShuttingDown) else SubChecked r, l, qm)"
| "sub_next (SubChecked r) (l, qm) =
     (let c = route r in
      case try_send r (qm_queues qm c) of
        Sent ch \<Rightarrow> Some (SubSent r, l, qm\<lparr>qm_queues := (qm_queues qm)(c := ch)\<rparr>)
      | SendBlocks \<Rightarrow> Some (SubLeaves r (Some ErrQueueFull), l, qm)
      | SendPanics \<Rightarrow> Some (SubPanicked r, RUnlock l, qm))"
| "sub_next (SubSent r) (l, qm) = Some (SubCounted r, l, qm\<lparr>qm_depth := qm_depth qm + 1\<rparr>)"
| "sub_next (SubCounted r) (l, qm) = Some (SubLeaves r None, l, Signal qm)"
| "sub_next (SubLeaves r e) (l, qm) = Some (SubReturned r e, RUnlock l, qm)"
| "sub_next (SubReturned r e) s = None"
| "sub_next (SubPanicked r) s = None"

fun holds_lock :: "sub_pc \<Rightarrow> bool" where
  "holds_lock (SubHolds r) = True"
| "holds_lock (SubChecked r) = True"
| "holds_lock (SubSent r) = True"
| "holds_lock (SubCounted r) = True"
| "holds_lock (SubLeaves r e) = True"
| "holds_lock pc = False"

section \<open>The batcher\<close>

text \<open>
  \<open>BatWork n\<close> is the inside of \<open>formBatch\<close>, with \<open>n\<close> requests received whose depth has not been
  subtracted yet; which sub-queues it reads is left open. \<open>BatDrain cs\<close> is \<open>DrainAll\<close> with the
  sub-queues \<open>cs\<close> left. \<open>Close\<close> announces itself at \<open>BatClose\<close>, waits for the readers at \<open>BatLocking\<close>, closes
  at \<open>BatLocked\<close> and lets go of the lock at \<open>BatUnlock\<close>.
\<close>

datatype bat_pc =
    BatWait | BatWork int | BatRearm | BatSignal | BatDrain "coord list"
  | BatClose | BatLocking | BatLocked | BatUnlock | BatEnd | BatPanicked

type_synonym bat_state = "bat_pc \<times> rwmutex \<times> QueueMatrix \<times> InferenceRequest list"

inductive bat_step :: "bat_state \<Rightarrow> bat_state \<Rightarrow> bool" where
  wake: "try_recv (qm_eventChan qm) = Received u ev
    \<Longrightarrow> bat_step (BatWait, l, qm, tk) (BatWork 0, l, qm\<lparr>qm_eventChan := ev\<rparr>, tk)"
| take_one: "coord_ok c \<Longrightarrow> try_recv (qm_queues qm c) = Received r ch
    \<Longrightarrow> bat_step (BatWork n, l, qm, tk) (BatWork (n + 1), l, qm\<lparr>qm_queues := (qm_queues qm)(c := ch)\<rparr>, tk @ [r])"
| count: "0 < n \<Longrightarrow> bat_step (BatWork n, l, qm, tk) (BatWork 0, l, qm\<lparr>qm_depth := qm_depth qm - n\<rparr>, tk)"
| event: "try_recv (qm_eventChan qm) = Received u ev
    \<Longrightarrow> bat_step (BatWork 0, l, qm, tk) (BatWork 0, l, qm\<lparr>qm_eventChan := ev\<rparr>, tk)"
| formed: "bat_step (BatWork 0, l, qm, tk) (BatRearm, l, qm, tk)"
| rearm: "bat_step (BatRearm, l, qm, tk) (if 0 < qm_depth qm then BatSignal else BatWait, l, qm, tk)"
| signal: "bat_step (BatSignal, l, qm, tk) (BatWait, l, Signal qm, tk)"
| stop: "bat_step (BatWait, l, qm, tk) (BatDrain walk_coords, l, qm, tk)"
| drain_one: "try_recv (qm_queues qm c) = Received r ch
    \<Longrightarrow> bat_step (BatDrain (c # cs), l, qm, tk) (BatDrain (c # cs), l, qm\<lparr>qm_queues := (qm_queues qm)(c := ch)\<rparr>, tk @ [r])"
| drain_next: "try_recv (qm_queues qm c) = RecvBlocks \<or> try_recv (qm_queues qm c) = RecvClosed
    \<Longrightarrow> bat_step (BatDrain (c # cs), l, qm, tk) (BatDrain cs, l, qm, tk)"
| store: "bat_step (BatDrain [], l, qm, tk) (BatClose, l, qm\<lparr>qm_depth := 0\<rparr>, tk)"
| announce: "Lock_announce l = Some l' \<Longrightarrow> bat_step (BatClose, l, qm, tk) (BatLocking, l', qm, tk)"
| enter: "Lock_enter l = Some l' \<Longrightarrow> bat_step (BatLocking, l, qm, tk) (BatLocked, l', qm, tk)"
| close: "QueueMatrix_Close qm = Inr qm' \<Longrightarrow> bat_step (BatLocked, l, qm, tk) (BatUnlock, l, qm', tk)"
| close_panics: "QueueMatrix_Close qm = Inl e \<Longrightarrow> bat_step (BatLocked, l, qm, tk) (BatPanicked, Unlock l, qm, tk)"
| unlock: "bat_step (BatUnlock, l, qm, tk) (BatEnd, Unlock l, qm, tk)"

inductive_cases bat_endE: "bat_step (BatEnd, l, qm, tk) st"

section \<open>The system\<close>

text \<open>
  The goroutines inside \<open>Submit\<close> are a multiset of program counters. The last two fields are history
  variables: the requests received by the batcher and those sent into a sub-queue.
\<close>

record csys =
  cs_lock :: rwmutex
  cs_qm :: QueueMatrix
  cs_subs :: "sub_pc multiset"
  cs_bat :: bat_pc
  cs_taken :: "InferenceRequest list"
  cs_accepted :: "InferenceRequest list"

fun sent_now :: "sub_pc \<Rightarrow> InferenceRequest list" where
  "sent_now (SubSent r) = [r]"
| "sent_now pc = []"

definition free_lock :: rwmutex where
  "free_lock = \<lparr>rw_readers = 0, rw_writer = NoWriter\<rparr>"

definition csys_init :: "int \<Rightarrow> csys" where
  "csys_init capacity = \<lparr>cs_lock = free_lock, cs_qm = NewQueueMatrix capacity, cs_subs = {#}, cs_bat = BatWait,
     cs_taken = [], cs_accepted = []\<rparr>"

text \<open>A step of a goroutine that is there, and a new call of \<open>Submit\<close>.\<close>

inductive gstep :: "csys \<Rightarrow> csys \<Rightarrow> bool" where
  submitter: "pc \<in># cs_subs s \<Longrightarrow> sub_next pc (cs_lock s, cs_qm s) = Some (pc', l', qm')
    \<Longrightarrow> gstep s (s\<lparr>cs_subs := add_mset pc' (cs_subs s - {#pc#}), cs_lock := l', cs_qm := qm',
                 cs_accepted := cs_accepted s @ sent_now pc'\<rparr>)"
| batcher: "bat_step (cs_bat s, cs_lock s, cs_qm s, cs_taken s) (b, l', qm', tk)
    \<Longrightarrow> gstep s (s\<lparr>cs_bat := b, cs_lock := l', cs_qm := qm', cs_taken := tk\<rparr>)"

inductive cstep :: "csys \<Rightarrow> csys \<Rightarrow> bool" where
  arrive: "cstep s (s\<lparr>cs_subs := add_mset (SubStart r) (cs_subs s)\<rparr>)"
| goes: "gstep s s' \<Longrightarrow> cstep s s'"

inductive reaches :: "csys \<Rightarrow> csys \<Rightarrow> bool" where
  start: "reaches s s"
| step: "reaches s s' \<Longrightarrow> cstep s' s'' \<Longrightarrow> reaches s s''"

section \<open>One submitter alone is Submit\<close>

fun sub_alone :: "nat \<Rightarrow> sub_pc \<Rightarrow> rwmutex \<times> QueueMatrix \<Rightarrow> sub_pc \<times> rwmutex \<times> QueueMatrix" where
  "sub_alone 0 pc s = (pc, s)"
| "sub_alone (Suc n) pc s = (case sub_next pc s of None \<Rightarrow> (pc, s) | Some (pc', s') \<Rightarrow> sub_alone n pc' s')"

lemma sub_alone_Submit:
  "rw_writer l = NoWriter \<Longrightarrow> sub_alone 6 (SubStart r) (l, qm) =
     (case QueueMatrix_Submit (Some r) qm of
        Inr (e, qm') \<Rightarrow> (SubReturned r e, l, qm')
      | Inl _ \<Rightarrow> (SubPanicked r, l, qm))"
  by (simp add: eval_nat_numeral QueueMatrix_Submit_def RLock_def RUnlock_def Let_def split: send_result.split)

section \<open>The multiset of queued requests\<close>

lemma mset_queued: "mset (queued qm) = (\<Sum>c\<in>{c. coord_ok c}. mset (lane qm c))"
proof -
  have "mset (concat (map f cs)) = (\<Sum>c\<leftarrow>cs. mset (f c))" for f :: "coord \<Rightarrow> InferenceRequest list" and cs
    by (induction cs) simp_all
  then have "mset (queued qm) = (\<Sum>c\<leftarrow>walk_coords. mset (lane qm c))" by (simp add: queued_def)
  also have "\<dots> = (\<Sum>c\<in>set walk_coords. mset (lane qm c))"
    by (rule sum.distinct_set_conv_list [symmetric]) simp
  finally show ?thesis by simp
qed

lemma finite_coords: "finite {c. coord_ok c}"
  using finite_set [of walk_coords] by simp

lemma mset_queued_upd:
  assumes "coord_ok c"
  shows "mset (queued (qm\<lparr>qm_queues := (qm_queues qm)(c := ch)\<rparr>)) + mset (lane qm c)
    = mset (queued qm) + mset (ch_buf ch)"
proof -
  let ?S = "{c. coord_ok c}" and ?qm = "qm\<lparr>qm_queues := (qm_queues qm)(c := ch)\<rparr>"
  have c: "c \<in> ?S" using assms by simp
  have "(\<Sum>d\<in>?S - {c}. mset (lane ?qm d)) = (\<Sum>d\<in>?S - {c}. mset (lane qm d))"
    by (intro sum.cong) (auto simp: lane_def)
  then show ?thesis
    using sum.remove [OF finite_coords c, of "\<lambda>d. mset (lane ?qm d)"] sum.remove [OF finite_coords c, of "\<lambda>d. mset (lane qm d)"]
    by (simp add: mset_queued ac_simps)
qed

section \<open>The invariant\<close>

fun is_sent :: "sub_pc \<Rightarrow> bool" where
  "is_sent (SubSent r) = True"
| "is_sent pc = False"

text \<open>A submitter between its send and its signal.\<close>

fun will_signal :: "sub_pc \<Rightarrow> bool" where
  "will_signal (SubSent r) = True"
| "will_signal (SubCounted r) = True"
| "will_signal pc = False"

definition uncounted :: "csys \<Rightarrow> int" where
  "uncounted s = int (size (filter_mset is_sent (cs_subs s)))"

definition pc_ok :: "bool \<Rightarrow> InferenceRequest set \<Rightarrow> sub_pc \<Rightarrow> bool" where
  "pc_ok cl accepted pc =
     (case pc of
        SubPanicked r \<Rightarrow> False
      | SubChecked r \<Rightarrow> \<not> cl
      | SubSent r \<Rightarrow> \<not> cl \<and> r \<in> accepted
      | SubCounted r \<Rightarrow> \<not> cl \<and> r \<in> accepted
      | SubLeaves r None \<Rightarrow> r \<in> accepted
      | SubReturned r None \<Rightarrow> r \<in> accepted
      | _ \<Rightarrow> True)"

definition matrix_ok :: "bool \<Rightarrow> QueueMatrix \<Rightarrow> bool" where
  "matrix_ok cl qm \<longleftrightarrow> (\<forall>c. coord_ok c \<longrightarrow> ch_closed (qm_queues qm c) = cl)
     \<and> qm_closeOnce qm = cl \<and> qm_closed qm = cl
     \<and> ch_cap (qm_eventChan qm) = 1 \<and> \<not> ch_closed (qm_eventChan qm)"

text \<open>
  What the depth counts while the batcher is at \<open>bat\<close>, with \<open>m\<close> submitters that have sent and not
  counted yet (during \<open>DrainAll\<close> the walk only has real sub-queues left); and when a waiting batcher
  will be woken.
\<close>

definition depth_ok :: "bat_pc \<Rightarrow> int \<Rightarrow> QueueMatrix \<Rightarrow> bool" where
  "depth_ok bat m qm =
     (case bat of
        BatWork n \<Rightarrow> 0 \<le> n \<and> qm_depth qm + m = int (length (queued qm)) + n
      | BatWait \<Rightarrow> qm_depth qm + m = int (length (queued qm))
      | BatRearm \<Rightarrow> qm_depth qm + m = int (length (queued qm))
      | BatSignal \<Rightarrow> qm_depth qm + m = int (length (queued qm))
      | BatDrain cs \<Rightarrow> \<forall>c\<in>set cs. coord_ok c
      | _ \<Rightarrow> True)"

definition woken :: "csys \<Rightarrow> bool" where
  "woken s \<longleftrightarrow> queued (cs_qm s) = [] \<or> ch_buf (qm_eventChan (cs_qm s)) \<noteq> [] \<or> (\<exists>pc\<in>#cs_subs s. will_signal pc)"

text \<open>Who is in the lock, and from when on the matrix is closed.\<close>

fun writer_of :: "bat_pc \<Rightarrow> rw_writer" where
  "writer_of BatLocking = WriterWaits"
| "writer_of BatLocked = WriterIn"
| "writer_of BatUnlock = WriterIn"
| "writer_of bat = NoWriter"

definition readers :: "sub_pc multiset \<Rightarrow> nat" where
  "readers subs = size (filter_mset holds_lock subs)"

lemma readers_none: "readers subs = 0 \<longleftrightarrow> (\<forall>pc\<in>#subs. \<not> holds_lock pc)"
  by (induction subs) (auto simp: readers_def)

definition lock_ok :: "bat_pc \<Rightarrow> sub_pc multiset \<Rightarrow> rwmutex \<Rightarrow> bool" where
  "lock_ok bat subs l \<longleftrightarrow> rw_writer l = writer_of bat \<and> rw_readers l = readers subs
     \<and> (rw_writer l = WriterIn \<longrightarrow> rw_readers l = 0)"

definition shut :: "bat_pc \<Rightarrow> bool" where
  "shut bat \<longleftrightarrow> bat = BatUnlock \<or> bat = BatEnd"

lemma shut_simps [simp]:
  "shut BatUnlock" "shut BatEnd" "\<not> shut BatWait" "\<not> shut (BatWork n)" "\<not> shut BatRearm" "\<not> shut BatSignal"
  "\<not> shut (BatDrain cs)" "\<not> shut BatClose" "\<not> shut BatLocking" "\<not> shut BatLocked" "\<not> shut BatPanicked"
  by (simp_all add: shut_def)

definition cinv :: "csys \<Rightarrow> bool" where
  "cinv s \<longleftrightarrow> lock_ok (cs_bat s) (cs_subs s) (cs_lock s) \<and> matrix_ok (shut (cs_bat s)) (cs_qm s)
     \<and> (\<forall>pc\<in>#cs_subs s. pc_ok (shut (cs_bat s)) (set (cs_accepted s)) pc)
     \<and> mset (cs_accepted s) = mset (cs_taken s) + mset (queued (cs_qm s))
     \<and> cs_bat s \<noteq> BatPanicked
     \<and> depth_ok (cs_bat s) (uncounted s) (cs_qm s)
     \<and> (cs_bat s = BatWait \<longrightarrow> woken s)"

lemma cinv_init: "cinv (csys_init capacity)"
proof -
  let ?q = "NewQueueMatrix capacity"
  have inv: "qm_inv ?q" "\<not> qm_closed ?q" using NewQueueMatrix_inv by simp_all
  have "lane ?q c = []" for c by (simp add: NewQueueMatrix_def Let_def lane_def)
  then have "queued ?q = []" by (simp add: queued_def)
  then show ?thesis
    using inv qm_invD(7) [OF inv(1)]
    by (auto simp: cinv_def csys_init_def matrix_ok_def depth_ok_def uncounted_def woken_def qm_inv_def
        lock_ok_def readers_def free_lock_def)
qed

lemma pc_ok_more: "pc_ok cl A pc \<Longrightarrow> A \<subseteq> B \<Longrightarrow> pc_ok cl B pc"
  by (auto simp: pc_ok_def split: sub_pc.splits option.splits)

lemma offer_event: "ch_cap ev = 1 \<Longrightarrow> \<not> ch_closed ev \<Longrightarrow>
    ch_buf (offer () ev) \<noteq> [] \<and> ch_cap (offer () ev) = 1 \<and> \<not> ch_closed (offer () ev)"
  by (auto simp: offer_def try_send_def)

text \<open>What one step of a submitter does to the parts of the state.\<close>

lemma sub_next_effect:
  assumes "sub_next pc (l, qm) = Some (pc', l', qm')" "matrix_ok cl qm" "pc_ok cl A pc"
  shows "matrix_ok cl qm' \<and> pc_ok cl (A \<union> set (sent_now pc')) pc'
    \<and> mset (queued qm') = mset (queued qm) + mset (sent_now pc')
    \<and> qm_depth qm' + (if is_sent pc' then 1 else 0) - (if is_sent pc then 1 else 0)
        = qm_depth qm + int (length (sent_now pc'))
    \<and> (will_signal pc \<and> \<not> will_signal pc' \<longrightarrow> ch_buf (qm_eventChan qm') \<noteq> [])
    \<and> (ch_buf (qm_eventChan qm) \<noteq> [] \<longrightarrow> ch_buf (qm_eventChan qm') \<noteq> [])
    \<and> (sent_now pc' \<noteq> [] \<longrightarrow> will_signal pc')"
proof (cases pc)
  case (SubChecked r)
  have open_lane: "\<not> ch_closed (qm_queues qm (route r))" "\<not> cl"
    using assms(2,3) SubChecked by (simp_all add: matrix_ok_def pc_ok_def)
  show ?thesis
  proof (cases "try_send r (qm_queues qm (route r))")
    case (Sent ch)
    have ch: "ch_buf ch = lane qm (route r) @ [r]" "ch_closed ch = ch_closed (qm_queues qm (route r))"
      using try_send_SentD [OF Sent] by (simp_all add: lane_def)
    have res: "pc' = SubSent r" "qm' = qm\<lparr>qm_queues := (qm_queues qm)(route r := ch)\<rparr>"
      using assms(1) SubChecked Sent by (simp_all add: Let_def)
    have "mset (queued qm') + mset (lane qm (route r)) = mset (queued qm) + mset (ch_buf ch)"
      unfolding res by (rule mset_queued_upd) simp
    then have "mset (queued qm') = mset (queued qm) + {#r#}" by (simp add: ch)
    then show ?thesis
      using assms(2,3) SubChecked res ch open_lane by (auto simp: matrix_ok_def pc_ok_def)
  qed (use assms open_lane SubChecked in \<open>auto simp: Let_def pc_ok_def try_send_def split: if_splits\<close>)
next
  case (SubCounted r)
  have ev: "ch_cap (qm_eventChan qm) = 1" "\<not> ch_closed (qm_eventChan qm)" using assms(2) by (simp_all add: matrix_ok_def)
  show ?thesis using assms SubCounted offer_event [OF ev] by (auto simp: matrix_ok_def pc_ok_def)
next
  case (SubSent r)
  have "queued (qm\<lparr>qm_depth := qm_depth qm + 1\<rparr>) = queued qm" by (rule queued_cong) simp
  then show ?thesis using assms SubSent by (auto simp: matrix_ok_def pc_ok_def)
qed (use assms in \<open>auto simp: pc_ok_def matrix_ok_def split: if_splits option.splits\<close>)

text \<open>And what it does to the lock.\<close>

lemma sub_next_lock:
  assumes "sub_next pc (l, qm) = Some (pc', l', qm')" "holds_lock pc \<Longrightarrow> 0 < rw_readers l"
  shows "rw_writer l' = rw_writer l"
    "rw_readers l' + (if holds_lock pc then 1 else 0) = rw_readers l + (if holds_lock pc' then 1 else 0)"
    "\<not> holds_lock pc \<Longrightarrow> rw_writer l = NoWriter \<and> holds_lock pc'"
  using assms by (cases pc; auto simp: RLock_def RUnlock_def Let_def split: if_splits send_result.splits)+

lemma lock_ok_submitter:
  assumes "lock_ok bat subs l" "subs = add_mset pc rest" "sub_next pc (l, qm) = Some (pc', l', qm')"
  shows "lock_ok bat (add_mset pc' rest) l'"
proof -
  have in_lock: "holds_lock pc \<Longrightarrow> 0 < rw_readers l" using assms(1,2) by (simp add: lock_ok_def readers_def)
  have "rw_readers l = readers rest + (if holds_lock pc then 1 else 0)" using assms(1,2) by (simp add: lock_ok_def readers_def)
  then have "rw_readers l' = readers (add_mset pc' rest)"
    using sub_next_lock(2) [OF assms(3) in_lock] by (simp add: readers_def split: if_splits)
  moreover have "rw_readers l' = 0" if "rw_writer l = WriterIn"
  proof -
    have "rw_readers l = 0" using assms(1) that by (simp add: lock_ok_def)
    then have "False" using sub_next_lock(3) [OF assms(3) in_lock] in_lock that by (cases "holds_lock pc") auto
    then show ?thesis ..
  qed
  ultimately show ?thesis using assms(1) sub_next_lock(1) [OF assms(3) in_lock] by (simp add: lock_ok_def)
qed

section \<open>Every step keeps it\<close>

lemma cinv_arrive:
  assumes "cinv s"
  shows "cinv (s\<lparr>cs_subs := add_mset (SubStart r) (cs_subs s)\<rparr>)"
  using assms by (auto simp: cinv_def uncounted_def woken_def pc_ok_def lock_ok_def readers_def)

lemma depth_ok_shift:
  assumes "depth_ok bat m qm" "qm_depth qm' + m' - int (length (queued qm')) = qm_depth qm + m - int (length (queued qm))"
  shows "depth_ok bat m' qm'"
  using assms by (auto simp: depth_ok_def split: bat_pc.splits)

lemma submitter_wakes:
  assumes "cs_subs s = add_mset pc rest" "woken s" and step: "sub_next pc (cs_lock s, cs_qm s) = Some (pc', l', qm')"
    and ok: "matrix_ok cl (cs_qm s)" "pc_ok cl (set (cs_accepted s)) pc"
  shows "woken (s\<lparr>cs_subs := add_mset pc' rest, cs_lock := l', cs_qm := qm', cs_accepted := acc\<rparr>)"
proof -
  note e = sub_next_effect [OF step ok]
  have q: "queued qm' = [] \<or> will_signal pc' \<or> queued (cs_qm s) \<noteq> []"
  proof (cases "sent_now pc' = []")
    case True
    then have "mset (queued qm') = mset (queued (cs_qm s))" using e by simp
    then show ?thesis by (metis mset_zero_iff)
  qed (use e in blast)
  show ?thesis
  proof (cases "queued (cs_qm s) = []")
    case True
    then show ?thesis using q by (auto simp: woken_def)
  next
    case False
    then consider "ch_buf (qm_eventChan (cs_qm s)) \<noteq> []" | "will_signal pc" | x where "x \<in># rest" "will_signal x"
      using assms(1,2) by (auto simp: woken_def)
    then show ?thesis by cases (use e in \<open>auto simp: woken_def\<close>)
  qed
qed

lemma cinv_submitter:
  assumes "cinv s" "pc \<in># cs_subs s" "sub_next pc (cs_lock s, cs_qm s) = Some (pc', l', qm')"
  shows "cinv (s\<lparr>cs_subs := add_mset pc' (cs_subs s - {#pc#}), cs_lock := l', cs_qm := qm', cs_accepted := cs_accepted s @ sent_now pc'\<rparr>)"
    (is "cinv ?s'")
proof -
  obtain rest where rest: "cs_subs s = add_mset pc rest" using assms(2) by (blast dest: multi_member_split)
  have pc: "pc_ok (shut (cs_bat s)) (set (cs_accepted s)) pc" "matrix_ok (shut (cs_bat s)) (cs_qm s)"
    using assms(1,2) by (simp_all add: cinv_def)
  note e = sub_next_effect [OF assms(3) pc(2) pc(1)]
  have len: "int (length (queued qm')) = int (length (queued (cs_qm s))) + int (length (sent_now pc'))"
    using e by (metis size_mset size_union of_nat_add)
  have cnt: "uncounted ?s' = uncounted s + (if is_sent pc' then 1 else 0) - (if is_sent pc then 1 else 0)"
    by (simp add: uncounted_def rest)
  have "depth_ok (cs_bat s) (uncounted s) (cs_qm s)" using assms(1) by (simp add: cinv_def)
  then have depth: "depth_ok (cs_bat s) (uncounted ?s') qm'"
    by (rule depth_ok_shift) (use e len cnt in linarith)
  have woken: "woken ?s'" if "woken s"
    using submitter_wakes [OF rest that assms(3) pc(2,1)] by (simp add: rest)
  have rests: "pc_ok (shut (cs_bat s)) (set (cs_accepted s) \<union> set (sent_now pc')) x" if "x \<in># rest" for x
  proof -
    have "x \<in># cs_subs s" using that by (simp add: rest)
    then have "pc_ok (shut (cs_bat s)) (set (cs_accepted s)) x" using assms(1) unfolding cinv_def by blast
    then show ?thesis by (rule pc_ok_more) simp
  qed
  have pcs: "\<forall>x\<in>#add_mset pc' rest. pc_ok (shut (cs_bat s)) (set (cs_accepted s @ sent_now pc')) x"
  proof
    fix x assume "x \<in># add_mset pc' rest"
    then have "x = pc' \<or> x \<in># rest" by simp
    then show "pc_ok (shut (cs_bat s)) (set (cs_accepted s @ sent_now pc')) x"
      unfolding set_append using rests conjunct1 [OF conjunct2 [OF e]] by blast
  qed
  have "mset (queued qm') = mset (queued (cs_qm s)) + mset (sent_now pc')"
    using e by blast
  then have acc: "mset (cs_accepted s @ sent_now pc') = mset (cs_taken s) + mset (queued qm')"
    using assms(1) by (simp add: cinv_def)
  have old: "cs_bat s \<noteq> BatPanicked" "cs_bat s = BatWait \<longrightarrow> woken s" using assms(1) by (simp_all add: cinv_def)
  have mok: "matrix_ok (shut (cs_bat s)) qm'" using e by (rule conjunct1)
  have lock: "lock_ok (cs_bat s) (add_mset pc' rest) l'"
    using assms(1) by (intro lock_ok_submitter [OF _ rest assms(3)]) (simp add: cinv_def)
  let ?t = "s\<lparr>cs_subs := add_mset pc' rest, cs_lock := l', cs_qm := qm', cs_accepted := cs_accepted s @ sent_now pc'\<rparr>"
  have t: "?s' = ?t" by (simp add: rest)
  have "depth_ok (cs_bat s) (uncounted ?t) qm'" "woken s \<longrightarrow> woken ?t" using depth woken unfolding t by blast+
  then have "cinv ?t"
    unfolding cinv_def using pcs acc old mok lock by simp
  then show ?thesis unfolding t .
qed

lemma recv_lane:
  assumes "try_recv (qm_queues qm c) = Received r ch" "coord_ok c" "matrix_ok cl qm"
  shows "matrix_ok cl (qm\<lparr>qm_queues := (qm_queues qm)(c := ch)\<rparr>)
    \<and> mset (queued qm) = add_mset r (mset (queued (qm\<lparr>qm_queues := (qm_queues qm)(c := ch)\<rparr>)))"
proof -
  have ch: "lane qm c = r # ch_buf ch" "ch_closed ch = ch_closed (qm_queues qm c)"
    using try_recv_ReceivedD [OF assms(1)] by (auto simp: lane_def)
  have "mset (queued (qm\<lparr>qm_queues := (qm_queues qm)(c := ch)\<rparr>)) + mset (lane qm c) = mset (queued qm) + mset (ch_buf ch)"
    by (rule mset_queued_upd [OF assms(2)])
  then have "mset (queued qm) = add_mset r (mset (queued (qm\<lparr>qm_queues := (qm_queues qm)(c := ch)\<rparr>)))"
    unfolding ch(1) by simp
  then show ?thesis using assms(2,3) ch(2) by (auto simp: matrix_ok_def)
qed

lemma queued_other [simp]:
  "queued (qm\<lparr>qm_depth := d\<rparr>) = queued qm" "queued (qm\<lparr>qm_eventChan := e\<rparr>) = queued qm"
  by (rule queued_cong, simp)+

lemma recv_event_ok:
  assumes "try_recv (qm_eventChan qm) = Received u ev" "matrix_ok cl qm"
  shows "matrix_ok cl (qm\<lparr>qm_eventChan := ev\<rparr>)"
  using try_recv_ReceivedD [OF assms(1)] assms(2) by (auto simp: matrix_ok_def)

lemma Close_matrix_ok:
  assumes "matrix_ok False qm"
  shows "\<exists>qm'. QueueMatrix_Close qm = Inr qm' \<and> matrix_ok True qm' \<and> queued qm' = queued qm
    \<and> qm_depth qm' = qm_depth qm"
proof -
  let ?qm = "qm\<lparr>qm_closeOnce := True, qm_closed := True\<rparr>"
  let ?qm' = "?qm\<lparr>qm_queues := (\<lambda>c. if coord_ok c then (qm_queues qm c)\<lparr>ch_closed := True\<rparr> else qm_queues qm c)\<rparr>"
  have "QueueMatrix_Close qm = close_walk ascending_coords ?qm"
    using assms by (simp add: QueueMatrix_Close_def matrix_ok_def)
  also have "\<dots> = Inr ?qm'"
    using assms by (subst close_walk_eq) (simp_all add: matrix_ok_def cong: if_cong)
  finally have "QueueMatrix_Close qm = Inr ?qm'" .
  moreover have "matrix_ok True ?qm'" using assms by (auto simp: matrix_ok_def)
  moreover have "queued ?qm' = queued qm" by (simp add: queued_def lane_def [abs_def] if_distrib cong: if_cong)
  moreover have "qm_depth ?qm' = qm_depth qm" by simp
  ultimately show ?thesis by blast
qed

lemma pc_ok_close: "pc_ok False A pc \<Longrightarrow> \<not> holds_lock pc \<Longrightarrow> pc_ok True A pc"
  by (cases pc) (auto simp: pc_ok_def split: option.splits)

definition sys :: "csys \<Rightarrow> bat_pc \<Rightarrow> rwmutex \<Rightarrow> QueueMatrix \<Rightarrow> InferenceRequest list \<Rightarrow> csys" where
  "sys s b l qm tk = s\<lparr>cs_bat := b, cs_lock := l, cs_qm := qm, cs_taken := tk\<rparr>"

lemma sys_simps [simp]:
  "cs_bat (sys s b l qm tk) = b" "cs_lock (sys s b l qm tk) = l" "cs_qm (sys s b l qm tk) = qm" "cs_taken (sys s b l qm tk) = tk"
  "cs_subs (sys s b l qm tk) = cs_subs s" "cs_accepted (sys s b l qm tk) = cs_accepted s"
  "uncounted (sys s b l qm tk) = uncounted s"
  by (simp_all add: sys_def uncounted_def)

lemma uncounted_none:
  assumes "0 < uncounted s" shows "\<exists>pc\<in>#cs_subs s. will_signal pc"
proof -
  have "filter_mset is_sent (cs_subs s) \<noteq> {#}" using assms unfolding uncounted_def
    by (cases "filter_mset is_sent (cs_subs s) = {#}") simp_all
  then obtain pc where "pc \<in># filter_mset is_sent (cs_subs s)" by (rule multiset_nonemptyE)
  then have "pc \<in># cs_subs s" "will_signal pc" by (simp, cases pc) auto
  then show ?thesis by blast
qed

lemma cinv_batcher:
  assumes "cinv s" "bat_step (cs_bat s, cs_lock s, cs_qm s, cs_taken s) (b, l', qm', tk)"
  shows "cinv (sys s b l' qm' tk)"
  using assms(2)
proof (cases rule: bat_step.cases)
  case (wake u ev)
  then show ?thesis using assms(1) recv_event_ok [OF wake(6)] by (simp add: cinv_def depth_ok_def lock_ok_def)
next
  case (take_one c r ch n)
  have m: "matrix_ok False (cs_qm s)" using assms(1) take_one(1) by (simp add: cinv_def)
  note q = recv_lane [OF take_one(7,6) m]
  have "length (queued (cs_qm s)) = Suc (length (queued qm'))"
    using q take_one(4) by (metis size_add_mset size_mset)
  then show ?thesis using assms(1) take_one q by (simp add: cinv_def depth_ok_def lock_ok_def)
next
  case (rearm)
  show ?thesis
  proof (cases "0 < qm_depth (cs_qm s)")
    case True
    then show ?thesis using assms(1) rearm by (simp add: cinv_def depth_ok_def lock_ok_def)
  next
    case False
    have d: "qm_depth (cs_qm s) + uncounted s = int (length (queued (cs_qm s)))"
      using assms(1) rearm by (simp add: cinv_def depth_ok_def lock_ok_def)
    have "woken (sys s b l' qm' tk)"
    proof (cases "0 < uncounted s")
      case True
      then show ?thesis using uncounted_none [OF True] by (simp add: woken_def)
    next
      case False
      then have "length (queued (cs_qm s)) = 0" using d \<open>\<not> 0 < qm_depth (cs_qm s)\<close> by linarith
      then have "queued (cs_qm s) = []" by simp
      then show ?thesis using rearm by (simp add: woken_def)
    qed
    then show ?thesis using assms(1) rearm d False by (simp add: cinv_def depth_ok_def lock_ok_def)
  qed
next
  case (signal)
  have ev: "ch_cap (qm_eventChan (cs_qm s)) = 1" "\<not> ch_closed (qm_eventChan (cs_qm s))"
    using assms(1) by (simp_all add: cinv_def matrix_ok_def)
  show ?thesis using assms(1) signal offer_event [OF ev]
    by (simp add: cinv_def depth_ok_def matrix_ok_def woken_def lock_ok_def)
next
  case (drain_one c r ch cs)
  have m: "matrix_ok False (cs_qm s)" "coord_ok c" using assms(1) drain_one(1) by (simp_all add: cinv_def depth_ok_def)
  show ?thesis using assms(1) drain_one recv_lane [OF drain_one(6) m(2,1)] by (simp add: cinv_def depth_ok_def lock_ok_def)
next
  case (announce)
  then show ?thesis using assms(1) by (auto simp: cinv_def depth_ok_def lock_ok_def Lock_announce_def split: if_splits)
next
  case (enter)
  then show ?thesis using assms(1) by (auto simp: cinv_def depth_ok_def lock_ok_def Lock_enter_def split: if_splits)
next
  case (close)
  have m: "matrix_ok False (cs_qm s)" using assms(1) close(1) by (simp add: cinv_def)
  have q: "matrix_ok True qm'" "queued qm' = queued (cs_qm s)" using Close_matrix_ok [OF m] close by auto
  have "readers (cs_subs s) = 0" using assms(1) close(1) by (auto simp: cinv_def lock_ok_def)
  then have "\<not> holds_lock pc" if "pc \<in># cs_subs s" for pc using that by (simp add: readers_none)
  then have "pc_ok True (set (cs_accepted s)) pc" if "pc \<in># cs_subs s" for pc
    using assms(1) close(1) that by (intro pc_ok_close) (auto simp: cinv_def)
  then show ?thesis using assms(1) close q by (auto simp: cinv_def depth_ok_def lock_ok_def)
next
  case (close_panics e)
  have "matrix_ok False (cs_qm s)" using assms(1) close_panics(1) by (simp add: cinv_def)
  then show ?thesis using Close_matrix_ok close_panics by fastforce
next
  case (unlock)
  then show ?thesis using assms(1) by (auto simp: cinv_def depth_ok_def lock_ok_def Unlock_def)
qed (use assms(1) in \<open>auto simp: cinv_def depth_ok_def matrix_ok_def lock_ok_def dest: recv_event_ok\<close>)

lemma gstep_inv: "gstep s s' \<Longrightarrow> cinv s \<Longrightarrow> cinv s'"
proof (induction rule: gstep.induct)
  case (batcher s b l' qm' tk)
  then show ?case using cinv_batcher [OF batcher(2,1)] by (simp only: sys_def)
qed (simp only: cinv_submitter)

lemma cstep_inv: "cstep s s' \<Longrightarrow> cinv s \<Longrightarrow> cinv s'"
  by (induction rule: cstep.induct) (simp_all only: cinv_arrive gstep_inv)

lemma reaches_inv: "reaches s s' \<Longrightarrow> cinv s \<Longrightarrow> cinv s'"
  by (induction rule: reaches.induct) (auto intro: cstep_inv)

lemma reaches_trans: "reaches s' s'' \<Longrightarrow> reaches s s' \<Longrightarrow> reaches s s''"
  by (induction rule: reaches.induct) (auto intro: reaches.step)

text \<open>
  C5: Submitters and the batcher, in any interleaving of their atomic steps. No send meets a closed
  sub-queue and \<open>Close\<close> never closes one twice, since the lock keeps \<open>Close\<close> out while a submitter is
  between its check and its return. Every accepted request has been received by the batcher exactly
  once or is still in its sub-queue, and a \<open>Submit\<close> that returned nil was accepted. No wake-up is
  lost: while the batcher waits and a sub-queue is not empty, an event is pending or a submitter that
  has sent will still signal, although the depth that the re-arm reads lags behind the sub-queues
  by the submitters that have sent and not counted yet.
\<close>

theorem no_lost_wakeup:
  assumes "reaches (csys_init capacity) s"
  shows "(\<forall>r. SubPanicked r \<notin># cs_subs s) \<and> cs_bat s \<noteq> BatPanicked
    \<and> mset (cs_accepted s) = mset (cs_taken s) + mset (queued (cs_qm s))
    \<and> (\<forall>r. SubReturned r None \<in># cs_subs s \<longrightarrow> r \<in> set (cs_accepted s))
    \<and> (cs_bat s = BatWait \<longrightarrow>
         qm_depth (cs_qm s) = int (length (queued (cs_qm s))) - uncounted s
         \<and> (queued (cs_qm s) \<noteq> [] \<longrightarrow> ch_buf (qm_eventChan (cs_qm s)) \<noteq> [] \<or> (\<exists>pc\<in>#cs_subs s. will_signal pc)))"
proof -
  have inv: "cinv s" by (rule reaches_inv [OF assms cinv_init])
  then have pcs: "\<forall>pc\<in>#cs_subs s. pc_ok (shut (cs_bat s)) (set (cs_accepted s)) pc" unfolding cinv_def by blast
  have "SubPanicked r \<notin># cs_subs s" for r using pcs by (auto simp: pc_ok_def)
  moreover have "r \<in> set (cs_accepted s)" if "SubReturned r None \<in># cs_subs s" for r
    using bspec [OF pcs that] by (simp add: pc_ok_def)
  moreover have "qm_depth (cs_qm s) = int (length (queued (cs_qm s))) - uncounted s" if "cs_bat s = BatWait"
    using inv that by (simp add: cinv_def depth_ok_def)
  ultimately show ?thesis using inv by (auto simp: cinv_def woken_def)
qed

section \<open>Waiting for the lock\<close>

fun sub_rank :: "sub_pc \<Rightarrow> nat" where
  "sub_rank (SubStart r) = 6"
| "sub_rank (SubHolds r) = 5"
| "sub_rank (SubChecked r) = 4"
| "sub_rank (SubSent r) = 3"
| "sub_rank (SubCounted r) = 2"
| "sub_rank (SubLeaves r e) = 1"
| "sub_rank (SubReturned r e) = 0"
| "sub_rank (SubPanicked r) = 0"

fun close_rank :: "bat_pc \<Rightarrow> nat" where
  "close_rank BatLocking = 3"
| "close_rank BatLocked = 2"
| "close_rank BatUnlock = 1"
| "close_rank bat = 0"

fun sub_req :: "sub_pc \<Rightarrow> InferenceRequest" where
  "sub_req (SubStart r) = r"
| "sub_req (SubHolds r) = r"
| "sub_req (SubChecked r) = r"
| "sub_req (SubSent r) = r"
| "sub_req (SubCounted r) = r"
| "sub_req (SubLeaves r e) = r"
| "sub_req (SubReturned r e) = r"
| "sub_req (SubPanicked r) = r"

lemma sub_next_goes: "sub_next pc (l, qm) = Some (pc', l', qm') \<Longrightarrow> sub_rank pc' < sub_rank pc \<and> sub_req pc' = sub_req pc"
  by (cases pc) (auto simp: Let_def split: send_result.splits if_splits)

lemma holds_goes: "holds_lock pc \<Longrightarrow> sub_next pc (l, qm) \<noteq> None"
  by (cases pc) (auto simp: Let_def split: send_result.splits)

definition to_go :: "csys \<Rightarrow> nat" where
  "to_go s = sum_mset (image_mset sub_rank (cs_subs s)) + close_rank (cs_bat s)"

definition same_calls :: "csys \<Rightarrow> csys \<Rightarrow> bool" where
  "same_calls s s' \<longleftrightarrow> image_mset sub_req (cs_subs s') = image_mset sub_req (cs_subs s)
     \<and> (writer_of (cs_bat s) = NoWriter \<longrightarrow> cs_bat s' = cs_bat s)"

lemma submitter_goes:
  assumes "pc \<in># cs_subs s" "sub_next pc (cs_lock s, cs_qm s) \<noteq> None"
  shows "\<exists>s'. gstep s s' \<and> (s', s) \<in> measure to_go \<and> same_calls s s'"
proof -
  obtain pc' l' qm' where n: "sub_next pc (cs_lock s, cs_qm s) = Some (pc', l', qm')" using assms(2) by (cases "sub_next pc (cs_lock s, cs_qm s)") auto
  obtain rest where rest: "cs_subs s = add_mset pc rest" using assms(1) by (blast dest: multi_member_split)
  show ?thesis
    using gstep.submitter [OF assms(1) n] sub_next_goes [OF n] by (intro exI conjI) (assumption, simp_all add: rest to_go_def same_calls_def)
qed

lemma closer_goes:
  assumes "cinv s" "\<forall>pc\<in>#cs_subs s. \<not> holds_lock pc" "writer_of (cs_bat s) \<noteq> NoWriter"
  shows "\<exists>s'. gstep s s' \<and> (s', s) \<in> measure to_go \<and> same_calls s s'"
proof -
  let ?s = "\<lambda>b l qm. s\<lparr>cs_bat := b, cs_lock := l, cs_qm := qm, cs_taken := cs_taken s\<rparr>"
  have free: "rw_readers (cs_lock s) = 0" "rw_writer (cs_lock s) = writer_of (cs_bat s)"
    using assms(1,2) by (simp_all add: cinv_def lock_ok_def readers_none [symmetric])
  have "\<exists>b l qm. bat_step (cs_bat s, cs_lock s, cs_qm s, cs_taken s) (b, l, qm, cs_taken s) \<and> close_rank b < close_rank (cs_bat s)"
  proof (cases "cs_bat s")
    case BatLocking
    then obtain l where "Lock_enter (cs_lock s) = Some l" using free by (simp add: Lock_enter_def)
    from bat_step.enter [OF this, of "cs_qm s" "cs_taken s"] show ?thesis using BatLocking by fastforce
  next
    case BatLocked
    then have "matrix_ok False (cs_qm s)" using assms(1) by (simp add: cinv_def)
    then obtain qm where "QueueMatrix_Close (cs_qm s) = Inr qm" using Close_matrix_ok by blast
    from bat_step.close [OF this, of "cs_lock s" "cs_taken s"] show ?thesis using BatLocked by fastforce
  next
    case BatUnlock
    then show ?thesis using bat_step.unlock [of "cs_lock s" "cs_qm s" "cs_taken s"] by fastforce
  qed (use assms(3) in simp_all)
  then obtain b l qm where b: "bat_step (cs_bat s, cs_lock s, cs_qm s, cs_taken s) (b, l, qm, cs_taken s)" "close_rank b < close_rank (cs_bat s)"
    by blast
  show ?thesis
    using gstep.batcher [OF b(1)] b(2) assms(3) by (intro exI [of _ "?s b l qm"]) (simp add: to_go_def same_calls_def)
qed

interpretation returns: leads_to gstep same_calls cinv "\<lambda>s. \<forall>pc\<in>#cs_subs s. \<exists>r e. pc = SubReturned r e" "measure to_go"
proof (unfold_locales, goal_cases)
  case (2 s)
  then obtain pc where pc: "pc \<in># cs_subs s" "\<forall>r e. pc \<noteq> SubReturned r e" by blast
  have "pc_ok (shut (cs_bat s)) (set (cs_accepted s)) pc" using 2(1) pc(1) by (simp add: cinv_def)
  then have rank: "0 < sub_rank pc" using pc(2) by (cases pc) (auto simp: pc_ok_def)
  have lock: "rw_writer (cs_lock s) = writer_of (cs_bat s)" using 2(1) by (simp add: cinv_def lock_ok_def)
  have "\<exists>s'. gstep s s' \<and> (s', s) \<in> measure to_go \<and> same_calls s s'"
  proof (cases "\<exists>x\<in>#cs_subs s. holds_lock x")
    case True
    then show ?thesis using submitter_goes holds_goes by blast
  next
    case False
    then obtain r where "pc = SubStart r" using rank pc(1) by (cases pc) auto
    then show ?thesis
      using False closer_goes [OF 2(1)] submitter_goes [OF pc(1)] lock
      by (cases "writer_of (cs_bat s) = NoWriter") (auto simp: RLock_def)
  qed
  then show ?case using 2(1) gstep_inv by blast
qed (auto simp: same_calls_def)

text \<open>
  C40: \<open>Submit\<close> and \<open>Close\<close> wait for each other, and never for ever. In every reachable state the lock
  excludes what it must: while \<open>Close\<close> is in it no submitter is, and from its announcement on no new
  one gets in; and whoever is in it is never blocked. So from every reachable state the goroutines that
  are there, without any new call, can come to a state in which every call of \<open>Submit\<close> has returned,
  those that wait for \<open>Close\<close> included; the batcher need not move unless it is inside \<open>Close\<close>. And where
  the lock is not wanted by \<open>Close\<close>, the six steps of a submitter that nobody disturbs are the one step
  \<open>QueueMatrix_Submit\<close> of the other theories, on every branch, and leave the lock as it was.
\<close>

theorem Submit_waits:
  assumes "reaches (csys_init capacity) s"
  shows "(rw_writer (cs_lock s) = WriterIn \<longrightarrow> (\<forall>pc\<in>#cs_subs s. \<not> holds_lock pc))
    \<and> (rw_writer (cs_lock s) \<noteq> NoWriter \<longrightarrow> sub_next (SubStart r) (cs_lock s, cs_qm s) = None)
    \<and> (\<forall>pc\<in>#cs_subs s. holds_lock pc \<longrightarrow> sub_next pc (cs_lock s, cs_qm s) \<noteq> None)
    \<and> (\<exists>s'. gstep\<^sup>*\<^sup>* s s' \<and> image_mset sub_req (cs_subs s') = image_mset sub_req (cs_subs s)
        \<and> (\<forall>pc\<in>#cs_subs s'. \<exists>r e. pc = SubReturned r e)
        \<and> (rw_writer (cs_lock s) = NoWriter \<longrightarrow> cs_bat s' = cs_bat s))
    \<and> (rw_writer (cs_lock s) = NoWriter \<longrightarrow> sub_alone 6 (SubStart r) (cs_lock s, cs_qm s) =
        (case QueueMatrix_Submit (Some r) (cs_qm s) of
           Inr (e, qm') \<Rightarrow> (SubReturned r e, cs_lock s, qm')
         | Inl _ \<Rightarrow> (SubPanicked r, cs_lock s, cs_qm s)))"
proof -
  have inv: "cinv s" by (rule reaches_inv [OF assms cinv_init])
  then have lock: "rw_writer (cs_lock s) = writer_of (cs_bat s)" "rw_readers (cs_lock s) = readers (cs_subs s)"
    "rw_writer (cs_lock s) = WriterIn \<longrightarrow> rw_readers (cs_lock s) = 0"
    by (auto simp: cinv_def lock_ok_def)
  then have "\<forall>pc\<in>#cs_subs s. \<not> holds_lock pc" if "rw_writer (cs_lock s) = WriterIn"
    using that by (simp add: readers_none)
  moreover have "\<forall>pc\<in>#cs_subs s. holds_lock pc \<longrightarrow> sub_next pc (cs_lock s, cs_qm s) \<noteq> None" using holds_goes by blast
  moreover have "sub_next (SubStart r) (cs_lock s, cs_qm s) = None" if "rw_writer (cs_lock s) \<noteq> NoWriter"
    using that by (simp add: RLock_def)
  moreover obtain s' where "gstep\<^sup>*\<^sup>* s s'" "same_calls s s'" "\<forall>pc\<in>#cs_subs s'. \<exists>r e. pc = SubReturned r e"
    using returns.leads [OF inv] by blast
  ultimately show ?thesis using sub_alone_Submit [of "cs_lock s" r "cs_qm s"] lock(1) unfolding same_calls_def by auto
qed

section \<open>A request that a shutdown leaves behind\<close>

definition at_work :: "rwmutex \<Rightarrow> QueueMatrix \<Rightarrow> sub_pc \<Rightarrow> bat_pc \<Rightarrow> InferenceRequest list \<Rightarrow> csys" where
  "at_work l qm pc bat accepted =
     \<lparr>cs_lock = l, cs_qm = qm, cs_subs = {#pc#}, cs_bat = bat, cs_taken = [], cs_accepted = accepted\<rparr>"

definition one_reader :: rwmutex where
  "one_reader = \<lparr>rw_readers = 1, rw_writer = NoWriter\<rparr>"

lemma at_work_sub:
  assumes "sub_next pc (l, qm) = Some (pc', l', qm')"
  shows "cstep (at_work l qm pc bat acc) (at_work l' qm' pc' bat (acc @ sent_now pc'))"
  using gstep.submitter [of pc "at_work l qm pc bat acc" pc' l' qm'] assms by (auto simp: at_work_def intro: cstep.goes)

lemma at_work_bat:
  assumes "bat_step (bat, l, qm, []) (bat', l', qm', [])"
  shows "cstep (at_work l qm pc bat acc) (at_work l' qm' pc bat' acc)"
  using gstep.batcher [of "at_work l qm pc bat acc" bat' l' qm' "[]"] assms by (auto simp: at_work_def intro: cstep.goes)

lemma drain_empty:
  assumes "\<forall>c\<in>set cs. lane qm c = []"
  shows "reaches (at_work l qm pc (BatDrain cs) acc) (at_work l qm pc (BatDrain []) acc)"
  using assms
proof (induction cs)
  case (Cons c cs)
  have "try_recv (qm_queues qm c) = RecvBlocks \<or> try_recv (qm_queues qm c) = RecvClosed"
    using Cons.prems by (simp add: try_recv_def lane_def)
  then have "cstep (at_work l qm pc (BatDrain (c # cs)) acc) (at_work l qm pc (BatDrain cs) acc)"
    by (intro at_work_bat bat_step.drain_next)
  then have "reaches (at_work l qm pc (BatDrain (c # cs)) acc) (at_work l qm pc (BatDrain cs) acc)"
    by (rule reaches.step [OF reaches.start])
  then show ?case using Cons.IH Cons.prems reaches_trans by simp
qed (rule reaches.start)

lemma reaches_checked:
  "reaches (csys_init capacity) (at_work one_reader (NewQueueMatrix capacity) (SubChecked r) BatWait [])"
proof -
  let ?q = "NewQueueMatrix capacity"
  have "cstep (csys_init capacity) (at_work free_lock ?q (SubStart r) BatWait [])"
    using cstep.arrive [of "csys_init capacity" r] by (simp add: csys_init_def at_work_def)
  moreover have "cstep (at_work free_lock ?q (SubStart r) BatWait []) (at_work one_reader ?q (SubHolds r) BatWait [])"
    using at_work_sub [of "SubStart r" free_lock ?q "SubHolds r" one_reader ?q BatWait "[]"]
    by (simp add: RLock_def free_lock_def one_reader_def)
  moreover have "cstep (at_work one_reader ?q (SubHolds r) BatWait []) (at_work one_reader ?q (SubChecked r) BatWait [])"
    using at_work_sub [of "SubHolds r" one_reader ?q "SubChecked r" one_reader ?q BatWait "[]"] NewQueueMatrix_inv [of capacity] by simp
  ultimately show ?thesis by (meson reaches.start reaches.step)
qed

lemma empty_matrix:
  "lane (NewQueueMatrix capacity) c = []" "queued (NewQueueMatrix capacity) = []"
proof -
  show l: "lane (NewQueueMatrix capacity) c = []" for c by (simp add: NewQueueMatrix_def Let_def lane_def)
  then show "queued (NewQueueMatrix capacity) = []" by (simp add: queued_def)
qed

lemma send_new:
  obtains ch where "try_send r (qm_queues (NewQueueMatrix capacity) (route r)) = Sent ch" "ch_buf ch = [r]"
proof -
  have inv: "qm_inv (NewQueueMatrix capacity)" "\<not> qm_closed (NewQueueMatrix capacity)" using NewQueueMatrix_inv by simp_all
  have "ch_buf (qm_queues (NewQueueMatrix capacity) (route r)) = []" using empty_matrix(1) by (simp add: lane_def)
  then show ?thesis
    using that inv qm_invD(1,3,4) [OF inv(1)] by (simp add: try_send_def)
qed

theorem no_lost_wakeup_witness:
  "\<exists>s. reaches (csys_init 16) s \<and> cs_bat s = BatWait \<and> queued (cs_qm s) \<noteq> [] \<and> ch_buf (qm_eventChan (cs_qm s)) = []
     \<and> (\<exists>pc\<in>#cs_subs s. will_signal pc)"
proof -
  let ?q = "NewQueueMatrix 16" and ?r = "sample_request ''a'' 2 100"
  obtain ch where ch: "try_send ?r (qm_queues ?q (route ?r)) = Sent ch" "ch_buf ch = [?r]" by (rule send_new)
  let ?s = "at_work one_reader (?q\<lparr>qm_queues := (qm_queues ?q)(route ?r := ch)\<rparr>) (SubSent ?r) BatWait [?r]"
  have "sub_next (SubChecked ?r) (one_reader, ?q) = Some (SubSent ?r, one_reader, ?q\<lparr>qm_queues := (qm_queues ?q)(route ?r := ch)\<rparr>)"
    by (simp only: sub_next.simps Let_def ch(1) send_result.case)
  from reaches.step [OF reaches_checked at_work_sub [OF this]] have s: "reaches (csys_init 16) ?s"
    by (simp only: append_Nil sent_now.simps)
  have ev: "ch_buf (qm_eventChan ?q) = []" by (simp add: NewQueueMatrix_def Let_def make_chan_def)
  have "length (queued (?q\<lparr>qm_queues := (qm_queues ?q)(route ?r := ch)\<rparr>)) = 1"
    using length_queued_upd [of "route ?r" ?q ch] ch(2) empty_matrix [of 16] by simp
  then have q: "queued (cs_qm ?s) \<noteq> []" by (auto simp: at_work_def)
  have e: "ch_buf (qm_eventChan (cs_qm ?s)) = []" "cs_bat ?s = BatWait" using ev by (simp_all add: at_work_def)
  from no_lost_wakeup [OF s] have "\<exists>pc\<in>#cs_subs ?s. will_signal pc" using q e by blast
  then show ?thesis using s q e by blast
qed

lemma gstep_after_end:
  assumes "cinv s" "cs_bat s = BatEnd" "gstep s s'"
  shows "cs_bat s' = BatEnd \<and> cs_taken s' = cs_taken s \<and> mset (queued (cs_qm s')) = mset (queued (cs_qm s))"
  using assms(3)
proof (cases rule: gstep.cases)
  case (submitter pc pc' l' qm')
  have pc: "pc_ok True (set (cs_accepted s)) pc" "matrix_ok True (cs_qm s)"
    using assms(1,2) submitter(2) by (auto simp: cinv_def)
  note e = sub_next_effect [OF submitter(3) pc(2,1)]
  have "pc_ok True (set (cs_accepted s) \<union> set (sent_now pc')) pc'" using e by blast
  then have "sent_now pc' = []" by (cases pc') (auto simp: pc_ok_def)
  moreover have "mset (queued qm') = mset (queued (cs_qm s)) + mset (sent_now pc')" using e by blast
  ultimately show ?thesis using assms(2) submitter(1) by simp
next
  case (batcher b l' qm' tk)
  then show ?thesis using assms(2) by (auto elim: bat_endE)
qed

lemma cstep_after_end:
  "cstep s s' \<Longrightarrow> cinv s \<Longrightarrow> cs_bat s = BatEnd
    \<Longrightarrow> cs_bat s' = BatEnd \<and> cs_taken s' = cs_taken s \<and> mset (queued (cs_qm s')) = mset (queued (cs_qm s))"
  by (cases rule: cstep.cases) (auto simp: gstep_after_end)

lemma reaches_after_end:
  "reaches s s' \<Longrightarrow> cinv s \<Longrightarrow> cs_bat s = BatEnd
    \<Longrightarrow> cs_bat s' = BatEnd \<and> cs_taken s' = cs_taken s \<and> mset (queued (cs_qm s')) = mset (queued (cs_qm s))"
proof (induction rule: reaches.induct)
  case (step s s' s'')
  have "cinv s'" using step by (blast intro: reaches_inv)
  then show ?case using step cstep_after_end [of s' s''] by simp
qed simp

text \<open>A submitter that has passed the check goes on, whatever the batcher has reached meanwhile.\<close>

definition after_submit :: "InferenceRequest \<Rightarrow> InferenceRequest chan \<Rightarrow> QueueMatrix \<Rightarrow> QueueMatrix" where
  "after_submit r ch q = Signal (q\<lparr>qm_queues := (qm_queues q)(route r := ch), qm_depth := qm_depth q + 1\<rparr>)"

lemma late_submit:
  assumes "reaches s (at_work one_reader q (SubChecked r) b [])" "try_send r (qm_queues q (route r)) = Sent ch"
  shows "reaches s (at_work free_lock (after_submit r ch q) (SubReturned r None) b [r])"
proof -
  let ?q1 = "q\<lparr>qm_queues := (qm_queues q)(route r := ch)\<rparr>" and ?q2 = "q\<lparr>qm_queues := (qm_queues q)(route r := ch), qm_depth := qm_depth q + 1\<rparr>"
  have "sub_next (SubChecked r) (one_reader, q) = Some (SubSent r, one_reader, ?q1)" using assms(2) by simp
  from reaches.step [OF assms(1) at_work_sub [OF this]] have one: "reaches s (at_work one_reader ?q1 (SubSent r) b [r])" by simp
  have "sub_next (SubSent r) (one_reader, ?q1) = Some (SubCounted r, one_reader, ?q2)" by simp
  from reaches.step [OF one at_work_sub [OF this]] have two: "reaches s (at_work one_reader ?q2 (SubCounted r) b [r])" by simp
  have "sub_next (SubCounted r) (one_reader, ?q2) = Some (SubLeaves r None, one_reader, Signal ?q2)" by simp
  from reaches.step [OF two at_work_sub [OF this]] have three: "reaches s (at_work one_reader (Signal ?q2) (SubLeaves r None) b [r])" by simp
  have "sub_next (SubLeaves r None) (one_reader, Signal ?q2) = Some (SubReturned r None, free_lock, Signal ?q2)"
    by (simp add: one_reader_def free_lock_def RUnlock_def)
  from reaches.step [OF three at_work_sub [OF this]] show ?thesis by (simp add: after_submit_def)
qed

text \<open>The batcher has drained the empty matrix before that submitter goes on, and closes it after.\<close>

lemma drained_before:
  "reaches (csys_init capacity) (at_work one_reader ((NewQueueMatrix capacity)\<lparr>qm_depth := 0\<rparr>) (SubChecked r) BatClose [])"
proof -
  let ?q = "NewQueueMatrix capacity"
  have "\<forall>c\<in>set walk_coords. lane ?q c = []" by (simp add: empty_matrix(1))
  note walk = drain_empty [OF this, of one_reader "SubChecked r" "[]"]
  have a: "reaches (csys_init capacity) (at_work one_reader ?q (SubChecked r) (BatDrain []) [])"
    by (rule reaches_trans [OF walk reaches.step [OF reaches_checked at_work_bat [OF bat_step.stop]]])
  have "cstep (at_work one_reader ?q (SubChecked r) (BatDrain []) []) (at_work one_reader (?q\<lparr>qm_depth := 0\<rparr>) (SubChecked r) BatClose [])"
    by (intro at_work_bat bat_step.store)
  from reaches.step [OF a this] show ?thesis .
qed

lemma closed_after:
  assumes "reaches (csys_init capacity) (at_work free_lock q pc BatClose rs)"
  shows "\<exists>q'. reaches (csys_init capacity) (at_work free_lock q' pc BatEnd rs) \<and> matrix_ok True q' \<and> qm_depth q' = qm_depth q"
proof -
  have "cinv (at_work free_lock q pc BatClose rs)" by (rule reaches_inv [OF assms cinv_init])
  then have "matrix_ok False q" by (simp add: cinv_def at_work_def)
  then obtain q' where q': "QueueMatrix_Close q = Inr q'" "matrix_ok True q'" "qm_depth q' = qm_depth q"
    using Close_matrix_ok by blast
  let ?l1 = "free_lock\<lparr>rw_writer := WriterWaits\<rparr>" and ?l2 = "free_lock\<lparr>rw_writer := WriterIn\<rparr>"
  have "Lock_announce free_lock = Some ?l1" "Lock_enter ?l1 = Some ?l2" "Unlock ?l2 = free_lock"
    by (simp_all add: Lock_announce_def Lock_enter_def Unlock_def free_lock_def)
  note lock = this
  have "reaches (csys_init capacity) (at_work ?l1 q pc BatLocking rs)"
    by (rule reaches.step [OF assms at_work_bat [OF bat_step.announce [OF lock(1)]]])
  from reaches.step [OF this at_work_bat [OF bat_step.enter [OF lock(2)]]]
  have "reaches (csys_init capacity) (at_work ?l2 q pc BatLocked rs)" .
  from reaches.step [OF this at_work_bat [OF bat_step.close [OF q'(1)]]]
  have "reaches (csys_init capacity) (at_work ?l2 q' pc BatUnlock rs)" .
  from reaches.step [OF this at_work_bat [OF bat_step.unlock]]
  have "reaches (csys_init capacity) (at_work free_lock q' pc BatEnd rs)" unfolding lock(3) .
  then show ?thesis using q'(2,3) by blast
qed

text \<open>A submitter that has to wait: \<open>Close\<close> has announced itself while another one is in the lock.\<close>

theorem Submit_waits_witness:
  "\<exists>s s'. reaches (csys_init 16) s \<and> cs_bat s = BatLocking
     \<and> cs_subs s = {#SubStart (sample_request ''b'' 2 100), SubChecked (sample_request ''a'' 2 100)#}
     \<and> sub_next (SubStart (sample_request ''b'' 2 100)) (cs_lock s, cs_qm s) = None
     \<and> gstep\<^sup>*\<^sup>* s s' \<and> (\<forall>pc\<in>#cs_subs s'. \<exists>r e. pc = SubReturned r e)
     \<and> image_mset sub_req (cs_subs s') = {#sample_request ''b'' 2 100, sample_request ''a'' 2 100#}"
proof -
  let ?r = "sample_request ''a'' 2 100" and ?l = "one_reader\<lparr>rw_writer := WriterWaits\<rparr>" and ?q = "(NewQueueMatrix 16)\<lparr>qm_depth := 0\<rparr>"
  have "Lock_announce one_reader = Some ?l" by (simp add: Lock_announce_def one_reader_def)
  from reaches.step [OF drained_before at_work_bat [OF bat_step.announce [OF this]]]
  have "reaches (csys_init 16) (at_work ?l ?q (SubChecked ?r) BatLocking [])" .
  from reaches.step [OF this cstep.arrive [of _ "sample_request ''b'' 2 100"]] obtain s where
    s: "reaches (csys_init 16) s" "cs_bat s = BatLocking" "cs_lock s = ?l"
      "cs_subs s = {#SubStart (sample_request ''b'' 2 100), SubChecked ?r#}"
    by (auto simp: at_work_def)
  have "rw_writer (cs_lock s) \<noteq> NoWriter" by (simp add: s(3))
  then show ?thesis using Submit_waits [OF s(1), of "sample_request ''b'' 2 100"] s by auto
qed

text \<open>
  C39: What a shutdown can leave behind. A submitter that has passed the check of \<open>closed\<close> while
  \<open>DrainAll\<close> is walking sends its request into a sub-queue already walked, and returns nil; \<open>Close\<close>
  waits for it, but nothing drains the matrix again. Such a state is reachable for every capacity and
  request, with the batcher ended, the depth at 1, and the request in its sub-queue for ever: no
  later step of anybody receives it, so its client is told of the shutdown by nobody.
\<close>

theorem shutdown_strands:
  "\<exists>s. reaches (csys_init capacity) s \<and> cs_bat s = BatEnd \<and> SubReturned r None \<in># cs_subs s
     \<and> qm_closed (cs_qm s) \<and> qm_depth (cs_qm s) = 1
     \<and> (\<forall>s'. reaches s s' \<longrightarrow> r \<in> set (queued (cs_qm s')) \<and> cs_taken s' = [])"
proof -
  let ?q = "(NewQueueMatrix capacity)\<lparr>qm_depth := 0\<rparr>"
  obtain ch where "try_send r (qm_queues ?q (route r)) = Sent ch" using send_new [of r capacity] by auto
  from late_submit [OF drained_before this]
  have "reaches (csys_init capacity) (at_work free_lock (after_submit r ch ?q) (SubReturned r None) BatClose [r])" .
  from closed_after [OF this] obtain q' where
    q': "reaches (csys_init capacity) (at_work free_lock q' (SubReturned r None) BatEnd [r])" "matrix_ok True q'" "qm_depth q' = 1"
    by (auto simp: after_submit_def)
  let ?s = "at_work free_lock q' (SubReturned r None) BatEnd [r]"
  have inv: "cinv ?s" by (rule reaches_inv [OF q'(1) cinv_init])
  then have left: "mset (queued q') = {#r#}" by (simp add: cinv_def at_work_def)
  have "r \<in> set (queued (cs_qm s')) \<and> cs_taken s' = []" if "reaches ?s s'" for s'
    using reaches_after_end [OF that inv] left set_mset_mset [of "queued (cs_qm s')"] by (simp add: at_work_def)
  then show ?thesis
    using q' by (intro exI [of _ ?s]) (simp add: at_work_def matrix_ok_def)
qed

theorem shutdown_strands_witness:
  "\<exists>s s'. reaches (csys_init 16) s \<and> SubReturned (sample_request ''a'' 2 100) None \<in># cs_subs s
     \<and> cstep s s' \<and> sample_request ''a'' 2 100 \<in> set (queued (cs_qm s')) \<and> cs_taken s' = []"
proof -
  let ?r = "sample_request ''a'' 2 100"
  obtain s where s: "reaches (csys_init 16) s" "SubReturned ?r None \<in># cs_subs s"
    "\<And>s'. reaches s s' \<Longrightarrow> ?r \<in> set (queued (cs_qm s')) \<and> cs_taken s' = []"
    using shutdown_strands [of 16 ?r] by blast
  have "cstep s (s\<lparr>cs_subs := add_mset (SubStart ?r) (cs_subs s)\<rparr>)" by (rule cstep.arrive)
  then show ?thesis using s reaches.step [OF reaches.start] by blast
qed

end
