(* ===== verification/BatcherSteps.thy ===== *)
theory BatcherSteps
  imports Batcher
begin

text \<open>
  The batcher's goroutine as a machine that stops at each of its blocking points: the top of \<open>run\<close>,
  the first \<open>select\<close> of \<open>formBatch\<close>, the passes and the \<open>select\<close> of \<open>accumulate\<close>, the \<open>select\<close> of
  \<open>dispatch\<close>, and in \<open>drain\<close> the \<open>Close\<close> (adaptive.go). \<^verbatim>\<open>Batcher\<close> runs a whole turn with a list of events for every wait; here the
  other goroutines of the server can act between any two moves. The two agree (\<open>formBatch_moves\<close>).
\<close>

section \<open>The machine\<close>

datatype batcher_at =
    AtTop
  | AtWait "nat option"
  | AtPass "nat option" duration Priority RequestType int "InferenceRequest list"
  | AtWindow "nat option" duration Priority RequestType int "InferenceRequest list"
  | AtSend Batch Priority
  | AtClose
  | AtEnd

text \<open>What the environment decides for a move: the case of a \<open>select\<close>, the age of the window, the identifier and time of a new batch, and the case of \<open>dispatch\<close>.\<close>

record move =
  mv_wake :: wake
  mv_elapsed :: duration
  mv_uuid :: string
  mv_now :: instant
  mv_sent :: sent

text \<open>One pass of \<open>accumulate\<close>'s loop up to its \<open>select\<close>; the flag says that it returned.\<close>

definition gather_pass ::
  "nat option \<Rightarrow> Priority \<Rightarrow> RequestType \<Rightarrow> int \<Rightarrow> InferenceRequest list \<Rightarrow> AdaptiveBatcher
     \<Rightarrow> (bool \<times> InferenceRequest list \<times> AdaptiveBatcher) outcome" where
  "gather_pass strategy priority rt bucket reqs b =
     (if \<not> int (length reqs) < bat_MaxBatchSize (ab_cfg b) then Ret (True, reqs, b)
      else
        and_then (of_option (QueueMatrix_DrainFrom priority rt bucket
            (bat_MaxBatchSize (ab_cfg b) - int (length reqs)) (ab_qm b))) (\<lambda>(more, qm).
          let b = b\<lparr>ab_qm := qm\<rparr>;
              reqs = (if length more > 0 then reqs @ more else reqs)
          in Ret ((length more > 0 \<and> bat_MaxBatchSize (ab_cfg b) \<le> int (length reqs))
                  \<or> strategyShouldFlush strategy reqs b
                  \<or> HasHigherPriorityThan priority (ab_qm b), reqs, b)))"

text \<open>The end of \<open>formBatch\<close>, with its deferred re-arm.\<close>

definition batch_formed ::
  "move \<Rightarrow> nat option \<Rightarrow> Priority \<Rightarrow> InferenceRequest list \<Rightarrow> AdaptiveBatcher \<Rightarrow> batcher_at \<times> AdaptiveBatcher" where
  "batch_formed mv strategy priority reqs b =
     (let name = (case strategy of None \<Rightarrow> '''' | Some a \<Rightarrow> Name (ab_store b a))
      in (AtSend (NewBatch (mv_uuid mv) (mv_now mv) reqs name) priority, rearm b))"

text \<open>What follows the first wake: the drain of the best sub-queue and the decision to open a window.\<close>

definition first_drain ::
  "(f64 \<Rightarrow> int) \<Rightarrow> move \<Rightarrow> nat option \<Rightarrow> AdaptiveBatcher \<Rightarrow> (batcher_at \<times> AdaptiveBatcher) outcome" where
  "first_drain oob mv strategy b =
     and_then (of_option (QueueMatrix_Drain (bat_MaxBatchSize (ab_cfg b)) (ab_qm (recv_event b))))
       (\<lambda>((reqs, priority, rt, bucket), qm).
         let b = (recv_event b)\<lparr>ab_qm := qm\<rparr> in
         if length reqs = 0 then Ret (AtTop, rearm b)
         else if int (length reqs) < bat_MaxBatchSize (ab_cfg b) \<and> \<not> strategyShouldFlush strategy reqs b then
           let (timeout, b) = nextTimeout oob strategy b
           in Ret (AtPass strategy timeout priority rt bucket reqs, b)
         else Ret (batch_formed mv strategy priority reqs b))"

text \<open>The end of \<open>run\<close> when a batch could not be sent.\<close>

definition give_up :: "Batch \<Rightarrow> AdaptiveBatcher \<Rightarrow> (batcher_at \<times> AdaptiveBatcher) outcome" where
  "give_up bt b = Ret (AtClose, drain_all (failBatch (Some bt) b))"

fun batcher_next ::
  "(f64 \<Rightarrow> int) \<Rightarrow> move \<Rightarrow> batcher_at \<Rightarrow> AdaptiveBatcher \<Rightarrow> (batcher_at \<times> AdaptiveBatcher) outcome" where
  "batcher_next oob mv AtTop b =
     (if shouldExit b then Ret (AtClose, drain_all b)
      else Ret (AtWait (activeStrategy b), b))"
| "batcher_next oob mv (AtWait strategy) b =
     (if mv_wake mv = WakeTimer \<or> \<not> wake_ready 0 0 (mv_wake mv) b then NotReady
      else if mv_wake mv \<noteq> WakeEvent then Ret (AtTop, rearm b)
      else first_drain oob mv strategy b)"
| "batcher_next oob mv (AtPass strategy timeout priority rt bucket reqs) b =
     and_then (gather_pass strategy priority rt bucket reqs b) (\<lambda>(full, reqs, b).
       Ret (if full then batch_formed mv strategy priority reqs b
            else (AtWindow strategy timeout priority rt bucket reqs, b)))"
| "batcher_next oob mv (AtWindow strategy timeout priority rt bucket reqs) b =
     (if \<not> wake_ready timeout (mv_elapsed mv) (mv_wake mv) b then NotReady
      else Ret (if mv_wake mv = WakeEvent then (AtPass strategy timeout priority rt bucket reqs, recv_event b)
                else batch_formed mv strategy priority reqs b))"
| "batcher_next oob mv (AtSend bt priority) b =
     (case ab_batchChans b (dispatchIndex priority) of
        None \<Rightarrow> give_up bt b
      | Some _ \<Rightarrow> and_then (dispatch_select (mv_sent mv) bt priority b) (\<lambda>(ok, b).
          if ok then Ret (AtTop, b) else give_up bt b))"
| "batcher_next oob mv AtClose b = and_then (drain_close b) (\<lambda>b. Ret (AtEnd, b\<lparr>ab_stoppedCh := True\<rparr>))"
| "batcher_next oob mv AtEnd b = NotReady"

declare batcher_next.simps [simp del]

section \<open>A turn of Batcher is a run of the machine\<close>

lemma accumulate_loop_pass:
  "accumulate_loop strategy timeout priority rt bucket reqs rounds b =
     and_then (gather_pass strategy priority rt bucket reqs b) (\<lambda>(full, reqs, b).
       if full then Ret (reqs, b)
       else
         (case rounds of
            [] \<Rightarrow> Waiting
          | (events, elapsed, w) # rounds' \<Rightarrow>
              and_then (apply_events events b) (\<lambda>b.
                if \<not> wake_ready timeout elapsed w b then NotReady
                else if w = WakeEvent then
                  accumulate_loop strategy timeout priority rt bucket reqs rounds' (recv_event b)
                else Ret (reqs, b))))"
proof (cases "QueueMatrix_DrainFrom priority rt bucket (bat_MaxBatchSize (ab_cfg b) - int (length reqs)) (ab_qm b)")
  case None
  then show ?thesis by (subst accumulate_loop.simps) (simp add: gather_pass_def)
next
  case (Some d)
  then show ?thesis
    by (cases d) (subst accumulate_loop.simps, simp add: gather_pass_def Let_def)
qed

lemma and_then_assoc: "and_then (and_then m f) g = and_then m (\<lambda>x. and_then (f x) g)"
  by (cases m) simp_all

definition turn_move :: "turn \<Rightarrow> wake \<Rightarrow> duration \<Rightarrow> move" where
  "turn_move tn w elapsed = \<lparr>mv_wake = w, mv_elapsed = elapsed, mv_uuid = tn_uuid tn, mv_now = tn_now tn,
     mv_sent = tn_sent tn\<rparr>"

text \<open>The machine run from inside \<open>formBatch\<close> to its end, with the rounds of the turn at its windows.\<close>

fun window_moves ::
  "(f64 \<Rightarrow> int) \<Rightarrow> turn \<Rightarrow> round list \<Rightarrow> batcher_at \<times> AdaptiveBatcher
     \<Rightarrow> ((Batch option \<times> Priority) \<times> AdaptiveBatcher) outcome"
and pass_moves ::
  "(f64 \<Rightarrow> int) \<Rightarrow> turn \<Rightarrow> round list \<Rightarrow> batcher_at \<times> AdaptiveBatcher
     \<Rightarrow> ((Batch option \<times> Priority) \<times> AdaptiveBatcher) outcome" where
  "window_moves oob tn rounds (pc, b) =
     (case pc of
        AtWindow s timeout p rt bk reqs \<Rightarrow>
          (case rounds of
             [] \<Rightarrow> Waiting
           | (events, elapsed, w) # rounds' \<Rightarrow>
               and_then (apply_events events b) (\<lambda>b.
                 and_then (batcher_next oob (turn_move tn w elapsed) pc b) (pass_moves oob tn rounds')))
      | AtSend bt p \<Rightarrow> Ret ((Some bt, p), b)
      | _ \<Rightarrow> Ret ((None, 0), b))"
| "pass_moves oob tn rounds (pc, b) =
     (case pc of
        AtPass s timeout p rt bk reqs \<Rightarrow>
          and_then (batcher_next oob (turn_move tn WakeEvent 0) pc b) (window_moves oob tn rounds)
      | AtSend bt p \<Rightarrow> Ret ((Some bt, p), b)
      | _ \<Rightarrow> Ret ((None, 0), b))"

declare window_moves.simps [simp del] pass_moves.simps [simp del]

lemma moves_at:
  "pass_moves oob tn rounds (AtPass s timeout p rt bk reqs, b) =
     and_then (batcher_next oob (turn_move tn WakeEvent 0) (AtPass s timeout p rt bk reqs) b) (window_moves oob tn rounds)"
  "pass_moves oob tn rounds (AtSend bt p, b) = Ret ((Some bt, p), b)"
  "pass_moves oob tn rounds (AtTop, b) = Ret ((None, 0), b)"
  "window_moves oob tn rounds (AtSend bt p, b) = Ret ((Some bt, p), b)"
  "window_moves oob tn [] (AtWindow s timeout p rt bk reqs, b) = Waiting"
  "window_moves oob tn ((events, elapsed, w) # rounds) (AtWindow s timeout p rt bk reqs, b) =
     and_then (apply_events events b) (\<lambda>b.
       and_then (batcher_next oob (turn_move tn w elapsed) (AtWindow s timeout p rt bk reqs) b) (pass_moves oob tn rounds))"
  by (simp_all only: window_moves.simps pass_moves.simps batcher_at.case list.case prod.case)

lemma batch_formed_moves:
  "window_moves oob tn rounds (batch_formed (turn_move tn w el) s p reqs b)
     = Ret ((Some (NewBatch (tn_uuid tn) (tn_now tn) reqs
         (case s of None \<Rightarrow> '''' | Some a \<Rightarrow> Name (ab_store b a))), p), rearm b)"
  "pass_moves oob tn rounds (batch_formed (turn_move tn w el) s p reqs b)
     = Ret ((Some (NewBatch (tn_uuid tn) (tn_now tn) reqs
         (case s of None \<Rightarrow> '''' | Some a \<Rightarrow> Name (ab_store b a))), p), rearm b)"
  by (simp_all add: batch_formed_def turn_move_def moves_at)

lemma and_then_cong: "(\<And>x. m = Ret x \<Longrightarrow> f x = g x) \<Longrightarrow> and_then m f = and_then m g"
  by (cases m) simp_all

lemma pass_accumulates:
  "pass_moves oob tn rounds (AtPass s timeout p rt bk reqs, b) =
     and_then (accumulate_loop s timeout p rt bk reqs rounds b) (\<lambda>(reqs, b).
       Ret ((Some (NewBatch (tn_uuid tn) (tn_now tn) reqs
         (case s of None \<Rightarrow> '''' | Some a \<Rightarrow> Name (ab_store b a))), p), rearm b))"
proof (induction rounds arbitrary: reqs b)
  case Nil
  show ?case
    unfolding moves_at batcher_next.simps
    by (subst accumulate_loop_pass, unfold and_then_assoc, rule and_then_cong)
      (simp add: split_beta batch_formed_moves moves_at)
next
  case (Cons rd rounds)
  obtain events elapsed w where rd: "rd = (events, elapsed, w)" by (cases rd)
  have wake: "mv_wake (turn_move tn w elapsed) = w" "mv_elapsed (turn_move tn w elapsed) = elapsed"
    by (simp_all add: turn_move_def)
  have window: "window_moves oob tn ((events, elapsed, w) # rounds) (AtWindow s timeout p rt bk reqs, b) =
      and_then (and_then (apply_events events b) (\<lambda>b.
        if \<not> wake_ready timeout elapsed w b then NotReady
        else if w = WakeEvent then accumulate_loop s timeout p rt bk reqs rounds (recv_event b)
        else Ret (reqs, b))) (\<lambda>(reqs, b).
       Ret ((Some (NewBatch (tn_uuid tn) (tn_now tn) reqs
         (case s of None \<Rightarrow> '''' | Some a \<Rightarrow> Name (ab_store b a))), p), rearm b))" for reqs b
    unfolding and_then_assoc moves_at batcher_next.simps wake
    by (rule and_then_cong) (simp add: batch_formed_moves Cons.IH)
  show ?case
    unfolding rd moves_at batcher_next.simps
    by (subst accumulate_loop_pass, unfold and_then_assoc, rule and_then_cong)
      (simp add: split_beta batch_formed_moves window)
qed

text \<open>
  One turn of \<^verbatim>\<open>Batcher\<close> is a run of the machine: the events before the first wake, a move from
  there, and then passes and windows in turn until a batch is formed or there is none, with the
  events of each round before the move at its window. So whatever is proved of the machine, whose
  moves interleave with everything else in the server, is proved of \<open>formBatch\<close>.
\<close>

lemma formBatch_moves:
  "formBatch oob tn b =
     and_then (apply_events (tn_events tn) b) (\<lambda>b'.
       and_then (batcher_next oob (turn_move tn (tn_wake tn) 0) (AtWait (activeStrategy b)) b')
         (pass_moves oob tn (tn_rounds tn)))"
  unfolding formBatch_def Let_def
proof (rule and_then_cong)
  fix b'
  let ?mv = "turn_move tn (tn_wake tn) 0" and ?s = "activeStrategy b"
  have wake: "mv_wake ?mv = tn_wake tn" by (simp add: turn_move_def)
  have top: "pass_moves oob tn rounds (AtTop, b) = Ret ((None, 0), b)" for rounds b
    by (rule moves_at)
  show "(if tn_wake tn = WakeTimer \<or> \<not> wake_ready 0 0 (tn_wake tn) b' then NotReady
      else if tn_wake tn \<noteq> WakeEvent then Ret ((None, 0), rearm b')
      else
        and_then (of_option (QueueMatrix_Drain (bat_MaxBatchSize (ab_cfg b')) (ab_qm (recv_event b'))))
          (\<lambda>((reqs, priority, rt, bucket), qm).
            if length reqs = 0 then Ret ((None, 0), rearm ((recv_event b')\<lparr>ab_qm := qm\<rparr>))
            else
              and_then
                (if int (length reqs) < bat_MaxBatchSize (ab_cfg ((recv_event b')\<lparr>ab_qm := qm\<rparr>))
                    \<and> \<not> strategyShouldFlush ?s reqs ((recv_event b')\<lparr>ab_qm := qm\<rparr>)
                 then accumulate oob ?s reqs priority rt bucket (tn_rounds tn) ((recv_event b')\<lparr>ab_qm := qm\<rparr>)
                 else Ret (reqs, (recv_event b')\<lparr>ab_qm := qm\<rparr>))
                (\<lambda>(reqs, b).
                  Ret ((Some (NewBatch (tn_uuid tn) (tn_now tn) reqs
                    (case ?s of None \<Rightarrow> '''' | Some a \<Rightarrow> Name (ab_store b a))), priority), rearm b))))
    = and_then (batcher_next oob ?mv (AtWait ?s) b') (pass_moves oob tn (tn_rounds tn))"
  proof (cases "QueueMatrix_Drain (bat_MaxBatchSize (ab_cfg b')) (ab_qm (recv_event b'))")
    case None
    then show ?thesis by (simp add: batcher_next.simps wake first_drain_def top)
  next
    case (Some d)
    obtain reqs p rt bk qm where d: "d = ((reqs, p, rt, bk), qm)" by (metis prod.exhaust)
    then show ?thesis
      by (simp add: Some batcher_next.simps wake first_drain_def top Let_def batch_formed_moves accumulate_def
          pass_accumulates split_beta)
  qed
qed

section \<open>What the moves keep\<close>

text \<open>The fields the batcher's goroutine does not write before it dispatches or shuts down.\<close>

definition same_outside :: "AdaptiveBatcher \<Rightarrow> AdaptiveBatcher \<Rightarrow> bool" where
  "same_outside b b' \<longleftrightarrow> ab_cfg b' = ab_cfg b \<and> ab_accepted b' = ab_accepted b \<and> ab_sent b' = ab_sent b
     \<and> ab_notified b' = ab_notified b \<and> ab_batchChans b' = ab_batchChans b \<and> ab_results b' = ab_results b
     \<and> ab_ctxDone b' = ab_ctxDone b \<and> ab_stopCh b' = ab_stopCh b \<and> ab_stopping b' = ab_stopping b
     \<and> ab_metrics b' = ab_metrics b"

lemma same_outside_refl [simp]: "same_outside b b"
  by (simp add: same_outside_def)

lemma same_outside_trans: "same_outside b b' \<Longrightarrow> same_outside b' b'' \<Longrightarrow> same_outside b b''"
  by (simp add: same_outside_def)

lemma same_outside_qm [simp]: "same_outside b (b'\<lparr>ab_qm := qm\<rparr>) = same_outside b b'"
  by (simp add: same_outside_def)

lemma same_outside_recv [simp]: "same_outside b (recv_event b)"
  by (simp add: recv_event_def split: recv_result.split)

lemma same_outside_rearm [simp]: "same_outside b (rearm b') = same_outside b b'"
  by (simp add: rearm_def)

lemma same_outside_timeout [simp]: "same_outside b (snd (nextTimeout oob s b')) = same_outside b b'"
  by (simp add: nextTimeout_def Let_def split_beta same_outside_def split: option.split)

lemma gather_pass_outside: "gather_pass s p rt bk reqs b = Ret (full, reqs', b') \<Longrightarrow> same_outside b b'"
  by (cases "QueueMatrix_DrainFrom p rt bk (bat_MaxBatchSize (ab_cfg b) - int (length reqs)) (ab_qm b)")
    (auto simp: gather_pass_def Let_def split: if_splits)

text \<open>The requests the goroutine holds.\<close>

fun in_hand :: "batcher_at \<Rightarrow> InferenceRequest list" where
  "in_hand (AtPass s timeout p rt bk reqs) = reqs"
| "in_hand (AtWindow s timeout p rt bk reqs) = reqs"
| "in_hand (AtSend bt p) = batch_Requests bt"
| "in_hand pc = []"

definition lane_fits :: "int \<Rightarrow> Priority \<Rightarrow> RequestType \<Rightarrow> int \<Rightarrow> InferenceRequest list \<Rightarrow> bool" where
  "lane_fits mx p rt bk reqs \<longleftrightarrow> int (length reqs) \<le> mx \<and> p \<in> {0..3}
     \<and> same_lane (Coord (priorityIndex p) (typeIndex rt) (bucketIndex bk)) reqs"

fun place_ok :: "int \<Rightarrow> batcher_at \<Rightarrow> bool" where
  "place_ok mx (AtPass s timeout p rt bk reqs) = lane_fits mx p rt bk reqs"
| "place_ok mx (AtWindow s timeout p rt bk reqs) = lane_fits mx p rt bk reqs"
| "place_ok mx (AtSend bt p) = (batch_ok mx bt \<and> p \<in> {0..3} \<and> of_priority (dispatchIndex p) bt)"
| "place_ok mx pc = True"

definition batcher_ok :: "batcher_at \<Rightarrow> AdaptiveBatcher \<Rightarrow> bool" where
  "batcher_ok pc b \<longleftrightarrow>
     (if pc = AtEnd then shut_down b else if pc = AtClose then draining b
      else running (in_hand pc) b \<and> place_ok (bat_MaxBatchSize (ab_cfg b)) pc)"

lemma lane_fits_batch:
  assumes "lane_fits mx p rt bk reqs"
  shows "place_ok mx (AtSend (NewBatch uuid now reqs name) p)"
  using assms
  by (auto simp: lane_fits_def same_lane_def batch_ok_def NewBatch_def Batch_Size_def of_priority_def route_def
      dispatchIndex_priority intro!: exI [of _ "Coord (priorityIndex p) (typeIndex rt) (bucketIndex bk)"])

lemma batch_formed_ok:
  assumes "running reqs b" "lane_fits (bat_MaxBatchSize (ab_cfg b)) p rt bk reqs"
  shows "case batch_formed mv s p reqs b of (pc', b') \<Rightarrow> batcher_ok pc' b' \<and> same_outside b b' \<and> pc' \<notin> {AtClose, AtEnd}
    \<and> in_hand pc' = reqs"
  using assms lane_fits_batch [OF assms(2)]
  by (simp add: batch_formed_def batcher_ok_def Let_def running_rearm NewBatch_def)

lemma gather_pass_ok:
  assumes "running reqs b" "lane_fits (bat_MaxBatchSize (ab_cfg b)) p rt bk reqs"
  shows "safe (\<lambda>(full, reqs', b'). running reqs' b' \<and> lane_fits (bat_MaxBatchSize (ab_cfg b)) p rt bk reqs'
      \<and> same_outside b b') (gather_pass s p rt bk reqs b)"
proof (cases "int (length reqs) < bat_MaxBatchSize (ab_cfg b)")
  case True
  let ?c = "Coord (priorityIndex p) (typeIndex rt) (bucketIndex bk)"
  obtain more qm where d: "QueueMatrix_DrainFrom p rt bk (bat_MaxBatchSize (ab_cfg b) - int (length reqs)) (ab_qm b)
      = Some (more, qm)" "running (reqs @ more) (b\<lparr>ab_qm := qm\<rparr>)"
    "int (length more) \<le> bat_MaxBatchSize (ab_cfg b) - int (length reqs)" "\<forall>r\<in>set more. route r = ?c"
    using DrainFrom_running [OF assms(1) _ refl] True by force
  then show ?thesis
    using True assms(2) by (auto simp: gather_pass_def Let_def lane_fits_def same_lane_def)
qed (use assms in \<open>simp add: gather_pass_def\<close>)

lemma first_drain_ok:
  assumes "running [] b"
  shows "safe (\<lambda>(pc', b'). batcher_ok pc' b' \<and> same_outside b b' \<and> pc' \<notin> {AtClose, AtEnd}) (first_drain oob mv s b)"
proof -
  let ?y = "recv_event b" and ?mx = "bat_MaxBatchSize (ab_cfg b)"
  have y: "running [] ?y" using assms by (rule running_recv)
  obtain reqs p rt bk qm where d: "QueueMatrix_Drain ?mx (ab_qm ?y) = Some ((reqs, p, rt, bk), qm)"
      "running reqs (?y\<lparr>ab_qm := qm\<rparr>)" "int (length reqs) \<le> ?mx"
      "reqs \<noteq> [] \<longrightarrow> same_lane (Coord (priorityIndex p) (typeIndex rt) (bucketIndex bk)) reqs \<and> p \<in> {0..3}"
    using Drain_running [OF y] by auto
  let ?z = "?y\<lparr>ab_qm := qm\<rparr>"
  show ?thesis
  proof (cases "reqs = []")
    case True
    then show ?thesis using d(1,2) by (simp add: first_drain_def batcher_ok_def running_rearm)
  next
    case False
    then have fits: "lane_fits (bat_MaxBatchSize (ab_cfg ?z)) p rt bk reqs" using d(3,4) by (simp add: lane_fits_def)
    have "same_outside b (snd (nextTimeout oob s ?z))" by simp
    moreover have "batcher_ok (AtPass s t p rt bk reqs) (snd (nextTimeout oob s ?z))" for t
      using nextTimeout_running [OF d(2), of oob s] fits by (simp add: batcher_ok_def)
    moreover have "case batch_formed mv s p reqs ?z of (pc', b') \<Rightarrow> batcher_ok pc' b' \<and> same_outside b b' \<and> pc' \<notin> {AtClose, AtEnd}"
      using batch_formed_ok [OF d(2) fits, of mv s] same_outside_trans [of b ?z] by fastforce
    ultimately show ?thesis
      using False d(1) by (simp add: first_drain_def Let_def split_beta del: same_outside_timeout)
  qed
qed

text \<open>
  Every move keeps the invariant, and never panics or hangs. Before the loop is left it changes
  nothing outside except by sending its batch; then the requests in hand and those queued are told,
  and the last move closes the matrix.
\<close>

definition told_all :: "AdaptiveBatcher \<Rightarrow> InferenceRequest list \<Rightarrow> AdaptiveBatcher \<Rightarrow> bool" where
  "told_all b rs b' \<longleftrightarrow> ab_cfg b' = ab_cfg b \<and> ab_accepted b' = ab_accepted b \<and> ab_sent b' = ab_sent b
     \<and> ab_batchChans b' = ab_batchChans b \<and> ab_notified b' = rs \<and> ab_results b' = all_shut_down rs (ab_results b)
     \<and> ab_ctxDone b' = ab_ctxDone b \<and> ab_stopCh b' = ab_stopCh b \<and> ab_stopping b' = ab_stopping b
     \<and> ab_metrics b' = ab_metrics b \<and> queued (ab_qm b') = []"

definition moved :: "batcher_at \<Rightarrow> AdaptiveBatcher \<Rightarrow> batcher_at \<Rightarrow> AdaptiveBatcher \<Rightarrow> bool" where
  "moved pc b pc' b' \<longleftrightarrow>
     (if pc' = AtEnd then pc = AtClose \<and> same_outside b b' \<and> queued (ab_qm b') = queued (ab_qm b)
      else if pc' = AtClose then (shouldExit b \<or> (\<exists>bt p. pc = AtSend bt p \<and> ab_batchChans b (dispatchIndex p) = None))
        \<and> told_all b (in_hand pc @ queued (ab_qm b)) b'
      else same_outside b b'
        \<or> (\<exists>bt p ch ch' elapsed. pc = AtSend bt p \<and> pc' = AtTop \<and> ab_batchChans b (dispatchIndex p) = Some ch
             \<and> try_send bt ch = Sent ch' \<and> b' = batch_sent elapsed bt p ch' b))"

lemma notify_fold_flags [simp]:
  "ab_ctxDone (fold notifyShuttingDown rs b) = ab_ctxDone b"
  "ab_stopCh (fold notifyShuttingDown rs b) = ab_stopCh b"
  "ab_stopping (fold notifyShuttingDown rs b) = ab_stopping b"
  "ab_metrics (fold notifyShuttingDown rs b) = ab_metrics b"
  by (rule notify_fold, simp add: notifyShuttingDown_def)+

lemma all_shut_down_append: "all_shut_down (rs @ qs) res = all_shut_down qs (all_shut_down rs res)"
  by (simp add: all_shut_down_def send_all_append)

lemma drain_all_flags [simp]:
  "ab_ctxDone (drain_all b) = ab_ctxDone b" "ab_stopCh (drain_all b) = ab_stopCh b"
  "ab_stopping (drain_all b) = ab_stopping b" "ab_metrics (drain_all b) = ab_metrics b"
  by (simp_all add: drain_all_def split_beta)

lemma DrainAll_leaves_none [simp]: "queued (snd (QueueMatrix_DrainAll qm)) = []"
  by (simp add: DrainAll_eq queued_nil_iff lane_def)

lemma left_moved:
  assumes "running hand b"
  shows "draining (drain_all (fold notifyShuttingDown hand b))
    \<and> told_all b (hand @ queued (ab_qm b)) (drain_all (fold notifyShuttingDown hand b))"
  using drain_all_draining [OF draining_notify [OF assms]] assms
  by (simp add: told_all_def all_shut_down_append running_def)

lemma close_moved:
  assumes "draining b"
  shows "\<exists>b'. batcher_next oob mv AtClose b = Ret (AtEnd, b') \<and> shut_down b' \<and> ab_stoppedCh b' \<and> same_outside b b'
    \<and> queued (ab_qm b') = queued (ab_qm b)"
proof -
  obtain qm where "drain_close b = Ret (b\<lparr>ab_qm := qm\<rparr>)" "shut_down (b\<lparr>ab_qm := qm\<rparr>)" "queued qm = queued (ab_qm b)"
    by (rule drain_close_draining [OF assms])
  then show ?thesis by (simp add: batcher_next.simps same_outside_def shut_down_def dispatched_def counters_ok_def)
qed

lemma pass_ok:
  assumes run: "running reqs b" "lane_fits (bat_MaxBatchSize (ab_cfg b)) p rt bk reqs"
  shows "safe (\<lambda>(pc', b'). batcher_ok pc' b' \<and> moved (AtPass s timeout p rt bk reqs) b pc' b')
    (batcher_next oob mv (AtPass s timeout p rt bk reqs) b)"
  unfolding batcher_next.simps
proof (rule safe_and_then [OF gather_pass_ok [OF run]], clarify)
  fix full reqs' b'
  assume r: "running reqs' b'" "lane_fits (bat_MaxBatchSize (ab_cfg b)) p rt bk reqs'" "same_outside b b'"
  have cfg: "ab_cfg b' = ab_cfg b" using r(3) by (simp add: same_outside_def)
  have "case batch_formed mv s p reqs' b' of (pc', b'') \<Rightarrow>
      batcher_ok pc' b'' \<and> moved (AtPass s timeout p rt bk reqs) b pc' b''"
    using batch_formed_ok [of reqs' b' p rt bk mv s] r same_outside_trans [OF r(3)]
    by (auto simp: cfg moved_def)
  then show "safe (\<lambda>(pc', b''). batcher_ok pc' b'' \<and> moved (AtPass s timeout p rt bk reqs) b pc' b'')
      (Ret (if full then batch_formed mv s p reqs' b' else (AtWindow s timeout p rt bk reqs', b')))"
    using r cfg by (auto simp: batcher_ok_def moved_def)
qed

lemma send_ok:
  assumes run: "running (batch_Requests bt) b" "batch_ok (bat_MaxBatchSize (ab_cfg b)) bt" "of_priority (dispatchIndex p) bt"
  shows "safe (\<lambda>(pc', b'). batcher_ok pc' b' \<and> moved (AtSend bt p) b pc' b') (batcher_next oob mv (AtSend bt p) b)"
proof -
  have give: "\<exists>b'. give_up bt b = Ret (AtClose, b') \<and> draining b' \<and> told_all b (batch_Requests bt @ queued (ab_qm b)) b'"
    using left_moved [OF run(1)] by (simp add: give_up_def failBatch_def)
  show ?thesis
  proof (cases "ab_batchChans b (dispatchIndex p)")
    case None
    then show ?thesis using give by (auto simp: batcher_next.simps batcher_ok_def moved_def)
  next
    case (Some ch)
    show ?thesis
    proof (cases "mv_sent mv")
      case (SendDone elapsed)
      have "\<not> ch_closed ch" using run(1) Some by (simp add: running_def chans_ok_def)
      then show ?thesis
        using Some SendDone batch_sent_running [OF run Some refl]
        by (auto simp: batcher_next.simps dispatch_select_def try_send_def batcher_ok_def moved_def)
    qed (use give Some in \<open>auto simp: batcher_next.simps dispatch_select_def batcher_ok_def moved_def shouldExit_def\<close>)
  qed
qed

lemma batcher_next_ok:
  assumes "batcher_ok pc b"
  shows "safe (\<lambda>(pc', b'). batcher_ok pc' b' \<and> moved pc b pc' b') (batcher_next oob mv pc b)"
proof (cases pc)
  case AtTop
  have run: "running [] b" using assms AtTop by (simp add: batcher_ok_def)
  then show ?thesis
    using left_moved [OF run] AtTop
    by (auto simp: batcher_next.simps batcher_ok_def moved_def)
next
  case (AtWait s)
  have run: "running [] b" using assms AtWait by (simp add: batcher_ok_def)
  have "safe (\<lambda>(pc', b'). batcher_ok pc' b' \<and> moved pc b pc' b') (first_drain oob mv s b)"
    by (rule safe_mono [OF first_drain_ok [OF run]]) (auto simp: moved_def)
  moreover have "batcher_ok AtTop (rearm b)" using run by (simp add: batcher_ok_def running_rearm)
  ultimately show ?thesis using AtWait by (simp add: batcher_next.simps moved_def)
next
  case (AtPass s timeout p rt bk reqs)
  then show ?thesis using pass_ok [of reqs b p rt bk s timeout oob mv] assms by (simp add: batcher_ok_def)
next
  case (AtWindow s timeout p rt bk reqs)
  have run: "running reqs b" "lane_fits (bat_MaxBatchSize (ab_cfg b)) p rt bk reqs"
    using assms AtWindow by (simp_all add: batcher_ok_def)
  then show ?thesis
    using batch_formed_ok [OF run, of mv s] AtWindow running_recv [OF run(1)]
    by (auto simp: batcher_next.simps batcher_ok_def moved_def)
next
  case (AtSend bt p)
  then show ?thesis using send_ok [of bt b p oob mv] assms by (simp add: batcher_ok_def)
next
  case AtClose
  then show ?thesis using close_moved [of b oob mv] assms by (auto simp: batcher_ok_def moved_def)
qed (simp add: batcher_next.simps)

section \<open>The wake hint\<close>

text \<open>A batcher that waits, or will wait next, has an event pending whenever something is queued.\<close>

definition armed :: "batcher_at \<Rightarrow> AdaptiveBatcher \<Rightarrow> bool" where
  "armed pc b \<longleftrightarrow> (pc = AtTop \<or> (\<exists>s. pc = AtWait s) \<or> (\<exists>bt p. pc = AtSend bt p) \<longrightarrow>
     queued (ab_qm b) \<noteq> [] \<longrightarrow> ch_buf (qm_eventChan (ab_qm b)) \<noteq> [])"

lemma armed_rearm: "running hand b \<Longrightarrow> armed pc (rearm b)"
  using running_qm [of hand b] Signal_pending [of "ab_qm b"]
  by (auto simp: armed_def rearm_def Depth_def qm_invD(6))

lemma armed_batch_formed: "running hand b \<Longrightarrow> armed (fst (batch_formed mv s p reqs b)) (snd (batch_formed mv s p reqs b))"
  by (simp add: batch_formed_def Let_def armed_rearm)

lemma first_drain_armed:
  assumes "running [] b" "first_drain oob mv s b = Ret (pc', b')"
  shows "armed pc' b'"
proof -
  have y: "running [] (recv_event b)" using assms(1) by (rule running_recv)
  obtain reqs p rt bk qm where d: "QueueMatrix_Drain (bat_MaxBatchSize (ab_cfg b)) (ab_qm (recv_event b)) = Some ((reqs, p, rt, bk), qm)"
      "running reqs ((recv_event b)\<lparr>ab_qm := qm\<rparr>)"
    using Drain_running [OF y] by auto
  show ?thesis
    using assms(2) armed_rearm [OF d(2)] armed_batch_formed [OF d(2), of mv s p reqs]
    by (auto simp: first_drain_def d(1) Let_def split_beta armed_def split: if_splits)
qed

lemma batcher_next_armed:
  assumes "batcher_ok pc b" "armed pc b" "batcher_next oob mv pc b = Ret (pc', b')"
  shows "armed pc' b'"
proof (cases pc)
  case AtTop
  then show ?thesis
    using assms by (auto simp: batcher_next.simps armed_def split: if_splits)
next
  case (AtWait s)
  have run: "running [] b" using assms(1) AtWait by (simp add: batcher_ok_def)
  show ?thesis
    using assms(3) AtWait first_drain_armed [OF run] armed_rearm [OF run]
    by (auto simp: batcher_next.simps split: if_splits)
next
  case (AtPass s timeout p rt bk reqs)
  have run: "running reqs b" "lane_fits (bat_MaxBatchSize (ab_cfg b)) p rt bk reqs"
    using assms(1) AtPass by (simp_all add: batcher_ok_def)
  obtain full reqs' b1 where g: "gather_pass s p rt bk reqs b = Ret (full, reqs', b1)"
    using assms(3) AtPass by (cases "gather_pass s p rt bk reqs b") (auto simp: batcher_next.simps)
  have "running reqs' b1" using gather_pass_ok [OF run, of s] by (simp add: g)
  from armed_batch_formed [OF this, of mv s p reqs'] show ?thesis
    using assms(3) AtPass by (auto simp: batcher_next.simps g armed_def split: if_splits)
next
  case (AtWindow s timeout p rt bk reqs)
  have "running reqs b" using assms(1) AtWindow by (simp add: batcher_ok_def)
  from armed_batch_formed [OF this, of mv s p reqs] show ?thesis
    using assms(3) AtWindow by (auto simp: batcher_next.simps armed_def split: if_splits)
next
  case (AtSend bt p)
  have end_armed: "armed pc' b'" if "give_up bt x = Ret (pc', b')" for x
    using that by (auto simp: give_up_def armed_def)
  show ?thesis
  proof (cases "ab_batchChans b (dispatchIndex p)")
    case None
    then show ?thesis using assms(3) AtSend end_armed by (simp add: batcher_next.simps)
  next
    case (Some ch)
    show ?thesis
      using assms(2,3) AtSend Some end_armed
      by (cases "mv_sent mv"; cases "try_send bt ch")
        (auto simp: batcher_next.simps dispatch_select_def batch_sent_def armed_def split: if_splits)
  qed
qed (use assms(3) in \<open>auto simp: batcher_next.simps and_then_Ret armed_def\<close>)

end
