(* ===== verification/Engine.thy ===== *)
theory Engine
  imports BatcherSteps Handlers
begin

text \<open>
  The whole server at work (cmd/server/main.go): the clients' handlers, the batcher, the workers of
  the pool, the upstream ping and the admin endpoint act in any order on the shared channels, result
  channels and contexts. An action is one move of one goroutine; a worker's handling of a batch is
  one action, since it touches only its own worker and its batch's result channels, but the
  contexts may end while it runs.
\<close>

section \<open>A worker's pull, one select at a time\<close>

definition level_cases :: "nat \<Rightarrow> nat list" where
  "level_cases n = (if n = 0 then [3] else if n = 1 then [3, 2] else if n = 2 then [3, 2, 1] else [3, 2, 1, 0])"

datatype looked = LookOn | LookTook nat Batch | LookEnd | LookBlocks | LookNotReady

fun looked_of :: "pulled \<Rightarrow> looked" where
  "looked_of (Pulled (i, bt)) = LookTook i bt"
| "looked_of (PulledClosed i) = LookEnd"
| "looked_of PulledCtx = LookEnd"
| "looked_of PullWaits = LookBlocks"
| "looked_of PullNotReady = LookNotReady"

text \<open>The \<open>n\<close>-th nested \<open>select\<close> of \<open>Run\<close>: the first three have a default case, the last waits.\<close>

definition worker_look :: "pick \<Rightarrow> bool \<Rightarrow> nat \<Rightarrow> (nat \<Rightarrow> Batch chan) \<Rightarrow> looked" where
  "worker_look choice ctxDone n chans =
     (if n = 0 then (if any_ready [3] chans then looked_of (receive 3 chans) else LookOn)
      else if n < 3 then
        (if any_ready (level_cases n) chans then looked_of (select_from (level_cases n) choice chans) else LookOn)
      else
        (case choice of
           PickCtx \<Rightarrow> if ctxDone then LookEnd else LookBlocks
         | PickChan i \<Rightarrow>
             if any_ready (level_cases 3) chans then looked_of (select_from (level_cases 3) choice chans)
             else LookBlocks))"

text \<open>The four looks in turn are the pull of \<^verbatim>\<open>Proxy\<close>.\<close>

definition or_next :: "looked \<Rightarrow> looked \<Rightarrow> looked" where
  "or_next l l' = (if l = LookOn then l' else l)"

fun looks :: "pull \<Rightarrow> nat list \<Rightarrow> looked" where
  "looks p [] = LookOn"
| "looks p (n # ns) = or_next (worker_look (pl_pick p) (pl_ctxDone p) n (pl_chans p n)) (looks p ns)"

lemma looked_of_on [simp]: "looked_of x \<noteq> LookOn"
  by (cases x rule: looked_of.cases) auto

lemma or_next_simps [simp]: "or_next LookOn l = l" "or_next (looked_of x) l = looked_of x"
  "or_next LookEnd l = LookEnd" "or_next LookBlocks l = LookBlocks"
  by (simp_all add: or_next_def)

lemma pull_looks: "looked_of (pull_batch p) = looks p [0, 1, 2, 3]"
  by (cases "pl_pick p") (simp_all add: pull_batch_def worker_look_def level_cases_def)

section \<open>The state\<close>

datatype worker_at = WorkerPulls nat | WorkerHolds Batch | WorkerEnded

text \<open>
  The batch channels are those of the batcher's record, the result channels too. The contexts'
  errors and the fresh addresses (of a request's context and result channel, and of a new
  strategy) belong to the handlers. The last two fields are history: the batches workers have
  finished, and what a handler took from its result channel.
\<close>

record engine =
  en_batcher :: AdaptiveBatcher
  en_at :: batcher_at
  en_chansClosed :: bool
  en_pool :: WorkerPool
  en_workersAt :: "worker_at list"
  en_pinging :: bool
  en_failures :: int
  en_batching :: BatchingConfig
  en_ctxs :: "nat \<Rightarrow> error option"
  en_next :: nat
  en_served :: "Batch list"
  en_received :: "nat \<Rightarrow> RequestResult option"

definition batch_chans :: "AdaptiveBatcher \<Rightarrow> nat \<Rightarrow> Batch chan" where
  "batch_chans b i = (case ab_batchChans b i of Some ch \<Rightarrow> ch | None \<Rightarrow> make_chan 0)"

text \<open>A pool and a batcher wired together, as the goroutines that run them begin.\<close>

definition engine_start :: "WorkerPool \<Rightarrow> BatchingConfig \<Rightarrow> AdaptiveBatcher \<Rightarrow> engine" where
  "engine_start pool batching b =
     \<lparr>en_batcher = b\<lparr>ab_startOnce := True, ab_started := True\<rparr>, en_at = AtTop,
      en_chansClosed = False, en_pool = pool,
      en_workersAt = replicate (length (wp_workers pool)) (WorkerPulls 0), en_pinging = False, en_failures = 0,
      en_batching = batching, en_ctxs = (\<lambda>_. None), en_next = 1, en_served = [],
      en_received = (\<lambda>_. None)\<rparr>"

lemma engine_start_sel [simp]:
  "en_batcher (engine_start pool bc b) = b\<lparr>ab_startOnce := True, ab_started := True\<rparr>"
  "en_at (engine_start pool bc b) = AtTop" "en_chansClosed (engine_start pool bc b) = False"
  "en_pool (engine_start pool bc b) = pool" "en_pinging (engine_start pool bc b) = False"
  "en_workersAt (engine_start pool bc b) = replicate (length (wp_workers pool)) (WorkerPulls 0)"
  "en_batching (engine_start pool bc b) = bc" "en_ctxs (engine_start pool bc b) = (\<lambda>_. None)"
  "en_next (engine_start pool bc b) = 1" "en_served (engine_start pool bc b) = []"
  "en_received (engine_start pool bc b) = (\<lambda>_. None)"
  by (simp_all add: engine_start_def)

text \<open>The wiring of \<open>main\<close>, up to the start of its goroutines.\<close>

definition server_start :: "Config \<Rightarrow> error + engine" where
  "server_start cfg =
     (let pool = NewWorkerPool (cfg_Workers cfg) (cfg_Health cfg) (cfg_Upstream cfg) in
      case server_buildInitialStrategy (cfg_Batching cfg) of
        Inl err \<Rightarrow> Inl err
      | Inr strategy \<Rightarrow>
          (let batcherCfg = NewBatcherConfig (cfg_Batching cfg) (cfg_Workers cfg);
               b = NewAdaptiveBatcher batcherCfg (Some 0) (\<lambda>i. if i < 4 then Some (BatchChans pool i) else None)
                     (\<lambda>_. strategy) (\<lambda>_. NewResultChan);
               b = SetDispatchBlockedHook True b
           in Inr (engine_start pool (cfg_Batching cfg) b)))"

section \<open>The actions\<close>

datatype action =
    Arrive string instant string int Priority RequestType
  | Leave nat error
  | Collect nat
  | Cancel
  | Admin "string option"
  | PushMetrics StrategyMetrics
  | PingStart
  | PingTick "error option \<times> http_reply"
  | BatcherMove move
  | CloseChans
  | WorkerLook nat pick
  | WorkerServe nat exchange

text \<open>
  A handler builds its request with a context and a result channel of its own and submits it. The call
  is one step: nobody calls \<open>Stop\<close> in the server, so its checks are those of its own context, and the
  queue's part holds the read lock. It can come between the batcher's \<open>DrainAll\<close> and \<open>Close\<close>, which are
  two moves.
\<close>

definition do_arrive ::
  "string \<Rightarrow> instant \<Rightarrow> string \<Rightarrow> int \<Rightarrow> Priority \<Rightarrow> RequestType \<Rightarrow> engine \<Rightarrow> engine outcome" where
  "do_arrive uuid now prompt maxTokens priority reqType s =
     (let n = en_next s;
          infReq = NewInferenceRequest uuid now n (Some n) prompt maxTokens priority reqType
      in and_then (Batcher.Submit (en_ctxs s n) (Some infReq) (en_batcher s)) (\<lambda>(err, b).
           Ret (s\<lparr>en_batcher := b, en_next := n + 1\<rparr>)))"

text \<open>The handler's \<open>select\<close> takes the result, once.\<close>

definition do_collect :: "nat \<Rightarrow> engine \<Rightarrow> engine outcome" where
  "do_collect n s =
     (if en_received s n \<noteq> None then NotReady
      else
        (case try_recv (ab_results (en_batcher s) n) of
           Received x ch \<Rightarrow>
             Ret (s\<lparr>en_batcher := (en_batcher s)\<lparr>ab_results := (ab_results (en_batcher s))(n := ch)\<rparr>,
                   en_received := (en_received s)(n := Some x)\<rparr>)
         | _ \<Rightarrow> NotReady))"

definition do_admin :: "string option \<Rightarrow> engine \<Rightarrow> engine" where
  "do_admin decoded s =
     s\<lparr>en_batcher := snd (HandleSetStrategy (en_next s) (Some (en_batching s)) decoded (en_batcher s)),
       en_next := en_next s + 1\<rparr>"

text \<open>The ping's goroutine makes its ticker, which panics unless the interval is positive, and then waits for ticks.\<close>

definition do_ping_start :: "engine \<Rightarrow> engine outcome" where
  "do_ping_start s =
     (if en_pinging s then NotReady
      else if wp_healthInterval (en_pool s) \<le> 0 then Panic NonPositiveInterval
      else Ret (s\<lparr>en_pinging := True\<rparr>))"

definition do_ping :: "error option \<times> http_reply \<Rightarrow> engine \<Rightarrow> engine outcome" where
  "do_ping tick s =
     (if \<not> en_pinging s then NotReady
      else
        let (failures, pool) = ping_tick tick (en_failures s, en_pool s)
        in Ret (s\<lparr>en_failures := failures, en_pool := pool\<rparr>))"

text \<open>The goroutine that ran \<open>adaptive.Start\<close> closes the channels next.\<close>

definition do_close :: "engine \<Rightarrow> engine outcome" where
  "do_close s =
     (if en_at s \<noteq> AtEnd \<or> en_chansClosed s then NotReady
      else
        and_then (of_sum (CloseBatchChans ((en_pool s)\<lparr>wp_batchChans := batch_chans (en_batcher s)\<rparr>))) (\<lambda>pool.
          Ret (s\<lparr>en_chansClosed := True, en_batcher := (en_batcher s)
            \<lparr>ab_batchChans := (\<lambda>i. if i < 4 then Some (wp_batchChans pool i) else None)\<rparr>\<rparr>)))"

definition do_look :: "nat \<Rightarrow> pick \<Rightarrow> engine \<Rightarrow> engine outcome" where
  "do_look i choice s =
     (if \<not> i < length (en_workersAt s) then NotReady
      else
        (case en_workersAt s ! i of
           WorkerPulls n \<Rightarrow>
             (case worker_look choice (ab_ctxDone (en_batcher s)) n (batch_chans (en_batcher s)) of
                LookOn \<Rightarrow> Ret (s\<lparr>en_workersAt := (en_workersAt s)[i := WorkerPulls (n + 1)]\<rparr>)
              | LookTook k bt \<Rightarrow>
                  (case try_recv (batch_chans (en_batcher s) k) of
                     Received _ ch \<Rightarrow> Ret (s\<lparr>en_workersAt := (en_workersAt s)[i := WorkerHolds bt],
                       en_batcher := (en_batcher s)\<lparr>ab_batchChans := (ab_batchChans (en_batcher s))(k := Some ch)\<rparr>\<rparr>)
                   | _ \<Rightarrow> NotReady)
              | LookEnd \<Rightarrow> Ret (s\<lparr>en_workersAt := (en_workersAt s)[i := WorkerEnded]\<rparr>)
              | LookBlocks \<Rightarrow> Waiting
              | LookNotReady \<Rightarrow> NotReady)
         | _ \<Rightarrow> NotReady))"

text \<open>
  The contexts that \<open>process\<close> sees at its two checkpoints are the current ones and those that have
  ended in between; a context that has ended keeps its error.
\<close>

definition grows :: "(nat \<Rightarrow> error option) \<Rightarrow> (nat \<Rightarrow> error option) \<Rightarrow> bool" where
  "grows f g \<longleftrightarrow> (\<forall>n. f n \<noteq> None \<longrightarrow> g n = f n)"

definition do_serve :: "nat \<Rightarrow> exchange \<Rightarrow> engine \<Rightarrow> engine outcome" where
  "do_serve i ex s =
     (if \<not> i < length (en_workersAt s) then NotReady
      else
        (case en_workersAt s ! i of
           WorkerHolds bt \<Rightarrow>
             and_then (of_sum (process ex (wp_upstreamUnhealthy (en_pool s)) bt
                 (wp_workers (en_pool s) ! i, ab_results (en_batcher s)))) (\<lambda>(w, res).
               Ret (s\<lparr>en_pool := (en_pool s)\<lparr>wp_workers := (wp_workers (en_pool s))[i := w]\<rparr>,
                     en_batcher := (en_batcher s)\<lparr>ab_results := res\<rparr>,
                     en_workersAt := (en_workersAt s)[i := WorkerPulls 0],
                     en_ctxs := ex_after ex, en_served := en_served s @ [bt]\<rparr>))
         | _ \<Rightarrow> NotReady))"

fun act :: "(f64 \<Rightarrow> int) \<Rightarrow> action \<Rightarrow> engine \<Rightarrow> engine outcome" where
  "act oob (Arrive uuid now prompt maxTokens p rt) s = do_arrive uuid now prompt maxTokens p rt s"
| "act oob (Leave n e) s = Ret (if en_ctxs s n = None then s\<lparr>en_ctxs := (en_ctxs s)(n := Some e)\<rparr> else s)"
| "act oob (Collect n) s = do_collect n s"
| "act oob Cancel s = Ret (s\<lparr>en_batcher := (en_batcher s)\<lparr>ab_ctxDone := True\<rparr>\<rparr>)"
| "act oob (Admin decoded) s = Ret (do_admin decoded s)"
| "act oob (PushMetrics m) s = Ret (s\<lparr>en_batcher := UpdateStrategyMetrics m (en_batcher s)\<rparr>)"
| "act oob PingStart s = do_ping_start s"
| "act oob (PingTick tick) s = do_ping tick s"
| "act oob (BatcherMove mv) s =
     and_then (batcher_next oob mv (en_at s) (en_batcher s)) (\<lambda>(pc, b). Ret (s\<lparr>en_at := pc, en_batcher := b\<rparr>))"
| "act oob CloseChans s = do_close s"
| "act oob (WorkerLook i choice) s = do_look i choice s"
| "act oob (WorkerServe i ex) s = do_serve i ex s"

text \<open>The environment keeps the contexts monotone; anything else it may choose.\<close>

definition allowed :: "action \<Rightarrow> engine \<Rightarrow> bool" where
  "allowed a s = (case a of
     WorkerServe i ex \<Rightarrow> grows (en_ctxs s) (ex_before ex) \<and> grows (ex_before ex) (ex_after ex)
   | _ \<Rightarrow> True)"

inductive engine_step :: "(f64 \<Rightarrow> int) \<Rightarrow> engine \<Rightarrow> engine \<Rightarrow> bool" for oob where
  step: "allowed a s \<Longrightarrow> act oob a s = Ret s' \<Longrightarrow> engine_step oob s s'"

inductive engine_reaches :: "(f64 \<Rightarrow> int) \<Rightarrow> engine \<Rightarrow> engine \<Rightarrow> bool" for oob where
  start: "engine_reaches oob s s"
| more: "engine_reaches oob s s' \<Longrightarrow> engine_step oob s' s'' \<Longrightarrow> engine_reaches oob s s''"

end
