(* ===== verification/EngineInv.thy ===== *)
theory EngineInv
  imports Engine "HOL-Library.Multiset"
begin

text \<open>
  The invariant of the server: every request the batcher accepted is in exactly one place, a batch
  channel only holds batches of its priority, and each request has at most one result, which
  carries its identifier. One lemma per action shows that it is kept.
\<close>

section \<open>The parts of the invariant\<close>

definition batcher_part :: "bool \<Rightarrow> batcher_at \<Rightarrow> AdaptiveBatcher \<Rightarrow> bool" where
  "batcher_part shut pc b \<longleftrightarrow>
     (if shut then pc = AtEnd \<and> shut_down (b\<lparr>ab_batchChans := (\<lambda>_. None)\<rparr>) else batcher_ok pc b)"

definition chan_wf :: "bool \<Rightarrow> nat \<Rightarrow> Batch chan \<Rightarrow> bool" where
  "chan_wf shut i ch \<longleftrightarrow> 0 < ch_cap ch \<and> length (ch_buf ch) \<le> ch_cap ch \<and> ch_closed ch = shut
     \<and> (\<forall>bt\<in>set (ch_buf ch). of_priority i bt)"

definition chans_wf :: "bool \<Rightarrow> AdaptiveBatcher \<Rightarrow> bool" where
  "chans_wf shut b \<longleftrightarrow>
     (\<forall>i. if i < 4 then \<exists>ch. ab_batchChans b i = Some ch \<and> chan_wf shut i ch else ab_batchChans b i = None)"

fun held_by :: "worker_at \<Rightarrow> Batch list" where
  "held_by (WorkerHolds bt) = [bt]"
| "held_by w = []"

definition held :: "worker_at list \<Rightarrow> Batch list" where
  "held ws = concat (map held_by ws)"

definition in_chans :: "AdaptiveBatcher \<Rightarrow> Batch list" where
  "in_chans b = concat (map (\<lambda>i. ch_buf (batch_chans b i)) [0, 1, 2, 3])"

definition ledger :: "AdaptiveBatcher \<Rightarrow> worker_at list \<Rightarrow> Batch list \<Rightarrow> bool" where
  "ledger b ws served \<longleftrightarrow> mset (ab_sent b) = mset (in_chans b) + mset (held ws) + mset served"

definition addressed :: "nat \<Rightarrow> InferenceRequest list \<Rightarrow> bool" where
  "addressed nxt rs \<longleftrightarrow> distinct (map req_ResultChan rs)
     \<and> (\<forall>r\<in>set rs. \<exists>n<nxt. req_ResultChan r = Some n \<and> req_Ctx r = Some n)"

text \<open>A result channel with nothing in it and nothing taken from it, and one with the one result of its request.\<close>

definition quiet :: "RequestResult chan \<Rightarrow> RequestResult option \<Rightarrow> bool" where
  "quiet ch got \<longleftrightarrow> ch_buf ch = [] \<and> got = None"

definition answered :: "InferenceRequest \<Rightarrow> RequestResult chan \<Rightarrow> RequestResult option \<Rightarrow> bool" where
  "answered r ch got \<longleftrightarrow> (\<exists>x. res_RequestID x = req_ID r
     \<and> (ch_buf ch = [x] \<and> got = None \<or> ch_buf ch = [] \<and> got = Some x))"

definition requests_of :: "Batch list \<Rightarrow> InferenceRequest list" where
  "requests_of bts = concat (map batch_Requests bts)"

definition slot_ok :: "InferenceRequest set \<Rightarrow> InferenceRequest set \<Rightarrow> InferenceRequest \<Rightarrow> RequestResult chan
    \<Rightarrow> RequestResult option \<Rightarrow> error option \<Rightarrow> bool" where
  "slot_ok told served r ch got err \<longleftrightarrow>
     (if r \<in> told then answered r ch got
      else if r \<in> served then answered r ch got \<or> (quiet ch got \<and> err \<noteq> None)
      else quiet ch got)"

definition delivered :: "engine \<Rightarrow> bool" where
  "delivered s \<longleftrightarrow>
     (\<forall>n. ch_cap (ab_results (en_batcher s) n) = 1 \<and> \<not> ch_closed (ab_results (en_batcher s) n))
     \<and> (\<forall>n\<ge>en_next s. quiet (ab_results (en_batcher s) n) (en_received s n))
     \<and> (\<forall>r\<in>set (ab_accepted (en_batcher s)). \<forall>n. req_ResultChan r = Some n \<longrightarrow>
          slot_ok (set (ab_notified (en_batcher s))) (set (requests_of (en_served s))) r
            (ab_results (en_batcher s) n) (en_received s n) (en_ctxs s n))"

definition staffed :: "engine \<Rightarrow> bool" where
  "staffed s \<longleftrightarrow> length (en_workersAt s) = length (wp_workers (en_pool s)) \<and> en_workersAt s \<noteq> []
     \<and> \<not> ab_stopCh (en_batcher s) \<and> \<not> ab_stopping (en_batcher s)
     \<and> (\<not> ab_ctxDone (en_batcher s) \<longrightarrow> en_at s \<notin> {AtClose, AtEnd} \<and> WorkerEnded \<notin> set (en_workersAt s))"

definition engine_inv :: "engine \<Rightarrow> bool" where
  "engine_inv s \<longleftrightarrow> batcher_part (en_chansClosed s) (en_at s) (en_batcher s)
     \<and> chans_wf (en_chansClosed s) (en_batcher s)
     \<and> ledger (en_batcher s) (en_workersAt s) (en_served s)
     \<and> addressed (en_next s) (ab_accepted (en_batcher s))
     \<and> delivered s \<and> staffed s \<and> armed (en_at s) (en_batcher s)"

lemma engine_invD:
  assumes "engine_inv s"
  shows "batcher_part (en_chansClosed s) (en_at s) (en_batcher s)" "chans_wf (en_chansClosed s) (en_batcher s)"
    "ledger (en_batcher s) (en_workersAt s) (en_served s)" "addressed (en_next s) (ab_accepted (en_batcher s))"
    "delivered s" "staffed s" "armed (en_at s) (en_batcher s)"
  using assms by (simp_all add: engine_inv_def)

section \<open>Changes that the invariant does not see\<close>

definition same_core :: "AdaptiveBatcher \<Rightarrow> AdaptiveBatcher \<Rightarrow> bool" where
  "same_core b b' \<longleftrightarrow> ab_cfg b' = ab_cfg b \<and> ab_qm b' = ab_qm b \<and> ab_accepted b' = ab_accepted b
     \<and> ab_sent b' = ab_sent b \<and> ab_notified b' = ab_notified b \<and> ab_batchChans b' = ab_batchChans b
     \<and> ab_requestsQueued b' = ab_requestsQueued b \<and> ab_batchesFormed b' = ab_batchesFormed b
     \<and> ab_totalRequestsInBatches b' = ab_totalRequestsInBatches b"

lemma same_core_running: "same_core b b' \<Longrightarrow> running hand b' = running hand b"
  by (simp add: same_core_def running_def dispatched_def counters_ok_def)

lemma same_core_shut_down: "same_core b b' \<Longrightarrow> shut_down b' = shut_down b"
  by (simp add: same_core_def shut_down_def dispatched_def counters_ok_def)

lemma same_core_draining: "same_core b b' \<Longrightarrow> draining b' = draining b"
  by (simp add: same_core_def draining_def running_def dispatched_def counters_ok_def)

lemma same_core_batcher:
  assumes "same_core b b'"
  shows "batcher_part shut pc b' = batcher_part shut pc b" "chans_wf shut b' = chans_wf shut b"
    "ledger b' ws served = ledger b ws served" "armed pc b' = armed pc b"
proof -
  have "same_core (b\<lparr>ab_batchChans := (\<lambda>_. None)\<rparr>) (b'\<lparr>ab_batchChans := (\<lambda>_. None)\<rparr>)"
    using assms by (simp add: same_core_def)
  then show "batcher_part shut pc b' = batcher_part shut pc b"
    using assms same_core_running [OF assms] same_core_draining [OF assms] same_core_shut_down [OF assms] same_core_shut_down
    by (simp add: batcher_part_def batcher_ok_def) (simp add: same_core_def)
  show "chans_wf shut b' = chans_wf shut b" "ledger b' ws served = ledger b ws served" "armed pc b' = armed pc b"
    using assms by (simp_all add: same_core_def chans_wf_def ledger_def in_chans_def batch_chans_def armed_def)
qed

lemma same_core_updates [simp]:
  "same_core b (b\<lparr>ab_results := res\<rparr>)" "same_core b (b\<lparr>ab_ctxDone := x\<rparr>)" "same_core b (UpdateStrategyMetrics m b)"
  "same_core b (snd (HandleSetStrategy fresh bc decoded b))"
  by (auto simp: same_core_def UpdateStrategyMetrics_def HandleSetStrategy_def SetStrategy_def
      split: option.split sum.split)

section \<open>Where a request is\<close>

lemma mset_requests_of: "mset (requests_of bts) = (\<Sum>bt\<in>#mset bts. mset (batch_Requests bt))"
  by (induction bts) (simp_all add: requests_of_def)

lemma mset_requests_cong: "mset bts = mset bts' \<Longrightarrow> mset (requests_of bts) = mset (requests_of bts')"
  by (simp add: mset_requests_of)

lemma requests_of_append [simp]: "requests_of (as @ bs) = requests_of as @ requests_of bs"
  by (simp add: requests_of_def)

lemma dispatched_requests: "dispatched b = requests_of (ab_sent b)"
  by (simp add: dispatched_def requests_of_def)

text \<open>Every accepted request is in one of these places, once.\<close>

definition places :: "engine \<Rightarrow> InferenceRequest list" where
  "places s = requests_of (in_chans (en_batcher s)) @ requests_of (held (en_workersAt s)) @ requests_of (en_served s)
     @ in_hand (en_at s) @ queued (ab_qm (en_batcher s)) @ ab_notified (en_batcher s)"

text \<open>Before the end everything accepted is dispatched, told, in hand or queued, and an end leaves only what came late.\<close>

lemma batcher_ok_open:
  assumes "pc \<noteq> AtEnd"
  shows "batcher_ok pc b \<longleftrightarrow> running (ab_notified b @ in_hand pc) (b\<lparr>ab_notified := []\<rparr>)
    \<and> (pc \<noteq> AtClose \<longrightarrow> ab_notified b = [] \<and> place_ok (bat_MaxBatchSize (ab_cfg b)) pc)"
proof (cases "pc = AtClose")
  case False
  then show ?thesis using assms by (auto simp: batcher_ok_def running_def dispatched_def counters_ok_def)
qed (use assms in \<open>simp add: batcher_ok_def draining_def\<close>)

lemma batcher_part_log:
  assumes "batcher_part shut pc b"
  shows "qm_inv (ab_qm b) \<and> mset (ab_accepted b) = mset (dispatched b @ ab_notified b @ in_hand pc @ queued (ab_qm b))
    \<and> (\<forall>c. coord_ok c \<longrightarrow> on_lane c (ab_accepted b) = on_lane c (dispatched b @ ab_notified b @ in_hand pc) @ lane (ab_qm b) c)"
proof (cases "pc = AtEnd")
  case True
  then show ?thesis using assms by (auto simp: batcher_part_def batcher_ok_def shut_down_def dispatched_def split: if_splits)
next
  case False
  then have "batcher_ok pc b" using assms by (auto simp: batcher_part_def split: if_splits)
  then have "log_inv (ab_qm b, ab_accepted b, dispatched b @ ab_notified b @ in_hand pc)"
    unfolding batcher_ok_open [OF False] by (simp add: running_def dispatched_def)
  from this log_inv_mset [OF this] show ?thesis by (simp add: log_inv_def)
qed

lemma batcher_accounts:
  assumes "batcher_part shut pc b"
  shows "mset (ab_accepted b) = mset (dispatched b) + mset (in_hand pc) + mset (queued (ab_qm b)) + mset (ab_notified b)"
  using batcher_part_log [OF assms] by simp

text \<open>In every sub-queue requests leave in the order of their acceptance.\<close>

lemma batcher_lanes:
  assumes "batcher_part shut pc b" "coord_ok c"
  shows "on_lane c (ab_accepted b) = on_lane c (dispatched b @ ab_notified b @ in_hand pc @ queued (ab_qm b))"
  using batcher_part_log [OF assms(1)] assms(2) on_lane_queued [of "ab_qm b" c] by simp

lemma engine_places:
  assumes "engine_inv s" shows "mset (ab_accepted (en_batcher s)) = mset (places s)"
proof -
  have "mset (dispatched (en_batcher s)) = mset (requests_of (in_chans (en_batcher s) @ held (en_workersAt s) @ en_served s))"
    unfolding dispatched_requests using assms by (intro mset_requests_cong) (simp add: engine_inv_def ledger_def)
  then show ?thesis
    using batcher_accounts [of "en_chansClosed s" "en_at s" "en_batcher s"] assms
    by (simp add: engine_inv_def places_def)
qed

lemma engine_distinct:
  assumes "engine_inv s" shows "distinct (map req_ResultChan (places s))"
proof -
  have "distinct (map req_ResultChan (ab_accepted (en_batcher s)))" using assms by (simp add: engine_inv_def addressed_def)
  then show ?thesis using engine_places [OF assms] by (metis mset_map mset_eq_imp_distinct_iff)
qed

lemma engine_places_set: "engine_inv s \<Longrightarrow> set (ab_accepted (en_batcher s)) = set (places s)"
  using engine_places by (metis set_mset_mset)

section \<open>The start\<close>

text \<open>A new pool and a new batcher on its channels, with any strategy.\<close>

definition wired :: "WorkerConfig \<Rightarrow> HealthConfig \<Rightarrow> UpstreamConfig \<Rightarrow> BatcherConfig \<Rightarrow> Strategy \<Rightarrow> AdaptiveBatcher" where
  "wired wc hc up bcfg strategy =
     SetDispatchBlockedHook True (NewAdaptiveBatcher bcfg (Some 0)
       (\<lambda>i. if i < 4 then Some (BatchChans (NewWorkerPool wc hc up) i) else None) (\<lambda>_. strategy) (\<lambda>_. NewResultChan))"

lemma engine_start_inv: "engine_inv (engine_start (NewWorkerPool wc hc up) bc (wired wc hc up bcfg strategy))"
proof -
  let ?pool = "NewWorkerPool wc hc up"
  let ?chans = "\<lambda>i. if i < 4 then Some (BatchChans ?pool i) else None"
  let ?init = "NewAdaptiveBatcher bcfg (Some 0) ?chans (\<lambda>_. strategy) (\<lambda>_. NewResultChan)"
  let ?b = "(SetDispatchBlockedHook True ?init)\<lparr>ab_startOnce := True, ab_started := True\<rparr>"
  have new: "BatchChans ?pool i = make_chan (nat (max 1 (wc_Count wc)))" for i
    by (simp add: BatchChans_def NewWorkerPool_fields)
  have len: "wp_workers ?pool \<noteq> []" using NewWorkerPool_inv(2) [of wc hc up] by auto
  have "chans_ok ?chans" by (simp add: chans_ok_def new)
  from NewAdaptiveBatcher_running [OF this] have run: "running [] ?init" .
  have core: "same_core ?init ?b" by (simp add: same_core_def SetDispatchBlockedHook_def)
  have b0: "ab_sent ?init = []" "ab_accepted ?init = []" "ab_results ?init = (\<lambda>_. NewResultChan)" "ab_batchChans ?init = ?chans"
    "\<not> ab_stopCh ?init" "\<not> ab_stopping ?init" "\<not> ab_ctxDone ?init"
    by (simp_all add: NewAdaptiveBatcher_def Let_def)
  have q: "queued (ab_qm ?init) = []"
  proof -
    have "lane (ab_qm ?init) c = []" for c
      by (simp add: NewAdaptiveBatcher_def Let_def NewQueueMatrix_def lane_def)
    then show ?thesis by (simp add: queued_def)
  qed
  have "batcher_part False AtTop ?b" "chans_wf False ?b" "ledger ?b (replicate n (WorkerPulls 0)) []" "armed AtTop ?b" for n
  proof -
    have h: "held (replicate n (WorkerPulls 0)) = []" by (simp add: held_def)
    have "in_chans ?init = []" by (simp add: in_chans_def batch_chans_def b0 new)
    then show "ledger ?b (replicate n (WorkerPulls 0)) []"
      using b0 h unfolding same_core_batcher(3) [OF core] by (simp add: ledger_def)
    show "batcher_part False AtTop ?b" using run unfolding same_core_batcher(1) [OF core] by (simp add: batcher_part_def batcher_ok_def)
    show "chans_wf False ?b" unfolding same_core_batcher(2) [OF core] by (simp add: chans_wf_def chan_wf_def b0 new max_def)
    show "armed AtTop ?b" unfolding same_core_batcher(4) [OF core] by (simp add: armed_def q)
  qed
  then show ?thesis
    using b0 len
    by (simp add: wired_def engine_inv_def addressed_def delivered_def staffed_def quiet_def NewResultChan_def SetDispatchBlockedHook_def)
qed

lemma server_start_wired:
  assumes "server_start cfg = Inr s"
  obtains strategy where "s = engine_start (NewWorkerPool (cfg_Workers cfg) (cfg_Health cfg) (cfg_Upstream cfg)) (cfg_Batching cfg)
      (wired (cfg_Workers cfg) (cfg_Health cfg) (cfg_Upstream cfg) (NewBatcherConfig (cfg_Batching cfg) (cfg_Workers cfg)) strategy)"
  using assms by (auto simp: server_start_def wired_def Let_def split: sum.splits)

lemma server_start_inv: "server_start cfg = Inr s \<Longrightarrow> engine_inv s"
  by (erule server_start_wired) (simp add: engine_start_inv)

section \<open>The handlers\<close>

lemma Submit_unnotified:
  "Submit ctx_err (Some r) (b\<lparr>ab_notified := x\<rparr>) = and_then (Submit ctx_err (Some r) b) (\<lambda>(e, b'). Ret (e, b'\<lparr>ab_notified := x\<rparr>))"
  by (cases "QueueMatrix_Submit (Some r) (ab_qm b)") (auto simp: Submit_whole split: option.split)

lemma running_untold: "running hand b \<Longrightarrow> running hand (b\<lparr>ab_notified := []\<rparr>)"
  by (simp add: running_def dispatched_def counters_ok_def)

lemma Submit_outside:
  assumes "running hand (b\<lparr>ab_notified := []\<rparr>)" "Submit ctx_err (Some r) b = Ret (e, b')"
  shows "running hand (b'\<lparr>ab_notified := []\<rparr>) \<and> ab_cfg b' = ab_cfg b \<and> ab_accepted b' = ab_accepted b @ (if e = None then [r] else [])
    \<and> ab_sent b' = ab_sent b \<and> ab_notified b' = ab_notified b \<and> ab_batchChans b' = ab_batchChans b
    \<and> ab_results b' = ab_results b \<and> ab_ctxDone b' = ab_ctxDone b \<and> ab_stopCh b' = ab_stopCh b
    \<and> ab_stopping b' = ab_stopping b \<and> ab_metrics b' = ab_metrics b
    \<and> (ab_qm b' = ab_qm b \<or> ch_buf (qm_eventChan (ab_qm b')) \<noteq> [])"
proof -
  have q: "qm_inv (ab_qm b)" "\<not> qm_closed (ab_qm b)" using running_qm [OF assms(1)] by auto
  have "ab_sent b' = ab_sent b \<and> ab_notified b' = ab_notified b \<and> ab_batchChans b' = ab_batchChans b
    \<and> ab_results b' = ab_results b \<and> ab_ctxDone b' = ab_ctxDone b \<and> ab_stopCh b' = ab_stopCh b
    \<and> ab_stopping b' = ab_stopping b \<and> ab_metrics b' = ab_metrics b \<and> (ab_qm b' = ab_qm b \<or> ch_buf (qm_eventChan (ab_qm b')) \<noteq> [])"
    using assms(2) Submit_open [OF q, of r] Signal_pending [OF submitted_inv [OF q(1), of r]]
    by (auto simp: Submit_whole split: if_splits option.splits)
  then show ?thesis
    using Submit_running [OF assms(1), of "Some r" ctx_err] assms(2) by (cases e) (auto simp: Submit_unnotified)
qed

lemma Submit_shut: "qm_closed (ab_qm b) \<Longrightarrow> Submit ctx_err (Some r) b = Ret (e, b') \<Longrightarrow> e \<noteq> None \<and> b' = b"
  using Submit_closed [of "ab_qm b" r] by (auto simp: Submit_whole split: if_splits option.splits)

lemma Submit_answers: "qm_inv (ab_qm b) \<Longrightarrow> \<exists>e b'. Submit ctx_err (Some r) b = Ret (e, b')"
  using Submit_inv [of "ab_qm b" "Some r"] by (cases ctx_err) (auto simp: Submit_whole split: option.split)

lemma batcher_part_qm:
  assumes "batcher_part shut pc b"
  shows "qm_inv (ab_qm b)" "pc = AtEnd \<longleftrightarrow> qm_closed (ab_qm b)"
    "pc \<notin> {AtClose, AtEnd} \<Longrightarrow> running (in_hand pc) b" "pc \<noteq> AtEnd \<Longrightarrow> batcher_ok pc b \<and> \<not> shut"
  using assms running_qm [of "in_hand pc" b] draining_qm [of b]
  by (auto simp: batcher_part_def batcher_ok_def shut_down_def split: if_splits)

lemma arrive_inv:
  assumes "engine_inv s" "do_arrive uuid now prompt mx p rt s = Ret s'"
  shows "engine_inv s'"
proof -
  let ?n = "en_next s" and ?b = "en_batcher s"
  obtain r where def_r: "r = NewInferenceRequest uuid now ?n (Some ?n) prompt mx p rt" by blast
  have r: "req_ResultChan r = Some ?n" "req_Ctx r = Some ?n" by (simp_all add: def_r NewInferenceRequest_def)
  obtain e b' where sub: "Submit (en_ctxs s ?n) (Some r) ?b = Ret (e, b')"
    and s': "s' = s\<lparr>en_batcher := b', en_next := ?n + 1\<rparr>"
    using assms(2) unfolding do_arrive_def Let_def def_r [symmetric]
    by (cases "Submit (en_ctxs s ?n) (Some r) ?b") auto
  note inv = engine_invD [OF assms(1)]
  have more: "addressed (?n + 1) (ab_accepted ?b)" using inv(4) by (auto simp: addressed_def less_Suc_eq)
  show ?thesis
  proof (cases "en_at s = AtEnd")
    case True
    then have b': "b' = ?b" using batcher_part_qm(2) [OF inv(1)] Submit_shut [OF _ sub] by blast
    then have "delivered s'" "staffed s'" using inv(5,6) by (simp_all add: s' delivered_def staffed_def)
    then show ?thesis using inv(1-3,7) more b' by (simp add: s' engine_inv_def)
  next
    case False
    then have ok: "batcher_ok (en_at s) ?b" "\<not> en_chansClosed s" using batcher_part_qm(4) [OF inv(1)] by auto
    then have run: "running (ab_notified ?b @ in_hand (en_at s)) (?b\<lparr>ab_notified := []\<rparr>)"
      using batcher_ok_open [OF False] by blast
    note o = Submit_outside [OF run sub]
    have new: "req_ResultChan r' \<noteq> Some ?n" if "r' \<in> set (ab_accepted ?b)" for r'
      using inv(4) that by (auto simp: addressed_def)
    have "set (requests_of (en_served s)) \<union> set (ab_notified ?b) \<subseteq> set (ab_accepted ?b)"
      using engine_places_set [OF assms(1)] by (auto simp: places_def)
    then have fresh: "r \<notin> set (requests_of (en_served s))" "r \<notin> set (ab_notified ?b)" using new r(1) by blast+
    have "quiet (ab_results ?b ?n) (en_received s ?n)" using inv(5) by (simp add: delivered_def)
    then have "slot_ok (set (ab_notified ?b)) (set (requests_of (en_served s))) r (ab_results ?b ?n) (en_received s ?n) (en_ctxs s ?n)"
      using fresh by (simp add: slot_ok_def)
    moreover have "ab_results b' = ab_results ?b" "ab_notified b' = ab_notified ?b"
      "ab_accepted b' = ab_accepted ?b @ (if e = None then [r] else [])" using o by simp_all
    ultimately have "delivered s'"
      using inv(5) r(1) by (auto simp: s' delivered_def)
    moreover have "addressed (?n + 1) (ab_accepted b')" using more o new r by (auto simp: addressed_def)
    moreover have "batcher_ok (en_at s) b'" using ok(1) o unfolding batcher_ok_open [OF False] by simp
    then have "batcher_part (en_chansClosed s) (en_at s) b'" using ok(2) by (simp add: batcher_part_def)
    moreover have "ab_qm b' = ab_qm ?b \<or> ch_buf (qm_eventChan (ab_qm b')) \<noteq> []" using o by blast
    with inv(7) have "armed (en_at s) b'" unfolding armed_def by metis
    moreover have "staffed s'" using inv(6) o by (simp add: s' staffed_def)
    moreover have "chans_wf (en_chansClosed s) b'" "ledger b' (en_workersAt s) (en_served s)"
      using inv(2,3) o by (simp_all add: chans_wf_def ledger_def in_chans_def batch_chans_def)
    ultimately show ?thesis by (simp add: s' engine_inv_def)
  qed
qed

lemma slot_ok_ctx: "slot_ok told served r ch got err \<Longrightarrow> err = None \<or> err' = err \<Longrightarrow> slot_ok told served r ch got err'"
  by (auto simp: slot_ok_def)

lemma leave_inv:
  assumes "engine_inv s" "en_ctxs s n = None"
  shows "engine_inv (s\<lparr>en_ctxs := (en_ctxs s)(n := Some e)\<rparr>)"
proof -
  note inv = engine_invD [OF assms(1)]
  let ?s = "s\<lparr>en_ctxs := (en_ctxs s)(n := Some e)\<rparr>"
  have "slot_ok told served r ch got (en_ctxs s n) \<Longrightarrow> slot_ok told served r ch got (Some e)" for told served r ch got
    using assms(2) by (auto elim: slot_ok_ctx)
  then have "delivered ?s" using inv(5) by (auto simp: delivered_def)
  then show ?thesis using inv(1-4,6,7) by (simp add: engine_inv_def staffed_def)
qed

text \<open>Updates of the batcher's record that the invariant does not see, up to the result channels.\<close>

lemma core_inv:
  assumes "engine_inv s" "same_core (en_batcher s) b'" "ab_results b' = ab_results (en_batcher s)"
    "ab_stopCh b' = ab_stopCh (en_batcher s)" "ab_stopping b' = ab_stopping (en_batcher s)"
    "ab_ctxDone (en_batcher s) \<longrightarrow> ab_ctxDone b'" "en_next s \<le> nxt"
  shows "engine_inv (s\<lparr>en_batcher := b', en_next := nxt\<rparr>)"
proof -
  note inv = engine_invD [OF assms(1)] and core = same_core_batcher [OF assms(2)]
  let ?s = "s\<lparr>en_batcher := b', en_next := nxt\<rparr>"
  have acc: "ab_accepted b' = ab_accepted (en_batcher s)" "ab_notified b' = ab_notified (en_batcher s)"
    using assms(2) by (simp_all add: same_core_def)
  have "delivered ?s" using inv(5) assms(3,7) acc by (auto simp: delivered_def)
  moreover have "addressed nxt (ab_accepted b')"
    unfolding acc addressed_def
  proof (intro conjI ballI)
    fix r assume "r \<in> set (ab_accepted (en_batcher s))"
    then obtain n where "n < en_next s" "req_ResultChan r = Some n \<and> req_Ctx r = Some n"
      using inv(4) unfolding addressed_def by blast
    then show "\<exists>n<nxt. req_ResultChan r = Some n \<and> req_Ctx r = Some n" using assms(7) by (auto intro: exI [of _ n])
  qed (use inv(4) in \<open>simp add: addressed_def\<close>)
  moreover have "staffed ?s" using inv(6) assms(4-6) by (auto simp: staffed_def)
  ultimately show ?thesis using inv(1-3,7) core by (simp add: engine_inv_def)
qed

lemma core_inv_same_next:
  assumes "engine_inv s" "same_core (en_batcher s) b'" "ab_results b' = ab_results (en_batcher s)"
    "ab_stopCh b' = ab_stopCh (en_batcher s)" "ab_stopping b' = ab_stopping (en_batcher s)"
    "ab_ctxDone (en_batcher s) \<longrightarrow> ab_ctxDone b'"
  shows "engine_inv (s\<lparr>en_batcher := b'\<rparr>)"
  using core_inv [OF assms order.refl] by (cases s) simp

lemma cancel_inv: "engine_inv s \<Longrightarrow> engine_inv (s\<lparr>en_batcher := (en_batcher s)\<lparr>ab_ctxDone := True\<rparr>\<rparr>)"
  by (rule core_inv_same_next) simp_all

lemma push_inv: "engine_inv s \<Longrightarrow> engine_inv (s\<lparr>en_batcher := UpdateStrategyMetrics m (en_batcher s)\<rparr>)"
  by (rule core_inv_same_next) (simp_all, simp_all add: UpdateStrategyMetrics_def)

lemma admin_inv: "engine_inv s \<Longrightarrow> engine_inv (do_admin decoded s)"
  unfolding do_admin_def
  by (rule core_inv) (simp_all, simp_all add: HandleSetStrategy_def SetStrategy_def split: option.split sum.split)

lemma ping_inv:
  assumes "engine_inv s" "do_ping tick s = Ret s'" shows "engine_inv s'"
proof -
  obtain f pool where p: "ping_tick tick (en_failures s, en_pool s) = (f, pool)" by fastforce
  have "wp_workers pool = wp_workers (en_pool s)"
    using p by (auto simp: ping_tick_def Let_def split: if_splits)
  then show ?thesis
    using engine_invD [OF assms(1)] assms(2)
    by (auto simp: do_ping_def p engine_inv_def staffed_def delivered_def split: if_splits)
qed

lemma collect_inv:
  assumes "engine_inv s" "do_collect n s = Ret s'" shows "engine_inv s'"
proof -
  let ?b = "en_batcher s"
  note inv = engine_invD [OF assms(1)]
  obtain x ch where got: "en_received s n = None" "try_recv (ab_results ?b n) = Received x ch"
    and s': "s' = s\<lparr>en_batcher := ?b\<lparr>ab_results := (ab_results ?b)(n := ch)\<rparr>, en_received := (en_received s)(n := Some x)\<rparr>"
    using assms(2) by (auto simp: do_collect_def split: if_splits recv_result.splits)
  obtain xs where buf: "ch_buf (ab_results ?b n) = x # xs" "ch = (ab_results ?b n)\<lparr>ch_buf := xs\<rparr>"
    using try_recv_ReceivedD [OF got(2)] by blast
  have slot: "slot_ok told served r ((ab_results ?b n)\<lparr>ch_buf := xs\<rparr>) (Some x) err"
    if "slot_ok told served r (ab_results ?b n) (en_received s n) err" for told served r err
    using that buf got(1) by (auto simp: slot_ok_def answered_def quiet_def split: if_splits)
  have "\<forall>m\<ge>en_next s. m \<noteq> n" using inv(5) buf(1) by (auto simp: delivered_def quiet_def)
  then have "delivered s'" using inv(5) slot buf(2) by (auto simp: s' delivered_def)
  moreover have "same_core ?b (?b\<lparr>ab_results := (ab_results ?b)(n := ch)\<rparr>)" by simp
  note core = same_core_batcher [OF this]
  ultimately show ?thesis using inv(1-4,6,7) core by (simp add: s' engine_inv_def staffed_def)
qed

section \<open>The batcher\<close>

lemma chan_of_wf: "chans_wf shut b \<Longrightarrow> i < 4 \<Longrightarrow> ab_batchChans b i = Some (batch_chans b i) \<and> chan_wf shut i (batch_chans b i)"
  unfolding chans_wf_def by (drule spec [of _ i]) (auto simp: batch_chans_def)

lemma in_chans_cong: "ab_batchChans b' = ab_batchChans b \<Longrightarrow> in_chans b' = in_chans b"
  by (simp add: in_chans_def batch_chans_def)

lemma lt4: "i < (4::nat) \<Longrightarrow> i = 0 \<or> i = 1 \<or> i = 2 \<or> i = 3"
  by auto

lemma in_chans_upd:
  assumes "k < 4"
  shows "mset (in_chans (b\<lparr>ab_batchChans := (ab_batchChans b)(k := Some ch)\<rparr>)) + mset (ch_buf (batch_chans b k))
    = mset (in_chans b) + mset (ch_buf ch)"
  using lt4 [OF assms] by (auto simp: in_chans_def batch_chans_def)

lemma chans_wf_upd:
  "chans_wf shut b \<Longrightarrow> k < 4 \<Longrightarrow> chan_wf shut k ch \<Longrightarrow> chans_wf shut (b\<lparr>ab_batchChans := (ab_batchChans b)(k := Some ch)\<rparr>)"
  by (simp add: chans_wf_def)

text \<open>What telling distinct requests with quiet channels does to the channels.\<close>

lemma all_shut_down_other: "\<forall>r\<in>set rs. req_ResultChan r \<noteq> Some n \<Longrightarrow> all_shut_down rs res n = res n"
  by (auto simp: all_shut_down_def intro!: send_all_other)

lemma all_shut_down_own:
  assumes "distinct (map req_ResultChan rs)" "r \<in> set rs" "req_ResultChan r = Some n" "one_place (res n)"
  shows "ch_buf (all_shut_down rs res n) = [shutdown_result r]"
proof -
  have "map (req_ResultChan \<circ> fst) (map (\<lambda>r. (r, shutdown_result r)) rs) = map req_ResultChan rs" by simp
  then have "distinct (map (req_ResultChan \<circ> fst) (map (\<lambda>r. (r, shutdown_result r)) rs))"
    using assms(1) by presburger
  from send_all_own [where a = n and res = res, OF this _ assms(3,4)] show ?thesis using assms(2) by (simp add: all_shut_down_def)
qed

lemma send_all_wf: "ch_cap (send_all ds res n) = ch_cap (res n) \<and> ch_closed (send_all ds res n) = ch_closed (res n)"
proof (induction ds res rule: send_all.induct)
  case (2 req r ds res)
  then show ?case by (auto simp: send_result_def split: option.split)
qed simp

lemma same_outside_inv:
  assumes "engine_inv s" "same_outside (en_batcher s) b'" "batcher_ok pc' b'" "armed pc' b'" "\<not> en_chansClosed s"
    "pc' \<notin> {AtClose, AtEnd} \<or> ab_ctxDone (en_batcher s)"
  shows "engine_inv (s\<lparr>en_at := pc', en_batcher := b'\<rparr>)"
proof -
  note inv = engine_invD [OF assms(1)]
  have f: "ab_accepted b' = ab_accepted (en_batcher s)" "ab_sent b' = ab_sent (en_batcher s)"
    "ab_notified b' = ab_notified (en_batcher s)" "ab_batchChans b' = ab_batchChans (en_batcher s)"
    "ab_results b' = ab_results (en_batcher s)" "ab_ctxDone b' = ab_ctxDone (en_batcher s)"
    "ab_stopCh b' = ab_stopCh (en_batcher s)" "ab_stopping b' = ab_stopping (en_batcher s)"
    using assms(2) by (simp_all add: same_outside_def)
  then show ?thesis
    using inv assms(3-6) in_chans_cong [OF f(4)]
    by (auto simp: engine_inv_def batcher_part_def chans_wf_def ledger_def delivered_def staffed_def)
qed

lemma sent_inv:
  assumes "engine_inv s" "en_at s = AtSend bt p" "ab_batchChans (en_batcher s) (dispatchIndex p) = Some ch"
    "try_send bt ch = Sent ch'" "b' = batch_sent elapsed bt p ch' (en_batcher s)"
    "batcher_ok AtTop b'" "armed AtTop b'" "\<not> en_chansClosed s"
  shows "engine_inv (s\<lparr>en_at := AtTop, en_batcher := b'\<rparr>)"
proof -
  note inv = engine_invD [OF assms(1)]
  let ?b = "en_batcher s" and ?i = "dispatchIndex p"
  have i: "?i < 4" by (auto simp: dispatchIndex_def)
  have ch: "batch_chans ?b ?i = ch" "chan_wf False ?i ch"
    using chan_of_wf [OF inv(2) i] assms(3,8) by simp_all
  have ch': "ch' = ch\<lparr>ch_buf := ch_buf ch @ [bt]\<rparr>" "length (ch_buf ch) < ch_cap ch"
    using try_send_SentD [OF assms(4)] by auto
  have prio: "of_priority ?i bt"
    using inv(1) assms(2,8) by (simp add: batcher_part_def batcher_ok_def)
  let ?c = "?b\<lparr>ab_batchChans := (ab_batchChans ?b)(?i := Some ch')\<rparr>"
  have f: "ab_accepted b' = ab_accepted ?b" "ab_notified b' = ab_notified ?b" "ab_results b' = ab_results ?b"
    "ab_ctxDone b' = ab_ctxDone ?b" "ab_stopCh b' = ab_stopCh ?b" "ab_stopping b' = ab_stopping ?b"
    "ab_sent b' = ab_sent ?b @ [bt]" "ab_batchChans b' = ab_batchChans ?c"
    by (simp_all add: assms(5) batch_sent_def)
  have "chan_wf False ?i ch'" using ch(2) ch' prio by (auto simp: chan_wf_def)
  then have "chans_wf False ?c" using inv(2) assms(8) by (intro chans_wf_upd i) simp_all
  then have "chans_wf False b'" using f(8) by (simp only: chans_wf_def)
  moreover have "mset (in_chans b') = mset (in_chans ?b) + {#bt#}"
    using in_chans_upd [OF i, of ?b ch'] ch(1) ch' in_chans_cong [OF f(8)] by simp
  then have "ledger b' (en_workersAt s) (en_served s)" using inv(3) f(7) by (simp add: ledger_def)
  moreover have "delivered (s\<lparr>en_at := AtTop, en_batcher := b'\<rparr>)" "staffed (s\<lparr>en_at := AtTop, en_batcher := b'\<rparr>)"
    using inv(5,6) f by (simp_all add: delivered_def staffed_def)
  ultimately show ?thesis using inv(4) f(1) assms(6-8) by (simp add: engine_inv_def batcher_part_def)
qed

text \<open>The end of the loop: everybody still in hand or queued had a quiet channel and is told.\<close>

lemma told_inv:
  assumes "engine_inv s" "told_all (en_batcher s) (in_hand (en_at s) @ queued (ab_qm (en_batcher s))) b'"
    "batcher_ok AtClose b'" "\<not> en_chansClosed s" "en_at s \<notin> {AtClose, AtEnd}" "ab_ctxDone (en_batcher s)"
  shows "engine_inv (s\<lparr>en_at := AtClose, en_batcher := b'\<rparr>)"
proof -
  let ?b = "en_batcher s" and ?rs = "in_hand (en_at s) @ queued (ab_qm (en_batcher s))"
  let ?s = "s\<lparr>en_at := AtClose, en_batcher := b'\<rparr>"
  note inv = engine_invD [OF assms(1)]
  have f: "ab_accepted b' = ab_accepted ?b" "ab_sent b' = ab_sent ?b" "ab_batchChans b' = ab_batchChans ?b"
    "ab_notified b' = ?rs" "ab_results b' = all_shut_down ?rs (ab_results ?b)" "ab_ctxDone b' = ab_ctxDone ?b"
    "ab_stopCh b' = ab_stopCh ?b" "ab_stopping b' = ab_stopping ?b"
    using assms(2) by (simp_all add: told_all_def)
  have none: "ab_notified ?b = []"
    using batcher_part_qm(3) [OF inv(1) assms(5)] by (simp add: running_def)
  have dist: "distinct (map req_ResultChan (requests_of (en_served s) @ ?rs))"
    using engine_distinct [OF assms(1)] by (auto simp: places_def none)
  have acc: "set ?rs \<subseteq> set (ab_accepted ?b)" using engine_places_set [OF assms(1)] by (auto simp: places_def)
  have wf: "ch_cap (ab_results ?b n) = 1 \<and> \<not> ch_closed (ab_results ?b n)" for n using inv(5) by (simp add: delivered_def)
  have inj: "r' = r" if "r \<in> set (ab_accepted ?b)" "r' \<in> set (ab_accepted ?b)" "req_ResultChan r' = req_ResultChan r" for r r'
    using inv(4) that by (auto simp: addressed_def distinct_map dest: inj_onD)
  have slot: "slot_ok (set ?rs) (set (requests_of (en_served s))) r (all_shut_down ?rs (ab_results ?b) n) (en_received s n) (en_ctxs s n)"
    if r: "r \<in> set (ab_accepted ?b)" "req_ResultChan r = Some n" for r n
  proof (cases "r \<in> set ?rs")
    case True
    then have "r \<notin> set (requests_of (en_served s))" using dist by auto
    then have q: "quiet (ab_results ?b n) (en_received s n)" using inv(5) r none by (auto simp: delivered_def slot_ok_def)
    then have "one_place (ab_results ?b n)" using wf [of n] by (simp add: quiet_def one_place_def)
    from all_shut_down_own [where n = n and res = "ab_results ?b", OF _ True r(2) this]
    have "ch_buf (all_shut_down ?rs (ab_results ?b) n) = [shutdown_result r]" using dist by simp
    then show ?thesis using True q by (auto simp: slot_ok_def answered_def quiet_def shutdown_result_def)
  next
    case False
    have "\<forall>r'\<in>set ?rs. req_ResultChan r' \<noteq> Some n" using inj [OF r(1)] acc r(2) False by fastforce
    then have "all_shut_down ?rs (ab_results ?b) n = ab_results ?b n" by (rule all_shut_down_other)
    then show ?thesis using inv(5) r none False by (auto simp: delivered_def slot_ok_def)
  qed
  have "quiet (all_shut_down ?rs (ab_results ?b) n) (en_received s n)" if "en_next s \<le> n" for n
  proof -
    have "req_ResultChan r \<noteq> Some n" if "r \<in> set (ab_accepted ?b)" for r
      using inv(4) that \<open>en_next s \<le> n\<close> by (auto simp: addressed_def)
    then have "\<forall>r\<in>set ?rs. req_ResultChan r \<noteq> Some n" using acc by blast
    then have "all_shut_down ?rs (ab_results ?b) n = ab_results ?b n" by (rule all_shut_down_other)
    then show ?thesis using inv(5) that by (simp add: delivered_def)
  qed
  moreover have "ch_cap (all_shut_down ?rs (ab_results ?b) n) = 1 \<and> \<not> ch_closed (all_shut_down ?rs (ab_results ?b) n)" for n
    using wf [of n] send_all_wf by (simp add: all_shut_down_def)
  ultimately have "delivered ?s" using slot by (simp add: delivered_def f)
  moreover have "staffed ?s" using inv(6) assms(6) f by (simp add: staffed_def)
  moreover have "ledger b' (en_workersAt s) (en_served s)" "chans_wf (en_chansClosed s) b'"
    using inv(2,3) f(2,3) in_chans_cong [OF f(3)] by (simp_all add: ledger_def chans_wf_def)
  ultimately show ?thesis
    using inv(4) assms(3,4) f(1) by (simp add: engine_inv_def batcher_part_def armed_def)
qed

lemma move_inv:
  assumes "engine_inv s" "batcher_next oob mv (en_at s) (en_batcher s) = Ret (pc', b')"
  shows "engine_inv (s\<lparr>en_at := pc', en_batcher := b'\<rparr>)"
proof -
  note inv = engine_invD [OF assms(1)]
  have pc: "en_at s \<noteq> AtEnd" using assms(2) by (auto simp: batcher_next.simps)
  then have sh: "\<not> en_chansClosed s" using inv(1) by (auto simp: batcher_part_def)
  then have ok: "batcher_ok (en_at s) (en_batcher s)" using inv(1) by (simp add: batcher_part_def)
  have ok': "batcher_ok pc' b'" "moved (en_at s) (en_batcher s) pc' b'"
    using batcher_next_ok [OF ok, of oob mv] assms(2) by simp_all
  have ar: "armed pc' b'" by (rule batcher_next_armed [OF ok inv(7) assms(2)])
  show ?thesis
  proof (cases "pc' = AtClose")
    case True
    have "\<forall>p. ab_batchChans (en_batcher s) (dispatchIndex p) \<noteq> None"
    proof
      fix p show "ab_batchChans (en_batcher s) (dispatchIndex p) \<noteq> None"
        using chan_of_wf [OF inv(2), of "dispatchIndex p"] by (auto simp: dispatchIndex_def)
    qed
    then have "shouldExit (en_batcher s)" "told_all (en_batcher s) (in_hand (en_at s) @ queued (ab_qm (en_batcher s))) b'"
      using ok'(2) True by (auto simp: moved_def simp del: not_None_eq)
    moreover from this(1) have "ab_ctxDone (en_batcher s)" using inv(6) by (simp add: shouldExit_def staffed_def)
    moreover have "en_at s \<notin> {AtClose, AtEnd}" using pc True assms(2) by (auto simp: batcher_next.simps and_then_Ret)
    ultimately show ?thesis using told_inv [OF assms(1) _ _ sh] ok'(1) True by simp
  next
    case False
    then consider "same_outside (en_batcher s) b'" "pc' \<noteq> AtEnd \<or> en_at s = AtClose"
      | bt p ch ch' elapsed where "en_at s = AtSend bt p" "pc' = AtTop" "ab_batchChans (en_batcher s) (dispatchIndex p) = Some ch"
        "try_send bt ch = Sent ch'" "b' = batch_sent elapsed bt p ch' (en_batcher s)"
      using ok'(2) by (auto simp: moved_def split: if_splits)
    then show ?thesis
    proof cases
      case 1
      then have "pc' \<notin> {AtClose, AtEnd} \<or> ab_ctxDone (en_batcher s)" using False inv(6) by (auto simp: staffed_def)
      then show ?thesis using same_outside_inv [OF assms(1) 1(1) ok'(1) ar sh] by simp
    next
      case 2
      then show ?thesis using sent_inv [OF assms(1) 2(1,3,4,5)] ok'(1) ar sh by simp
    qed
  qed
qed

section \<open>Closing the channels\<close>

lemma CloseBatchChans_open:
  assumes "\<forall>i<4. \<not> ch_closed (wp_batchChans p i)"
  shows "\<exists>p'. CloseBatchChans p = Inr p' \<and> (\<forall>i<4. wp_batchChans p' i = (wp_batchChans p i)\<lparr>ch_closed := True\<rparr>)"
proof -
  have "\<not> ch_closed (wp_batchChans p 0)" "\<not> ch_closed (wp_batchChans p 1)" "\<not> ch_closed (wp_batchChans p 2)"
    "\<not> ch_closed (wp_batchChans p 3)" using assms by simp_all
  then show ?thesis by (simp add: CloseBatchChans_def close_chan_def less_Suc_eq numeral_eq_Suc)
qed

lemma do_close_eq:
  assumes "engine_inv s" "en_at s = AtEnd" "\<not> en_chansClosed s"
  shows "\<exists>chans. do_close s = Ret (s\<lparr>en_chansClosed := True, en_batcher := (en_batcher s)\<lparr>ab_batchChans := chans\<rparr>\<rparr>)
    \<and> chans_wf True ((en_batcher s)\<lparr>ab_batchChans := chans\<rparr>)
    \<and> in_chans ((en_batcher s)\<lparr>ab_batchChans := chans\<rparr>) = in_chans (en_batcher s)"
proof -
  let ?b = "en_batcher s" and ?p = "(en_pool s)\<lparr>wp_batchChans := batch_chans (en_batcher s)\<rparr>"
  have wf: "chan_wf False i (batch_chans ?b i)" if "i < 4" for i
    using chan_of_wf [OF engine_invD(2) [OF assms(1)] that] assms(3) by simp
  then have "\<forall>i<4. \<not> ch_closed (wp_batchChans ?p i)" by (simp add: chan_wf_def)
  from CloseBatchChans_open [OF this] obtain p' where p': "CloseBatchChans ?p = Inr p'"
    "\<forall>i<4. wp_batchChans p' i = (batch_chans ?b i)\<lparr>ch_closed := True\<rparr>" by auto
  let ?b' = "?b\<lparr>ab_batchChans := (\<lambda>i. if i < 4 then Some (wp_batchChans p' i) else None)\<rparr>"
  have "chans_wf True ?b'" using wf p'(2) by (auto simp: chans_wf_def chan_wf_def)
  moreover have "in_chans ?b' = in_chans ?b" using p'(2) by (simp add: in_chans_def batch_chans_def)
  moreover have "do_close s = Ret (s\<lparr>en_chansClosed := True, en_batcher := ?b'\<rparr>)"
    using assms(2,3) by (simp add: do_close_def p'(1))
  ultimately show ?thesis by blast
qed

lemma do_close_Ret:
  assumes "engine_inv s" "do_close s = Ret s'"
  obtains chans where "s' = s\<lparr>en_chansClosed := True, en_batcher := (en_batcher s)\<lparr>ab_batchChans := chans\<rparr>\<rparr>"
    "chans_wf True ((en_batcher s)\<lparr>ab_batchChans := chans\<rparr>)" "en_at s = AtEnd" "\<not> en_chansClosed s"
    "in_chans ((en_batcher s)\<lparr>ab_batchChans := chans\<rparr>) = in_chans (en_batcher s)"
proof -
  have at: "en_at s = AtEnd" "\<not> en_chansClosed s" using assms(2) by (auto simp: do_close_def split: if_splits)
  then show thesis using do_close_eq [OF assms(1) at] assms(2) that by auto
qed

lemma close_inv:
  assumes "engine_inv s" "do_close s = Ret s'" shows "engine_inv s'"
proof -
  note inv = engine_invD [OF assms(1)]
  obtain chans where s': "s' = s\<lparr>en_chansClosed := True, en_batcher := (en_batcher s)\<lparr>ab_batchChans := chans\<rparr>\<rparr>"
    and wf: "chans_wf True ((en_batcher s)\<lparr>ab_batchChans := chans\<rparr>)"
    and at: "en_at s = AtEnd" "\<not> en_chansClosed s"
    and same: "in_chans ((en_batcher s)\<lparr>ab_batchChans := chans\<rparr>) = in_chans (en_batcher s)"
    by (rule do_close_Ret [OF assms])
  let ?b' = "(en_batcher s)\<lparr>ab_batchChans := chans\<rparr>"
  have "shut_down (en_batcher s)" using inv(1) at by (simp add: batcher_part_def batcher_ok_def)
  then have "batcher_part True AtEnd ?b'"
    by (simp add: batcher_part_def shut_down_def dispatched_def counters_ok_def chans_ok_def)
  moreover have "ledger ?b' (en_workersAt s) (en_served s)" using inv(3) same by (simp add: ledger_def)
  moreover have "delivered s'" "staffed s'" using inv(5,6) by (simp_all add: s' delivered_def staffed_def)
  ultimately show ?thesis using inv(4,7) at wf by (simp add: s' engine_inv_def armed_def)
qed

section \<open>The workers\<close>

lemma worker_look_took:
  assumes "worker_look choice ctxDone n chans = LookTook k bt"
  shows "k < 4 \<and> (\<exists>rest. ch_buf (chans k) = bt # rest)"
proof -
  have rcv: "receive i chans = Pulled (k, bt) \<Longrightarrow> i = k \<and> (\<exists>rest. ch_buf (chans k) = bt # rest)" for i
    by (auto simp: receive_def dest!: try_recv_ReceivedD split: recv_result.splits)
  have of: "looked_of x = LookTook k bt \<Longrightarrow> x = Pulled (k, bt)" for x
    by (cases x rule: looked_of.cases) auto
  have sel: "select_from ks c chans = Pulled (k, bt) \<Longrightarrow> k \<in> set ks \<and> (\<exists>rest. ch_buf (chans k) = bt # rest)" for ks c
    using rcv by (auto simp: select_from_def split: pick.splits if_splits)
  show ?thesis
    using assms by (auto simp: worker_look_def level_cases_def dest!: of sel rcv split: if_splits pick.splits)
qed

lemma worker_look_end:
  assumes "worker_look choice ctxDone n chans = LookEnd"
  shows "ctxDone \<or> (\<exists>k<4. ch_closed (chans k))"
proof -
  have rcv: "looked_of (receive i chans) = LookEnd \<Longrightarrow> ch_closed (chans i)" for i
    by (auto simp: receive_def try_recv_def split: list.splits if_splits)
  have sel: "\<exists>k<4. ch_closed (chans k)" if end_l: "looked_of (select_from ks c chans) = LookEnd" and sub: "set ks \<subseteq> {0, 1, 2, 3}" for ks c
  proof -
    obtain i where i: "c = PickChan i" "i \<in> set ks" "looked_of (receive i chans) = LookEnd"
      using end_l by (auto simp: select_from_def split: pick.splits if_splits)
    then have "i < 4" using sub by auto
    then show ?thesis using rcv [OF i(3)] by blast
  qed
  have levels: "set (level_cases n) \<subseteq> {0, 1, 2, 3}" for n by (simp add: level_cases_def)
  show ?thesis
    using assms rcv [of 3] sel [OF _ levels]
    by (auto simp: worker_look_def split: if_splits pick.splits)
qed

lemma held_append: "held (as @ bs) = held as @ held bs" by (simp add: held_def)

lemma held_update:
  assumes "i < length ws"
  shows "mset (held (ws[i := w])) + mset (held_by (ws ! i)) = mset (held ws) + mset (held_by w)"
proof -
  have "ws = take i ws @ ws ! i # drop (Suc i) ws" using assms by (rule id_take_nth_drop)
  then have "held ws = held (take i ws) @ held_by (ws ! i) @ held (drop (Suc i) ws)"
    by (metis held_append held_def concat.simps(2) list.simps(9))
  moreover have "held (ws[i := w]) = held (take i ws) @ held_by w @ held (drop (Suc i) ws)"
    by (simp add: upd_conv_take_nth_drop assms held_def)
  ultimately show ?thesis by simp
qed

lemma ended_update: "WorkerEnded \<in> set (ws[i := w]) \<Longrightarrow> w = WorkerEnded \<or> WorkerEnded \<in> set ws"
  using set_update_subset_insert [of ws i w] by auto

text \<open>A worker takes a batch out of a channel.\<close>

lemma took_inv:
  assumes "engine_inv s" "i < length (en_workersAt s)" "en_workersAt s ! i = WorkerPulls n"
    and k: "k < 4" "ch_buf (batch_chans (en_batcher s) k) = bt # rest"
  shows "engine_inv (s\<lparr>en_workersAt := (en_workersAt s)[i := WorkerHolds bt], en_batcher := (en_batcher s)
    \<lparr>ab_batchChans := (ab_batchChans (en_batcher s))(k := Some ((batch_chans (en_batcher s) k)\<lparr>ch_buf := rest\<rparr>))\<rparr>\<rparr>)"
    (is "engine_inv ?s")
proof -
  let ?b = "en_batcher s" and ?ch = "(batch_chans (en_batcher s) k)\<lparr>ch_buf := rest\<rparr>" and ?b' = "en_batcher ?s"
  note inv = engine_invD [OF assms(1)]
  have "chan_wf (en_chansClosed s) k (batch_chans ?b k)" using chan_of_wf [OF inv(2) k(1)] by blast
  then have "chan_wf (en_chansClosed s) k ?ch" using k(2) by (simp add: chan_wf_def)
  then have chans: "chans_wf (en_chansClosed s) ?b'" using chans_wf_upd [OF inv(2) k(1)] by simp
  have "mset (in_chans ?b') + {#bt#} = mset (in_chans ?b)" using in_chans_upd [OF k(1), of ?b ?ch] k(2) by simp
  then have ledger: "ledger ?b' ((en_workersAt s)[i := WorkerHolds bt]) (en_served s)"
    using inv(3) held_update [OF assms(2), of "WorkerHolds bt"] assms(3) by (simp add: ledger_def)
  have "chans_ok (ab_batchChans ?b')" if "\<not> en_chansClosed s"
    using chans that unfolding chans_ok_def chans_wf_def chan_wf_def by (metis option.inject option.distinct(1))
  then have "batcher_part (en_chansClosed s) (en_at s) ?b'"
    using inv(1)
    by (auto simp: batcher_part_def batcher_ok_def draining_def running_def shut_down_def dispatched_def counters_ok_def)
  moreover have "delivered ?s" "staffed ?s" using inv(5,6) by (auto simp: delivered_def staffed_def dest: ended_update)
  ultimately show ?thesis using inv(4,7) chans ledger by (simp add: engine_inv_def armed_def)
qed

lemma look_inv:
  assumes "engine_inv s" "do_look i choice s = Ret s'" shows "engine_inv s'"
proof -
  let ?b = "en_batcher s" and ?chans = "batch_chans (en_batcher s)"
  note inv = engine_invD [OF assms(1)]
  obtain n where i: "i < length (en_workersAt s)" and n: "en_workersAt s ! i = WorkerPulls n"
    using assms(2) by (auto simp: do_look_def split: if_splits worker_at.splits)
  have h: "mset (held ((en_workersAt s)[i := w])) = mset (held (en_workersAt s)) + mset (held_by w)" for w
    using held_update [OF i, of w] by (simp add: n)
  have idle: "engine_inv (s\<lparr>en_workersAt := (en_workersAt s)[i := w]\<rparr>)"
    if "held_by w = []" "w = WorkerEnded \<longrightarrow> ab_ctxDone ?b" for w
    using inv h [of w] that
    by (auto simp: engine_inv_def ledger_def staffed_def delivered_def dest: ended_update)
  show ?thesis
  proof (cases "worker_look choice (ab_ctxDone ?b) n ?chans")
    case LookOn
    then have "s' = s\<lparr>en_workersAt := (en_workersAt s)[i := WorkerPulls (n + 1)]\<rparr>"
      using assms(2) i n by (simp add: do_look_def)
    then show ?thesis using idle [of "WorkerPulls (n + 1)"] by simp
  next
    case LookEnd
    then have s': "s' = s\<lparr>en_workersAt := (en_workersAt s)[i := WorkerEnded]\<rparr>"
      using assms(2) i n by (simp add: do_look_def)
    have "ab_ctxDone ?b"
    proof (cases "ab_ctxDone ?b")
      case False
      then obtain k where "k < 4" "ch_closed (?chans k)" using worker_look_end [OF LookEnd] by blast
      then have "en_chansClosed s" using chan_of_wf [OF inv(2)] by (simp add: chan_wf_def)
      then have "en_at s = AtEnd" using inv(1) by (simp add: batcher_part_def)
      then show ?thesis using inv(6) by (simp add: staffed_def)
    qed
    then show ?thesis using idle [of WorkerEnded] s' by simp
  next
    case (LookTook k bt)
    obtain rest where k: "k < 4" "ch_buf (?chans k) = bt # rest" using worker_look_took [OF LookTook] by blast
    then show ?thesis
      using took_inv [OF assms(1) i n k] assms(2) i n LookTook by (simp add: do_look_def try_recv_def)
  qed (use assms(2) i n in \<open>simp_all add: do_look_def\<close>)
qed

lemma held_split: "i < length ws \<Longrightarrow> ws ! i = WorkerHolds bt \<Longrightarrow> \<exists>as bs. held ws = as @ bt # bs"
  using id_take_nth_drop [of i ws] by (metis held_append held_def append_Cons append_Nil concat.simps(2) held_by.simps(1) list.simps(9))

text \<open>A batch in a worker's hands: its requests are accepted, distinct, with contexts, and have no result yet.\<close>

lemma held_requests:
  assumes "engine_inv s" "i < length (en_workersAt s)" "en_workersAt s ! i = WorkerHolds bt"
  shows "distinct (map req_ResultChan (batch_Requests bt))"
    "r \<in> set (batch_Requests bt) \<Longrightarrow> r \<in> set (ab_accepted (en_batcher s))
      \<and> r \<notin> set (requests_of (en_served s)) \<and> r \<notin> set (ab_notified (en_batcher s))"
    "r \<in> set (batch_Requests bt) \<Longrightarrow> \<exists>n<en_next s. req_ResultChan r = Some n \<and> req_Ctx r = Some n
      \<and> one_place (ab_results (en_batcher s) n) \<and> en_received s n = None"
proof -
  note inv = engine_invD [OF assms(1)]
  obtain as bs where h: "held (en_workersAt s) = as @ bt # bs" using held_split [OF assms(2,3)] by blast
  have req: "requests_of (as @ bt # bs) = requests_of as @ batch_Requests bt @ requests_of bs"
    by (simp add: requests_of_def)
  have d: "distinct (map req_ResultChan (batch_Requests bt @ requests_of (en_served s) @ ab_notified (en_batcher s)))"
    using engine_distinct [OF assms(1)] unfolding places_def h req by auto
  then show "distinct (map req_ResultChan (batch_Requests bt))" by simp
  show acc: "r \<in> set (ab_accepted (en_batcher s))
      \<and> r \<notin> set (requests_of (en_served s)) \<and> r \<notin> set (ab_notified (en_batcher s))" if "r \<in> set (batch_Requests bt)" for r
    using engine_places_set [OF assms(1)] d that unfolding places_def h req by auto
  show "\<exists>n<en_next s. req_ResultChan r = Some n \<and> req_Ctx r = Some n
      \<and> one_place (ab_results (en_batcher s) n) \<and> en_received s n = None" if r: "r \<in> set (batch_Requests bt)"
  proof -
    obtain n where n: "n < en_next s" "req_ResultChan r = Some n" "req_Ctx r = Some n"
      using inv(4) acc [OF r] by (auto simp: addressed_def)
    then have "quiet (ab_results (en_batcher s) n) (en_received s n)"
      using inv(5) acc [OF r] by (auto simp: delivered_def slot_ok_def)
    then show ?thesis using n inv(5) by (auto simp: delivered_def one_place_def quiet_def)
  qed
qed

text \<open>The slot of an accepted request when a batch has been served.\<close>

lemma served_slot:
  assumes "engine_inv s" "i < length (en_workersAt s)" "en_workersAt s ! i = WorkerHolds bt"
    and p: "process ex unhealthy bt (w, ab_results (en_batcher s)) = Inr (w', res)"
    and ctx: "en_ctxs s n = None \<or> ex_after ex n = en_ctxs s n"
    and r: "r \<in> set (ab_accepted (en_batcher s))" "req_ResultChan r = Some n"
  shows "slot_ok (set (ab_notified (en_batcher s))) (set (requests_of (en_served s @ [bt]))) r (res n) (en_received s n) (ex_after ex n)"
proof (cases "r \<in> set (batch_Requests bt)")
  case True
  note reqs = held_requests [OF assms(1-3)]
  obtain m where m: "req_ResultChan r = Some m" "req_Ctx r = Some m" "one_place (ab_results (en_batcher s) m)" "en_received s m = None"
    using reqs(3) [OF True] by blast
  have n: "m = n" using m(1) r(2) by simp
  have "(\<exists>x. ch_buf (res n) = [x] \<and> res_RequestID x = req_ID r) \<or> (ch_buf (res n) = [] \<and> ctx_error (ex_after ex) r \<noteq> None)"
    using process_one_result [where res = "ab_results (en_batcher s)" and a = n, OF p reqs(1) True r(2)] m(3) n by simp
  then show ?thesis
    using reqs(2) [OF True] True m(2,4) n
    by (auto simp: slot_ok_def answered_def quiet_def ctx_error_def requests_of_def)
next
  case False
  note inv = engine_invD [OF assms(1)]
  have inj: "r' = r" if "r' \<in> set (ab_accepted (en_batcher s))" "req_ResultChan r' = req_ResultChan r" for r'
    using inv(4) r(1) that by (auto simp: addressed_def distinct_map dest: inj_onD)
  have "\<forall>r'\<in>set (batch_Requests bt). req_ResultChan r' \<noteq> Some n"
    using inj held_requests(2) [OF assms(1-3)] r(2) False by fastforce
  then have "res n = ab_results (en_batcher s) n" by (rule process_other [OF p])
  moreover have "slot_ok (set (ab_notified (en_batcher s))) (set (requests_of (en_served s))) r (ab_results (en_batcher s) n)
      (en_received s n) (en_ctxs s n)"
    using inv(5) r by (simp add: delivered_def)
  note slot_ok_ctx [OF this ctx]
  ultimately show ?thesis using False by (auto simp: slot_ok_def requests_of_def split: if_splits)
qed

lemma serve_inv:
  assumes "engine_inv s" "do_serve i ex s = Ret s'" "allowed (WorkerServe i ex) s" shows "engine_inv s'"
proof -
  let ?b = "en_batcher s"
  note inv = engine_invD [OF assms(1)]
  obtain bt where i: "i < length (en_workersAt s)" and bt: "en_workersAt s ! i = WorkerHolds bt"
    using assms(2) by (auto simp: do_serve_def split: if_splits worker_at.splits)
  obtain w res where p: "process ex (wp_upstreamUnhealthy (en_pool s)) bt (wp_workers (en_pool s) ! i, ab_results ?b) = Inr (w, res)"
    and s': "s' = s\<lparr>en_pool := (en_pool s)\<lparr>wp_workers := (wp_workers (en_pool s))[i := w]\<rparr>, en_batcher := ?b\<lparr>ab_results := res\<rparr>,
      en_workersAt := (en_workersAt s)[i := WorkerPulls 0], en_ctxs := ex_after ex, en_served := en_served s @ [bt]\<rparr>"
    using assms(2) i bt
    by (cases "process ex (wp_upstreamUnhealthy (en_pool s)) bt (wp_workers (en_pool s) ! i, ab_results ?b)") (auto simp: do_serve_def)
  note reqs = held_requests [OF assms(1) i bt]
  have ctx: "en_ctxs s n = None \<or> ex_after ex n = en_ctxs s n" for n
    using assms(3) unfolding allowed_def grows_def action.case by metis
  obtain ds where ds: "res = send_all ds (ab_results ?b)" using process_results [OF p] by blast
  have other: "res n = ab_results ?b n" if "\<forall>r\<in>set (batch_Requests bt). req_ResultChan r \<noteq> Some n" for n
    by (rule process_other [OF p that])
  have slot: "slot_ok (set (ab_notified ?b)) (set (requests_of (en_served s @ [bt]))) r (res n) (en_received s n) (ex_after ex n)"
    if "r \<in> set (ab_accepted ?b)" "req_ResultChan r = Some n" for r n
    by (rule served_slot [OF assms(1) i bt p ctx that])
  have "quiet (res n) (en_received s n)" if n: "en_next s \<le> n" for n
  proof -
    have "req_ResultChan r \<noteq> Some n" if "r \<in> set (batch_Requests bt)" for r
      using reqs(3) [OF that] n by auto
    then show ?thesis using other inv(5) n by (simp add: delivered_def)
  qed
  moreover have "ch_cap (res n) = 1 \<and> \<not> ch_closed (res n)" for n
    using inv(5) send_all_wf [of ds "ab_results ?b" n] by (simp add: delivered_def ds)
  ultimately have "delivered s'" using slot by (simp add: s' delivered_def)
  moreover have "same_core ?b (?b\<lparr>ab_results := res\<rparr>)" by simp
  note core = same_core_batcher [OF this]
  moreover have "mset (held ((en_workersAt s)[i := WorkerPulls 0])) + {#bt#} = mset (held (en_workersAt s))"
    using held_update [OF i, of "WorkerPulls 0"] by (simp add: bt)
  then have "ledger ?b ((en_workersAt s)[i := WorkerPulls 0]) (en_served s @ [bt])"
    using inv(3) by (simp add: ledger_def)
  moreover have "staffed s'" using inv(6) by (auto simp: s' staffed_def dest: ended_update)
  ultimately show ?thesis using inv(1,2,4,7) core by (simp add: s' engine_inv_def)
qed

section \<open>Every reachable state\<close>

lemma act_inv:
  assumes "engine_inv s" "allowed a s" "act oob a s = Ret s'" shows "engine_inv s'"
proof (cases a)
  case (Leave n e)
  then show ?thesis using assms leave_inv [OF assms(1), of n e] by (auto split: if_splits)
next
  case (BatcherMove mv)
  then obtain pc b where "batcher_next oob mv (en_at s) (en_batcher s) = Ret (pc, b)" "s' = s\<lparr>en_at := pc, en_batcher := b\<rparr>"
    using assms(3) by (cases "batcher_next oob mv (en_at s) (en_batcher s)") auto
  then show ?thesis using move_inv [OF assms(1)] by blast
next
  case (Arrive uuid now prompt mx p rt)
  then show ?thesis using arrive_inv [OF assms(1)] assms(3) by simp
next
  case (WorkerServe i ex)
  then show ?thesis using serve_inv [OF assms(1)] assms(2,3) by simp
next
  case (Admin decoded)
  then show ?thesis using admin_inv [OF assms(1), of decoded] assms(3) by simp
next
  case (PushMetrics m)
  then show ?thesis using push_inv [OF assms(1), of m] assms(3) by simp
next
  case (PingTick tick)
  then show ?thesis using ping_inv [OF assms(1), of tick] assms(3) by simp
next
  case PingStart
  then show ?thesis
    using engine_invD [OF assms(1)] assms(3)
    by (auto simp: do_ping_start_def engine_inv_def staffed_def delivered_def split: if_splits)
qed (use assms(3) collect_inv [OF assms(1)] close_inv [OF assms(1)] look_inv [OF assms(1)] cancel_inv [OF assms(1)] in simp_all)

lemma engine_reaches_inv: "engine_reaches oob s s' \<Longrightarrow> engine_inv s \<Longrightarrow> engine_inv s'"
proof (induction rule: engine_reaches.induct)
  case (more s s' s'')
  then show ?case by (auto elim!: engine_step.cases intro: act_inv)
qed

lemma reached_inv: "server_start cfg = Inr s \<Longrightarrow> engine_reaches oob s s' \<Longrightarrow> engine_inv s'"
  using engine_reaches_inv server_start_inv by blast

lemma close_safe:
  assumes "engine_inv s" shows "safe (\<lambda>_. True) (do_close s)"
proof -
  have "\<exists>p. CloseBatchChans ((en_pool s)\<lparr>wp_batchChans := batch_chans (en_batcher s)\<rparr>) = Inr p" if "\<not> en_chansClosed s"
    using CloseBatchChans_open [of "(en_pool s)\<lparr>wp_batchChans := batch_chans (en_batcher s)\<rparr>"]
      chan_of_wf [OF engine_invD(2) [OF assms]] that by (auto simp: chan_wf_def)
  then show ?thesis by (auto simp: do_close_def)
qed

lemma serve_safe:
  assumes "engine_inv s" shows "safe (\<lambda>_. True) (do_serve i ex s)"
proof (cases "i < length (en_workersAt s) \<and> (\<exists>bt. en_workersAt s ! i = WorkerHolds bt)")
  case True
  then obtain bt where bt: "i < length (en_workersAt s)" "en_workersAt s ! i = WorkerHolds bt" by blast
  have "\<forall>r\<in>set (batch_Requests bt). req_Ctx r \<noteq> None" using held_requests(3) [OF assms bt] by fastforce
  from process_total [OF this] obtain w res where
    "process ex (wp_upstreamUnhealthy (en_pool s)) bt (wp_workers (en_pool s) ! i, ab_results (en_batcher s)) = Inr (w, res)"
    by blast
  then show ?thesis using bt by (simp add: do_serve_def)
next
  case False
  then have "do_serve i ex s = NotReady" by (auto simp: do_serve_def split: worker_at.split)
  then show ?thesis by simp
qed

text \<open>No action panics or loops for ever, but the start of the ping with a bad interval.\<close>

lemma act_safe:
  assumes "engine_inv s"
  shows "safe (\<lambda>_. True) (act oob a s) \<or> (a = PingStart \<and> wp_healthInterval (en_pool s) \<le> 0)"
proof -
  note inv = engine_invD [OF assms]
  show ?thesis
  proof (cases a)
    case (Arrive uuid now prompt mx p rt)
    obtain e b where "Submit (en_ctxs s (en_next s)) (Some (NewInferenceRequest uuid now (en_next s) (Some (en_next s)) prompt mx p rt))
        (en_batcher s) = Ret (e, b)"
      using Submit_answers [OF batcher_part_qm(1) [OF inv(1)]] by blast
    then show ?thesis using Arrive by (simp add: do_arrive_def Let_def)
  next
    case (BatcherMove mv)
    have "safe (\<lambda>_. True) (batcher_next oob mv (en_at s) (en_batcher s))"
    proof (cases "en_chansClosed s")
      case True
      then show ?thesis using inv(1) by (simp add: batcher_part_def batcher_next.simps)
    next
      case False
      then have "batcher_ok (en_at s) (en_batcher s)" using inv(1) by (simp add: batcher_part_def)
      from batcher_next_ok [OF this] show ?thesis by (rule safe_mono) simp
    qed
    then show ?thesis using BatcherMove by (cases "batcher_next oob mv (en_at s) (en_batcher s)") auto
  next
    case PingStart
    then show ?thesis by (simp add: do_ping_start_def)
  next
    case (PingTick tick)
    then show ?thesis by (simp add: do_ping_def split: prod.split)
  next
    case CloseChans
    then show ?thesis using close_safe [OF assms] by simp
  next
    case (WorkerServe i ex)
    then show ?thesis using serve_safe [OF assms] by simp
  next
    case (Collect n)
    then show ?thesis by (simp add: do_collect_def split: recv_result.split)
  next
    case (WorkerLook i choice)
    then show ?thesis by (simp add: do_look_def split: recv_result.split worker_at.split looked.split)
  qed simp_all
qed

end
