(* ===== verification/EngineLive.thy ===== *)
theory EngineLive
  imports EngineInv
begin

text \<open>
  Liveness of the server: as long as it is not shut down, the batcher and the workers alone can
  bring every accepted request to its answer, without a further request, timer of a client or help
  of any other goroutine, from every reachable state. Each of their chosen moves lowers a measure:
  the requests not dispatched yet, then the batches on their way, then the place of a goroutine.
\<close>

section \<open>The measure\<close>

definition undispatched :: "engine \<Rightarrow> nat" where
  "undispatched s = length (in_hand (en_at s)) + length (queued (ab_qm (en_batcher s)))"

definition under_way :: "engine \<Rightarrow> nat" where
  "under_way s = 2 * length (in_chans (en_batcher s)) + length (held (en_workersAt s))"

fun batcher_rank :: "batcher_at \<Rightarrow> nat" where
  "batcher_rank AtTop = 4"
| "batcher_rank (AtWait st) = 3"
| "batcher_rank (AtPass st timeout p rt bk reqs) = 2"
| "batcher_rank (AtWindow st timeout p rt bk reqs) = 1"
| "batcher_rank (AtSend bt p) = 0"
| "batcher_rank AtClose = 0"
| "batcher_rank AtEnd = 0"

fun pull_rank :: "worker_at \<Rightarrow> nat" where
  "pull_rank (WorkerPulls n) = 3 - n"
| "pull_rank w = 0"

definition place_rank :: "engine \<Rightarrow> nat" where
  "place_rank s = (if in_chans (en_batcher s) = [] then batcher_rank (en_at s) else pull_rank (en_workersAt s ! 0))"

definition closer :: "(engine \<times> engine) set" where
  "closer = measures [undispatched, under_way, place_rank]"

text \<open>The moves of the batcher and the workers.\<close>

fun is_work :: "action \<Rightarrow> bool" where
  "is_work (BatcherMove mv) = True"
| "is_work (WorkerLook i choice) = True"
| "is_work (WorkerServe i ex) = True"
| "is_work a = False"

definition work_step :: "(f64 \<Rightarrow> int) \<Rightarrow> engine \<Rightarrow> engine \<Rightarrow> bool" where
  "work_step oob s s' \<longleftrightarrow> (\<exists>a. is_work a \<and> allowed a s \<and> act oob a s = Ret s')"

definition works :: "(f64 \<Rightarrow> int) \<Rightarrow> engine \<Rightarrow> engine \<Rightarrow> bool" where
  "works oob = (work_step oob)\<^sup>*\<^sup>*"

text \<open>What a chosen move leaves as it is.\<close>

definition no_news :: "engine \<Rightarrow> engine \<Rightarrow> bool" where
  "no_news s s' \<longleftrightarrow> ab_accepted (en_batcher s') = ab_accepted (en_batcher s) \<and> en_ctxs s' = en_ctxs s
     \<and> ab_ctxDone (en_batcher s') = ab_ctxDone (en_batcher s)"

definition progresses :: "(f64 \<Rightarrow> int) \<Rightarrow> engine \<Rightarrow> bool" where
  "progresses oob s \<longleftrightarrow> (\<exists>a s'. is_work a \<and> allowed a s \<and> act oob a s = Ret s' \<and> (s', s) \<in> closer \<and> no_news s s')"

section \<open>A held batch is served\<close>

definition quiet_exchange :: "(nat \<Rightarrow> error option) \<Rightarrow> exchange" where
  "quiet_exchange ctxs = \<lparr>ex_now = 0, ex_failed_at = 0, ex_clock = (\<lambda>_. 0), ex_before = ctxs, ex_after = ctxs,
     ex_gone = (\<lambda>_. False), ex_encode = (\<lambda>_. Inr []), ex_newRequest = (\<lambda>_ _. None),
     ex_do = (\<lambda>_ _. Reply 200 []), ex_decode = (\<lambda>_. None)\<rparr>"

lemma quiet_serve:
  assumes "engine_inv s" "held (en_workersAt s) \<noteq> []"
  obtains i ex s' where "allowed (WorkerServe i ex) s" "act oob (WorkerServe i ex) s = Ret s'" "no_news s s'"
    "in_chans (en_batcher s') = in_chans (en_batcher s)" "length (held (en_workersAt s')) < length (held (en_workersAt s))"
    "en_at s' = en_at s" "en_chansClosed s' = en_chansClosed s" "ab_qm (en_batcher s') = ab_qm (en_batcher s)"
proof -
  let ?b = "en_batcher s" and ?ex = "quiet_exchange (en_ctxs s)"
  obtain w where w: "w \<in> set (en_workersAt s)" "held_by w \<noteq> []" using assms(2) by (auto simp: held_def)
  then obtain i where i: "i < length (en_workersAt s)" "en_workersAt s ! i = w" by (auto simp: in_set_conv_nth)
  obtain bt where bt: "en_workersAt s ! i = WorkerHolds bt" using w(2) i(2) by (cases w) auto
  have "\<forall>r\<in>set (batch_Requests bt). req_Ctx r \<noteq> None" using held_requests(3) [OF assms(1) i(1) bt] by fastforce
  from process_total [OF this] obtain w' res where
    p: "process ?ex (wp_upstreamUnhealthy (en_pool s)) bt (wp_workers (en_pool s) ! i, ab_results ?b) = Inr (w', res)" by blast
  let ?s = "s\<lparr>en_pool := (en_pool s)\<lparr>wp_workers := (wp_workers (en_pool s))[i := w']\<rparr>, en_batcher := ?b\<lparr>ab_results := res\<rparr>,
      en_workersAt := (en_workersAt s)[i := WorkerPulls 0], en_ctxs := ex_after ?ex, en_served := en_served s @ [bt]\<rparr>"
  have "act oob (WorkerServe i ?ex) s = Ret ?s" using i(1) bt p by (simp add: do_serve_def)
  moreover have "in_chans (?b\<lparr>ab_results := res\<rparr>) = in_chans ?b" by (rule in_chans_cong) simp
  moreover have "length (held ((en_workersAt s)[i := WorkerPulls 0])) + 1 = length (held (en_workersAt s))"
    using arg_cong [OF held_update [OF i(1), of "WorkerPulls 0"], of size] by (simp add: bt)
  moreover have "allowed (WorkerServe i ?ex) s" by (simp add: allowed_def grows_def quiet_exchange_def)
  ultimately show thesis by (intro that [of i ?ex ?s]) (simp_all add: no_news_def quiet_exchange_def)
qed

lemma progress_serve:
  assumes "engine_inv s" "held (en_workersAt s) \<noteq> []" shows "progresses oob s"
proof -
  obtain i ex s' where s': "allowed (WorkerServe i ex) s" "act oob (WorkerServe i ex) s = Ret s'" "no_news s s'"
    "in_chans (en_batcher s') = in_chans (en_batcher s)" "length (held (en_workersAt s')) < length (held (en_workersAt s))"
    "en_at s' = en_at s" "ab_qm (en_batcher s') = ab_qm (en_batcher s)"
    by (rule quiet_serve [OF assms])
  then have "(s', s) \<in> closer" by (simp add: closer_def undispatched_def under_way_def)
  then show ?thesis using s' is_work.simps(3) unfolding progresses_def by blast
qed

section \<open>A batch in a channel is taken\<close>

lemma in_chans_nonempty: "in_chans b \<noteq> [] \<Longrightarrow> \<exists>k<4. ch_buf (batch_chans b k) \<noteq> []"
proof (rule ccontr)
  assume "in_chans b \<noteq> []" "\<not> (\<exists>k<4. ch_buf (batch_chans b k) \<noteq> [])"
  then show False by (simp add: in_chans_def)
qed

text \<open>Against open channels a look that finds a case ready takes a batch, and one that does not goes on.\<close>

lemma look_ready:
  assumes "any_ready (level_cases n) chans" "\<forall>k\<in>set (level_cases n). \<not> ch_closed (chans k)"
  shows "\<exists>choice k bt. worker_look choice done n chans = LookTook k bt"
proof -
  obtain k where k: "k \<in> set (level_cases n)" "ch_buf (chans k) \<noteq> []"
    using assms by (auto simp: any_ready_def list_ex_iff recv_ready_def)
  then obtain bt rest where buf: "ch_buf (chans k) = bt # rest" by (cases "ch_buf (chans k)") auto
  then have rcv: "receive k chans = Pulled (k, bt)" by (simp add: receive_def try_recv_def)
  have "worker_look (PickChan k) done n chans = LookTook k bt"
  proof (cases "n = 0")
    case True
    then show ?thesis using assms(1) k(1) rcv by (simp add: worker_look_def level_cases_def)
  next
    case False
    have "any_ready [k] chans" using k(2) by (simp add: any_ready_def recv_ready_def)
    then have sel: "select_from (level_cases n) (PickChan k) chans = Pulled (k, bt)"
      using k(1) rcv by (simp add: select_from_def any_ready_def)
    show ?thesis
    proof (cases "n < 3")
      case True
      then show ?thesis using False assms(1) sel by (simp add: worker_look_def)
    next
      case three: False
      then have "level_cases n = level_cases 3" by (simp add: level_cases_def)
      then show ?thesis using False three assms(1) sel by (simp add: worker_look_def)
    qed
  qed
  then show ?thesis by blast
qed

lemma take_ready:
  assumes "engine_inv s" "0 < length (en_workersAt s)" "en_workersAt s ! 0 = WorkerPulls n"
    "any_ready (level_cases n) (batch_chans (en_batcher s))"
    "\<forall>k\<in>set (level_cases n). \<not> ch_closed (batch_chans (en_batcher s) k)"
  shows "progresses oob s"
proof -
  let ?b = "en_batcher s" and ?ws = "en_workersAt s" and ?chans = "batch_chans (en_batcher s)"
  obtain choice k bt where l: "worker_look choice (ab_ctxDone ?b) n ?chans = LookTook k bt"
    using look_ready [OF assms(4,5)] by blast
  obtain rest where k: "k < 4" "ch_buf (?chans k) = bt # rest" using worker_look_took [OF l] by blast
  let ?ch = "(?chans k)\<lparr>ch_buf := rest\<rparr>"
  let ?b' = "?b\<lparr>ab_batchChans := (ab_batchChans ?b)(k := Some ?ch)\<rparr>"
  let ?s = "s\<lparr>en_workersAt := ?ws[0 := WorkerHolds bt], en_batcher := ?b'\<rparr>"
  have step: "act oob (WorkerLook 0 choice) s = Ret ?s"
    using assms(2,3) l k(2) by (simp add: do_look_def try_recv_def)
  have "size (mset (in_chans ?b')) + 1 = size (mset (in_chans ?b))"
    using arg_cong [OF in_chans_upd [OF k(1), of ?b ?ch], of size] k(2) by simp
  moreover have "length (held (?ws[0 := WorkerHolds bt])) = length (held ?ws) + 1"
    using arg_cong [OF held_update [OF assms(2), of "WorkerHolds bt"], of size] assms(3) by simp
  ultimately have "(?s, s) \<in> closer" by (simp add: closer_def undispatched_def under_way_def)
  then show ?thesis
    using step unfolding progresses_def
    by (intro exI [of _ "WorkerLook 0 choice"] exI [of _ ?s]) (simp add: allowed_def no_news_def)
qed

lemma look_further:
  assumes "0 < length (en_workersAt s)" "en_workersAt s ! 0 = WorkerPulls n" "n < 3"
    "\<not> any_ready (level_cases n) (batch_chans (en_batcher s))" "in_chans (en_batcher s) \<noteq> []"
  shows "progresses oob s"
proof -
  let ?ws = "en_workersAt s" and ?s = "s\<lparr>en_workersAt := (en_workersAt s)[0 := WorkerPulls (n + 1)]\<rparr>"
  have "worker_look PickCtx (ab_ctxDone (en_batcher s)) n (batch_chans (en_batcher s)) = LookOn"
    using assms(3,4) by (cases "n = 0") (simp_all add: worker_look_def level_cases_def)
  then have step: "act oob (WorkerLook 0 PickCtx) s = Ret ?s" using assms(1,2) by (simp add: do_look_def)
  have "length (held (?ws[0 := WorkerPulls (n + 1)])) = length (held ?ws)"
    using arg_cong [OF held_update [OF assms(1), of "WorkerPulls (n + 1)"], of size] assms(2) by simp
  then have "(?s, s) \<in> closer"
    using assms by (simp add: closer_def undispatched_def under_way_def place_rank_def)
  then show ?thesis
    using step unfolding progresses_def
    by (intro exI [of _ "WorkerLook 0 PickCtx"] exI [of _ ?s]) (simp add: allowed_def no_news_def)
qed

lemma progress_take:
  assumes "engine_inv s" "held (en_workersAt s) = []" "in_chans (en_batcher s) \<noteq> []" "\<not> ab_ctxDone (en_batcher s)"
  shows "progresses oob s"
proof -
  let ?ws = "en_workersAt s" and ?chans = "batch_chans (en_batcher s)"
  note inv = engine_invD [OF assms(1)]
  have ws: "0 < length ?ws" using inv(6) unfolding staffed_def by blast
  then have "?ws ! 0 \<in> set ?ws" by (rule nth_mem)
  then have "?ws ! 0 \<noteq> WorkerEnded" "held_by (?ws ! 0) = []"
    using inv(6) assms(2,4) by (auto simp: staffed_def held_def)
  then obtain n where n: "?ws ! 0 = WorkerPulls n" by (cases "?ws ! 0") auto
  have "\<not> en_chansClosed s" using inv(1,6) assms(4) by (auto simp: batcher_part_def staffed_def)
  then have "\<not> ch_closed (?chans k)" if "k < 4" for k
    using chan_of_wf [OF inv(2) that] by (simp add: chan_wf_def)
  then have lv: "\<forall>k\<in>set (level_cases n). \<not> ch_closed (?chans k)" by (auto simp: level_cases_def)
  show ?thesis
  proof (cases "any_ready (level_cases n) ?chans")
    case True
    then show ?thesis by (rule take_ready [OF assms(1) ws n _ lv])
  next
    case False
    have "n < 3"
    proof (rule ccontr)
      assume "\<not> n < 3"
      then have "any_ready (level_cases n) ?chans"
        using in_chans_nonempty [OF assms(3)] lt4
        by (force simp: any_ready_def list_ex_iff recv_ready_def level_cases_def)
      then show False using False by blast
    qed
    then show ?thesis by (rule look_further [OF ws n _ False assms(3)])
  qed
qed

section \<open>The batcher goes on\<close>

lemma undispatched_accounts:
  assumes "batcher_part shut pc b"
  shows "length (in_hand pc) + length (queued (ab_qm b)) + length (dispatched b) + length (ab_notified b) = length (ab_accepted b)"
  using arg_cong [OF batcher_accounts [OF assms], of size] by simp

text \<open>A first drain of a matrix that is not empty gets requests.\<close>

lemma drain_nonempty:
  assumes "qm_inv qm" "\<not> qm_closed qm" "0 < mx" "queued qm \<noteq> []"
  shows "\<exists>reqs p rt bk qm'. QueueMatrix_Drain mx qm = Some ((reqs, p, rt, bk), qm') \<and> reqs \<noteq> []"
proof -
  obtain c0 where "coord_ok c0" "lane qm c0 \<noteq> []" using assms(4) by (auto simp: queued_nil_iff)
  then have "find (\<lambda>c. lane qm c \<noteq> []) walk_coords \<noteq> None" by (auto simp: find_None_iff)
  then obtain c where c: "find (\<lambda>c. lane qm c \<noteq> []) walk_coords = Some c" by blast
  then have "lane qm c \<noteq> []" using find_walk_least by blast
  then have "take (nat mx) (lane qm c) \<noteq> []" using assms(3) by simp
  then show ?thesis using Drain_open [OF assms(1-3)] c by (simp add: drained_at_def)
qed

lemma queued_recv_event [simp]: "queued (ab_qm (recv_event b)) = queued (ab_qm b)"
proof -
  have "lane (ab_qm (recv_event b)) = lane (ab_qm b)"
    by (rule ext) (simp add: recv_event_def lane_def split: recv_result.split)
  then show ?thesis by (simp add: queued_def)
qed

lemma first_drain_moves:
  assumes "running [] b" "queued (ab_qm b) \<noteq> []"
  shows "\<exists>pc' b'. first_drain oob mv st b = Ret (pc', b') \<and> batcher_rank pc' < 3"
proof -
  have y: "running [] (recv_event b)" using assms(1) by (rule running_recv)
  obtain reqs p rt bk qm where d:
    "QueueMatrix_Drain (bat_MaxBatchSize (ab_cfg b)) (ab_qm (recv_event b)) = Some ((reqs, p, rt, bk), qm)" "reqs \<noteq> []"
    using drain_nonempty [of "ab_qm (recv_event b)" "bat_MaxBatchSize (ab_cfg b)"] running_qm [OF y]
      running_max [OF assms(1)] assms(2) by auto
  show ?thesis by (simp add: first_drain_def d Let_def split_beta batch_formed_def)
qed

lemma gather_pass_returns:
  assumes "running reqs b"
  shows "\<exists>full reqs' b'. gather_pass st p rt bk reqs b = Ret (full, reqs', b')"
proof (cases "int (length reqs) < bat_MaxBatchSize (ab_cfg b)")
  case True
  obtain more qm where "QueueMatrix_DrainFrom p rt bk (bat_MaxBatchSize (ab_cfg b) - int (length reqs)) (ab_qm b) = Some (more, qm)"
    using DrainFrom_running [OF assms _ refl, of "bat_MaxBatchSize (ab_cfg b) - int (length reqs)"] True by force
  then show ?thesis using True by (simp add: gather_pass_def Let_def)
qed (auto simp: gather_pass_def)

text \<open>With the channels empty the batcher has a move that brings it on or sends its batch.\<close>

definition quick_move :: "wake \<Rightarrow> duration \<Rightarrow> move" where
  "quick_move w e = \<lparr>mv_wake = w, mv_elapsed = e, mv_uuid = [], mv_now = 0, mv_sent = SendDone 0\<rparr>"

lemma quick_move_sel [simp]: "mv_wake (quick_move w e) = w" "mv_elapsed (quick_move w e) = e" "mv_sent (quick_move w e) = SendDone 0"
  by (simp_all add: quick_move_def)

definition brings_on :: "batcher_at \<Rightarrow> batcher_at \<Rightarrow> bool" where
  "brings_on pc pc' \<longleftrightarrow> batcher_rank pc' < batcher_rank pc \<or> (\<exists>bt p. pc = AtSend bt p \<and> pc' = AtTop)"

lemma send_moves:
  assumes "ab_batchChans b (dispatchIndex p) = Some ch" "ch_buf ch = []" "0 < ch_cap ch" "\<not> ch_closed ch"
  shows "\<exists>b'. batcher_next oob (quick_move w e) (AtSend bt p) b = Ret (AtTop, b')"
  using assms by (simp add: batcher_next.simps dispatch_select_def try_send_def)

lemma batcher_can_move:
  assumes "batcher_ok pc b" "armed pc b" "chans_wf False b" "\<not> shouldExit b" "in_chans b = []"
    "in_hand pc \<noteq> [] \<or> queued (ab_qm b) \<noteq> []" "pc \<notin> {AtClose, AtEnd}"
  shows "\<exists>mv pc' b'. batcher_next oob mv pc b = Ret (pc', b') \<and> brings_on pc pc'"
proof (cases pc)
  case AtTop
  then show ?thesis using assms(4) by (simp add: batcher_next.simps brings_on_def)
next
  case (AtWait st)
  have run: "running [] b" using assms(1) AtWait by (simp add: batcher_ok_def)
  have q: "queued (ab_qm b) \<noteq> []" using assms(6) AtWait by simp
  then have "wake_ready 0 0 WakeEvent b" using assms(2) AtWait by (simp add: armed_def wake_ready_def EventChan_def)
  moreover obtain pc' b' where "first_drain oob (quick_move WakeEvent 0) st b = Ret (pc', b')" "batcher_rank pc' < 3"
    using first_drain_moves [OF run q] by blast
  ultimately have "batcher_next oob (quick_move WakeEvent 0) pc b = Ret (pc', b') \<and> brings_on pc pc'"
    using AtWait by (simp add: batcher_next.simps brings_on_def)
  then show ?thesis by blast
next
  case (AtPass st timeout p rt bk reqs)
  have "running reqs b" using assms(1) AtPass by (simp add: batcher_ok_def)
  then obtain full reqs' b' where "gather_pass st p rt bk reqs b = Ret (full, reqs', b')"
    using gather_pass_returns by blast
  then show ?thesis using AtPass by (simp add: batcher_next.simps batch_formed_def brings_on_def)
next
  case (AtWindow st timeout p rt bk reqs)
  then have "\<exists>pc' b'. batcher_next oob (quick_move WakeTimer timeout) pc b = Ret (pc', b') \<and> brings_on pc pc'"
    by (simp add: batcher_next.simps wake_ready_def batch_formed_def brings_on_def)
  then show ?thesis by blast
next
  case (AtSend bt p)
  have i: "dispatchIndex p < 4" by (auto simp: dispatchIndex_def)
  have ch: "ab_batchChans b (dispatchIndex p) = Some (batch_chans b (dispatchIndex p))"
    "chan_wf False (dispatchIndex p) (batch_chans b (dispatchIndex p))"
    using chan_of_wf [OF assms(3) i] by simp_all
  have "ch_buf (batch_chans b (dispatchIndex p)) = []"
    using assms(5) lt4 [OF i] by (auto simp: in_chans_def)
  then have "\<exists>b'. batcher_next oob (quick_move WakeTimer 0) pc b = Ret (AtTop, b')"
    using send_moves [OF ch(1)] ch(2) AtSend by (simp add: chan_wf_def)
  then show ?thesis using AtSend by (auto simp: brings_on_def)
qed (use assms(7) in simp_all)

lemma send_sent:
  assumes "batcher_next oob mv (AtSend bt p) b = Ret (AtTop, b')"
  shows "\<exists>ch' elapsed. b' = batch_sent elapsed bt p ch' b"
proof -
  have "give_up bt x \<noteq> Ret (AtTop, b')" for x by (simp add: give_up_def)
  then show ?thesis
    using assms
    by (auto simp: batcher_next.simps dispatch_select_def split: option.splits sent.splits send_result.splits if_splits)
qed

lemma same_outside_dispatched: "same_outside b b' \<Longrightarrow> dispatched b' = dispatched b"
  by (simp add: same_outside_def dispatched_def)

text \<open>A move that brings the batcher on lowers the measure: the counts follow from the accounts.\<close>

lemma brings_on_closer:
  assumes "moved (en_at s) (en_batcher s) pc' b'" "batcher_next oob mv (en_at s) (en_batcher s) = Ret (pc', b')"
    "batcher_part False pc' b'" "batcher_part False (en_at s) (en_batcher s)" "pc' \<notin> {AtClose, AtEnd}" "en_at s \<notin> {AtClose, AtEnd}"
    "brings_on (en_at s) pc'" "in_chans (en_batcher s) = []"
  shows "(s\<lparr>en_at := pc', en_batcher := b'\<rparr>, s) \<in> closer \<and> no_news s (s\<lparr>en_at := pc', en_batcher := b'\<rparr>)"
proof (cases "\<exists>bt p. en_at s = AtSend bt p \<and> pc' = AtTop")
  case True
  then obtain bt p where at: "en_at s = AtSend bt p" "pc' = AtTop" by blast
  then obtain ch' elapsed where b': "b' = batch_sent elapsed bt p ch' (en_batcher s)"
    using send_sent assms(2) by metis
  have "batch_Requests bt \<noteq> []" using assms(4) at by (simp add: batcher_part_def batcher_ok_def batch_ok_def)
  then have "length (dispatched (en_batcher s)) < length (dispatched b')"
    by (simp add: b' batch_sent_def dispatched_def)
  moreover have f: "ab_accepted b' = ab_accepted (en_batcher s)" "ab_notified b' = ab_notified (en_batcher s)"
    "ab_ctxDone b' = ab_ctxDone (en_batcher s)"
    by (simp_all add: b' batch_sent_def)
  ultimately have "undispatched (s\<lparr>en_at := pc', en_batcher := b'\<rparr>) < undispatched s"
    using undispatched_accounts [OF assms(3)] undispatched_accounts [OF assms(4)] by (simp add: undispatched_def)
  then show ?thesis using f by (simp add: closer_def no_news_def)
next
  case False
  then have same: "same_outside (en_batcher s) b'" using assms(1,5) by (auto simp: moved_def)
  note f = this [unfolded same_outside_def]
  have "undispatched (s\<lparr>en_at := pc', en_batcher := b'\<rparr>) = undispatched s"
    using undispatched_accounts [OF assms(3)] undispatched_accounts [OF assms(4)] f same_outside_dispatched [OF same]
    by (simp add: undispatched_def)
  moreover have "in_chans b' = in_chans (en_batcher s)" using f by (intro in_chans_cong) blast
  moreover have "batcher_rank pc' < batcher_rank (en_at s)" using assms(7) False unfolding brings_on_def by blast
  ultimately show ?thesis
    using f assms(8) by (simp add: closer_def under_way_def place_rank_def no_news_def)
qed

lemma batcher_brings:
  assumes "engine_inv s" "\<not> ab_ctxDone (en_batcher s)" "in_chans (en_batcher s) = []" "0 < undispatched s"
  shows "\<exists>mv pc' b'. batcher_next oob mv (en_at s) (en_batcher s) = Ret (pc', b') \<and> brings_on (en_at s) pc'
    \<and> moved (en_at s) (en_batcher s) pc' b' \<and> pc' \<notin> {AtClose, AtEnd} \<and> en_at s \<notin> {AtClose, AtEnd}
    \<and> batcher_part False pc' b' \<and> batcher_part False (en_at s) (en_batcher s)"
proof -
  let ?b = "en_batcher s"
  note inv = engine_invD [OF assms(1)]
  have pc: "en_at s \<notin> {AtClose, AtEnd}" and exit: "\<not> shouldExit ?b"
    using inv(6) assms(2) by (simp_all add: staffed_def shouldExit_def)
  then have sh: "\<not> en_chansClosed s" using inv(1) by (auto simp: batcher_part_def)
  then have ok: "batcher_ok (en_at s) ?b" and chans: "chans_wf False ?b" using inv(1,2) by (simp_all add: batcher_part_def)
  have "in_hand (en_at s) \<noteq> [] \<or> queued (ab_qm ?b) \<noteq> []" using assms(4) by (auto simp: undispatched_def)
  then obtain mv pc' b' where m: "batcher_next oob mv (en_at s) ?b = Ret (pc', b')" "brings_on (en_at s) pc'"
    using batcher_can_move [OF ok inv(7) chans exit assms(3) _ pc] by blast
  have mvd: "moved (en_at s) ?b pc' b'" using batcher_next_ok [OF ok, of oob mv] m(1) by simp
  have "ab_batchChans ?b (dispatchIndex p) \<noteq> None" for p
    using chan_of_wf [OF chans, of "dispatchIndex p"] by (auto simp: dispatchIndex_def)
  then have pc': "pc' \<notin> {AtClose, AtEnd}" using mvd exit pc unfolding moved_def by (metis insert_iff empty_iff)
  have "engine_inv (s\<lparr>en_at := pc', en_batcher := b'\<rparr>)" by (rule move_inv [OF assms(1) m(1)])
  then have "batcher_part False pc' b'" using sh by (simp add: engine_inv_def)
  then show ?thesis using m mvd pc pc' inv(1) sh by (intro exI conjI) simp_all
qed

lemma progress_batcher:
  assumes "engine_inv s" "\<not> ab_ctxDone (en_batcher s)" "in_chans (en_batcher s) = []" "0 < undispatched s"
  shows "progresses oob s"
proof -
  obtain mv pc' b' where m: "batcher_next oob mv (en_at s) (en_batcher s) = Ret (pc', b')" "brings_on (en_at s) pc'"
    "moved (en_at s) (en_batcher s) pc' b'" "pc' \<notin> {AtClose, AtEnd}" "en_at s \<notin> {AtClose, AtEnd}"
    "batcher_part False pc' b'" "batcher_part False (en_at s) (en_batcher s)"
    using batcher_brings [OF assms] by blast
  let ?s = "s\<lparr>en_at := pc', en_batcher := b'\<rparr>"
  have "(?s, s) \<in> closer \<and> no_news s ?s"
    by (rule brings_on_closer [OF m(3,1,6,7,4,5,2) assms(3)])
  moreover have "act oob (BatcherMove mv) s = Ret ?s" using m(1) by simp
  ultimately show ?thesis
    unfolding progresses_def by (intro exI [of _ "BatcherMove mv"] exI [of _ ?s]) (simp add: allowed_def)
qed

section \<open>Everything is served\<close>

definition idle :: "engine \<Rightarrow> bool" where
  "idle s \<longleftrightarrow> undispatched s = 0 \<and> in_chans (en_batcher s) = [] \<and> held (en_workersAt s) = []"

lemma progress:
  assumes "engine_inv s" "\<not> ab_ctxDone (en_batcher s)" "\<not> idle s"
  shows "progresses oob s"
  using progress_serve [OF assms(1)] progress_take [OF assms(1) _ _ assms(2)] progress_batcher [OF assms(1,2)] assms(3)
  unfolding idle_def by (cases "held (en_workersAt s) = []"; cases "in_chans (en_batcher s) = []") auto

lemma no_news_trans: "no_news s s' \<Longrightarrow> no_news s' s'' \<Longrightarrow> no_news s s''"
  by (simp add: no_news_def)

text \<open>The server until its shutdown, as a system that goes on until it is idle.\<close>

interpretation work: leads_to "work_step oob" no_news "\<lambda>s. engine_inv s \<and> \<not> ab_ctxDone (en_batcher s)" idle closer for oob
proof (unfold_locales, goal_cases)
  case (2 s)
  then obtain a s' where "is_work a" "allowed a s" "act oob a s = Ret s'" "(s', s) \<in> closer" "no_news s s'"
    using progress [of s oob] unfolding progresses_def by blast
  then show ?case using act_inv [of s a oob s'] 2 unfolding work_step_def no_news_def by blast
qed (simp_all add: closer_def wf_measures no_news_def)

lemma drains:
  assumes "engine_inv s" "\<not> ab_ctxDone (en_batcher s)"
  shows "\<exists>s'. works oob s s' \<and> no_news s s' \<and> idle s' \<and> engine_inv s'"
  using work.leads [of s oob] assms by (auto simp: works_def)

lemma idle_served:
  assumes "engine_inv s" "idle s" "\<not> ab_ctxDone (en_batcher s)"
  shows "set (ab_accepted (en_batcher s)) = set (requests_of (en_served s))"
proof -
  note inv = engine_invD [OF assms(1)]
  have "en_at s \<notin> {AtClose, AtEnd}" using inv(6) assms(3) by (simp add: staffed_def)
  then have "ab_notified (en_batcher s) = []" using batcher_part_qm(3) [OF inv(1)] by (simp add: running_def)
  then show ?thesis
    using engine_places_set [OF assms(1)] assms(2) by (simp add: places_def idle_def undispatched_def requests_of_def)
qed

end
