(* ===== verification/EngineStuck.thy ===== *)
theory EngineStuck
  imports EngineLive
begin

text \<open>
  What a shutdown of the server can leave behind: a run, from every start and for every first
  request, in which the batcher dispatches while the workers end, so that a batch stays in a channel
  that nobody reads any more. The pieces are runs of one goroutine, put together at the end. And
  a shorter one, in which the first request arrives between the batcher's \<open>DrainAll\<close> and its \<open>Close\<close>
  and stays in the matrix.
\<close>

section \<open>Runs\<close>

lemma engine_reaches_trans: "engine_reaches oob s' s'' \<Longrightarrow> engine_reaches oob s s' \<Longrightarrow> engine_reaches oob s s''"
  by (induction rule: engine_reaches.induct) (auto intro: engine_reaches.more)

lemma reaches_act: "engine_reaches oob s s' \<Longrightarrow> allowed a s' \<Longrightarrow> act oob a s' = Ret s'' \<Longrightarrow> engine_reaches oob s s''"
  by (blast intro: engine_reaches.more engine_step.step)

lemma star_reaches: "(engine_step oob)\<^sup>*\<^sup>* s s' \<Longrightarrow> engine_reaches oob s s'"
  by (induction rule: rtranclp.induct) (auto intro: engine_reaches.intros)

section \<open>The start\<close>

lemma server_start_fields:
  assumes "server_start cfg = Inr s"
  shows "en_at s = AtTop" "en_ctxs s = (\<lambda>_. None)" "en_served s = []" "in_chans (en_batcher s) = []"
    "queued (ab_qm (en_batcher s)) = []" "ab_accepted (en_batcher s) = []" "\<not> ab_ctxDone (en_batcher s)"
    "\<exists>n. en_workersAt s = replicate n (WorkerPulls 0)" "\<not> en_chansClosed s" "\<not> ab_stopping (en_batcher s)"
proof -
  obtain strategy where st: "server_buildInitialStrategy (cfg_Batching cfg) = Inr strategy"
    using assms by (cases "server_buildInitialStrategy (cfg_Batching cfg)") (auto simp: server_start_def Let_def)
  have s: "s = s" "en_at s = AtTop" "en_ctxs s = (\<lambda>_. None)" "en_served s = []" "ab_accepted (en_batcher s) = []"
    "\<not> ab_ctxDone (en_batcher s)" "\<exists>n. en_workersAt s = replicate n (WorkerPulls 0)" "\<not> en_chansClosed s"
    "ab_sent (en_batcher s) = []" "\<not> ab_stopping (en_batcher s)"
    using assms st by (auto simp: server_start_def Let_def SetDispatchBlockedHook_def NewAdaptiveBatcher_def)
  then show "en_at s = AtTop" "en_ctxs s = (\<lambda>_. None)" "en_served s = []" "ab_accepted (en_batcher s) = []"
    "\<not> ab_ctxDone (en_batcher s)" "\<exists>n. en_workersAt s = replicate n (WorkerPulls 0)" "\<not> en_chansClosed s"
    "\<not> ab_stopping (en_batcher s)" by simp_all
  have inv: "engine_inv s" by (rule server_start_inv [OF assms])
  show "in_chans (en_batcher s) = []" using engine_invD(3) [OF inv] s(9) by (simp add: ledger_def)
  show "queued (ab_qm (en_batcher s)) = []" using engine_places [OF inv] s(5) by (simp add: places_def)
qed

text \<open>An arrival while the matrix is open and empty is accepted, also after the batcher has drained it.\<close>

lemma arrival_accepted:
  assumes "engine_inv s" "en_at s \<noteq> AtEnd" "en_ctxs s (en_next s) = None" "queued (ab_qm (en_batcher s)) = []"
    and r: "r = NewInferenceRequest uuid now (en_next s) (Some (en_next s)) prompt mx p rt"
  obtains b' where "act oob (Arrive uuid now prompt mx p rt) s = Ret (s\<lparr>en_batcher := b', en_next := en_next s + 1\<rparr>)"
    "ab_accepted b' = ab_accepted (en_batcher s) @ [r]" "ab_batchChans b' = ab_batchChans (en_batcher s)"
    "ab_ctxDone b' = ab_ctxDone (en_batcher s)" "ab_notified b' = ab_notified (en_batcher s)" "ab_sent b' = ab_sent (en_batcher s)"
proof -
  let ?b = "en_batcher s" and ?n = "en_next s"
  note inv = engine_invD [OF assms(1)]
  have "batcher_ok (en_at s) ?b" using batcher_part_qm(4) [OF inv(1) assms(2)] by blast
  then have run: "running (ab_notified ?b @ in_hand (en_at s)) (?b\<lparr>ab_notified := []\<rparr>)" using batcher_ok_open [OF assms(2)] by blast
  then have q: "qm_inv (ab_qm ?b)" "\<not> qm_closed (ab_qm ?b)" using running_qm by fastforce+
  have "lane (ab_qm ?b) (route r) = []" using assms(4) by (simp add: queued_nil_iff)
  then have "QueueMatrix_Submit (Some r) (ab_qm ?b) = Inr (None, Signal (set_lane (route r) [r] (ab_qm ?b)))"
    using Submit_open [OF q, of r] qm_invD(1) [OF q(1)] by simp
  moreover have "\<not> ab_stopping ?b" using inv(6) by (simp add: staffed_def)
  ultimately obtain b' where sub: "Submit None (Some r) ?b = Ret (None, b')" by (auto simp: Submit_whole)
  have "act oob (Arrive uuid now prompt mx p rt) s = Ret (s\<lparr>en_batcher := b', en_next := ?n + 1\<rparr>)"
    using sub assms(3) by (simp add: do_arrive_def Let_def r)
  then show thesis using Submit_outside [OF run sub] that by simp
qed

lemma first_arrival:
  assumes "server_start cfg = Inr s"
  obtains s' where "act oob (Arrive uuid now prompt mx p rt) s = Ret s'"
    "ab_accepted (en_batcher s') = [NewInferenceRequest uuid now (en_next s) (Some (en_next s)) prompt mx p rt]"
    "en_at s' = AtTop" "en_ctxs s' = (\<lambda>_. None)" "in_chans (en_batcher s') = []" "\<not> ab_ctxDone (en_batcher s')"
    "en_workersAt s' = en_workersAt s"
proof -
  let ?b = "en_batcher s" and ?n = "en_next s"
  note f = server_start_fields [OF assms]
  obtain r where r: "r = NewInferenceRequest uuid now ?n (Some ?n) prompt mx p rt" by blast
  have "en_at s \<noteq> AtEnd" "en_ctxs s ?n = None" using f(1,2) by simp_all
  from arrival_accepted [OF server_start_inv [OF assms] this f(5) r, of oob] obtain b' where
    "act oob (Arrive uuid now prompt mx p rt) s = Ret (s\<lparr>en_batcher := b', en_next := ?n + 1\<rparr>)"
    "ab_accepted b' = ab_accepted ?b @ [r]" "ab_batchChans b' = ab_batchChans ?b" "ab_ctxDone b' = ab_ctxDone ?b"
    by metis
  then show thesis using that f in_chans_cong [of b' ?b] by (simp add: r)
qed

section \<open>The batcher, up to its dispatch\<close>

definition at_send :: "engine \<Rightarrow> engine \<Rightarrow> bool" where
  "at_send s s' \<longleftrightarrow> no_news s s' \<and> (\<exists>bt p. en_at s' = AtSend bt p) \<and> in_chans (en_batcher s') = []
     \<and> en_workersAt s' = en_workersAt s"

text \<open>A move that brings the batcher on without sending keeps everything but its own place.\<close>

lemma batcher_moves_on:
  assumes "engine_inv s" "\<not> ab_ctxDone (en_batcher s)" "in_chans (en_batcher s) = []" "0 < undispatched s"
    "\<forall>bt p. en_at s \<noteq> AtSend bt p"
  shows "\<exists>s'. engine_step oob s s' \<and> no_news s s' \<and> in_chans (en_batcher s') = [] \<and> undispatched s' = undispatched s
    \<and> en_workersAt s' = en_workersAt s \<and> batcher_rank (en_at s') < batcher_rank (en_at s)"
proof -
  obtain mv pc' b' where m: "batcher_next oob mv (en_at s) (en_batcher s) = Ret (pc', b')" "brings_on (en_at s) pc'"
    "moved (en_at s) (en_batcher s) pc' b'" "pc' \<notin> {AtClose, AtEnd}" "batcher_part False pc' b'" "batcher_part False (en_at s) (en_batcher s)"
    using batcher_brings [OF assms(1-4)] by blast
  let ?s = "s\<lparr>en_at := pc', en_batcher := b'\<rparr>"
  have same: "same_outside (en_batcher s) b'" using m(3,4) assms(5) by (auto simp: moved_def)
  note f = this [unfolded same_outside_def]
  have "undispatched ?s = undispatched s"
    using undispatched_accounts [OF m(5)] undispatched_accounts [OF m(6)] f same_outside_dispatched [OF same]
    by (simp add: undispatched_def)
  moreover have "in_chans b' = in_chans (en_batcher s)" using f by (intro in_chans_cong) blast
  moreover have "engine_step oob s ?s"
    using m(1) by (intro engine_step.step [of "BatcherMove mv"]) (simp_all add: allowed_def)
  moreover have "batcher_rank pc' < batcher_rank (en_at s)" using m(2) assms(5) by (auto simp: brings_on_def)
  ultimately show ?thesis using f assms(3) by (intro exI [of _ ?s]) (simp add: no_news_def)
qed

text \<open>The batcher with something to send, as a system that goes on until it is at its \<open>select\<close> of \<open>dispatch\<close>.\<close>

definition loaded :: "engine \<Rightarrow> bool" where
  "loaded s \<longleftrightarrow> engine_inv s \<and> \<not> ab_ctxDone (en_batcher s) \<and> in_chans (en_batcher s) = [] \<and> 0 < undispatched s"

definition only_batcher :: "engine \<Rightarrow> engine \<Rightarrow> bool" where
  "only_batcher s s' \<longleftrightarrow> no_news s s' \<and> en_workersAt s' = en_workersAt s"

interpretation sending: leads_to "engine_step oob" only_batcher loaded "\<lambda>s. \<exists>bt p. en_at s = AtSend bt p"
  "measure (\<lambda>s. batcher_rank (en_at s))" for oob
proof (unfold_locales, goal_cases)
  case (2 s)
  then have at: "\<forall>bt p. en_at s \<noteq> AtSend bt p" by blast
  have l: "engine_inv s" "\<not> ab_ctxDone (en_batcher s)" "in_chans (en_batcher s) = []" "0 < undispatched s"
    using 2(1) by (simp_all add: loaded_def)
  obtain s' where s': "engine_step oob s s'" "no_news s s'" "in_chans (en_batcher s') = []"
    "undispatched s' = undispatched s" "en_workersAt s' = en_workersAt s" "batcher_rank (en_at s') < batcher_rank (en_at s)"
    using batcher_moves_on [OF l at, of oob] by blast
  moreover have "loaded s'"
    using s' 2(1) act_inv unfolding loaded_def no_news_def by (auto elim: engine_step.cases)
  ultimately show ?case by (auto simp: only_batcher_def)
qed (auto simp: only_batcher_def no_news_def)

lemma reaches_send:
  assumes "engine_inv s" "\<not> ab_ctxDone (en_batcher s)" "in_chans (en_batcher s) = []" "0 < undispatched s"
  shows "\<exists>s'. engine_reaches oob s s' \<and> at_send s s'"
  using sending.leads [of s oob] assms star_reaches [of oob s] by (auto simp: loaded_def only_batcher_def at_send_def)

section \<open>The workers end\<close>

lemma look_ends:
  assumes "in_chans b = []" "chans_wf False b"
  shows "worker_look PickCtx True n (batch_chans b) = (if n < 3 then LookOn else LookEnd)"
proof -
  have "\<not> recv_ready (batch_chans b k)" if "k < 4" for k
    using chan_of_wf [OF assms(2) that] assms(1) lt4 [OF that] by (auto simp: chan_wf_def recv_ready_def in_chans_def)
  then have "\<not> any_ready (level_cases n) (batch_chans b)"
    by (simp add: any_ready_def level_cases_def)
  then show ?thesis by (cases "n = 0") (simp_all add: worker_look_def level_cases_def)
qed

lemma worker_ends:
  assumes "in_chans (en_batcher s) = []" "chans_wf False (en_batcher s)" "ab_ctxDone (en_batcher s)"
    "i < length (en_workersAt s)" "en_workersAt s ! i = WorkerPulls 0"
  shows "engine_reaches oob s (s\<lparr>en_workersAt := (en_workersAt s)[i := WorkerEnded]\<rparr>)"
proof -
  let ?at = "\<lambda>w. s\<lparr>en_workersAt := (en_workersAt s)[i := w]\<rparr>"
  have on: "act oob (WorkerLook i PickCtx) (?at (WorkerPulls n)) = Ret (?at (if n < 3 then WorkerPulls (n + 1) else WorkerEnded))" for n
    using look_ends [OF assms(1,2), of n] assms(3,4) by (simp add: do_look_def)
  have go: "engine_reaches oob s (?at (WorkerPulls n)) \<Longrightarrow>
      engine_reaches oob s (?at (if n < 3 then WorkerPulls (n + 1) else WorkerEnded))" for n
    by (rule reaches_act [where a = "WorkerLook i PickCtx", OF _ _ on]) (simp_all add: allowed_def)
  have "?at (WorkerPulls 0) = s" using list_update_id [of "en_workersAt s" i] assms(5) by simp
  then have "engine_reaches oob s (?at (WorkerPulls 0))" by (simp only: engine_reaches.start)
  from go [OF this] have "engine_reaches oob s (?at (WorkerPulls 1))" by simp
  from go [OF this] have "engine_reaches oob s (?at (WorkerPulls 2))" by (simp add: numeral_2_eq_2)
  from go [OF this] have "engine_reaches oob s (?at (WorkerPulls 3))" by (simp add: numeral_3_eq_3)
  from go [OF this] show ?thesis by simp
qed

lemma workers_end:
  assumes "in_chans (en_batcher s) = []" "chans_wf False (en_batcher s)" "ab_ctxDone (en_batcher s)"
    "en_workersAt s = replicate k WorkerEnded @ replicate n (WorkerPulls 0)"
  shows "engine_reaches oob s (s\<lparr>en_workersAt := replicate (k + n) WorkerEnded\<rparr>)"
  using assms
proof (induction n arbitrary: k s)
  case 0
  then have "s = s\<lparr>en_workersAt := replicate k WorkerEnded\<rparr>" by simp
  then show ?case by (metis add_0_right engine_reaches.start)
next
  case (Suc n)
  let ?s = "s\<lparr>en_workersAt := (en_workersAt s)[k := WorkerEnded]\<rparr>"
  have k: "k < length (en_workersAt s)" "en_workersAt s ! k = WorkerPulls 0"
    using Suc(5) by (simp_all add: nth_append)
  have "(en_workersAt s)[k := WorkerEnded] = replicate (Suc k) WorkerEnded @ replicate n (WorkerPulls 0)"
    by (simp add: Suc(5) list_update_append replicate_append_same)
  then have "engine_reaches oob ?s (?s\<lparr>en_workersAt := replicate (Suc k + n) WorkerEnded\<rparr>)"
    using Suc(2-4) by (intro Suc(1)) simp_all
  then show ?case using engine_reaches_trans [OF _ worker_ends [OF Suc(2-4) k]] by simp
qed

section \<open>Nothing moves any more\<close>

text \<open>With the batcher and all workers ended, the batches left in the channels stay there.\<close>

definition all_ended :: "engine \<Rightarrow> bool" where
  "all_ended s \<longleftrightarrow> en_at s = AtEnd \<and> set (en_workersAt s) = {WorkerEnded}"

lemma ended_stays:
  assumes "engine_inv s" "all_ended s" "act oob a s = Ret s'"
  shows "all_ended s' \<and> in_chans (en_batcher s') = in_chans (en_batcher s)"
proof -
  note inv = engine_invD [OF assms(1)]
  have at: "en_at s = AtEnd" and ended: "i < length (en_workersAt s) \<Longrightarrow> en_workersAt s ! i = WorkerEnded" for i
    using assms(2) nth_mem [of i "en_workersAt s"] by (auto simp: all_ended_def)
  have keep: "all_ended s' \<and> in_chans (en_batcher s') = in_chans (en_batcher s)"
    if "en_at s' = en_at s" "en_workersAt s' = en_workersAt s" "ab_batchChans (en_batcher s') = ab_batchChans (en_batcher s)"
    using that assms(2) in_chans_cong [OF that(3)] by (simp add: all_ended_def)
  show ?thesis
  proof (cases a)
    case (Arrive uuid now prompt mx p rt)
    let ?r = "NewInferenceRequest uuid now (en_next s) (Some (en_next s)) prompt mx p rt"
    obtain e b' where sub: "Submit (en_ctxs s (en_next s)) (Some ?r) (en_batcher s) = Ret (e, b')"
      "s' = s\<lparr>en_batcher := b', en_next := en_next s + 1\<rparr>"
      using assms(3) Arrive
      by (cases "Submit (en_ctxs s (en_next s)) (Some ?r) (en_batcher s)") (auto simp: do_arrive_def Let_def)
    have "b' = en_batcher s" using Submit_shut [OF _ sub(1)] batcher_part_qm(2) [OF inv(1)] at by blast
    then show ?thesis using keep sub(2) by simp
  next
    case (Collect n)
    then show ?thesis using assms(3) keep by (auto simp: do_collect_def split: if_splits recv_result.splits)
  next
    case (Admin decoded)
    then show ?thesis
      using assms(3) keep by (auto simp: do_admin_def HandleSetStrategy_def SetStrategy_def split: option.splits sum.splits)
  next
    case CloseChans
    then have close: "do_close s = Ret s'" using assms(3) by simp
    obtain chans where c: "s' = s\<lparr>en_chansClosed := True, en_batcher := (en_batcher s)\<lparr>ab_batchChans := chans\<rparr>\<rparr>"
      "in_chans ((en_batcher s)\<lparr>ab_batchChans := chans\<rparr>) = in_chans (en_batcher s)"
      by (rule do_close_Ret [OF assms(1) close])
    then show ?thesis using assms(2) by (simp add: all_ended_def)
  next
    case (PingTick tick)
    then show ?thesis using assms(3) keep by (auto simp: do_ping_def split: prod.splits if_splits)
  next
    case PingStart
    then show ?thesis using assms(3) keep by (auto simp: do_ping_start_def split: if_splits)
  next
    case (WorkerLook i choice)
    then show ?thesis using assms(3) ended by (simp add: do_look_def split: if_splits)
  next
    case (WorkerServe i ex)
    then show ?thesis using assms(3) ended by (simp add: do_serve_def split: if_splits)
  qed (use assms(3) keep at in \<open>auto simp: batcher_next.simps UpdateStrategyMetrics_def\<close>)
qed

lemma ended_forever:
  assumes "engine_reaches oob s s'" "engine_inv s" "all_ended s"
  shows "all_ended s' \<and> in_chans (en_batcher s') = in_chans (en_batcher s)"
  using assms
proof (induction rule: engine_reaches.induct)
  case (more s s' s'')
  then show ?case
    by (auto elim!: engine_step.cases dest: ended_stays [OF engine_reaches_inv])
qed simp

text \<open>A request of such a batch has no result and will get none.\<close>

lemma left_quiet:
  assumes "engine_inv s" "bt \<in> set (in_chans (en_batcher s))" "r \<in> set (batch_Requests bt)" "req_ResultChan r = Some n"
  shows "quiet (ab_results (en_batcher s) n) (en_received s n)"
proof -
  have r: "r \<in> set (requests_of (in_chans (en_batcher s)))" using assms(2,3) by (auto simp: requests_of_def)
  then have "r \<in> set (ab_accepted (en_batcher s))" "r \<notin> set (requests_of (en_served s))" "r \<notin> set (ab_notified (en_batcher s))"
    using engine_places_set [OF assms(1)] engine_distinct [OF assms(1)] by (auto simp: places_def)
  then show ?thesis using engine_invD(5) [OF assms(1)] assms(4) by (auto simp: delivered_def slot_ok_def)
qed

section \<open>The shutdown that strands a batch\<close>

text \<open>The last moves of the batcher after the cancellation: it sends its batch, sees the end, and its channels are closed.\<close>

lemma send_and_end:
  assumes "engine_inv s" "en_at s = AtSend bt p" "in_chans (en_batcher s) = []" "ab_ctxDone (en_batcher s)"
  shows "\<exists>s'. engine_reaches oob s s' \<and> en_at s' = AtEnd \<and> en_chansClosed s' \<and> in_chans (en_batcher s') = [bt]
    \<and> en_workersAt s' = en_workersAt s \<and> en_ctxs s' = en_ctxs s \<and> ab_accepted (en_batcher s') = ab_accepted (en_batcher s)"
proof -
  let ?b = "en_batcher s" and ?i = "dispatchIndex p" and ?ch = "batch_chans (en_batcher s) (dispatchIndex p)"
  note inv = engine_invD [OF assms(1)]
  have sh: "\<not> en_chansClosed s" using inv(1) assms(2) by (auto simp: batcher_part_def)
  have i: "?i < 4" by (auto simp: dispatchIndex_def)
  have ch: "ab_batchChans ?b ?i = Some ?ch" "chan_wf False ?i ?ch"
    using chan_of_wf [OF inv(2) i] sh by simp_all
  have empty: "ch_buf ?ch = []" using assms(3) lt4 [OF i] by (auto simp: in_chans_def)
  obtain b1 where b1: "batcher_next oob (quick_move WakeTimer 0) (AtSend bt p) ?b = Ret (AtTop, b1)"
    using send_moves [OF ch(1) empty] ch(2) unfolding chan_wf_def by blast
  then obtain elapsed ch' where sent: "b1 = batch_sent elapsed bt p ch' ?b" by (meson send_sent)
  let ?s1 = "s\<lparr>en_at := AtTop, en_batcher := b1\<rparr>"
  have inv1: "engine_inv ?s1" using move_inv [OF assms(1)] b1 assms(2) by simp
  have led: "mset (in_chans b1) = mset (in_chans ?b) + {#bt#}"
    using engine_invD(3) [OF inv1] inv(3) by (simp add: ledger_def sent batch_sent_def)
  then have chans1: "in_chans b1 = [bt]" using assms(3) by simp
  have run: "running [] b1" using engine_invD(1) [OF inv1] sh by (simp add: batcher_part_def batcher_ok_def)
  then obtain b2 where b2: "drain_all b1 = b2" "draining b2" "told_all b1 (queued (ab_qm b1)) b2"
    using left_moved [OF run] by auto
  have done1: "shouldExit b1" using assms(4) by (simp add: sent batch_sent_def shouldExit_def)
  obtain b3 where b3: "batcher_next oob (quick_move WakeTimer 0) AtClose b2 = Ret (AtEnd, b3)" "same_outside b2 b3"
    using close_moved [OF b2(2), of oob "quick_move WakeTimer 0"] by blast
  let ?s2 = "s\<lparr>en_at := AtClose, en_batcher := b2\<rparr>" and ?s3 = "s\<lparr>en_at := AtEnd, en_batcher := b3\<rparr>"
  have m2: "batcher_next oob (quick_move WakeTimer 0) AtTop b1 = Ret (AtClose, b2)"
    using done1 b2(1) by (simp add: batcher_next.simps)
  then have "engine_inv ?s2" using move_inv [OF inv1, of oob "quick_move WakeTimer 0" AtClose b2] by simp
  then have "engine_inv ?s3" using move_inv [of ?s2 oob "quick_move WakeTimer 0" AtEnd b3] b3(1) by simp
  then obtain chans where c: "do_close ?s3 = Ret (?s3\<lparr>en_chansClosed := True, en_batcher := b3\<lparr>ab_batchChans := chans\<rparr>\<rparr>)"
    "in_chans (b3\<lparr>ab_batchChans := chans\<rparr>) = in_chans b3"
    using do_close_eq [of ?s3] sh by auto
  let ?s4 = "?s3\<lparr>en_chansClosed := True, en_batcher := b3\<lparr>ab_batchChans := chans\<rparr>\<rparr>"
  have r1: "engine_reaches oob s ?s1"
    using b1 assms(2) by (intro reaches_act [OF engine_reaches.start, of "BatcherMove (quick_move WakeTimer 0)"]) (simp_all add: allowed_def)
  have r2: "engine_reaches oob s ?s2"
    using m2 by (intro reaches_act [OF r1, of "BatcherMove (quick_move WakeTimer 0)"]) (simp_all add: allowed_def)
  have r3: "engine_reaches oob s ?s3"
    using b3(1) by (intro reaches_act [OF r2, of "BatcherMove (quick_move WakeTimer 0)"]) (simp_all add: allowed_def)
  have r4: "engine_reaches oob s ?s4" using c(1) by (intro reaches_act [OF r3, of CloseChans]) (simp_all add: allowed_def)
  have "ab_batchChans b3 = ab_batchChans b1" "ab_accepted b3 = ab_accepted ?b"
    using b2(3) b3(2) by (simp_all add: told_all_def same_outside_def sent batch_sent_def)
  then show ?thesis using r4 c(2) chans1 in_chans_cong [of b3 b1] by (intro exI [of _ ?s4]) simp
qed

lemma arrival_sends:
  assumes "server_start cfg = Inr s0" "r = NewInferenceRequest uuid now (en_next s0) (Some (en_next s0)) prompt mx p rt"
    "en_workersAt s0 = replicate n (WorkerPulls 0)"
  shows "\<exists>s bt q. engine_reaches oob s0 s \<and> en_at s = AtSend bt q \<and> batch_Requests bt = [r]
    \<and> in_chans (en_batcher s) = [] \<and> ab_accepted (en_batcher s) = [r] \<and> en_ctxs s = (\<lambda>_. None)
    \<and> en_workersAt s = replicate n (WorkerPulls 0)"
proof -
  note ws = assms(3) and inv0 = server_start_inv [OF assms(1)]
  obtain s1 where a1: "act oob (Arrive uuid now prompt mx p rt) s0 = Ret s1"
    "ab_accepted (en_batcher s1) = [r]" "en_at s1 = AtTop" "en_ctxs s1 = (\<lambda>_. None)" "in_chans (en_batcher s1) = []"
    "\<not> ab_ctxDone (en_batcher s1)" "en_workersAt s1 = en_workersAt s0"
    using first_arrival [OF assms(1)] unfolding assms(2) by metis
  have r1: "engine_reaches oob s0 s1" by (rule reaches_act [OF engine_reaches.start _ a1(1)]) (simp add: allowed_def)
  have inv1: "engine_inv s1" by (rule engine_reaches_inv [OF r1 inv0])
  have served1: "requests_of (en_served s1) = [] \<and> requests_of (held (en_workersAt s1)) = [] \<and> ab_notified (en_batcher s1) = []"
  proof -
    have "held (en_workersAt s1) = []" using ws a1(7) by (simp add: held_def)
    moreover have "ab_notified (en_batcher s1) = []"
      using batcher_part_qm(3) [OF engine_invD(1) [OF inv1]] a1(3) by (simp add: running_def)
    moreover have "en_served s1 = []" using a1(1) server_start_fields(3) [OF assms(1)] unfolding act.simps do_arrive_def Let_def
      by (cases "Submit (en_ctxs s0 (en_next s0)) (Some (NewInferenceRequest uuid now (en_next s0) (Some (en_next s0)) prompt mx p rt)) (en_batcher s0)") auto
    ultimately show ?thesis by (simp add: requests_of_def)
  qed
  have "mset (places s1) = {#r#}" using engine_places [OF inv1] a1(2) by simp
  moreover have "requests_of [] = []" by (simp add: requests_of_def)
  ultimately have "0 < undispatched s1" using served1 a1(5) by (auto simp: places_def undispatched_def)
  then obtain s2 where s2: "engine_reaches oob s1 s2" "at_send s1 s2"
    using reaches_send [OF inv1 a1(6,5)] by blast
  then obtain bt q where at2: "en_at s2 = AtSend bt q" "in_chans (en_batcher s2) = []" "no_news s1 s2"
    "en_workersAt s2 = replicate n (WorkerPulls 0)"
    using ws a1(7) by (auto simp: at_send_def)
  have r2: "engine_reaches oob s0 s2" by (rule engine_reaches_trans [OF s2(1) r1])
  have inv2: "engine_inv s2" by (rule engine_reaches_inv [OF r2 inv0])
  have bt: "batch_Requests bt = [r]"
  proof -
    have "{#r#} = mset (places s2)" using engine_places [OF inv2] at2(3) a1(2) by (simp add: no_news_def)
    moreover have "batch_Requests bt \<noteq> []"
      using engine_invD(1) [OF inv2] at2(1) by (auto simp: batcher_part_def batcher_ok_def batch_ok_def split: if_splits)
    ultimately show ?thesis using at2(1) by (cases "batch_Requests bt") (auto simp: places_def)
  qed
  then show ?thesis
    using at2 r2 a1(2,4) by (intro exI [of _ s2] exI [of _ bt] exI [of _ q]) (simp add: no_news_def)
qed

lemma stranding_run:
  assumes "server_start cfg = Inr s0" "r = NewInferenceRequest uuid now (en_next s0) (Some (en_next s0)) prompt mx p rt"
  shows "\<exists>s bt. engine_reaches oob s0 s \<and> all_ended s \<and> en_chansClosed s \<and> en_ctxs s = (\<lambda>_. None)
    \<and> ab_accepted (en_batcher s) = [r] \<and> in_chans (en_batcher s) = [bt] \<and> batch_Requests bt = [r]"
proof -
  note inv0 = server_start_inv [OF assms(1)]
  obtain n where ws: "en_workersAt s0 = replicate n (WorkerPulls 0)" using server_start_fields(8) [OF assms(1)] by blast
  obtain s2 bt q where s2: "engine_reaches oob s0 s2" "en_at s2 = AtSend bt q" "batch_Requests bt = [r]"
    "in_chans (en_batcher s2) = []" "ab_accepted (en_batcher s2) = [r]" "en_ctxs s2 = (\<lambda>_. None)"
    "en_workersAt s2 = replicate n (WorkerPulls 0)"
    using arrival_sends [OF assms ws, of oob] by blast
  let ?s3 = "s2\<lparr>en_batcher := (en_batcher s2)\<lparr>ab_ctxDone := True\<rparr>\<rparr>"
  have r3: "engine_reaches oob s0 ?s3" by (rule reaches_act [OF s2(1), of Cancel]) (simp_all add: allowed_def)
  have "chans_wf False (en_batcher ?s3)"
    using engine_invD(1,2) [OF engine_reaches_inv [OF r3 inv0]] s2(2) by (auto simp: batcher_part_def split: if_splits)
  moreover have c3: "in_chans (en_batcher ?s3) = []" using s2(4) in_chans_cong [of "en_batcher ?s3" "en_batcher s2"] by simp
  ultimately have r4: "engine_reaches oob s0 (?s3\<lparr>en_workersAt := replicate n WorkerEnded\<rparr>)"
    using workers_end [of ?s3 0 n oob] s2(7) by (intro engine_reaches_trans [OF _ r3]) simp
  let ?s4 = "?s3\<lparr>en_workersAt := replicate n WorkerEnded\<rparr>"
  have inv4: "engine_inv ?s4" by (rule engine_reaches_inv [OF r4 inv0])
  then have n: "0 < n" using engine_invD(6) [OF inv4] by (auto simp: staffed_def)
  obtain s5 where s5: "engine_reaches oob ?s4 s5" "en_at s5 = AtEnd" "en_chansClosed s5" "in_chans (en_batcher s5) = [bt]"
    "en_workersAt s5 = replicate n WorkerEnded" "en_ctxs s5 = en_ctxs s2" "ab_accepted (en_batcher s5) = ab_accepted (en_batcher s2)"
    using send_and_end [OF inv4, of bt q oob] s2(2) c3 by auto
  moreover have "all_ended s5" using s5(2,5) n by (simp add: all_ended_def)
  moreover have "engine_reaches oob s0 s5" by (rule engine_reaches_trans [OF s5(1) r4])
  ultimately show ?thesis using s2(3,5,6) by (intro exI [of _ s5] exI [of _ bt]) simp
qed

section \<open>The request that comes late\<close>

text \<open>The signal arrives and the batcher has drained its matrix; a request that arrives before the \<open>Close\<close> is accepted.\<close>

lemma drained_start:
  assumes "server_start cfg = Inr s0"
  obtains s where "engine_reaches oob s0 s" "en_at s = AtClose" "ab_ctxDone (en_batcher s)" "ab_accepted (en_batcher s) = []"
    "en_ctxs s = (\<lambda>_. None)" "en_next s = en_next s0" "queued (ab_qm (en_batcher s)) = []" "ab_notified (en_batcher s) = []"
    "in_chans (en_batcher s) = []" "held (en_workersAt s) = []" "en_served s = []"
proof -
  note f = server_start_fields [OF assms]
  let ?s1 = "s0\<lparr>en_batcher := (en_batcher s0)\<lparr>ab_ctxDone := True\<rparr>\<rparr>"
  let ?s2 = "?s1\<lparr>en_at := AtClose, en_batcher := drain_all (en_batcher ?s1)\<rparr>"
  have r1: "engine_reaches oob s0 ?s1" by (rule reaches_act [OF engine_reaches.start, of Cancel]) (simp_all add: allowed_def)
  have r2: "engine_reaches oob s0 ?s2"
    by (rule reaches_act [OF r1, of "BatcherMove (quick_move WakeTimer 0)"])
      (simp_all add: allowed_def f(1) batcher_next.simps shouldExit_def)
  have "ab_notified (en_batcher s0) = []"
    using batcher_part_qm(3) [OF engine_invD(1) [OF server_start_inv [OF assms]]] f(1) by (simp add: running_def)
  moreover have "held (en_workersAt s0) = []" using f(8) by (auto simp: held_def)
  moreover have "in_chans (en_batcher ?s2) = []" using in_chans_cong [of "en_batcher ?s2" "en_batcher s0"] f(4) by simp
  ultimately show thesis using f by (intro that [OF r2]) simp_all
qed

lemma late_arrival:
  assumes "server_start cfg = Inr s0" "r = NewInferenceRequest uuid now (en_next s0) (Some (en_next s0)) prompt mx p rt"
  shows "\<exists>s. engine_reaches oob s0 s \<and> en_at s = AtClose \<and> ab_ctxDone (en_batcher s) \<and> ab_accepted (en_batcher s) = [r]
    \<and> queued (ab_qm (en_batcher s)) = [r] \<and> en_ctxs s = (\<lambda>_. None)"
proof -
  note inv0 = server_start_inv [OF assms(1)]
  obtain s where s: "engine_reaches oob s0 s" "en_at s = AtClose" "ab_ctxDone (en_batcher s)" "ab_accepted (en_batcher s) = []"
    "en_ctxs s = (\<lambda>_. None)" "en_next s = en_next s0" "queued (ab_qm (en_batcher s)) = []" "ab_notified (en_batcher s) = []"
    "in_chans (en_batcher s) = []" "held (en_workersAt s) = []" "en_served s = []"
    by (rule drained_start [OF assms(1)])
  have inv: "engine_inv s" by (rule engine_reaches_inv [OF s(1) inv0])
  have two: "en_at s \<noteq> AtEnd" "en_ctxs s (en_next s) = None"
    "r = NewInferenceRequest uuid now (en_next s) (Some (en_next s)) prompt mx p rt"
    using s(2,5,6) assms(2) by simp_all
  obtain b where a: "act oob (Arrive uuid now prompt mx p rt) s = Ret (s\<lparr>en_batcher := b, en_next := en_next s + 1\<rparr>)"
    "ab_accepted b = ab_accepted (en_batcher s) @ [r]" "ab_batchChans b = ab_batchChans (en_batcher s)"
    "ab_ctxDone b = ab_ctxDone (en_batcher s)" "ab_notified b = ab_notified (en_batcher s)" "ab_sent b = ab_sent (en_batcher s)"
    by (rule arrival_accepted [OF inv two(1,2) s(7) two(3)])
  let ?s = "s\<lparr>en_batcher := b, en_next := en_next s + 1\<rparr>"
  have r: "engine_reaches oob s0 ?s" by (rule reaches_act [OF s(1) _ a(1)]) (simp add: allowed_def)
  have "in_chans b = []" using in_chans_cong [OF a(3)] s(9) by simp
  then have "mset (queued (ab_qm b)) = {#r#}"
    using engine_places [OF engine_reaches_inv [OF r inv0]] a(2,5) s(2,4,8,10,11) by (simp add: places_def requests_of_def)
  then show ?thesis using r a(2,4) s(2-5) by (intro exI [of _ ?s]) simp
qed

text \<open>Nobody takes anything out of a closed matrix.\<close>

lemma end_stays:
  assumes "engine_inv s" "en_at s = AtEnd" "act oob a s = Ret s'"
  shows "en_at s' = AtEnd \<and> ab_qm (en_batcher s') = ab_qm (en_batcher s)"
proof (cases a)
  case (Arrive uuid now prompt mx p rt)
  let ?r = "NewInferenceRequest uuid now (en_next s) (Some (en_next s)) prompt mx p rt"
  obtain e b' where sub: "Submit (en_ctxs s (en_next s)) (Some ?r) (en_batcher s) = Ret (e, b')"
    "s' = s\<lparr>en_batcher := b', en_next := en_next s + 1\<rparr>"
    using assms(3) Arrive
    by (cases "Submit (en_ctxs s (en_next s)) (Some ?r) (en_batcher s)") (auto simp: do_arrive_def Let_def)
  have "b' = en_batcher s"
    using Submit_shut [OF _ sub(1)] batcher_part_qm(2) [OF engine_invD(1) [OF assms(1)]] assms(2) by blast
  then show ?thesis using assms(2) sub(2) by simp
next
  case CloseChans
  then have close: "do_close s = Ret s'" using assms(3) by simp
  show ?thesis by (rule do_close_Ret [OF assms(1) close]) (simp add: assms(2))
next
  case (WorkerServe i ex)
  then show ?thesis using assms(2,3) by (auto simp: do_serve_def and_then_Ret split: if_splits worker_at.splits)
qed (use assms(2,3) in \<open>auto simp: batcher_next.simps UpdateStrategyMetrics_def do_collect_def do_admin_def do_ping_def
    do_ping_start_def do_look_def HandleSetStrategy_def SetStrategy_def
    split: if_splits recv_result.splits option.splits sum.splits prod.splits worker_at.splits looked.splits\<close>)

lemma closed_for_good:
  assumes "engine_reaches oob s s'" "engine_inv s" "en_at s = AtEnd"
  shows "en_at s' = AtEnd \<and> ab_qm (en_batcher s') = ab_qm (en_batcher s)"
  using assms
proof (induction rule: engine_reaches.induct)
  case (more s s' s'')
  then show ?case by (auto elim!: engine_step.cases dest: end_stays [OF engine_reaches_inv])
qed simp

lemma queued_quiet:
  assumes "engine_inv s" "r \<in> set (queued (ab_qm (en_batcher s)))" "req_ResultChan r = Some n"
  shows "quiet (ab_results (en_batcher s) n) (en_received s n)"
proof -
  have "r \<in> set (ab_accepted (en_batcher s))" "r \<notin> set (requests_of (en_served s))" "r \<notin> set (ab_notified (en_batcher s))"
    using engine_places_set [OF assms(1)] engine_distinct [OF assms(1)] assms(2) by (auto simp: places_def)
  then show ?thesis using engine_invD(5) [OF assms(1)] assms(3) by (auto simp: delivered_def slot_ok_def)
qed

end
