(* ===== verification/EngineEnd.thy ===== *)
theory EngineEnd
  imports EngineStuck
begin

text \<open>
  The end of the server's goroutines: once the context of the group has ended, the batcher, the
  goroutine that closes the channels and the workers can end from every reachable state, whatever is
  still queued, in the channels or in their hands. Each of the chosen moves lowers a measure: the
  place of the batcher, then the batches on their way, then the workers that have not ended.
\<close>

section \<open>The measure\<close>

fun exit_rank :: "batcher_at \<Rightarrow> nat" where
  "exit_rank AtTop = 2"
| "exit_rank (AtWait st) = 3"
| "exit_rank (AtPass st timeout p rt bk reqs) = 4"
| "exit_rank (AtWindow st timeout p rt bk reqs) = 3"
| "exit_rank (AtSend bt p) = 2"
| "exit_rank AtClose = 1"
| "exit_rank AtEnd = 0"

definition batcher_left :: "engine \<Rightarrow> nat" where
  "batcher_left s = exit_rank (en_at s) + (if en_chansClosed s then 0 else 1)"

definition workers_left :: "engine \<Rightarrow> nat" where
  "workers_left s = length (filter (\<lambda>w. w \<noteq> WorkerEnded) (en_workersAt s))"

definition winding :: "(engine \<times> engine) set" where
  "winding = measures [batcher_left, under_way, workers_left]"

text \<open>
  What a shutdown leaves in the matrix: once the batcher has drained it, the requests that came since.
  The goroutines that end neither add to it nor take from it.
\<close>

definition left_behind :: "engine \<Rightarrow> InferenceRequest list" where
  "left_behind s = (if en_at s \<in> {AtClose, AtEnd} then queued (ab_qm (en_batcher s)) else [])"

definition winds :: "engine \<Rightarrow> engine \<Rightarrow> bool" where
  "winds s s' \<longleftrightarrow> no_news s s' \<and> left_behind s' = left_behind s"

lemma winds_same:
  "no_news s s' \<Longrightarrow> en_at s' = en_at s \<Longrightarrow> ab_qm (en_batcher s') = ab_qm (en_batcher s) \<Longrightarrow> winds s s'"
  by (simp add: winds_def left_behind_def)

text \<open>The moves of the goroutines that are to end.\<close>

fun is_ending :: "action \<Rightarrow> bool" where
  "is_ending CloseChans = True"
| "is_ending a = is_work a"

definition ends_on :: "(f64 \<Rightarrow> int) \<Rightarrow> engine \<Rightarrow> bool" where
  "ends_on oob s \<longleftrightarrow> (\<exists>a s'. is_ending a \<and> allowed a s \<and> act oob a s = Ret s' \<and> (s', s) \<in> winding \<and> winds s s')"

section \<open>The batcher ends\<close>

definition exit_move :: move where
  "exit_move = \<lparr>mv_wake = WakeCtx, mv_elapsed = 0, mv_uuid = [], mv_now = 0, mv_sent = SendCtx\<rparr>"

lemma exit_move_sel [simp]: "mv_wake exit_move = WakeCtx" "mv_elapsed exit_move = 0" "mv_sent exit_move = SendCtx"
  by (simp_all add: exit_move_def)

text \<open>With its context ended the batcher takes that case of every \<open>select\<close>.\<close>

lemma batcher_exits:
  assumes "batcher_ok pc b" "ab_ctxDone b" "pc \<noteq> AtEnd"
  shows "\<exists>pc' b'. batcher_next oob exit_move pc b = Ret (pc', b') \<and> exit_rank pc' < exit_rank pc"
proof (cases pc)
  case AtTop
  then show ?thesis using assms(2) by (simp add: batcher_next.simps shouldExit_def)
next
  case (AtWait st)
  then show ?thesis using assms(2) by (simp add: batcher_next.simps wake_ready_def)
next
  case (AtPass st timeout p rt bk reqs)
  then have "running reqs b" using assms(1) by (simp add: batcher_ok_def)
  then obtain full reqs' b' where "gather_pass st p rt bk reqs b = Ret (full, reqs', b')"
    using gather_pass_returns by blast
  then show ?thesis using AtPass by (simp add: batcher_next.simps batch_formed_def)
next
  case (AtWindow st timeout p rt bk reqs)
  then show ?thesis using assms(2) by (simp add: batcher_next.simps wake_ready_def batch_formed_def)
next
  case (AtSend bt p)
  then show ?thesis
    using assms(2) by (auto simp: batcher_next.simps dispatch_select_def give_up_def split: option.split)
next
  case AtClose
  then have "draining b" using assms(1) by (simp add: batcher_ok_def)
  from close_moved [OF this, of oob exit_move] show ?thesis using AtClose by auto
qed (use assms(3) in simp)

lemma moved_winds:
  assumes "moved (en_at s) (en_batcher s) pc' b'" "batcher_next oob mv (en_at s) (en_batcher s) = Ret (pc', b')"
  shows "winds s (s\<lparr>en_at := pc', en_batcher := b'\<rparr>)"
proof -
  have at: "en_at s \<noteq> AtEnd" "en_at s = AtClose \<longleftrightarrow> pc' = AtEnd"
    using assms by (auto simp: batcher_next.simps and_then_Ret moved_def)
  have "no_news s (s\<lparr>en_at := pc', en_batcher := b'\<rparr>)"
    using assms(1) by (auto simp: no_news_def moved_def told_all_def same_outside_def batch_sent_def split: if_splits)
  then show ?thesis
    using assms(1) at by (auto simp: winds_def left_behind_def moved_def told_all_def split: if_splits)
qed

lemma batcher_ends_on:
  assumes "engine_inv s" "ab_ctxDone (en_batcher s)" "en_at s \<noteq> AtEnd"
  shows "ends_on oob s"
proof -
  note inv = engine_invD [OF assms(1)]
  have ok: "batcher_ok (en_at s) (en_batcher s)" "\<not> en_chansClosed s"
    using inv(1) assms(3) by (auto simp: batcher_part_def split: if_splits)
  obtain pc' b' where m: "batcher_next oob exit_move (en_at s) (en_batcher s) = Ret (pc', b')"
    "exit_rank pc' < exit_rank (en_at s)"
    using batcher_exits [OF ok(1) assms(2,3)] by blast
  let ?s = "s\<lparr>en_at := pc', en_batcher := b'\<rparr>"
  have "moved (en_at s) (en_batcher s) pc' b'" using batcher_next_ok [OF ok(1), of oob exit_move] m(1) by simp
  then have "winds s ?s" by (rule moved_winds [OF _ m(1)])
  moreover have "(?s, s) \<in> winding" using m(2) by (simp add: winding_def batcher_left_def)
  ultimately show ?thesis
    using m(1) unfolding ends_on_def
    by (intro exI [of _ "BatcherMove exit_move"] exI [of _ ?s]) (simp add: allowed_def)
qed

lemma chans_close:
  assumes "engine_inv s" "en_at s = AtEnd" "\<not> en_chansClosed s"
  shows "ends_on oob s"
proof -
  obtain chans where c: "do_close s = Ret (s\<lparr>en_chansClosed := True, en_batcher := (en_batcher s)\<lparr>ab_batchChans := chans\<rparr>\<rparr>)"
    using do_close_eq [OF assms] by blast
  then show ?thesis
    using assms(3) unfolding ends_on_def
    by (intro exI [of _ CloseChans] exI [of _ "s\<lparr>en_chansClosed := True, en_batcher := (en_batcher s)\<lparr>ab_batchChans := chans\<rparr>\<rparr>"])
      (simp add: allowed_def winding_def batcher_left_def winds_def left_behind_def no_news_def)
qed

section \<open>The workers end\<close>

text \<open>Against closed channels every look takes a batch or sees the end.\<close>

lemma closed_look:
  assumes "ch_closed (chans 3)"
  shows "worker_look (PickChan 3) over n chans = LookEnd \<or> (\<exists>k bt. worker_look (PickChan 3) over n chans = LookTook k bt)"
proof -
  have "receive 3 chans = PulledClosed 3 \<or> (\<exists>bt. receive 3 chans = Pulled (3, bt))"
    using assms by (cases "ch_buf (chans 3)") (simp_all add: receive_def try_recv_def)
  then have "looked_of (receive 3 chans) = LookEnd \<or> (\<exists>k bt. looked_of (receive 3 chans) = LookTook k bt)" by auto
  moreover have "any_ready (level_cases m) chans" "3 \<in> set (level_cases m)" for m
    using assms by (simp_all add: any_ready_def level_cases_def recv_ready_def)
  moreover have "any_ready [3] chans" using assms by (simp add: any_ready_def recv_ready_def)
  ultimately show ?thesis by (cases "n = 0") (simp_all add: worker_look_def select_from_def)
qed

lemma workers_left_end:
  assumes "i < length ws" "ws ! i \<noteq> WorkerEnded"
  shows "length (filter (\<lambda>w. w \<noteq> WorkerEnded) (ws[i := WorkerEnded])) < length (filter (\<lambda>w. w \<noteq> WorkerEnded) ws)"
proof -
  have ws: "ws = take i ws @ ws ! i # drop (Suc i) ws" using assms(1) by (rule id_take_nth_drop)
  have "ws[i := WorkerEnded] = take i ws @ WorkerEnded # drop (Suc i) ws" using assms(1) by (simp add: upd_conv_take_nth_drop)
  then show ?thesis by (subst (2) ws) (simp add: assms(2))
qed

lemma worker_ends_on:
  assumes "engine_inv s" "en_chansClosed s" "i < length (en_workersAt s)" "en_workersAt s ! i = WorkerPulls n"
  shows "ends_on oob s"
proof -
  let ?b = "en_batcher s" and ?ws = "en_workersAt s" and ?chans = "batch_chans (en_batcher s)"
  have "ch_closed (?chans 3)" using chan_of_wf [OF engine_invD(2) [OF assms(1)], of 3] assms(2) by (simp add: chan_wf_def)
  from closed_look [where chans = ?chans and over = "ab_ctxDone ?b" and n = n, OF this] show ?thesis
  proof (elim disjE exE)
    assume l: "worker_look (PickChan 3) (ab_ctxDone ?b) n ?chans = LookEnd"
    let ?s = "s\<lparr>en_workersAt := ?ws[i := WorkerEnded]\<rparr>"
    have "length (held (?ws[i := WorkerEnded])) = length (held ?ws)"
      using arg_cong [OF held_update [OF assms(3), of WorkerEnded], of size] assms(4) by simp
    then have "(?s, s) \<in> winding"
      using workers_left_end [OF assms(3)] assms(4) by (simp add: winding_def batcher_left_def under_way_def workers_left_def)
    then show ?thesis
      using l assms(3,4) unfolding ends_on_def
      by (intro exI [of _ "WorkerLook i (PickChan 3)"] exI [of _ ?s]) (simp add: allowed_def do_look_def winds_same no_news_def)
  next
    fix k bt assume l: "worker_look (PickChan 3) (ab_ctxDone ?b) n ?chans = LookTook k bt"
    obtain rest where k: "k < 4" "ch_buf (?chans k) = bt # rest" using worker_look_took [OF l] by blast
    let ?ch = "(?chans k)\<lparr>ch_buf := rest\<rparr>"
    let ?b' = "?b\<lparr>ab_batchChans := (ab_batchChans ?b)(k := Some ?ch)\<rparr>"
    let ?s = "s\<lparr>en_workersAt := ?ws[i := WorkerHolds bt], en_batcher := ?b'\<rparr>"
    have "size (mset (in_chans ?b')) + 1 = size (mset (in_chans ?b))"
      using arg_cong [OF in_chans_upd [OF k(1), of ?b ?ch], of size] k(2) by simp
    moreover have "length (held (?ws[i := WorkerHolds bt])) = length (held ?ws) + 1"
      using arg_cong [OF held_update [OF assms(3), of "WorkerHolds bt"], of size] assms(4) by simp
    ultimately have "(?s, s) \<in> winding" by (simp add: winding_def batcher_left_def under_way_def)
    then show ?thesis
      using l k(2) assms(3,4) unfolding ends_on_def
      by (intro exI [of _ "WorkerLook i (PickChan 3)"] exI [of _ ?s])
        (simp add: allowed_def do_look_def winds_same no_news_def try_recv_def)
  qed
qed

lemma do_serve_qm: "do_serve i ex s = Ret s' \<Longrightarrow> ab_qm (en_batcher s') = ab_qm (en_batcher s)"
  by (auto simp: do_serve_def and_then_Ret split: if_splits worker_at.splits)

lemma holder_ends_on:
  assumes "engine_inv s" "held (en_workersAt s) \<noteq> []"
  shows "ends_on oob s"
proof -
  obtain i ex s' where s': "allowed (WorkerServe i ex) s" "act oob (WorkerServe i ex) s = Ret s'" "no_news s s'"
    "in_chans (en_batcher s') = in_chans (en_batcher s)" "length (held (en_workersAt s')) < length (held (en_workersAt s))"
    "en_at s' = en_at s" "en_chansClosed s' = en_chansClosed s"
    by (rule quiet_serve [OF assms])
  then have "(s', s) \<in> winding" by (simp add: winding_def batcher_left_def under_way_def)
  moreover have "winds s s'" using s'(2,3,6) do_serve_qm by (intro winds_same) simp_all
  ultimately show ?thesis
    using s' unfolding ends_on_def by (intro exI [of _ "WorkerServe i ex"] exI [of _ s']) simp
qed

section \<open>Everybody ends\<close>

definition wound_up :: "engine \<Rightarrow> bool" where
  "wound_up s \<longleftrightarrow> all_ended s \<and> en_chansClosed s"

lemma winds_on:
  assumes "engine_inv s" "ab_ctxDone (en_batcher s)" "\<not> wound_up s"
  shows "ends_on oob s"
proof -
  have "en_workersAt s \<noteq> []" using engine_invD(6) [OF assms(1)] by (simp add: staffed_def)
  then have "set (en_workersAt s) \<noteq> {WorkerEnded} \<Longrightarrow> \<exists>w\<in>set (en_workersAt s). w \<noteq> WorkerEnded"
    by (cases "en_workersAt s") auto
  then consider "en_at s \<noteq> AtEnd" | "en_at s = AtEnd" "\<not> en_chansClosed s"
    | "en_at s = AtEnd" "en_chansClosed s" "\<exists>w\<in>set (en_workersAt s). w \<noteq> WorkerEnded"
    using assms(3) by (auto simp: wound_up_def all_ended_def)
  then show ?thesis
  proof cases
    case 3
    then obtain i where i: "i < length (en_workersAt s)" "en_workersAt s ! i \<noteq> WorkerEnded" by (auto simp: in_set_conv_nth)
    show ?thesis
    proof (cases "en_workersAt s ! i")
      case (WorkerPulls n)
      then show ?thesis by (rule worker_ends_on [OF assms(1) 3(2) i(1)])
    next
      case (WorkerHolds bt)
      then have "held (en_workersAt s) \<noteq> []" using nth_mem [OF i(1)] by (force simp: held_def)
      then show ?thesis by (rule holder_ends_on [OF assms(1)])
    qed (use i(2) in simp)
  qed (use assms batcher_ends_on chans_close in blast)+
qed

definition ending_step :: "(f64 \<Rightarrow> int) \<Rightarrow> engine \<Rightarrow> engine \<Rightarrow> bool" where
  "ending_step oob s s' \<longleftrightarrow> (\<exists>a. is_ending a \<and> allowed a s \<and> act oob a s = Ret s')"

text \<open>The server after the end of its context, as a system that goes on until everybody has ended.\<close>

interpretation ending: leads_to "ending_step oob" winds "\<lambda>s. engine_inv s \<and> ab_ctxDone (en_batcher s)" wound_up winding for oob
proof (unfold_locales, goal_cases)
  case (2 s)
  then obtain a s' where "is_ending a" "allowed a s" "act oob a s = Ret s'" "(s', s) \<in> winding" "winds s s'"
    using winds_on [of s oob] unfolding ends_on_def by blast
  then show ?case using act_inv [of s a oob s'] 2 unfolding ending_step_def winds_def no_news_def by blast
qed (simp_all add: winding_def wf_measures winds_def no_news_def)

end
