(* ===== verification/EngineProps.thy ===== *)
theory EngineProps
  imports EngineEnd
begin

text \<open>
  What the server promises, over every run from the wiring of main (cmd/server/main.go): nothing
  panics, every accepted request is somewhere and gets at most one result, all that moves is well
  formed, and everything can always be served until a shutdown, which can strand a batch and leave a
  late request in the matrix.
\<close>

section \<open>What stays\<close>

text \<open>
  The batcher's configuration; the metrics its strategy reads, but for the push; and a context that
  has ended.
\<close>

definition batcher_stays :: "AdaptiveBatcher \<Rightarrow> AdaptiveBatcher \<Rightarrow> bool" where
  "batcher_stays b b' \<longleftrightarrow> ab_cfg b' = ab_cfg b \<and> ab_metrics b' = ab_metrics b \<and> (ab_ctxDone b \<longrightarrow> ab_ctxDone b')"

lemma moved_stays: "moved pc b pc' b' \<Longrightarrow> batcher_stays b b'"
  unfolding batcher_stays_def
  by (auto simp: moved_def told_all_def same_outside_def batch_sent_def split: if_splits)

lemma act_stays:
  assumes "engine_inv s" "act oob a s = Ret s'"
  shows "batcher_stays (en_batcher s) (en_batcher s') \<or> (\<exists>m. a = PushMetrics m \<and> s' = s\<lparr>en_batcher := UpdateStrategyMetrics m (en_batcher s)\<rparr>)"
proof (cases a)
  case (Arrive uuid now prompt mx p rt)
  let ?r = "NewInferenceRequest uuid now (en_next s) (Some (en_next s)) prompt mx p rt"
  note inv = engine_invD [OF assms(1)]
  obtain e b' where sub: "Submit (en_ctxs s (en_next s)) (Some ?r) (en_batcher s) = Ret (e, b')" "en_batcher s' = b'"
    using assms(2) Arrive
    by (cases "Submit (en_ctxs s (en_next s)) (Some ?r) (en_batcher s)") (auto simp: do_arrive_def Let_def)
  show ?thesis
  proof (cases "en_at s = AtEnd")
    case True
    then show ?thesis using Submit_shut [OF _ sub(1)] batcher_part_qm(2) [OF inv(1)] sub(2) by (auto simp: batcher_stays_def)
  next
    case False
    then have "running (ab_notified (en_batcher s) @ in_hand (en_at s)) ((en_batcher s)\<lparr>ab_notified := []\<rparr>)"
      using batcher_part_qm(4) [OF inv(1)] batcher_ok_open by blast
    from Submit_outside [OF this sub(1)] show ?thesis using sub(2) by (simp add: batcher_stays_def)
  qed
next
  case (BatcherMove mv)
  then obtain pc' b' where m: "batcher_next oob mv (en_at s) (en_batcher s) = Ret (pc', b')" "en_batcher s' = b'"
    using assms(2) by (cases "batcher_next oob mv (en_at s) (en_batcher s)") auto
  then have "en_at s \<noteq> AtEnd" by (auto simp: batcher_next.simps)
  then have "batcher_ok (en_at s) (en_batcher s)"
    using engine_invD(1) [OF assms(1)] by (simp add: batcher_part_def split: if_splits)
  from batcher_next_ok [OF this, of oob mv] show ?thesis using m by (auto dest: moved_stays)
next
  case (CloseChans)
  then have close: "do_close s = Ret s'" using assms(2) by simp
  show ?thesis by (rule do_close_Ret [OF assms(1) close]) (simp add: batcher_stays_def)
next
  case (WorkerServe i ex)
  then obtain bt where bt: "i < length (en_workersAt s)" "en_workersAt s ! i = WorkerHolds bt"
    using assms(2) by (auto simp: do_serve_def split: if_splits worker_at.splits)
  then show ?thesis
    using assms(2) WorkerServe
    by (cases "process ex (wp_upstreamUnhealthy (en_pool s)) bt (wp_workers (en_pool s) ! i, ab_results (en_batcher s))")
      (auto simp: do_serve_def batcher_stays_def)
qed (use assms(2) in \<open>auto simp: batcher_stays_def do_collect_def do_admin_def do_ping_def do_ping_start_def do_look_def HandleSetStrategy_def SetStrategy_def
    UpdateStrategyMetrics_def split: if_splits recv_result.splits option.splits sum.splits prod.splits worker_at.splits looked.splits\<close>)

lemma reaches_cfg:
  assumes "engine_reaches oob s s'" "engine_inv s"
  shows "ab_cfg (en_batcher s') = ab_cfg (en_batcher s)"
  using assms
proof (induction rule: engine_reaches.induct)
  case (more s s' s'')
  then show ?case by (auto elim!: engine_step.cases simp: batcher_stays_def UpdateStrategyMetrics_def dest!: act_stays [OF engine_reaches_inv])
qed simp

lemma process_config: "process ex unhealthy bt (w, res) = Inr (w', res') \<Longrightarrow> pw_workerConfig w' = pw_workerConfig w"
  by (auto simp: process_cases Let_def split: attempt_end.splits)

text \<open>What no action changes of the pool: the interval of its ping, its breakers' places and its workers' names.\<close>

definition pool_shape :: "WorkerPool \<Rightarrow> duration \<times> (string \<times> nat) list \<times> ProxyWorkerConfig list" where
  "pool_shape p = (wp_healthInterval p, wp_circuits p, map pw_workerConfig (wp_workers p))"

lemma act_shape:
  assumes "act oob a s = Ret s'"
  shows "pool_shape (en_pool s') = pool_shape (en_pool s)"
proof (cases a)
  case (WorkerServe i ex)
  then obtain bt where bt: "i < length (en_workersAt s)" "en_workersAt s ! i = WorkerHolds bt"
    using assms by (auto simp: do_serve_def split: if_splits worker_at.splits)
  obtain w res where pr: "process ex (wp_upstreamUnhealthy (en_pool s)) bt (wp_workers (en_pool s) ! i, ab_results (en_batcher s)) = Inr (w, res)"
    using assms WorkerServe bt
    by (cases "process ex (wp_upstreamUnhealthy (en_pool s)) bt (wp_workers (en_pool s) ! i, ab_results (en_batcher s))")
      (auto simp: do_serve_def)
  have "(map pw_workerConfig (wp_workers (en_pool s)))[i := pw_workerConfig w] = map pw_workerConfig (wp_workers (en_pool s))"
    using process_config [OF pr] by (cases "i < length (wp_workers (en_pool s))") (simp_all add: list_update_same_conv list_update_beyond)
  then show ?thesis
    using assms WorkerServe bt pr by (auto simp: do_serve_def pool_shape_def map_update)
next
  case (Arrive uuid now prompt mx p rt)
  then show ?thesis
    using assms by (cases "Submit (en_ctxs s (en_next s)) (Some (NewInferenceRequest uuid now (en_next s) (Some (en_next s))
      prompt mx p rt)) (en_batcher s)") (auto simp: do_arrive_def Let_def)
next
  case (BatcherMove mv)
  then show ?thesis using assms by (cases "batcher_next oob mv (en_at s) (en_batcher s)") auto
next
  case CloseChans
  then show ?thesis
    using assms by (cases "CloseBatchChans ((en_pool s)\<lparr>wp_batchChans := batch_chans (en_batcher s)\<rparr>)")
      (auto simp: do_close_def split: if_splits)
next
  case (PingTick tick)
  then show ?thesis using assms by (auto simp: do_ping_def ping_tick_def Let_def pool_shape_def split: if_splits prod.splits)
qed (use assms in \<open>auto simp: do_collect_def do_admin_def do_ping_start_def do_look_def
    split: if_splits recv_result.splits worker_at.splits looked.splits\<close>)

lemma reaches_shape: "engine_reaches oob s s' \<Longrightarrow> pool_shape (en_pool s') = pool_shape (en_pool s)"
  by (induction rule: engine_reaches.induct) (auto elim!: engine_step.cases dest: act_shape)

lemma reached_shape:
  assumes "server_start cfg = Inr s" "engine_reaches oob s s'"
  shows "pool_shape (en_pool s') = pool_shape (NewWorkerPool (cfg_Workers cfg) (cfg_Health cfg) (cfg_Upstream cfg))"
proof -
  have "pool_shape (en_pool s) = pool_shape (NewWorkerPool (cfg_Workers cfg) (cfg_Health cfg) (cfg_Upstream cfg))"
    using assms(1) by (auto simp: server_start_def Let_def split: sum.splits)
  then show ?thesis using reaches_shape [OF assms(2)] by simp
qed

lemma reached_interval:
  assumes "server_start cfg = Inr s" "engine_reaches oob s s'"
  shows "wp_healthInterval (en_pool s') = hc_CheckInterval (cfg_Health cfg)"
  using reached_shape [OF assms] by (simp add: pool_shape_def NewWorkerPool_fields)

lemma pool_inv_shape:
  assumes "pool_shape p' = pool_shape p" "pool_inv p"
  shows "pool_inv p'"
proof -
  have same: "wp_circuits p' = wp_circuits p" "map pw_workerConfig (wp_workers p') = map pw_workerConfig (wp_workers p)"
    using assms(1) by (simp_all add: pool_shape_def)
  have len: "length (wp_workers p') = length (wp_workers p)" using map_eq_imp_length_eq [OF same(2)] .
  have "pw_workerConfig (wp_workers p' ! i) = pw_workerConfig (wp_workers p ! i)" if "i < length (wp_workers p)" for i
    using arg_cong [OF same(2), of "\<lambda>xs. xs ! i"] that len by simp
  then show ?thesis using assms(2) same(1) len by (simp add: pool_inv_def)
qed

section \<open>A concrete server\<close>

lemma default_starts: "\<exists>s. server_start default_config = Inr s"
  by (simp add: server_start_def default_config_def server_buildInitialStrategy_def Let_def)

lemma default_max:
  "server_start default_config = Inr s \<Longrightarrow> bat_MaxBatchSize (ab_cfg (en_batcher s)) = 32"
  by (auto simp: server_start_def default_config_def server_buildInitialStrategy_def Let_def
      NewAdaptiveBatcher_def NewBatcherConfig_def SetDispatchBlockedHook_def)

text \<open>The default server after the arrival of one request.\<close>

lemma default_arrival:
  "\<exists>s s' r. server_start default_config = Inr s \<and> engine_reaches oob s s' \<and> ab_accepted (en_batcher s') = [r]
    \<and> req_ID r = ''a'' \<and> \<not> ab_ctxDone (en_batcher s') \<and> en_ctxs s' = (\<lambda>_. None) \<and> req_ResultChan r = Some (en_next s)"
proof -
  obtain s where s: "server_start default_config = Inr s" using default_starts by blast
  let ?r = "NewInferenceRequest ''a'' 0 (en_next s) (Some (en_next s)) ''hello'' 16 2 RequestTypeCompletion"
  obtain s' where s': "act oob (Arrive ''a'' 0 ''hello'' 16 2 RequestTypeCompletion) s = Ret s'" "ab_accepted (en_batcher s') = [?r]"
    "\<not> ab_ctxDone (en_batcher s')" "en_ctxs s' = (\<lambda>_. None)"
    by (rule first_arrival [OF s])
  have "engine_reaches oob s s'" by (rule reaches_act [OF engine_reaches.start _ s'(1)]) (simp add: allowed_def)
  then show ?thesis using s s'(2-4)
    by (intro exI [of _ s] exI [of _ s'] exI [of _ ?r]) (simp add: NewInferenceRequest_def)
qed

section \<open>Safety\<close>

lemma slot_one:
  assumes "slot_ok told served r ch got err"
  shows "length (ch_buf ch) + (if got = None then 0 else 1) \<le> 1
    \<and> (\<forall>x. x \<in> set (ch_buf ch) \<or> got = Some x \<longrightarrow> res_RequestID x = req_ID r)"
  using assms by (auto simp: slot_ok_def answered_def quiet_def split: if_splits)

text \<open>
  C1: The accounts of the whole server, in every state it can reach from the wiring of \<open>main\<close>,
  whatever its handlers, batcher, workers, ping, administrator and clients do and in any order: no
  action of anybody panics or loops for ever, except that the ping's goroutine panics at its start
  when the configured check interval is not positive; each accepted request is in exactly one place (a batch
  channel, a worker's hands, served, the batcher's hands, the queue matrix, or told of the shutdown);
  in every sub-queue the requests leave it in the order in which they were accepted, whether they are
  dispatched or told of the shutdown, and those still in it are the latest;
  its result channel, which is nobody else's, and its handler together have at most one result, with
  its own identifier; a request told of the shutdown, or served while its context is live, has one;
  and a request that is neither has none yet.
\<close>

theorem requests_accounted:
  assumes "server_start cfg = Inr s" "engine_reaches oob s s'"
  shows "(\<forall>a. safe (\<lambda>_. True) (act oob a s') \<or> (a = PingStart \<and> hc_CheckInterval (cfg_Health cfg) \<le> 0))
    \<and> mset (ab_accepted (en_batcher s')) = mset (places s')
    \<and> (\<forall>c. coord_ok c \<longrightarrow> on_lane c (ab_accepted (en_batcher s')) = on_lane c (requests_of (ab_sent (en_batcher s'))
        @ ab_notified (en_batcher s') @ in_hand (en_at s') @ queued (ab_qm (en_batcher s'))))
    \<and> distinct (map req_ResultChan (ab_accepted (en_batcher s')))
    \<and> (\<forall>r\<in>set (ab_accepted (en_batcher s')). \<exists>n<en_next s'. req_ResultChan r = Some n
        \<and> length (ch_buf (ab_results (en_batcher s') n)) + (if en_received s' n = None then 0 else 1) \<le> 1
        \<and> (\<forall>x. x \<in> set (ch_buf (ab_results (en_batcher s') n)) \<or> en_received s' n = Some x \<longrightarrow> res_RequestID x = req_ID r)
        \<and> (r \<in> set (ab_notified (en_batcher s')) \<or> (r \<in> set (requests_of (en_served s')) \<and> en_ctxs s' n = None)
            \<longrightarrow> answered r (ab_results (en_batcher s') n) (en_received s' n))
        \<and> (r \<notin> set (ab_notified (en_batcher s')) \<and> r \<notin> set (requests_of (en_served s'))
            \<longrightarrow> quiet (ab_results (en_batcher s') n) (en_received s' n)))"
proof (intro conjI allI ballI impI)
  have inv: "engine_inv s'" by (rule reached_inv [OF assms])
  note i = engine_invD [OF inv]
  show "safe (\<lambda>_. True) (act oob a s') \<or> (a = PingStart \<and> hc_CheckInterval (cfg_Health cfg) \<le> 0)" for a
    using act_safe [OF inv] reached_interval [OF assms] by simp
  show "mset (ab_accepted (en_batcher s')) = mset (places s')" by (rule engine_places [OF inv])
  show "on_lane c (ab_accepted (en_batcher s')) = on_lane c (requests_of (ab_sent (en_batcher s'))
        @ ab_notified (en_batcher s') @ in_hand (en_at s') @ queued (ab_qm (en_batcher s')))" if "coord_ok c" for c
    using batcher_lanes [OF i(1) that] by (simp add: dispatched_requests)
  show "distinct (map req_ResultChan (ab_accepted (en_batcher s')))" using i(4) by (simp add: addressed_def)
  fix r assume r: "r \<in> set (ab_accepted (en_batcher s'))"
  then obtain n where n: "n < en_next s'" "req_ResultChan r = Some n" using i(4) by (auto simp: addressed_def)
  have slot: "slot_ok (set (ab_notified (en_batcher s'))) (set (requests_of (en_served s'))) r
      (ab_results (en_batcher s') n) (en_received s' n) (en_ctxs s' n)"
    using i(5) r n(2) by (simp add: delivered_def)
  show "\<exists>n<en_next s'. req_ResultChan r = Some n
        \<and> length (ch_buf (ab_results (en_batcher s') n)) + (if en_received s' n = None then 0 else 1) \<le> 1
        \<and> (\<forall>x. x \<in> set (ch_buf (ab_results (en_batcher s') n)) \<or> en_received s' n = Some x \<longrightarrow> res_RequestID x = req_ID r)
        \<and> (r \<in> set (ab_notified (en_batcher s')) \<or> (r \<in> set (requests_of (en_served s')) \<and> en_ctxs s' n = None)
            \<longrightarrow> answered r (ab_results (en_batcher s') n) (en_received s' n))
        \<and> (r \<notin> set (ab_notified (en_batcher s')) \<and> r \<notin> set (requests_of (en_served s'))
            \<longrightarrow> quiet (ab_results (en_batcher s') n) (en_received s' n))"
    using n slot_one [OF slot] slot by (intro exI [of _ n]) (auto simp: slot_ok_def split: if_splits)
qed

theorem requests_accounted_witness:
  "\<exists>s s' r. server_start default_config = Inr s \<and> engine_reaches (\<lambda>_. 0) s s' \<and> mset (places s') = {#r#} \<and> req_ID r = ''a''
     \<and> safe (\<lambda>_. True) (act (\<lambda>_. 0) PingStart s')"
proof -
  obtain s s' r where s: "server_start default_config = Inr s" "engine_reaches (\<lambda>_. 0) s s'"
    "ab_accepted (en_batcher s') = [r]" "req_ID r = ''a''"
    using default_arrival [of "\<lambda>_. 0"] by blast
  note acc = requests_accounted [OF s(1,2)]
  have "\<not> hc_CheckInterval (cfg_Health default_config) \<le> 0" by (simp add: default_config_def)
  then have "safe (\<lambda>_. True) (act (\<lambda>_. 0) PingStart s')" using conjunct1 [OF acc] by blast
  moreover have "mset (places s') = {#r#}" using conjunct1 [OF conjunct2 [OF acc]] s(3) by simp
  ultimately show ?thesis using s by blast
qed

section \<open>Types\<close>

text \<open>
  C10: Everything that moves through the server is well formed, in every state it can reach. The
  four batch channels exist, hold no more than they can, and each holds only batches of requests of
  its own priority; every batch in a channel, in a worker's hands or served has a request, at most
  the configured maximum of them, and all of one sub-queue (priority, type and token bucket); what
  the batcher itself holds fits its place (a batch about to be sent, or a lane that can still grow);
  there is one worker goroutine for each worker of the pool; and the configuration never changes.
\<close>

theorem engine_typed:
  assumes "server_start cfg = Inr s" "engine_reaches oob s s'"
  shows "(\<forall>i<4. \<exists>ch. ab_batchChans (en_batcher s') i = Some ch \<and> length (ch_buf ch) \<le> ch_cap ch
        \<and> (\<forall>bt\<in>set (ch_buf ch). of_priority i bt))
    \<and> (\<forall>bt\<in>set (in_chans (en_batcher s') @ held (en_workersAt s') @ en_served s').
        batch_ok (bat_MaxBatchSize (ab_cfg (en_batcher s))) bt)
    \<and> place_ok (bat_MaxBatchSize (ab_cfg (en_batcher s))) (en_at s')
    \<and> length (en_workersAt s') = length (wp_workers (en_pool s')) \<and> en_workersAt s' \<noteq> []
    \<and> ab_cfg (en_batcher s') = ab_cfg (en_batcher s)"
proof (intro conjI)
  have inv: "engine_inv s'" by (rule reached_inv [OF assms])
  note i = engine_invD [OF inv]
  show cfg: "ab_cfg (en_batcher s') = ab_cfg (en_batcher s)"
    by (rule reaches_cfg [OF assms(2) server_start_inv [OF assms(1)]])
  show "\<forall>k<4. \<exists>ch. ab_batchChans (en_batcher s') k = Some ch \<and> length (ch_buf ch) \<le> ch_cap ch
      \<and> (\<forall>bt\<in>set (ch_buf ch). of_priority k bt)"
    using chan_of_wf [OF i(2)] unfolding chan_wf_def by blast
  have "\<forall>bt\<in>set (ab_sent (en_batcher s')). batch_ok (bat_MaxBatchSize (ab_cfg (en_batcher s'))) bt"
    using i(1) by (auto simp: batcher_part_def batcher_ok_def draining_def running_def shut_down_def split: if_splits)
  moreover have "set (in_chans (en_batcher s') @ held (en_workersAt s') @ en_served s') = set (ab_sent (en_batcher s'))"
    using i(3) unfolding ledger_def by (metis mset_append set_mset_mset append.assoc)
  ultimately show "\<forall>bt\<in>set (in_chans (en_batcher s') @ held (en_workersAt s') @ en_served s').
      batch_ok (bat_MaxBatchSize (ab_cfg (en_batcher s))) bt"
    unfolding cfg by blast
  show "place_ok (bat_MaxBatchSize (ab_cfg (en_batcher s))) (en_at s')"
    using i(1) unfolding cfg [symmetric] by (auto simp: batcher_part_def batcher_ok_def split: if_splits)
  show "length (en_workersAt s') = length (wp_workers (en_pool s'))" "en_workersAt s' \<noteq> []"
    using i(6) unfolding staffed_def by blast+
qed

theorem engine_typed_witness:
  "\<exists>s s' bt. server_start default_config = Inr s \<and> engine_reaches (\<lambda>_. 0) s s' \<and> in_chans (en_batcher s') = [bt]
     \<and> batch_ok 32 bt \<and> req_ID (hd (batch_Requests bt)) = ''a''"
proof -
  obtain s where s: "server_start default_config = Inr s" using default_starts by blast
  obtain s' bt where r: "engine_reaches (\<lambda>_. 0) s s'" "in_chans (en_batcher s') = [bt]"
    "batch_Requests bt = [NewInferenceRequest ''a'' 0 (en_next s) (Some (en_next s)) ''hello'' 16 2 RequestTypeCompletion]"
    using stranding_run [OF s refl, of "\<lambda>_. 0"] by blast
  then show ?thesis
    using s engine_typed [OF s r(1)] default_max [OF s]
    by (intro exI [of _ s] exI [of _ s'] exI [of _ bt]) (simp add: NewInferenceRequest_def)
qed

section \<open>Liveness\<close>

text \<open>
  C2: Until the server is shut down nothing it accepted is ever stuck. From every reachable state the
  batcher and the workers, moving alone (no new request, no client, no administrator, no ping), can
  reach a state in which every request accepted so far has been served, so that it has its one
  result in its channel or at its handler, unless its context had ended. So no order of events leads
  to a deadlock or a lost wake-up: not a full batch channel, not a window without its event, not a
  worker between two of its selects, and not an unhealthy upstream or an open breaker.
\<close>

theorem engine_drains:
  assumes "server_start cfg = Inr s" "engine_reaches oob s s'" "\<not> ab_ctxDone (en_batcher s')"
  shows "\<exists>s''. works oob s' s'' \<and> ab_accepted (en_batcher s'') = ab_accepted (en_batcher s') \<and> en_ctxs s'' = en_ctxs s'
    \<and> (\<forall>r\<in>set (ab_accepted (en_batcher s')). r \<in> set (requests_of (en_served s''))
        \<and> (\<exists>n. req_ResultChan r = Some n \<and> (en_ctxs s' n \<noteq> None
            \<or> answered r (ab_results (en_batcher s'') n) (en_received s'' n))))"
proof -
  obtain s'' where w: "works oob s' s''" "no_news s' s''" "idle s''" "engine_inv s''"
    using drains [OF reached_inv [OF assms(1,2)] assms(3), of oob] by blast
  note i = engine_invD [OF w(4)]
  have f: "ab_accepted (en_batcher s'') = ab_accepted (en_batcher s')" "en_ctxs s'' = en_ctxs s'" "\<not> ab_ctxDone (en_batcher s'')"
    using w(2) assms(3) by (simp_all add: no_news_def)
  show ?thesis
  proof (intro exI [of _ s''] conjI ballI)
    fix r assume r: "r \<in> set (ab_accepted (en_batcher s'))"
    show served: "r \<in> set (requests_of (en_served s''))" using idle_served [OF w(4,3) f(3)] r f(1) by simp
    obtain n where n: "req_ResultChan r = Some n" using i(4) r f(1) unfolding addressed_def by metis
    then have "slot_ok (set (ab_notified (en_batcher s''))) (set (requests_of (en_served s''))) r
        (ab_results (en_batcher s'') n) (en_received s'' n) (en_ctxs s' n)"
      using i(5) r f(1,2) by (simp add: delivered_def)
    then have "en_ctxs s' n \<noteq> None \<or> answered r (ab_results (en_batcher s'') n) (en_received s'' n)"
      using served unfolding slot_ok_def by presburger
    then show "\<exists>n. req_ResultChan r = Some n \<and> (en_ctxs s' n \<noteq> None
        \<or> answered r (ab_results (en_batcher s'') n) (en_received s'' n))" using n by blast
  qed (use w(1) f(1,2) in simp_all)
qed

theorem engine_drains_witness:
  "\<exists>s s' s'' r n. server_start default_config = Inr s \<and> engine_reaches (\<lambda>_. 0) s s' \<and> works (\<lambda>_. 0) s' s''
     \<and> ab_accepted (en_batcher s'') = [r] \<and> req_ID r = ''a''
     \<and> answered r (ab_results (en_batcher s'') n) (en_received s'' n)"
proof -
  obtain s s' r where s: "server_start default_config = Inr s" "engine_reaches (\<lambda>_. 0) s s'"
    "ab_accepted (en_batcher s') = [r]" "req_ID r = ''a''" "\<not> ab_ctxDone (en_batcher s')" "en_ctxs s' = (\<lambda>_. None)"
    using default_arrival [of "\<lambda>_. 0"] by blast
  then show ?thesis using engine_drains [OF s(1,2,5)] by auto
qed

section \<open>Shutdown\<close>

text \<open>
  C6: A shutdown can always be completed. From every state the server can reach after the context of
  its group has ended, the batcher, the goroutine that closes the channels and the workers can all
  end by their own moves, with nobody else's help and whatever is queued, in the channels or in
  hands. Then every accepted request is in exactly one of four places: served by a worker, told of
  the shutdown, in a batch left in a channel, or left in the closed matrix; each of the second has its
  answer, each of the first too unless its own context has ended, and those of the last two have none.
  The matrix keeps only requests that came after the batcher's \<open>DrainAll\<close>: from a state in which the
  batcher has still to drain it, the end leaves none there.
\<close>

theorem engine_ends:
  assumes "server_start cfg = Inr s" "engine_reaches oob s s'" "ab_ctxDone (en_batcher s')"
  shows "\<exists>s''. (ending_step oob)\<^sup>*\<^sup>* s' s'' \<and> wound_up s'' \<and> ab_accepted (en_batcher s'') = ab_accepted (en_batcher s')
    \<and> mset (ab_accepted (en_batcher s'')) = mset (requests_of (en_served s'')) + mset (ab_notified (en_batcher s''))
        + mset (requests_of (in_chans (en_batcher s''))) + mset (queued (ab_qm (en_batcher s'')))
    \<and> queued (ab_qm (en_batcher s'')) = (if en_at s' \<in> {AtClose, AtEnd} then queued (ab_qm (en_batcher s')) else [])
    \<and> (\<forall>r\<in>set (ab_accepted (en_batcher s'')). \<exists>n. req_ResultChan r = Some n
        \<and> (if r \<in> set (requests_of (in_chans (en_batcher s''))) \<union> set (queued (ab_qm (en_batcher s''))) then quiet (ab_results (en_batcher s'') n) (en_received s'' n)
           else answered r (ab_results (en_batcher s'') n) (en_received s'' n) \<or> en_ctxs s' n \<noteq> None))"
proof -
  obtain s'' where s'': "(ending_step oob)\<^sup>*\<^sup>* s' s''" "winds s' s''" "wound_up s''" and inv: "engine_inv s''"
    using ending.leads [of s' oob] reached_inv [OF assms(1,2)] assms(3) by blast
  note i = engine_invD [OF inv]
  have at: "en_at s'' = AtEnd" "held (en_workersAt s'') = []" using s''(3) by (auto simp: wound_up_def all_ended_def held_def)
  have left: "queued (ab_qm (en_batcher s'')) = (if en_at s' \<in> {AtClose, AtEnd} then queued (ab_qm (en_batcher s')) else [])"
    using s''(2) at(1) by (simp add: winds_def left_behind_def)
  have news: "no_news s' s''" using s''(2) by (simp add: winds_def)
  have places: "places s'' = requests_of (in_chans (en_batcher s'')) @ requests_of (en_served s'')
      @ queued (ab_qm (en_batcher s'')) @ ab_notified (en_batcher s'')"
    using at by (simp add: places_def requests_of_def)
  have dist: "distinct (places s'')" using engine_distinct [OF inv] by (simp add: distinct_map)
  have "\<exists>n. req_ResultChan r = Some n
      \<and> (if r \<in> set (requests_of (in_chans (en_batcher s''))) \<union> set (queued (ab_qm (en_batcher s''))) then quiet (ab_results (en_batcher s'') n) (en_received s'' n)
         else answered r (ab_results (en_batcher s'') n) (en_received s'' n) \<or> en_ctxs s' n \<noteq> None)"
    if r: "r \<in> set (ab_accepted (en_batcher s''))" for r
  proof -
    obtain n where n: "req_ResultChan r = Some n" using i(4) r by (auto simp: addressed_def)
    have slot: "slot_ok (set (ab_notified (en_batcher s''))) (set (requests_of (en_served s''))) r
        (ab_results (en_batcher s'') n) (en_received s'' n) (en_ctxs s'' n)"
      using i(5) r n by (simp add: delivered_def)
    have "r \<in> set (places s'')" using engine_places_set [OF inv] r by simp
    then show ?thesis using n slot dist news unfolding places by (auto simp: slot_ok_def no_news_def split: if_splits)
  qed
  moreover have "mset (ab_accepted (en_batcher s'')) = mset (requests_of (en_served s'')) + mset (ab_notified (en_batcher s''))
        + mset (requests_of (in_chans (en_batcher s''))) + mset (queued (ab_qm (en_batcher s'')))"
    using engine_places [OF inv] by (simp add: places)
  ultimately show ?thesis using s''(1,3) news left by (intro exI [of _ s'']) (simp add: no_news_def)
qed

theorem engine_ends_witness:
  "\<exists>s s' s'' r. server_start default_config = Inr s \<and> engine_reaches (\<lambda>_. 0) s s' \<and> (ending_step (\<lambda>_. 0))\<^sup>*\<^sup>* s' s''
     \<and> wound_up s'' \<and> ab_accepted (en_batcher s'') = [r] \<and> req_ID r = ''a''
     \<and> queued (ab_qm (en_batcher s'')) = [r] \<and> (\<exists>n. quiet (ab_results (en_batcher s'') n) (en_received s'' n))"
proof -
  obtain s where s: "server_start default_config = Inr s" using default_starts by blast
  let ?r = "NewInferenceRequest ''a'' 0 (en_next s) (Some (en_next s)) ''hello'' 16 2 RequestTypeCompletion"
  obtain s' where s': "engine_reaches (\<lambda>_. 0) s s'" "en_at s' = AtClose" "ab_ctxDone (en_batcher s')"
    "ab_accepted (en_batcher s') = [?r]" "queued (ab_qm (en_batcher s')) = [?r]"
    using late_arrival [OF s refl, of "\<lambda>_. 0"] by blast
  from engine_ends [OF s s'(1,3)] show ?thesis
    using s s' by (fastforce simp: NewInferenceRequest_def)
qed

text \<open>
  C8: A shutdown can leave an accepted request without any answer for ever. The \<open>select\<close> of \<open>dispatch\<close>
  may take its send although the context has ended, and the workers, which return as soon as they see
  the end of the context, need not have taken the batch. For every configuration the server starts
  with and every first request there is a run in which the request is accepted, the signal arrives,
  every worker and the batcher return and the channels are closed, while the request's client is
  still there and its result channel stays empty in every state reachable from then on.
\<close>

theorem engine_strands:
  assumes "server_start cfg = Inr s"
  shows "\<exists>s' r n. engine_reaches oob s s' \<and> r = NewInferenceRequest uuid now n (Some n) prompt mx p rt
    \<and> r \<in> set (ab_accepted (en_batcher s')) \<and> en_ctxs s' n = None
    \<and> en_at s' = AtEnd \<and> set (en_workersAt s') = {WorkerEnded} \<and> en_chansClosed s'
    \<and> (\<forall>s''. engine_reaches oob s' s'' \<longrightarrow> quiet (ab_results (en_batcher s'') n) (en_received s'' n))"
proof -
  let ?n = "en_next s" and ?r = "NewInferenceRequest uuid now (en_next s) (Some (en_next s)) prompt mx p rt"
  obtain s' bt where r: "engine_reaches oob s s'" "all_ended s'" "en_chansClosed s'" "en_ctxs s' = (\<lambda>_. None)"
    "ab_accepted (en_batcher s') = [?r]" "in_chans (en_batcher s') = [bt]" "batch_Requests bt = [?r]"
    using stranding_run [OF assms refl, of oob] by blast
  have inv: "engine_inv s'" by (rule reached_inv [OF assms r(1)])
  have "quiet (ab_results (en_batcher s'') ?n) (en_received s'' ?n)" if "engine_reaches oob s' s''" for s''
    using ended_forever [OF that inv r(2)] r(6,7)
    by (intro left_quiet [OF engine_reaches_inv [OF that inv], of bt ?r]) (simp_all add: NewInferenceRequest_def)
  then show ?thesis using r by (intro exI [of _ s'] exI [of _ ?r] exI [of _ ?n]) (simp add: all_ended_def)
qed

theorem engine_strands_witness:
  "\<exists>s s' r n. server_start default_config = Inr s \<and> engine_reaches (\<lambda>_. 0) s s' \<and> req_ID r = ''a''
     \<and> r \<in> set (ab_accepted (en_batcher s')) \<and> en_chansClosed s' \<and> quiet (ab_results (en_batcher s') n) (en_received s' n)"
proof -
  obtain s where s: "server_start default_config = Inr s" using default_starts by blast
  then show ?thesis
    using engine_strands [OF s, of "\<lambda>_. 0" "''a''" 0 "''hello''" 16 2 RequestTypeCompletion] engine_reaches.start
    by (fastforce simp: NewInferenceRequest_def)
qed

text \<open>
  C9: A request that arrives while the batcher shuts down can be accepted and then left in the closed
  queue matrix. \<open>drain\<close> takes everything out of the matrix before it closes it, and until the \<open>Close\<close>
  a \<open>Submit\<close> is still accepted. For every configuration the server starts with and every request there
  is a run in which the request is accepted in between: it stays in the matrix, and its result channel
  stays empty in every state reachable from then on, while its client is still there.
\<close>

theorem engine_leaves_late:
  assumes "server_start cfg = Inr s"
  shows "\<exists>s' r n. engine_reaches oob s s' \<and> r = NewInferenceRequest uuid now n (Some n) prompt mx p rt
    \<and> r \<in> set (ab_accepted (en_batcher s')) \<and> en_ctxs s' n = None \<and> en_at s' = AtEnd
    \<and> (\<forall>s''. engine_reaches oob s' s'' \<longrightarrow> queued (ab_qm (en_batcher s'')) = [r]
          \<and> quiet (ab_results (en_batcher s'') n) (en_received s'' n))"
proof -
  let ?n = "en_next s" and ?r = "NewInferenceRequest uuid now (en_next s) (Some (en_next s)) prompt mx p rt"
  obtain s1 where s1: "engine_reaches oob s s1" "en_at s1 = AtClose" "ab_accepted (en_batcher s1) = [?r]"
    "queued (ab_qm (en_batcher s1)) = [?r]" "en_ctxs s1 = (\<lambda>_. None)"
    using late_arrival [OF assms refl, of oob] by blast
  have inv1: "engine_inv s1" by (rule reached_inv [OF assms s1(1)])
  have "draining (en_batcher s1)"
    using batcher_part_qm(4) [OF engine_invD(1) [OF inv1]] s1(2) by (simp add: batcher_ok_def)
  then obtain b where b: "batcher_next oob exit_move AtClose (en_batcher s1) = Ret (AtEnd, b)"
    "same_outside (en_batcher s1) b" "queued (ab_qm b) = queued (ab_qm (en_batcher s1))"
    using close_moved [of "en_batcher s1" oob exit_move] by blast
  let ?s2 = "s1\<lparr>en_at := AtEnd, en_batcher := b\<rparr>"
  have r2: "engine_reaches oob s ?s2"
    using b(1) s1(2) by (intro reaches_act [OF s1(1), of "BatcherMove exit_move"]) (simp_all add: allowed_def)
  have inv2: "engine_inv ?s2" by (rule reached_inv [OF assms r2])
  have "queued (ab_qm (en_batcher s'')) = [?r] \<and> quiet (ab_results (en_batcher s'') ?n) (en_received s'' ?n)"
    if "engine_reaches oob ?s2 s''" for s''
  proof -
    have q: "queued (ab_qm (en_batcher s'')) = [?r]" using closed_for_good [OF that inv2] b(3) s1(4) by simp
    then show ?thesis
      using queued_quiet [OF engine_reaches_inv [OF that inv2], of ?r ?n] by (simp add: NewInferenceRequest_def)
  qed
  then show ?thesis
    using r2 b(2) s1(3,5) by (intro exI [of _ ?s2] exI [of _ ?r] exI [of _ ?n]) (simp add: same_outside_def)
qed

theorem engine_leaves_late_witness:
  "\<exists>s s' r n. server_start default_config = Inr s \<and> engine_reaches (\<lambda>_. 0) s s' \<and> req_ID r = ''a''
     \<and> r \<in> set (ab_accepted (en_batcher s')) \<and> queued (ab_qm (en_batcher s')) = [r] \<and> en_at s' = AtEnd
     \<and> quiet (ab_results (en_batcher s') n) (en_received s' n)"
proof -
  obtain s where s: "server_start default_config = Inr s" using default_starts by blast
  then show ?thesis
    using engine_leaves_late [OF s, of "\<lambda>_. 0" "''a''" 0 "''hello''" 16 2 RequestTypeCompletion] engine_reaches.start
    by (fastforce simp: NewInferenceRequest_def)
qed

end
