(* ===== verification/HttpServer.thy ===== *)
theory HttpServer
  imports Complex_Main Handlers Collector
begin

text \<open>
  internal/api: the middleware of tracking.go, the metrics and WebSocket handlers, and the server
  that mounts them. A handler is a function of the request, of what its \<open>ResponseWriter\<close> can do and
  of the state of the server; its result is the list of the calls it makes on the writer, whether it
  ends in a panic, and the new state. The router, the JSON codec of the query and the WebSocket
  library are third party: the routes are the table of what is registered, and the library's
  \<open>Upgrade\<close> is an argument.
\<close>

section \<open>Requests, writers and handlers\<close>

record http_request =
  rq_Method :: string
  rq_Path :: string
  rq_HeaderID :: string
  rq_CtxID :: "string option"

datatype chunk =
    Encoded body
  | EncodedSnapshot MetricsSnapshot
  | EncodedPoints "DataPoint list"
  | Raw string

datatype writer_call = SetHeader string string | WriteHeader int | Write chunk

record access_log =
  al_RequestID :: string
  al_Method :: string
  al_Path :: string
  al_Status :: int

record SnapshotPublisher =
  sp_current :: MetricsSnapshot

record server_state =
  sv_batcher :: AdaptiveBatcher
  sv_pool :: "WorkerPool option"
  sv_collector :: "Collector option"
  sv_agg :: "TimeSeriesAggregator option"
  sv_publisher :: "SnapshotPublisher option"
  sv_log :: "access_log list"
  sv_panics :: "string list"
  sv_pushed :: "MetricsSnapshot list"

text \<open>The flag tells whether the writer is an \<open>http.Hijacker\<close>.\<close>

type_synonym http_handler =
  "http_request \<Rightarrow> bool \<Rightarrow> server_state \<Rightarrow> writer_call list \<times> go_panic option \<times> server_state"

text \<open>
  The names of headers are compared in their canonical form, as \<open>net/http\<close> does: the first letter and
  each one after a hyphen in upper case and the others in lower case, unless the name has a character
  no header name can have.
\<close>

definition upper_ascii :: "char \<Rightarrow> char" where
  "upper_ascii c = (if 97 \<le> (of_char c :: nat) \<and> (of_char c :: nat) \<le> 122 then char_of ((of_char c :: nat) - 32) else c)"

definition header_byte :: "char \<Rightarrow> bool" where
  "header_byte c \<longleftrightarrow> is_digit c \<or> (97 \<le> (of_char (lower_ascii c) :: nat) \<and> (of_char (lower_ascii c) :: nat) \<le> 122)
     \<or> c \<in> set ''!#$%&*+-.^_`|~'' \<or> of_char c = (39::nat)"

fun canonical_from :: "bool \<Rightarrow> string \<Rightarrow> string" where
  "canonical_from start [] = []"
| "canonical_from start (c # cs) = (if start then upper_ascii c else lower_ascii c) # canonical_from (c = CHR ''-'') cs"

definition canonical_name :: "string \<Rightarrow> string" where
  "canonical_name k = (if list_all header_byte k then canonical_from True k else k)"

text \<open>
  The writer of \<open>net/http\<close>: the first \<open>WriteHeader\<close> of a final status fixes the status and the
  headers, later ones are ignored, and a \<open>Write\<close> before it sends 200. A status below 200, but for
  101, is informational: it goes out at once with the headers so far and fixes nothing. A status
  below 100 or above 999 makes \<open>WriteHeader\<close> panic, which is a panic of the handler and no call.
  \<open>sn_body\<close> is what was written; for a request or a status without a body none of it is sent.
\<close>

record sent =
  sn_pending :: "(string \<times> string) list"
  sn_early :: "(int \<times> (string \<times> string) list) list"
  sn_head :: "(int \<times> (string \<times> string) list) option"
  sn_body :: "chunk list"

definition fresh_writer :: sent where
  "fresh_writer = \<lparr>sn_pending = [], sn_early = [], sn_head = None, sn_body = []\<rparr>"

definition informational :: "int \<Rightarrow> bool" where
  "informational code \<longleftrightarrow> 100 \<le> code \<and> code \<le> 199 \<and> code \<noteq> 101"

definition write_head :: "int \<Rightarrow> sent \<Rightarrow> sent" where
  "write_head code w =
     (case sn_head w of
        Some _ \<Rightarrow> w
      | None \<Rightarrow> if informational code then w\<lparr>sn_early := sn_early w @ [(code, sn_pending w)]\<rparr>
                else w\<lparr>sn_head := Some (code, sn_pending w)\<rparr>)"

fun apply_call :: "writer_call \<Rightarrow> sent \<Rightarrow> sent" where
  "apply_call (SetHeader k v) w = w\<lparr>sn_pending := AList.update (canonical_name k) v (sn_pending w)\<rparr>"
| "apply_call (WriteHeader code) w = write_head code w"
| "apply_call (Write c) w = (let w = write_head 200 w in w\<lparr>sn_body := sn_body w @ [c]\<rparr>)"

definition deliver :: "writer_call list \<Rightarrow> sent" where
  "deliver calls = fold apply_call calls fresh_writer"

definition write_json_calls :: "int \<Rightarrow> chunk \<Rightarrow> writer_call list" where
  "write_json_calls status c = [SetHeader ''Content-Type'' ''application/json'', WriteHeader status, Write c]"

definition respond_with :: "http_response \<Rightarrow> writer_call list" where
  "respond_with r = write_json_calls (fst r) (Encoded (snd r))"

section \<open>tracking.go\<close>

definition RequestID :: "string \<Rightarrow> http_handler \<Rightarrow> http_handler" where
  "RequestID uuid next r hij s =
     (let rid = (if rq_HeaderID r = '''' then uuid else rq_HeaderID r);
          (calls, p, s) = next (r\<lparr>rq_CtxID := Some rid\<rparr>) hij s
      in (SetHeader ''X-Request-ID'' rid # calls, p, s))"

definition GetRequestID :: "http_request \<Rightarrow> string" where
  "GetRequestID r = (case rq_CtxID r of Some v \<Rightarrow> v | None \<Rightarrow> '''')"

text \<open>
  The status a \<open>statusRecorder\<close> ends with. The type embeds the interface \<open>http.ResponseWriter\<close> and
  defines \<open>WriteHeader\<close> and \<open>Write\<close> only, so it is no \<open>Hijacker\<close>; its field \<open>size\<close> is never read.
\<close>

fun recorder_call :: "writer_call \<Rightarrow> int \<Rightarrow> int" where
  "recorder_call (SetHeader k v) st = st"
| "recorder_call (WriteHeader code) st = code"
| "recorder_call (Write c) st = (if st = 0 then 200 else st)"

definition recorder_status :: "writer_call list \<Rightarrow> int" where
  "recorder_status calls = fold recorder_call calls 0"

definition Logging :: "http_handler \<Rightarrow> http_handler" where
  "Logging next r hij s =
     (let (calls, p, s) = next r False s in
      case p of
        Some e \<Rightarrow> (calls, Some e, s)
      | None \<Rightarrow>
          let status = recorder_status calls;
              status = (if status = 0 then 200 else status)
          in (calls, None, s\<lparr>sv_log := sv_log s @ [\<lparr>al_RequestID = GetRequestID r, al_Method = rq_Method r,
                al_Path = rq_Path r, al_Status = status\<rparr>]\<rparr>))"

text \<open>\<open>elapsed\<close> is \<open>time.Since(start)\<close>, \<open>j\<close> the random number of the latency reservoir.\<close>

definition MetricsMiddleware :: "duration \<Rightarrow> int \<Rightarrow> http_handler \<Rightarrow> http_handler" where
  "MetricsMiddleware elapsed j next r hij s =
     (let (calls, p, s) = next r hij s in
      case p of
        Some e \<Rightarrow> (calls, Some e, s)
      | None \<Rightarrow>
          (calls, None, (case sv_collector s of
             None \<Rightarrow> s
           | Some c \<Rightarrow> s\<lparr>sv_collector := Some (RecordLatency j (f_of_int (duration_ms elapsed)) c)\<rparr>)))"

definition internal_error_body :: string where
  "internal_error_body = ''{\"error\":{\"message\":\"internal server error\",\"type\":\"internal\"}}''"

definition Recovery :: "http_handler \<Rightarrow> http_handler" where
  "Recovery next r hij s =
     (let (calls, p, s) = next r hij s in
      case p of
        None \<Rightarrow> (calls, None, s)
      | Some e \<Rightarrow>
          (calls @ [SetHeader ''Content-Type'' ''application/json'', WriteHeader 500, Write (Raw internal_error_body)],
           None, s\<lparr>sv_panics := sv_panics s @ [GetRequestID r]\<rparr>))"

section \<open>handlers/metrics.go\<close>

text \<open>\<open>json.Marshal\<close> refuses a number that is not finite.\<close>

fun finite_f :: "f64 \<Rightarrow> bool" where
  "finite_f (Fin x) = True"
| "finite_f y = False"

definition JSONSnapshot ::
    "instant \<Rightarrow> WorkerSnapshot list \<times> bool \<Rightarrow> Collector \<Rightarrow> (error + chunk) \<times> Collector" where
  "JSONSnapshot now provider c =
     (let (snap, c) = BuildSnapshot now provider c in
      (if finite_f (ms_LatencyP50Ms snap) \<and> finite_f (ms_LatencyP99Ms snap) \<and> finite_f (ms_ThroughputRPS snap)
       then Inr (EncodedSnapshot snap) else Inl (OtherError ''json: unsupported value''), c))"

text \<open>What the collector's provider answers: the pool of the server.\<close>

definition HandleJSONMetrics :: "instant \<Rightarrow> http_handler" where
  "HandleJSONMetrics now r hij s =
     (case sv_collector s of
        None \<Rightarrow> (respond_with (writeError 500 ''internal'' ''collector not initialised''), None, s)
      | Some c \<Rightarrow>
          (case (case sv_pool s of None \<Rightarrow> Inr [] | Some p \<Rightarrow> GetWorkerSnapshots p) of
             Inl e \<Rightarrow> ([], Some e, s)
           | Inr workers \<Rightarrow>
               let (res, c) = JSONSnapshot now (workers, (case sv_pool s of None \<Rightarrow> False | Some p \<Rightarrow> UpstreamUnhealthy p)) c;
                   s = s\<lparr>sv_collector := Some c\<rparr>
               in (case res of
                     Inl err \<Rightarrow> (respond_with (writeError 500 ''internal'' (Error err)), None, s)
                   | Inr body \<Rightarrow> (write_json_calls 200 body, None, s))))"

text \<open>\<open>metric\<close> and \<open>durStr\<close> are the query parameters, \<open>parse\<close> is \<open>time.ParseDuration\<close>.\<close>

definition HandleMetricsHistory ::
    "(string \<Rightarrow> duration option) \<Rightarrow> instant \<Rightarrow> instant \<Rightarrow> string \<Rightarrow> string \<Rightarrow> http_handler" where
  "HandleMetricsHistory parse now1 now2 metric durStr r hij s =
     (case sv_agg s of
        None \<Rightarrow> (respond_with (writeError 500 ''internal'' ''aggregator not initialised''), None, s)
      | Some agg \<Rightarrow>
          if metric = '''' then
            (respond_with (writeError 400 ''invalid_request'' ''metric query param is required''), None, s)
          else
            let durStr = (if durStr = '''' then ''60s'' else durStr);
                bad = (respond_with (writeError 400 ''invalid_request''
                  ''duration must be a positive Go duration string''), None, s) in
            (case parse durStr of
               None \<Rightarrow> bad
             | Some duration \<Rightarrow>
                 if duration \<le> 0 then bad
                 else
                   (case GetHistory now1 now2 metric duration agg of
                      Inl e \<Rightarrow> ([], Some e, s)
                    | Inr points \<Rightarrow> (write_json_calls 200 (EncodedPoints points), None, s))))"

section \<open>handlers/ws.go\<close>

definition NewSnapshotPublisher :: "instant \<Rightarrow> SnapshotPublisher" where
  "NewSnapshotPublisher now = \<lparr>sp_current =
     \<lparr>ms_Timestamp = now, ms_QueueDepth = 0, ms_LatencyP50Ms = Fin 0, ms_LatencyP99Ms = Fin 0,
      ms_ThroughputRPS = Fin 0, ms_Workers = [], ms_UpstreamOK = False\<rparr>\<rparr>"

definition publish_interval :: "duration \<Rightarrow> duration" where
  "publish_interval interval = (if interval \<le> 0 then 500 * millisecond else interval)"

definition publish_tick ::
    "instant \<Rightarrow> WorkerSnapshot list \<times> bool \<Rightarrow> SnapshotPublisher \<times> Collector option \<Rightarrow> SnapshotPublisher \<times> Collector option" where
  "publish_tick now provider = (\<lambda>(sp, c).
     case c of
       None \<Rightarrow> (sp, None)
     | Some c \<Rightarrow> (let (snap, c) = BuildSnapshot now provider c in (sp\<lparr>sp_current := snap\<rparr>, Some c)))"

definition Current :: "SnapshotPublisher \<Rightarrow> MetricsSnapshot" where
  "Current sp = sp_current sp"

text \<open>
  The push loop of one connection: at each event either the context ends or the ticker fires, with
  the publisher as it stands and the outcome of the write. The result is what was pushed.
\<close>

datatype ws_event = WsDone | WsTick "SnapshotPublisher option" bool

fun ws_loop :: "ws_event list \<Rightarrow> MetricsSnapshot list" where
  "ws_loop [] = []"
| "ws_loop (WsDone # es) = []"
| "ws_loop (WsTick None ok # es) = []"
| "ws_loop (WsTick (Some sp) ok # es) = Current sp # (if ok then ws_loop es else [])"

text \<open>
  \<open>upgrade\<close> is the library's \<open>Upgrade\<close>: on failure (\<open>Some\<close>) it has made the given calls on the
  writer. The pushes go over the hijacked connection; \<open>sv_pushed\<close> keeps them.
\<close>

definition HandleWebSocket ::
    "(http_request \<Rightarrow> bool \<Rightarrow> writer_call list option) \<Rightarrow> ws_event list \<Rightarrow> http_handler" where
  "HandleWebSocket upgrade events r hij s =
     (case upgrade r hij of
        Some calls \<Rightarrow> (calls, None, s)
      | None \<Rightarrow> ([], None, s\<lparr>sv_pushed := sv_pushed s @ ws_loop events\<rparr>))"

section \<open>server.go\<close>

datatype endpoint =
    EpCompletions duration
  | EpEmbeddings duration
  | EpPrometheus
  | EpJSONMetrics
  | EpMetricsHistory
  | EpGetConfig
  | EpSetStrategy
  | EpGetWorkers
  | EpHealth
  | EpWebSocket duration

definition mountRoutes :: "Config \<Rightarrow> (string \<times> string \<times> endpoint) list" where
  "mountRoutes cfg =
     (let writeTimeout = srv_WriteTimeout (cfg_Server cfg);
          writeTimeout = (if writeTimeout \<le> 0 then 30 * second else writeTimeout)
      in [(''POST'', ''/v1/completions'', EpCompletions writeTimeout),
          (''POST'', ''/v1/embeddings'', EpEmbeddings writeTimeout),
          (''GET'', ''/metrics'', EpPrometheus),
          (''GET'', ''/metrics/json'', EpJSONMetrics),
          (''GET'', ''/metrics/history'', EpMetricsHistory),
          (''GET'', ''/admin/config'', EpGetConfig),
          (''POST'', ''/admin/strategy'', EpSetStrategy),
          (''GET'', ''/admin/workers'', EpGetWorkers),
          (''GET'', ''/health'', EpHealth),
          (''GET'', ''/ws'', EpWebSocket (dc_WSPushInterval (cfg_Dashboard cfg)))])"

text \<open>The stack of the four middlewares: the first one mounted is the outermost.\<close>

definition mountMiddleware :: "string \<Rightarrow> duration \<Rightarrow> int \<Rightarrow> http_handler \<Rightarrow> http_handler" where
  "mountMiddleware uuid elapsed j h = RequestID uuid (Recovery (Logging (MetricsMiddleware elapsed j h)))"


section \<open>What a client is sent\<close>

lemma deliver_append: "deliver (cs @ ds) = fold apply_call ds (deliver cs)"
  by (simp add: deliver_def)

lemma write_head_sel [simp]:
  "sn_pending (write_head code w) = sn_pending w" "sn_body (write_head code w) = sn_body w"
  "sn_head (write_head code w) = (case sn_head w of Some x \<Rightarrow> Some x
     | None \<Rightarrow> if informational code then None else Some (code, sn_pending w))"
  by (simp_all add: write_head_def split: option.split)

lemma final_status [simp]: "\<not> informational 200" "\<not> informational 500"
  by (simp_all add: informational_def)

lemma apply_call_head_kept: "sn_head w = Some x \<Longrightarrow> sn_head (apply_call c w) = Some x"
  by (cases c) (simp_all add: Let_def)

lemma fold_head_kept: "sn_head w = Some x \<Longrightarrow> sn_head (fold apply_call cs w) = Some x"
  by (induction cs arbitrary: w) (auto simp: apply_call_head_kept)

text \<open>
  A handler that writes one final status at most, before any body, is logged with what it sent; \<open>early\<close>
  tells that the recorder has seen an informational status, which only a final one replaces.
\<close>

fun one_status :: "bool \<Rightarrow> writer_call list \<Rightarrow> bool" where
  "one_status early [] = (\<not> early)"
| "one_status early (SetHeader k v # cs) = one_status early cs"
| "one_status early (WriteHeader code # cs) =
     (if informational code then one_status True cs else code \<noteq> 0 \<and> (\<forall>c\<in>set cs. \<forall>x. c \<noteq> WriteHeader x))"
| "one_status early (Write b # cs) = (\<not> early \<and> (\<forall>c\<in>set cs. \<forall>x. c \<noteq> WriteHeader x))"

definition sent_status :: "sent \<Rightarrow> int" where
  "sent_status w = (case sn_head w of Some (code, _) \<Rightarrow> code | None \<Rightarrow> 200)"

lemma recorder_kept: "st \<noteq> 0 \<Longrightarrow> \<forall>c\<in>set cs. \<forall>x. c \<noteq> WriteHeader x \<Longrightarrow> fold recorder_call cs st = st"
proof (induction cs)
  case (Cons c cs)
  then show ?case by (cases c) auto
qed simp

lemma logged_is_sent:
  "one_status early cs \<Longrightarrow> sn_head w = None \<Longrightarrow> early \<or> st = 0 \<Longrightarrow>
     sent_status (fold apply_call cs w) = (let st = fold recorder_call cs st in if st = 0 then 200 else st)"
proof (induction early cs arbitrary: w st rule: one_status.induct)
  case (3 early code cs)
  show ?case
  proof (cases "informational code")
    case True
    then have "sn_head (write_head code w) = None" using 3 by simp
    from 3(1) [OF True _ this, of code] show ?thesis using 3(2) True by simp
  next
    case False
    then have "sn_head (fold apply_call cs (apply_call (WriteHeader code) w)) = Some (code, sn_pending w)"
      using 3 by (intro fold_head_kept) simp
    then show ?thesis using 3 False recorder_kept [of code cs] by (simp add: sent_status_def)
  qed
next
  case (4 early b cs)
  have "sn_head (fold apply_call cs (apply_call (Write b) w)) = Some (200, sn_pending w)"
    using 4 by (intro fold_head_kept) (simp add: Let_def)
  then show ?case using 4 recorder_kept [of 200 cs] by (simp add: sent_status_def)
qed (simp_all add: sent_status_def)

definition sent_headers :: "sent \<Rightarrow> (string \<times> string) list" where
  "sent_headers w = (case sn_head w of Some (_, hs) \<Rightarrow> hs | None \<Rightarrow> sn_pending w)"

text \<open>A header that is set once stays, in the headers sent and in the pending ones, whatever the spelling.\<close>

definition has_header :: "string \<Rightarrow> string \<Rightarrow> sent \<Rightarrow> bool" where
  "has_header k v w \<longleftrightarrow> map_of (sn_pending w) (canonical_name k) = Some v
     \<and> (\<forall>x hs. sn_head w = Some (x, hs) \<longrightarrow> map_of hs (canonical_name k) = Some v)"

definition sets_header :: "string \<Rightarrow> writer_call \<Rightarrow> bool" where
  "sets_header k c \<longleftrightarrow> (\<exists>k' v. c = SetHeader k' v \<and> canonical_name k' = canonical_name k)"

lemma has_header_sent: "has_header k v w \<Longrightarrow> map_of (sent_headers w) (canonical_name k) = Some v"
  by (auto simp: has_header_def sent_headers_def split: option.splits)

lemma has_header_call: "has_header k v w \<Longrightarrow> \<not> sets_header k c \<Longrightarrow> has_header k v (apply_call c w)"
  by (cases c; cases "sn_head w") (auto simp: has_header_def sets_header_def update_conv' Let_def split: if_splits)

lemma has_header_fold: "has_header k v w \<Longrightarrow> \<forall>c\<in>set cs. \<not> sets_header k c \<Longrightarrow> has_header k v (fold apply_call cs w)"
  by (induction cs arbitrary: w) (simp_all add: has_header_call)

text \<open>Status and body do not depend on the pending headers.\<close>

lemma fold_same:
  "sn_body w = sn_body w' \<Longrightarrow> map_option fst (sn_head w) = map_option fst (sn_head w') \<Longrightarrow>
     sn_body (fold apply_call cs w) = sn_body (fold apply_call cs w')
     \<and> map_option fst (sn_head (fold apply_call cs w)) = map_option fst (sn_head (fold apply_call cs w'))"
proof (induction cs arbitrary: w w')
  case (Cons c cs)
  have "sn_body (apply_call c w) = sn_body (apply_call c w')
      \<and> map_option fst (sn_head (apply_call c w)) = map_option fst (sn_head (apply_call c w'))"
  proof (cases "sn_head w")
    case None
    then have "sn_head w' = None" using Cons.prems(2) by simp
    with None show ?thesis by (cases c) (simp_all add: Cons.prems(1) Let_def)
  next
    case (Some x)
    then obtain x' where "sn_head w' = Some x'" "fst x' = fst x"
      using Cons.prems(2) by (cases "sn_head w'") simp_all
    with Some show ?thesis by (cases c) (simp_all add: Cons.prems(1) Let_def)
  qed
  with Cons.IH [of "apply_call c w" "apply_call c w'"] show ?case by simp
qed simp

lemma sent_status_cong:
  "map_option fst (sn_head w) = map_option fst (sn_head w') \<Longrightarrow> sent_status w = sent_status w'"
  by (auto simp: sent_status_def split: option.splits)

lemma other_name: "canonical_name ''Content-Type'' \<noteq> canonical_name ''X-Request-ID''"
  by code_simp

lemma deliver_header:
  "sn_body (deliver (SetHeader k v # cs)) = sn_body (deliver cs)"
  "sent_status (deliver (SetHeader k v # cs)) = sent_status (deliver cs)"
proof -
  have "sn_body (deliver (SetHeader k v # cs)) = sn_body (deliver cs)
      \<and> map_option fst (sn_head (deliver (SetHeader k v # cs))) = map_option fst (sn_head (deliver cs))"
    using fold_same [of "apply_call (SetHeader k v) fresh_writer" fresh_writer cs]
    by (simp add: deliver_def fresh_writer_def)
  then show "sn_body (deliver (SetHeader k v # cs)) = sn_body (deliver cs)"
    "sent_status (deliver (SetHeader k v # cs)) = sent_status (deliver cs)"
    by (auto intro: sent_status_cong)
qed

text \<open>
  C35: The middleware around any handler that uses its writer by setting headers, valid statuses and
  bodies. Nothing escapes: a panic of the handler becomes a normal return. Unless the handler sets
  X-Request-ID itself, in any spelling, the client receives the request's identifier under that name:
  the one it sent, if it sent one, which is kept and not replaced by a UUID, and else the fresh one.
  When the handler returns, exactly its calls go out after that header; one access-log line is written
  with the identifier, and with the status that was sent if the handler sets its final status at most
  once and before any body; and one latency sample is recorded. When the handler panics no access-log
  line is written, since \<open>Logging\<close> is inside \<open>Recovery\<close>, and no latency sample is taken: if it had not
  started its response the client gets a 500 with the JSON error body, otherwise the status already
  sent stands and the error body comes after what was written.
\<close>

theorem middleware_chain:
  fixes h :: http_handler
  assumes "h (r\<lparr>rq_CtxID := Some rid\<rparr>) False s = (hc, hp, hs)"
    "rid = (if rq_HeaderID r = '''' then uuid else rq_HeaderID r)"
    "\<forall>c\<in>set hc. \<not> sets_header ''X-Request-ID'' c"
  shows "\<exists>calls s'. mountMiddleware uuid elapsed j h r hij s = (calls, None, s')
    \<and> map_of (sent_headers (deliver calls)) (canonical_name ''X-Request-ID'') = Some rid
    \<and> (hp = None \<longrightarrow> calls = SetHeader ''X-Request-ID'' rid # hc
         \<and> (\<exists>st. sv_log s' = sv_log hs @ [\<lparr>al_RequestID = rid, al_Method = rq_Method r, al_Path = rq_Path r, al_Status = st\<rparr>]
              \<and> (one_status False hc \<longrightarrow> st = sent_status (deliver calls)))
         \<and> sv_collector s' = map_option (RecordLatency j (f_of_int (duration_ms elapsed))) (sv_collector hs))
    \<and> (hp \<noteq> None \<longrightarrow> sv_log s' = sv_log hs \<and> sv_collector s' = sv_collector hs
         \<and> sent_status (deliver calls) = (case sn_head (deliver hc) of None \<Rightarrow> 500 | Some (code, _) \<Rightarrow> code)
         \<and> sn_body (deliver calls) = sn_body (deliver hc) @ [Raw internal_error_body])"
proof -
  have rid_kept: "map_of (sent_headers (deliver (SetHeader ''X-Request-ID'' rid # cs))) (canonical_name ''X-Request-ID'') = Some rid"
    if "\<forall>c\<in>set cs. \<not> sets_header ''X-Request-ID'' c" for cs
    using that unfolding deliver_def
    by (intro has_header_sent) (simp, intro has_header_fold, simp_all add: has_header_def fresh_writer_def)
  show ?thesis
  proof (cases hp)
    case None
    let ?st = "let st = recorder_status hc in if st = 0 then 200 else st"
    have "one_status False hc \<Longrightarrow> ?st = sent_status (deliver (SetHeader ''X-Request-ID'' rid # hc))"
      using logged_is_sent [of False hc fresh_writer 0] deliver_header(2) [of "''X-Request-ID''" rid hc]
      by (simp add: deliver_def recorder_status_def fresh_writer_def Let_def)
    then show ?thesis
      using assms None rid_kept [of hc]
      by (simp add: mountMiddleware_def RequestID_def Recovery_def Logging_def MetricsMiddleware_def
          GetRequestID_def Let_def split: option.splits)
  next
    case (Some e)
    let ?tail = "[SetHeader ''Content-Type'' ''application/json'', WriteHeader 500, Write (Raw internal_error_body)]"
    let ?calls = "SetHeader ''X-Request-ID'' rid # (hc @ ?tail)"
    have run: "mountMiddleware uuid elapsed j h r hij s = (?calls, None, hs\<lparr>sv_panics := sv_panics hs @ [rid]\<rparr>)"
      using assms(1,2) Some
      by (simp add: mountMiddleware_def RequestID_def Recovery_def Logging_def MetricsMiddleware_def
          GetRequestID_def Let_def)
    have "\<forall>c\<in>set (hc @ ?tail). \<not> sets_header ''X-Request-ID'' c"
      using assms(3) other_name by (auto simp: sets_header_def)
    then have "map_of (sent_headers (deliver ?calls)) (canonical_name ''X-Request-ID'') = Some rid" by (rule rid_kept)
    moreover have "sn_body (deliver ?calls) = sn_body (deliver hc) @ [Raw internal_error_body]"
      by (simp add: deliver_header deliver_append Let_def split: option.splits)
    moreover have "sent_status (deliver ?calls) = (case sn_head (deliver hc) of None \<Rightarrow> 500 | Some (code, _) \<Rightarrow> code)"
      unfolding deliver_header by (auto simp: deliver_append Let_def sent_status_def split: option.splits)
    ultimately show ?thesis using run Some by simp
  qed
qed

text \<open>A handler that sends an early status, starts its response and then panics, for a client with an identifier of its own.\<close>

theorem middleware_chain_witness:
  "\<forall>s. \<exists>calls s'. mountMiddleware ''id'' 5 0 (\<lambda>r hij s. ([SetHeader ''content-type'' ''text/plain'', WriteHeader 103, WriteHeader 202], Some NilDereference, s))
        \<lparr>rq_Method = ''GET'', rq_Path = ''/health'', rq_HeaderID = ''mine'', rq_CtxID = None\<rparr> True s = (calls, None, s')
     \<and> map_of (sent_headers (deliver calls)) ''X-Request-Id'' = Some ''mine'' \<and> sv_log s' = sv_log s
     \<and> sent_status (deliver calls) = 202 \<and> sn_body (deliver calls) = [Raw internal_error_body]"
proof
  fix s
  let ?r = "\<lparr>rq_Method = ''GET'', rq_Path = ''/health'', rq_HeaderID = ''mine'', rq_CtxID = None\<rparr>"
  let ?hc = "[SetHeader ''content-type'' ''text/plain'', WriteHeader 103, WriteHeader 202]"
  have "canonical_name ''content-type'' \<noteq> canonical_name ''X-Request-ID''" "canonical_name ''X-Request-ID'' = ''X-Request-Id''"
    "informational 103" "\<not> informational 202"
    by code_simp+
  then show "\<exists>calls s'. mountMiddleware ''id'' 5 0 (\<lambda>r hij s. (?hc, Some NilDereference, s)) ?r True s = (calls, None, s')
     \<and> map_of (sent_headers (deliver calls)) ''X-Request-Id'' = Some ''mine'' \<and> sv_log s' = sv_log s
     \<and> sent_status (deliver calls) = 202 \<and> sn_body (deliver calls) = [Raw internal_error_body]"
    using middleware_chain [where h = "\<lambda>r hij s. (?hc, Some NilDereference, s)" and r = ?r and rid = "''mine''" and s = s
        and hc = ?hc and hp = "Some NilDereference" and hs = s and uuid = "''id''" and elapsed = 5 and j = 0 and hij = True]
    by (auto simp: deliver_def fresh_writer_def sets_header_def)
qed

text \<open>
  C36: No dashboard is ever pushed a snapshot. The library's \<open>Upgrade\<close> fails on a writer that is not
  an \<open>http.Hijacker\<close>, and the recorder of \<open>Logging\<close> hides the one of the server: behind the mounted
  middleware the WebSocket handler never reaches its push loop, for any request, although in front
  of the bare writer, where \<open>Upgrade\<close> succeeds, it pushes the current snapshot at every tick.
\<close>

theorem websocket_blocked:
  assumes "\<forall>r. \<exists>calls. upgrade r False = Some calls"
  shows "sv_pushed (snd (snd (mountMiddleware uuid elapsed j (HandleWebSocket upgrade events) r hij s))) = sv_pushed s
    \<and> (upgrade r True = None \<longrightarrow>
        sv_pushed (snd (snd (HandleWebSocket upgrade events r True s))) = sv_pushed s @ ws_loop events)"
proof -
  obtain calls where "upgrade (r\<lparr>rq_CtxID := Some (if rq_HeaderID r = '''' then uuid else rq_HeaderID r)\<rparr>) False = Some calls"
    using assms by blast
  then show ?thesis
    by (simp add: mountMiddleware_def RequestID_def Recovery_def Logging_def MetricsMiddleware_def
        HandleWebSocket_def Let_def split: option.split)
qed

theorem websocket_blocked_witness:
  "\<forall>s r. sv_pushed (snd (snd (mountMiddleware ''id'' 5 0
       (HandleWebSocket (\<lambda>r hij. if hij then None else Some [WriteHeader 500]) [WsTick (Some (NewSnapshotPublisher 9)) True]) r True s)))
     = sv_pushed s"
  using websocket_blocked [of "\<lambda>r hij. if hij then None else Some [WriteHeader 500]"] by simp

end
