(* ===== verification/Lifecycle.thy ===== *)
theory Lifecycle
  imports EngineProps HttpServer SimulatorCli
begin

text \<open>
  How the two servers start and stop: \<open>main\<close> of cmd/server/main.go around the wiring of \<^verbatim>\<open>Engine\<close>,
  \<open>Server.Start\<close> of internal/api/server.go, and \<open>main\<close> of cmd/dashboard/main.go. The listener is
  library code: what \<open>ListenAndServe\<close> returns, what \<open>Shutdown\<close> returns and which of the two
  channels of the \<open>select\<close> is ready first are arguments.
\<close>

section \<open>The listeners\<close>

record http_server =
  hs_Addr :: string
  hs_ReadTimeout :: duration
  hs_WriteTimeout :: duration
  hs_IdleTimeout :: duration

definition ErrServerClosed :: error where
  "ErrServerClosed = OtherError ''http: Server closed''"

datatype server_stop = StopContext "error option" | StopListener

text \<open>What the listening goroutine sends.\<close>

definition listen_sends :: "error option \<Rightarrow> error option" where
  "listen_sends err = (if err \<noteq> None \<and> err \<noteq> Some ErrServerClosed then err else None)"

definition Server_Start :: "Config \<Rightarrow> error option \<Rightarrow> server_stop \<Rightarrow> http_server \<times> error option" where
  "Server_Start cfg listen stop =
     (let srv = cfg_Server cfg;
          addr = srv_Host srv @ '':'' @ FormatInt (srv_Port srv)
      in (\<lparr>hs_Addr = addr, hs_ReadTimeout = srv_ReadTimeout srv, hs_WriteTimeout = srv_WriteTimeout srv,
           hs_IdleTimeout = 0\<rparr>,
          (case stop of
             StopContext shutdown \<Rightarrow> (case shutdown of Some err \<Rightarrow> Some err | None \<Rightarrow> None)
           | StopListener \<Rightarrow> listen_sends listen)))"

section \<open>cmd/server/main.go\<close>

text \<open>A fatal log entry ends the process; the rest is the wiring, whose goroutines then run.\<close>

definition main_start :: "error + Config \<Rightarrow> (string \<times> error) + engine" where
  "main_start load =
     (case load of
        Inl err \<Rightarrow> Inl (''failed to load config'', err)
      | Inr cfg \<Rightarrow>
          (case server_start cfg of
             Inl err \<Rightarrow> Inl (''failed to build initial strategy'', err)
           | Inr s \<Rightarrow> Inr s))"

text \<open>\<open>g.Wait\<close>: the first error among what the goroutines returned, in the order they returned.\<close>

fun group_wait :: "error option list \<Rightarrow> error option" where
  "group_wait [] = None"
| "group_wait (Some err # rs) = Some err"
| "group_wait (None # rs) = group_wait rs"

definition main_end :: "error option list \<Rightarrow> string" where
  "main_end returned =
     (let err = group_wait returned
      in if err \<noteq> None \<and> err \<noteq> Some ContextCanceled then ''shutdown with error'' else ''shutdown clean'')"

section \<open>cmd/dashboard/main.go\<close>

datatype dashboard_end = DashboardFatal string | DashboardDisabled | DashboardServed http_server string "string list"

definition dashboard_main ::
    "string \<Rightarrow> error + Config \<Rightarrow> error option \<Rightarrow> error option \<Rightarrow> server_stop \<Rightarrow> dashboard_end" where
  "dashboard_main apiURL load parse listen stop =
     (case load of
        Inl err \<Rightarrow> DashboardFatal ''failed to load config''
      | Inr cfg \<Rightarrow>
          if \<not> dc_Enabled (cfg_Dashboard cfg) then DashboardDisabled
          else
            let wsURL = dashboard_wsURL apiURL in
            (case parse of
               Some err \<Rightarrow> DashboardFatal ''failed to parse index template''
             | None \<Rightarrow>
                 let addr = '':'' @ FormatInt (dc_Port (cfg_Dashboard cfg));
                     srv = \<lparr>hs_Addr = addr, hs_ReadTimeout = 15 * second, hs_WriteTimeout = 15 * second,
                            hs_IdleTimeout = 60 * second\<rparr>
                 in (case stop of
                       StopContext shutdown \<Rightarrow>
                         DashboardServed srv wsURL
                           ((if shutdown \<noteq> None then [''dashboard shutdown error''] else []) @ [''dashboard shutdown clean''])
                     | StopListener \<Rightarrow>
                         (case listen_sends listen of
                            Some err \<Rightarrow> DashboardFatal ''dashboard server error''
                          | None \<Rightarrow> DashboardServed srv wsURL []))))"

section \<open>From the configuration to the running server\<close>

lemma validated_strategy:
  assumes "bc_Strategy cfg \<in> set validStrategies"
  shows "\<exists>st. server_buildInitialStrategy cfg = Inr st \<and> Name st = bc_Strategy cfg"
  using assms
  by (auto simp: validStrategies_def server_buildInitialStrategy_def NewLatencyAwareStrategy_def Let_def)

lemma server_start_shape:
  assumes "server_buildInitialStrategy (cfg_Batching cfg) = Inr st"
  shows "\<exists>s. server_start cfg = Inr s \<and> activeStrategyName (en_batcher s) = Name st
    \<and> length (en_workersAt s) = length (wp_workers (NewWorkerPool (cfg_Workers cfg) (cfg_Health cfg) (cfg_Upstream cfg)))
    \<and> bat_MaxBatchSize (ab_cfg (en_batcher s)) = max 1 (bc_MaxBatchSize (cfg_Batching cfg))
    \<and> (\<forall>i<4. ab_batchChans (en_batcher s) i = Some (make_chan (nat (max 1 (wc_Count (cfg_Workers cfg))))))
    \<and> wp_healthInterval (en_pool s) = hc_CheckInterval (cfg_Health cfg) \<and> \<not> en_pinging s"
  using assms
  by (simp add: server_start_def Let_def NewAdaptiveBatcher_def NewBatcherConfig_def SetDispatchBlockedHook_def
      activeStrategyName_def activeStrategy_def BatchChans_def NewWorkerPool_fields max_def)

lemma Load_Validated:
  assumes "Load bind_env rd um url_parse = Inr cfg"
  shows "bc_Strategy (cfg_Batching cfg) \<in> set validStrategies" "1 \<le> wc_Count (cfg_Workers cfg)"
  using assms by (auto simp: Load_def Validate_def split: option.splits read_result.splits sum.splits if_splits)

text \<open>
  C12: From the configuration to the running server. When \<open>Load\<close> fails, \<open>main\<close> ends with that error.
  When it succeeds, the wiring succeeds: the strategy in use is the configured one, there is one
  worker goroutine and one place in each of the four empty, open batch channels for every configured
  worker, and the maximum batch size is the configured one, or 1 if that is smaller. But \<open>Validate\<close>
  looks at no interval: with a check interval that is not positive (an absent key is enough) the
  ping's goroutine panics as soon as it starts, and takes the process with it.
\<close>

theorem main_starts:
  "case Load bind_env rd um url_parse of
     Inl err \<Rightarrow> main_start (Load bind_env rd um url_parse) = Inl (''failed to load config'', err)
   | Inr cfg \<Rightarrow> \<exists>s. main_start (Load bind_env rd um url_parse) = Inr s
       \<and> activeStrategyName (en_batcher s) = bc_Strategy (cfg_Batching cfg)
       \<and> int (length (en_workersAt s)) = wc_Count (cfg_Workers cfg)
       \<and> (\<forall>i<4. ab_batchChans (en_batcher s) i = Some (make_chan (nat (wc_Count (cfg_Workers cfg)))))
       \<and> bat_MaxBatchSize (ab_cfg (en_batcher s)) = max 1 (bc_MaxBatchSize (cfg_Batching cfg))
       \<and> act oob PingStart s = (if hc_CheckInterval (cfg_Health cfg) \<le> 0 then Panic NonPositiveInterval
           else Ret (s\<lparr>en_pinging := True\<rparr>))"
proof (cases "Load bind_env rd um url_parse")
  case (Inl err)
  then show ?thesis by (simp add: main_start_def)
next
  case (Inr cfg)
  note v = Load_Validated [OF Inr]
  obtain st where st: "server_buildInitialStrategy (cfg_Batching cfg) = Inr st" "Name st = bc_Strategy (cfg_Batching cfg)"
    using validated_strategy [OF v(1)] by blast
  have "length (wp_workers (NewWorkerPool (cfg_Workers cfg) (cfg_Health cfg) (cfg_Upstream cfg))) = nat (max 1 (wc_Count (cfg_Workers cfg)))"
    using NewWorkerPool_inv(2) by blast
  then show ?thesis
    using server_start_shape [OF st(1)] st(2) v(2) by (auto simp: Inr main_start_def do_ping_start_def max_absorb2)
qed

definition unpinged_config :: Config where
  "unpinged_config = default_config\<lparr>cfg_Health := (cfg_Health default_config)\<lparr>hc_CheckInterval := 0\<rparr>\<rparr>"

lemma unpinged_loads: "Load (\<lambda>_. None) ReadOk (Inr unpinged_config) (\<lambda>_. Inr (''http'', ''inference-server:8000'')) = Inr unpinged_config"
proof -
  have "Validate (\<lambda>_. Inr (''http'', ''inference-server:8000'')) unpinged_config = None"
    by (simp add: Validate_def unpinged_config_def default_config_def validStrategies_def validateUpstream_def f_le_def)
  moreover have "bindEnvKeys (\<lambda>_. None) ks = None" for ks by (induction ks) simp_all
  ultimately show ?thesis by (simp add: Load_def)
qed

theorem main_starts_witness:
  "\<exists>s. main_start (Load (\<lambda>_. None) ReadOk (Inr unpinged_config) (\<lambda>_. Inr (''http'', ''inference-server:8000''))) = Inr s
     \<and> int (length (en_workersAt s)) = 8 \<and> activeStrategyName (en_batcher s) = ''latency_aware''
     \<and> act (\<lambda>_. 0) PingStart s = Panic NonPositiveInterval"
  using main_starts [of "\<lambda>_. None" ReadOk "Inr unpinged_config" "\<lambda>_. Inr (''http'', ''inference-server:8000'')" "\<lambda>_. 0"]
  unfolding unpinged_loads by (auto simp: unpinged_config_def default_config_def)

section \<open>The strategy of the administrator\<close>

text \<open>
  The administrator's change takes effect, but not in what the configuration endpoint reports: the
  batching section the server holds still names the strategy it started with.
\<close>

lemma config_goes_stale:
  assumes "name \<in> set validStrategies" "act oob (Admin (Some name)) s = Ret s'"
  shows "activeStrategyName (en_batcher s') = name \<and> en_batching s' = en_batching s"
  using assms
  by (auto simp: do_admin_def HandleSetStrategy_def SetStrategy_def handlers_buildStrategy_def validStrategies_def
      NewLatencyAwareStrategy_def activeStrategyName_def activeStrategy_def Let_def)

section \<open>How the processes end\<close>

text \<open>
  The listener's own end by \<open>Shutdown\<close> is no error, a shutdown that runs out of its grace period is,
  and then the process ends with an error whatever the other goroutines returned before it.
\<close>

lemma group_wait_first: "group_wait rs = Some e \<Longrightarrow> Some e \<in> set rs"
  by (induction rs rule: group_wait.induct) auto

lemma group_wait_None: "group_wait rs = None \<longleftrightarrow> (\<forall>r\<in>set rs. r = None)"
  by (induction rs rule: group_wait.induct) auto

lemma server_end:
  "snd (Server_Start cfg (Some ErrServerClosed) (StopContext None)) = None"
  "snd (Server_Start cfg listen (StopContext (Some err))) = Some err"
  "main_end [None, None, snd (Server_Start cfg listen (StopContext (Some ContextDeadlineExceeded))), None] = ''shutdown with error''"
  "main_end [None, None, snd (Server_Start cfg (Some ErrServerClosed) (StopContext None)), None] = ''shutdown clean''"
  by (simp_all add: Server_Start_def Let_def main_end_def)

section \<open>The simulator drives the same server\<close>

text \<open>
  A run of the simulator wires the batcher and the pool as \<open>main\<close> does, so with a strategy built from
  its configuration, started, it is the server of \<^verbatim>\<open>Engine\<close> and what is proved of that holds for runs.
\<close>

lemma simulator_wiring:
  assumes "server_buildInitialStrategy (cfg_Batching (cloneConfigForSim cfg url)) = Inr st"
    and "server_start (cloneConfigForSim cfg url) = Inr s"
  shows "en_batcher s = (sim_batcher (fst (sim_init cfg url now 0 st (\<lambda>_. NewResultChan))))
           \<lparr>ab_startOnce := True, ab_started := True\<rparr>
    \<and> en_pool s = snd (sim_init cfg url now 0 st (\<lambda>_. NewResultChan))"
  using assms by (auto simp: server_start_def sim_init_def Let_def)

end
