(* ===== verification/Ticker.thy ===== *)
theory Ticker
  imports Batcher
begin

text \<open>
  The shape all the periodic goroutines of the program have: a goroutine makes a \<open>time.Ticker\<close> and then
  selects between the end of its context and a tick (metrics/latency.go, aggregator.go,
  api/handlers/ws.go, cmd/server/main.go, simulation/runner.go).
\<close>

text \<open>\<open>time.NewTicker\<close> panics for an interval that is not positive.\<close>

definition NewTicker :: "duration \<Rightarrow> go_panic + duration" where
  "NewTicker d = (if d \<le> 0 then Inl NonPositiveInterval else Inr d)"

datatype loop_at = LoopStarts | LoopWaits | LoopEnded

text \<open>With a tick comes what the body reads of the world, such as clocks.\<close>

datatype 'i loop_move = MakeTicker | TakeDone | TakeTick 'i

text \<open>\<open>go\<close> is the state with the goroutine at a place, \<open>body\<close> what a tick does.\<close>

definition ticker_loop ::
    "duration \<Rightarrow> bool \<Rightarrow> (loop_at \<Rightarrow> 's) \<Rightarrow> ('i \<Rightarrow> 's outcome) \<Rightarrow> 'i loop_move \<Rightarrow> loop_at \<Rightarrow> 's outcome" where
  "ticker_loop interval ctxDone go body mv place =
     (case (place, mv) of
        (LoopStarts, MakeTicker) \<Rightarrow> and_then (of_sum (NewTicker interval)) (\<lambda>_. Ret (go LoopWaits))
      | (LoopWaits, TakeDone) \<Rightarrow> if ctxDone then Ret (go LoopEnded) else NotReady
      | (LoopWaits, TakeTick i) \<Rightarrow> body i
      | _ \<Rightarrow> NotReady)"

text \<open>A loop with a positive interval is well when its body is.\<close>

lemma ticker_loop_safe:
  assumes "0 < interval" "\<And>p. P (go p)"
    and "\<And>i. mv = TakeTick i \<Longrightarrow> place = LoopWaits \<Longrightarrow> safe P (body i)"
  shows "safe P (ticker_loop interval ctxDone go body mv place)"
  using assms by (cases mv; cases place) (auto simp: ticker_loop_def NewTicker_def)

lemma ticker_loop_starts: "0 < interval \<Longrightarrow> ticker_loop interval ctxDone go body MakeTicker LoopStarts = Ret (go LoopWaits)"
  by (simp add: ticker_loop_def NewTicker_def)

lemma ticker_loop_ticks: "ticker_loop interval ctxDone go body (TakeTick i) LoopWaits = body i"
  by (simp add: ticker_loop_def)

lemma ticker_loop_done: "ctxDone \<Longrightarrow> ticker_loop interval ctxDone go body TakeDone LoopWaits = Ret (go LoopEnded)"
  by (simp add: ticker_loop_def)

end
