(* ===== verification/Telemetry.thy ===== *)
theory Telemetry
  imports EngineProps HttpServer Ticker
begin

text \<open>
  The server of \<^verbatim>\<open>Engine\<close> with its metrics around it (cmd/server/main.go): the collector, the
  aggregator and the publisher, the four goroutines that wait for a ticker or the end of their
  context, and what the HTTP layer and the batcher's hook record. One action is one move of one
  goroutine. A whole tick is one action here; in the code its stores are atomic one by one, so that
  a snapshot may mix the percentiles of two ticks, which nothing below depends on.
\<close>

section \<open>The state\<close>

datatype loop = LatencyLoop | DownsampleLoop | PublishLoop | PushLoop

text \<open>\<open>si_signal\<close>: the context of the signals has ended; that of the group, its child, is the engine's.\<close>

record site =
  si_cfg :: Config
  si_engine :: engine
  si_collector :: Collector
  si_agg :: TimeSeriesAggregator
  si_publisher :: SnapshotPublisher
  si_signal :: bool
  si_loop :: "loop \<Rightarrow> loop_at"

definition site_start :: "instant \<Rightarrow> instant \<Rightarrow> Config \<Rightarrow> error + site" where
  "site_start now1 now2 cfg =
     (let collector = NewCollector now1 (mc_PercentileWindowSize (cfg_Metrics cfg)) (mc_P99SmoothingAlpha (cfg_Metrics cfg));
          collector = SetWorkerProvider True collector in
      case server_start cfg of
        Inl err \<Rightarrow> Inl err
      | Inr s \<Rightarrow> Inr \<lparr>si_cfg = cfg, si_engine = s, si_collector = collector, si_agg = NewTimeSeriesAggregator,
          si_publisher = NewSnapshotPublisher now2, si_signal = False, si_loop = (\<lambda>_. LoopStarts)\<rparr>)"

section \<open>The loops\<close>

text \<open>
  With a tick come the readings of the clock and the order in which the downsampler meets the series,
  with the clock read for each.
\<close>

type_synonym tick = "(nat \<Rightarrow> instant) \<times> (string \<times> instant) list"

definition at_loop :: "site \<Rightarrow> loop \<Rightarrow> loop_at \<Rightarrow> site" where
  "at_loop s l place = s\<lparr>si_loop := (si_loop s)(l := place)\<rparr>"

definition materializeLoop :: "(f64 \<Rightarrow> int) \<Rightarrow> duration \<Rightarrow> tick loop_move \<Rightarrow> site \<Rightarrow> site outcome" where
  "materializeLoop oob interval mv s =
     ticker_loop interval (si_signal s) (at_loop s LatencyLoop) (\<lambda>_.
       and_then (of_sum (materialize oob (co_Latency (si_collector s)))) (\<lambda>lt.
         Ret (s\<lparr>si_collector := (si_collector s)\<lparr>co_Latency := lt\<rparr>\<rparr>))) mv (si_loop s LatencyLoop)"

definition downsampleLoop :: "tick loop_move \<Rightarrow> site \<Rightarrow> site outcome" where
  "downsampleLoop mv s =
     ticker_loop (60 * second) (si_signal s) (at_loop s DownsampleLoop) (\<lambda>(now, names).
       and_then (of_sum (downsampleAll (now 0) names (si_agg s))) (\<lambda>agg. Ret (s\<lparr>si_agg := agg\<rparr>))) mv (si_loop s DownsampleLoop)"

definition publishLoop :: "duration \<Rightarrow> tick loop_move \<Rightarrow> site \<Rightarrow> site outcome" where
  "publishLoop interval mv s =
     (let pool = en_pool (si_engine s) in
      ticker_loop (publish_interval interval) (si_signal s) (at_loop s PublishLoop) (\<lambda>(now, names).
        and_then (of_sum (GetWorkerSnapshots pool)) (\<lambda>workers.
          case publish_tick (now 0) (workers, UpstreamUnhealthy pool) (si_publisher s, Some (si_collector s)) of
            (sp, c) \<Rightarrow> Ret (s\<lparr>si_publisher := sp, si_collector := (case c of Some c \<Rightarrow> c | None \<Rightarrow> si_collector s)\<rparr>))) mv (si_loop s PublishLoop))"

definition runMetricsPush :: "duration \<Rightarrow> f64 \<Rightarrow> tick loop_move \<Rightarrow> site \<Rightarrow> site outcome" where
  "runMetricsPush interval targetP99Ms mv s =
     ticker_loop (push_interval interval) (ab_ctxDone (en_batcher (si_engine s))) (at_loop s PushLoop) (\<lambda>(now, names).
       and_then (of_sum (push_tick now targetP99Ms (en_pool (si_engine s))
         (en_batcher (si_engine s), si_collector s, si_agg s))) (\<lambda>(b, c, agg).
           Ret (s\<lparr>si_engine := (si_engine s)\<lparr>en_batcher := b\<rparr>, si_collector := c, si_agg := agg\<rparr>))) mv (si_loop s PushLoop)"

text \<open>The goroutines as \<open>main\<close> starts them.\<close>

abbreviation (input) latencyMaterializeInterval :: duration where
  "latencyMaterializeInterval \<equiv> 100 * millisecond"

definition loop_step :: "(f64 \<Rightarrow> int) \<Rightarrow> loop \<Rightarrow> tick loop_move \<Rightarrow> site \<Rightarrow> site outcome" where
  "loop_step oob l mv s =
     (let cfg = si_cfg s in
      case l of
        LatencyLoop \<Rightarrow> materializeLoop oob latencyMaterializeInterval mv s
      | DownsampleLoop \<Rightarrow> downsampleLoop mv s
      | PublishLoop \<Rightarrow> publishLoop (dc_WSPushInterval (cfg_Dashboard cfg)) mv s
      | PushLoop \<Rightarrow> runMetricsPush (mc_CollectionInterval (cfg_Metrics cfg)) (bc_TargetP99Ms (cfg_Batching cfg)) mv s)"

section \<open>The actions\<close>

text \<open>
  \<open>Served\<close> is the end of a request to any endpoint that does not touch the collector, in
  \<open>MetricsMiddleware\<close>; \<open>AskMetrics\<close> is a request to \<open>/metrics/json\<close>, through the whole chain.
\<close>

datatype site_action =
    ServerAct action
  | Signal
  | Served duration int
  | AskMetrics string duration int http_request bool instant
  | LoopMove loop "tick loop_move"

text \<open>The hook the wiring gives the batcher runs once for every entry of \<open>ab_hookCalls\<close>.\<close>

definition run_hook :: "AdaptiveBatcher \<Rightarrow> AdaptiveBatcher \<Rightarrow> Collector \<Rightarrow> Collector" where
  "run_hook b b' c =
     fold (\<lambda>p. RecordDispatchBlocked (Priority_String p)) (drop (length (ab_hookCalls b)) (ab_hookCalls b')) c"

definition site_view :: "site \<Rightarrow> server_state" where
  "site_view s = \<lparr>sv_batcher = en_batcher (si_engine s), sv_pool = Some (en_pool (si_engine s)),
     sv_collector = Some (si_collector s), sv_agg = Some (si_agg s), sv_publisher = Some (si_publisher s),
     sv_log = [], sv_panics = [], sv_pushed = []\<rparr>"

fun site_act :: "(f64 \<Rightarrow> int) \<Rightarrow> site_action \<Rightarrow> site \<Rightarrow> site outcome" where
  "site_act oob (ServerAct a) s =
     and_then (act oob a (si_engine s)) (\<lambda>e.
       Ret (s\<lparr>si_engine := e, si_collector := run_hook (en_batcher (si_engine s)) (en_batcher e) (si_collector s)\<rparr>))"
| "site_act oob Signal s =
     and_then (act oob Cancel (si_engine s)) (\<lambda>e. Ret (s\<lparr>si_engine := e, si_signal := True\<rparr>))"
| "site_act oob (Served elapsed j) s =
     Ret (s\<lparr>si_collector := RecordLatency j (f_of_int (duration_ms elapsed)) (si_collector s)\<rparr>)"
| "site_act oob (AskMetrics uuid elapsed j r hij now) s =
     (case mountMiddleware uuid elapsed j (HandleJSONMetrics now) r hij (site_view s) of
        (calls, Some e, v) \<Rightarrow> Panic e
      | (calls, None, v) \<Rightarrow> Ret (s\<lparr>si_collector := (case sv_collector v of Some c \<Rightarrow> c | None \<Rightarrow> si_collector s)\<rparr>))"
| "site_act oob (LoopMove l mv) s = loop_step oob l mv s"

text \<open>
  The push's loop is the only goroutine that updates the strategy's metrics; a downsampling pass
  meets every series once, in any order.
\<close>

definition site_allowed :: "site_action \<Rightarrow> site \<Rightarrow> bool" where
  "site_allowed a s = (case a of
     ServerAct a \<Rightarrow> allowed a (si_engine s) \<and> (\<forall>m. a \<noteq> PushMetrics m)
   | LoopMove DownsampleLoop (TakeTick (now, names)) \<Rightarrow> distinct (map fst names) \<and> fst ` set names = dom (si_agg s)
   | _ \<Rightarrow> True)"

inductive site_step :: "(f64 \<Rightarrow> int) \<Rightarrow> site \<Rightarrow> site \<Rightarrow> bool" for oob where
  step: "site_allowed a s \<Longrightarrow> site_act oob a s = Ret s' \<Longrightarrow> site_step oob s s'"

section \<open>The invariant\<close>

definition latency_ok :: "LatencyTracker \<Rightarrow> bool" where
  "latency_ok lt \<longleftrightarrow> 1 \<le> lt_size lt \<and> lt_size lt \<le> 2 ^ 50 \<and> int (length (lt_samples lt)) \<le> lt_size lt"

text \<open>Nothing in the server records a request, an error or a batch.\<close>

definition unrecorded :: "prom_call \<Rightarrow> bool" where
  "unrecorded call \<longleftrightarrow> call \<noteq> Counter_Inc ''requests_total'' None \<and> call \<noteq> Counter_Inc ''requests_errors_total'' None
     \<and> (\<forall>x. call \<noteq> Histogram_Observe ''batcher_batch_size'' x)"

definition collector_ok :: "Collector \<Rightarrow> bool" where
  "collector_ok c \<longleftrightarrow> latency_ok (co_Latency c) \<and> co_requestCount c = 0 \<and> (\<forall>call\<in>set (co_prom c). unrecorded call)"

definition still :: "DataPoint list \<times> DataPoint list \<Rightarrow> bool" where
  "still ps \<longleftrightarrow> (\<forall>p\<in>set (fst ps) \<union> set (snd ps). dp_Value p = Fin 0)"

definition agg_ok :: "TimeSeriesAggregator \<Rightarrow> bool" where
  "agg_ok a \<longleftrightarrow> (\<exists>h. agg_rep h a \<and> still (h ''throughput_rps''))"

definition on_target :: "f64 \<Rightarrow> AdaptiveBatcher \<Rightarrow> bool" where
  "on_target target b \<longleftrightarrow> (\<forall>m. ab_metrics b = Some m \<longrightarrow> sm_TargetP99Ms m = target)"

definition site_inv :: "Config \<Rightarrow> site \<Rightarrow> bool" where
  "site_inv cfg s \<longleftrightarrow> si_cfg s = cfg \<and> engine_inv (si_engine s) \<and> pool_inv (en_pool (si_engine s)) \<and> collector_ok (si_collector s)
     \<and> agg_ok (si_agg s) \<and> ms_ThroughputRPS (sp_current (si_publisher s)) = Fin 0
     \<and> on_target (bc_TargetP99Ms (cfg_Batching cfg)) (en_batcher (si_engine s))
     \<and> (si_signal s \<longrightarrow> ab_ctxDone (en_batcher (si_engine s)))"

section \<open>The pieces keep it\<close>

lemma Latency_Add_ok: "latency_ok lt \<Longrightarrow> latency_ok (Latency_Add j ms lt)"
  by (auto simp: latency_ok_def Latency_Add_def Let_def)

lemma materialize_ok:
  assumes "latency_ok lt"
  shows "\<exists>lt'. materialize oob lt = Inr lt' \<and> latency_ok lt'"
proof (cases "lt_samples lt = []")
  case False
  then have len: "0 < length (lt_samples lt)" "int (length (lt_samples lt)) \<le> 2 ^ 50"
    using assms by (auto simp: latency_ok_def)
  show ?thesis
    by (rule materialize_eq [OF len, of oob]) (use assms in \<open>simp add: latency_ok_def Let_def\<close>)
qed (use assms in \<open>simp add: materialize_def\<close>)

lemma RecordLatency_ok: "collector_ok c \<Longrightarrow> collector_ok (RecordLatency j ms c)"
  by (simp add: collector_ok_def RecordLatency_def prom_def unrecorded_def Latency_Add_ok Let_def)

lemma RecordDispatchBlocked_ok: "collector_ok c \<Longrightarrow> collector_ok (RecordDispatchBlocked p c)"
  by (simp add: collector_ok_def RecordDispatchBlocked_def prom_def unrecorded_def)

lemma run_hook_ok: "collector_ok c \<Longrightarrow> collector_ok (run_hook b b' c)"
proof -
  have "collector_ok c \<Longrightarrow> collector_ok (fold (\<lambda>p. RecordDispatchBlocked (f p)) ps c)" for f :: "Priority \<Rightarrow> string" and ps
    by (induction ps arbitrary: c) (simp_all add: RecordDispatchBlocked_ok)
  then show "collector_ok c \<Longrightarrow> collector_ok (run_hook b b' c)" by (simp only: run_hook_def)
qed

lemma BuildSnapshot_ok:
  assumes "collector_ok c" "BuildSnapshot now provider c = (snap, c')"
  shows "collector_ok c'" "ms_ThroughputRPS snap = Fin 0"
  using BuildSnapshot_after [OF assms(2)] assms(1) by (simp_all add: collector_ok_def)

lemma push_gauges_unrecorded: "call \<in> set (push_gauges depth b infos) \<Longrightarrow> unrecorded call"
  by (auto simp: push_gauges_def unrecorded_def)

text \<open>The mean of a series that has only ever had zeros is zero.\<close>

lemma recent_mean_zeros:
  assumes "vs \<noteq> []" "length vs \<le> 300" "set vs \<subseteq> {Fin 0}"
  shows "recent_mean vs = Fin 0"
proof -
  have "vs = map (\<lambda>k. Fin (of_int k)) (replicate (length vs) 0)"
    using assms(3) by (intro nth_equalityI) (auto dest: nth_mem)
  then have "recent_mean vs = Fin (f64_round (of_int (sum_list (replicate (length vs) 0)) / of_nat (length (replicate (length vs) (0::int)))))"
    using assms(1,2) by (intro recent_mean_ints(1)) (auto simp: sum_list_replicate)
  then show ?thesis by (simp add: sum_list_replicate)
qed

lemma mean_step_still:
  assumes "mean_step now t ps ps'" "still ps"
  shows "still ps'"
proof (cases "minute_values now (fst ps) = []")
  case False
  then obtain vs where vs: "mset vs = mset (minute_values now (fst ps))" "fst ps' = fst ps"
    "snd ps' = snd ps @ [\<lparr>dp_Timestamp = t, dp_Value = recent_mean vs\<rparr>]"
    using assms(1) by (auto simp: mean_step_def)
  have len: "length vs = length (minute_values now (fst ps))" "set vs = set (minute_values now (fst ps))"
    using vs(1) by (metis size_mset, metis set_mset_mset)
  have "length (minute_values now (fst ps)) \<le> 300"
    unfolding minute_values_def by (simp add: order.trans [OF length_filter_le])
  moreover have "set (minute_values now (fst ps)) \<subseteq> {Fin 0}"
    using assms(2) by (auto simp: minute_values_def still_def dest: in_set_takeD)
  ultimately have "recent_mean vs = Fin 0" using len False by (intro recent_mean_zeros) auto
  then show ?thesis using assms(2) vs(2,3) by (auto simp: still_def)
qed (use assms in \<open>auto simp: mean_step_def still_def\<close>)

lemma downsample_ok:
  assumes "agg_ok a" "distinct (map fst names)" "fst ` set names = dom a"
  shows "\<exists>a'. downsampleAll now names a = Inr a' \<and> agg_ok a'"
proof -
  obtain h where h: "agg_rep h a" "still (h ''throughput_rps'')" using assms(1) by (auto simp: agg_ok_def)
  obtain a' h' where d: "downsample_names (now - minute) names a = Inr a'" "agg_rep h' a'"
    "\<forall>(m, t)\<in>set names. mean_step now t (h m) (h' m)" "\<forall>m. m \<notin> fst ` set names \<longrightarrow> h' m = h m"
    using downsample_names_rep [OF h(1) assms(2)] assms(3) by blast
  have "still (h' ''throughput_rps'')"
  proof (cases "''throughput_rps'' \<in> fst ` set names")
    case True
    then obtain t where "(''throughput_rps'', t) \<in> set names" by force
    then show ?thesis using d(3) h(2) by (fastforce intro: mean_step_still)
  qed (use d(4) h(2) in simp)
  then show ?thesis using d(1,2) by (auto simp: downsampleAll_def agg_ok_def)
qed

lemma status_ok: "pool_inv p \<Longrightarrow> \<exists>infos. GetStatus p = Inr infos"
  using status_walk_inv [of p 0] by (simp add: GetStatus_def)

lemma snapshots_ok: "pool_inv p \<Longrightarrow> \<exists>ws. GetWorkerSnapshots p = Inr ws"
  using status_ok [of p] by (auto simp: GetWorkerSnapshots_def)

section \<open>The steps keep it\<close>

lemma site_invD:
  assumes "site_inv cfg s"
  shows "si_cfg s = cfg" "engine_inv (si_engine s)" "pool_inv (en_pool (si_engine s))" "collector_ok (si_collector s)"
    "agg_ok (si_agg s)" "ms_ThroughputRPS (sp_current (si_publisher s)) = Fin 0"
    "on_target (bc_TargetP99Ms (cfg_Batching cfg)) (en_batcher (si_engine s))"
    "si_signal s \<Longrightarrow> ab_ctxDone (en_batcher (si_engine s))"
  using assms by (simp_all add: site_inv_def)

lemma site_inv_simps [simp]:
  "site_inv cfg (s\<lparr>si_loop := f\<rparr>) \<longleftrightarrow> site_inv cfg s"
  "site_inv cfg s \<Longrightarrow> collector_ok c \<Longrightarrow> site_inv cfg (s\<lparr>si_collector := c\<rparr>)"
  "site_inv cfg s \<Longrightarrow> agg_ok a \<Longrightarrow> site_inv cfg (s\<lparr>si_agg := a\<rparr>)"
  "site_inv cfg s \<Longrightarrow> ms_ThroughputRPS (sp_current sp) = Fin 0 \<Longrightarrow> site_inv cfg (s\<lparr>si_publisher := sp\<rparr>)"
  by (simp_all add: site_inv_def)

text \<open>The engine's side of a step: nothing, or the push's update of the strategy's metrics.\<close>

definition engine_kept :: "engine \<Rightarrow> engine \<Rightarrow> bool" where
  "engine_kept s s' \<longleftrightarrow> s' = s \<or> (\<exists>m. s' = s\<lparr>en_batcher := UpdateStrategyMetrics m (en_batcher s)\<rparr>)"

lemma engine_kept_star: "engine_kept s s' \<Longrightarrow> (engine_step oob)\<^sup>*\<^sup>* s s'"
  using engine_step.step [of "PushMetrics m" s oob for m] by (auto simp: engine_kept_def allowed_def)

lemma push_ok:
  assumes "site_inv cfg s" "si_loop s PushLoop = LoopWaits"
  shows "\<exists>s'. runMetricsPush interval (bc_TargetP99Ms (cfg_Batching cfg)) (TakeTick (now, names)) s = Ret s' \<and> site_inv cfg s' \<and> engine_kept (si_engine s) (si_engine s')
    \<and> ab_metrics (en_batcher (si_engine s')) = Some \<lparr>sm_P99LatencyMs = lt_p99Smoothed (co_Latency (si_collector s)),
        sm_TargetP99Ms = bc_TargetP99Ms (cfg_Batching cfg)\<rparr>"
proof -
  note inv = site_invD [OF assms(1)]
  let ?b = "en_batcher (si_engine s)" and ?c = "si_collector s" and ?target = "bc_TargetP99Ms (cfg_Batching cfg)"
  obtain infos where infos: "GetStatus (en_pool (si_engine s)) = Inr infos" using status_ok [OF inv(3)] by blast
  obtain h where h: "agg_rep h (si_agg s)" "still (h ''throughput_rps'')" using inv(5) by (auto simp: agg_ok_def)
  let ?m = "\<lparr>sm_P99LatencyMs = lt_p99Smoothed (co_Latency ?c), sm_TargetP99Ms = ?target\<rparr>"
  obtain c' agg' rps where run:
    "push_tick now ?target (en_pool (si_engine s)) (?b, ?c, si_agg s) = Inr (?b\<lparr>ab_metrics := Some ?m\<rparr>, c', agg')"
    and c': "c' = ?c\<lparr>co_queueDepth := QueueDepth ?b, co_prevSnapshotTime := UnixNano (now 0), co_requestCount := 0,
       co_prom := co_prom ?c @ push_gauges (QueueDepth ?b) (UpstreamUnhealthy (en_pool (si_engine s))) infos\<rparr>"
    and agg': "agg_rep (with_point ''throughput_rps'' (now 4) rps
        (with_point ''latency_p99_smoothed'' (now 3) (lt_p99Smoothed (co_Latency ?c))
        (with_point ''latency_p99'' (now 2) (lt_p99 (co_Latency ?c))
        (with_point ''queue_depth'' (now 1) (f_of_int (QueueDepth ?b)) h)))) agg'"
    and rps: "co_requestCount ?c = 0 \<longrightarrow> rps = Fin 0"
    using push_tick_run [OF infos h(1), of now ?target ?b ?c] by blast
  have "collector_ok c'" using inv(4) push_gauges_unrecorded by (auto simp: c' collector_ok_def)
  moreover have "agg_ok agg'"
    unfolding agg_ok_def
    by (intro exI conjI, rule agg') (use rps inv(4) h(2) in \<open>simp add: collector_ok_def with_point_def still_def\<close>)
  moreover have "engine_inv ((si_engine s)\<lparr>en_batcher := ?b\<lparr>ab_metrics := Some ?m\<rparr>\<rparr>)"
    using push_inv [OF inv(2), of ?m] by (simp add: UpdateStrategyMetrics_def)
  ultimately have "site_inv cfg (s\<lparr>si_engine := (si_engine s)\<lparr>en_batcher := ?b\<lparr>ab_metrics := Some ?m\<rparr>\<rparr>,
      si_collector := c', si_agg := agg'\<rparr>)"
    using assms(1) by (auto simp: site_inv_def on_target_def)
  moreover have "engine_kept (si_engine s) ((si_engine s)\<lparr>en_batcher := ?b\<lparr>ab_metrics := Some ?m\<rparr>\<rparr>)"
    unfolding engine_kept_def by (intro disjI2 exI [of _ ?m]) (simp add: UpdateStrategyMetrics_def)
  ultimately show ?thesis using run by (simp add: runMetricsPush_def ticker_loop_ticks assms(2))
qed

definition good_step :: "Config \<Rightarrow> engine \<Rightarrow> site \<Rightarrow> bool" where
  "good_step cfg e s' \<longleftrightarrow> site_inv cfg s' \<and> engine_kept e (si_engine s')"

text \<open>Where a loop of the site is changes nothing else.\<close>

lemma site_loop_safe:
  assumes "site_inv cfg s" "0 < interval"
    and "\<And>i. mv = TakeTick i \<Longrightarrow> si_loop s l = LoopWaits \<Longrightarrow> safe (good_step cfg (si_engine s)) (body i)"
  shows "safe (good_step cfg (si_engine s)) (ticker_loop interval ctxDone (at_loop s l) body mv (si_loop s l))"
  using assms by (intro ticker_loop_safe) (simp_all add: good_step_def at_loop_def engine_kept_def)

lemma materializeLoop_ok:
  assumes "site_inv cfg s" "0 < interval"
  shows "safe (good_step cfg (si_engine s)) (materializeLoop oob interval mv s)"
  unfolding materializeLoop_def
proof (rule site_loop_safe [OF assms])
  have "latency_ok (co_Latency (si_collector s))" using site_invD(4) [OF assms(1)] by (simp add: collector_ok_def)
  then obtain lt where "materialize oob (co_Latency (si_collector s)) = Inr lt" "latency_ok lt" using materialize_ok by blast
  then show "safe (good_step cfg (si_engine s)) (and_then (of_sum (materialize oob (co_Latency (si_collector s))))
      (\<lambda>lt. Ret (s\<lparr>si_collector := (si_collector s)\<lparr>co_Latency := lt\<rparr>\<rparr>)))"
    using assms(1) site_invD(4) [OF assms(1)] by (simp add: good_step_def engine_kept_def collector_ok_def)
qed

lemma downsampleLoop_ok:
  assumes "site_inv cfg s" "site_allowed (LoopMove DownsampleLoop mv) s"
  shows "safe (good_step cfg (si_engine s)) (downsampleLoop mv s)"
  unfolding downsampleLoop_def
proof (rule site_loop_safe [OF assms(1)])
  fix i assume mv: "mv = TakeTick i"
  obtain now names where i: "i = (now, names)" by (cases i)
  then have "distinct (map fst names)" "fst ` set names = dom (si_agg s)" using assms(2) mv by (simp_all add: site_allowed_def)
  from downsample_ok [OF site_invD(5) [OF assms(1)] this, of "now 0"]
  show "safe (good_step cfg (si_engine s)) (case i of (now, names) \<Rightarrow>
      and_then (of_sum (downsampleAll (now 0) names (si_agg s))) (\<lambda>agg. Ret (s\<lparr>si_agg := agg\<rparr>)))"
    using assms(1) by (auto simp: i good_step_def engine_kept_def)
qed simp

lemma publishLoop_ok:
  assumes "site_inv cfg s"
  shows "safe (good_step cfg (si_engine s)) (publishLoop interval mv s)"
  unfolding publishLoop_def Let_def
proof (rule site_loop_safe [OF assms])
  show "0 < publish_interval interval" by (simp add: publish_interval_def)
next
  fix i :: tick
  obtain now names where i: "i = (now, names)" by (cases i)
  note inv = site_invD [OF assms]
  obtain ws where ws: "GetWorkerSnapshots (en_pool (si_engine s)) = Inr ws" using snapshots_ok [OF inv(3)] by blast
  obtain snap c where b: "BuildSnapshot (now 0) (ws, UpstreamUnhealthy (en_pool (si_engine s))) (si_collector s) = (snap, c)"
    by fastforce
  show "safe (good_step cfg (si_engine s)) (case i of (now, names) \<Rightarrow>
      and_then (of_sum (GetWorkerSnapshots (en_pool (si_engine s)))) (\<lambda>workers.
      case publish_tick (now 0) (workers, UpstreamUnhealthy (en_pool (si_engine s))) (si_publisher s, Some (si_collector s)) of
        (sp, c) \<Rightarrow> Ret (s\<lparr>si_publisher := sp, si_collector := (case c of Some c \<Rightarrow> c | None \<Rightarrow> si_collector s)\<rparr>)))"
    using BuildSnapshot_ok [OF inv(4) b] assms by (simp add: i publish_tick_def ws b good_step_def engine_kept_def)
qed

lemma runMetricsPush_ok:
  assumes "site_inv cfg s"
  shows "safe (good_step cfg (si_engine s)) (runMetricsPush interval (bc_TargetP99Ms (cfg_Batching cfg)) mv s)"
proof (cases "\<exists>now names. mv = TakeTick (now, names) \<and> si_loop s PushLoop = LoopWaits")
  case True
  then obtain now names where mv: "mv = TakeTick (now, names)" "si_loop s PushLoop = LoopWaits" by blast
  from push_ok [OF assms mv(2), of interval now names] show ?thesis by (auto simp: mv(1) good_step_def)
next
  case False
  have "0 < push_interval interval" by (simp add: push_interval_def)
  then show ?thesis unfolding runMetricsPush_def by (rule site_loop_safe [OF assms]) (use False in auto)
qed

lemma loop_step_ok:
  assumes "site_inv cfg s" "site_allowed (LoopMove l mv) s"
  shows "safe (good_step cfg (si_engine s)) (loop_step oob l mv s)"
  using materializeLoop_ok [OF assms(1), of latencyMaterializeInterval oob mv] downsampleLoop_ok [OF assms(1), of mv]
    publishLoop_ok [OF assms(1)] runMetricsPush_ok [OF assms(1)] assms(2) site_invD(1) [OF assms(1)]
  by (cases l) (simp_all add: loop_step_def)

lemma loop_done:
  assumes "site_inv cfg s" "si_signal s" "si_loop s l = LoopWaits"
  shows "loop_step oob l TakeDone s = Ret (s\<lparr>si_loop := (si_loop s)(l := LoopEnded)\<rparr>)"
  using assms site_invD(8) [OF assms(1,2)]
  by (cases l) (simp_all add: loop_step_def materializeLoop_def downsampleLoop_def publishLoop_def runMetricsPush_def ticker_loop_done at_loop_def)

text \<open>The JSON endpoint through the chain: it never panics and leaves the collector well.\<close>

lemma ask_metrics_ok:
  assumes "site_inv cfg s"
  shows "safe (good_step cfg (si_engine s)) (site_act oob (AskMetrics uuid elapsed j r hij now) s)"
proof -
  note inv = site_invD [OF assms]
  obtain ws where ws: "GetWorkerSnapshots (en_pool (si_engine s)) = Inr ws" using snapshots_ok [OF inv(3)] by blast
  obtain snap c where b: "BuildSnapshot now (ws, UpstreamUnhealthy (en_pool (si_engine s))) (si_collector s) = (snap, c)"
    by fastforce
  have "collector_ok (RecordLatency j ms c)" for ms using BuildSnapshot_ok(1) [OF inv(4) b] by (rule RecordLatency_ok)
  then show ?thesis
    using assms
    by (simp add: mountMiddleware_def RequestID_def Recovery_def Logging_def MetricsMiddleware_def HandleJSONMetrics_def
        JSONSnapshot_def site_view_def ws b good_step_def engine_kept_def Let_def split: sum.split)
qed

lemma server_act_ok:
  assumes "site_inv cfg s" "allowed a (si_engine s)" "\<forall>m. a \<noteq> PushMetrics m" "site_act oob (ServerAct a) s = Ret s'"
  shows "site_inv cfg s' \<and> engine_step oob (si_engine s) (si_engine s')"
proof -
  note inv = site_invD [OF assms(1)]
  obtain e where e: "act oob a (si_engine s) = Ret e"
    "s' = s\<lparr>si_engine := e, si_collector := run_hook (en_batcher (si_engine s)) (en_batcher e) (si_collector s)\<rparr>"
    using assms(4) by (cases "act oob a (si_engine s)") auto
  have "engine_inv e" "pool_inv (en_pool e)" "batcher_stays (en_batcher (si_engine s)) (en_batcher e)"
    using act_inv [OF inv(2) assms(2) e(1)] pool_inv_shape [OF act_shape [OF e(1)] inv(3)] act_stays [OF inv(2) e(1)] assms(3)
    by blast+
  then have "site_inv cfg s'"
    using assms(1) run_hook_ok by (auto simp: e(2) site_inv_def batcher_stays_def on_target_def)
  then show ?thesis using engine_step.step [OF assms(2) e(1)] by (simp add: e(2))
qed

lemma site_act_ok:
  assumes "site_inv cfg s" "site_allowed a s" "site_act oob a s = Ret s'"
  shows "site_inv cfg s' \<and> (engine_step oob)\<^sup>*\<^sup>* (si_engine s) (si_engine s')"
proof (cases a)
  case (ServerAct b)
  then show ?thesis using server_act_ok [OF assms(1), of b oob s'] assms(2,3) by (auto simp: site_allowed_def)
next
  case Signal
  have "engine_step oob (si_engine s) ((si_engine s)\<lparr>en_batcher := (en_batcher (si_engine s))\<lparr>ab_ctxDone := True\<rparr>\<rparr>)"
    by (rule engine_step.step [of Cancel]) (simp_all add: allowed_def)
  then show ?thesis
    using Signal assms(1,3) cancel_inv [OF site_invD(2) [OF assms(1)]]
    by (auto simp: site_inv_def on_target_def)
next
  case (Served elapsed j)
  then show ?thesis using assms(1,3) RecordLatency_ok [OF site_invD(4) [OF assms(1)]] by auto
next
  case (AskMetrics uuid elapsed j r hij now)
  then show ?thesis using ask_metrics_ok [OF assms(1), of oob uuid elapsed j r hij now] assms(3) engine_kept_star
    by (simp add: good_step_def del: site_act.simps)
next
  case (LoopMove l mv)
  then show ?thesis using loop_step_ok [OF assms(1), of l mv oob] assms(2,3) engine_kept_star
    by (simp add: good_step_def)
qed

text \<open>Seen through its engine, the whole site is the server of \<^verbatim>\<open>Engine\<close>.\<close>

interpretation site: simulation "site_step oob" "engine_step oob" si_engine "site_inv cfg" for oob cfg
  by unfold_locales (auto elim!: site_step.cases dest: site_act_ok)

lemma site_act_safe:
  assumes "site_inv cfg s" "site_allowed a s"
  shows "safe (\<lambda>_. True) (site_act oob a s) \<or> (a = ServerAct PingStart \<and> wp_healthInterval (en_pool (si_engine s)) \<le> 0)"
proof (cases a)
  case (ServerAct b)
  then show ?thesis using act_safe [OF site_invD(2) [OF assms(1)], of oob b] by (auto intro: safe_and_then)
next
  case (AskMetrics uuid elapsed j r hij now)
  show ?thesis unfolding AskMetrics by (rule disjI1, rule safe_mono [OF ask_metrics_ok [OF assms(1)]]) simp
next
  case (LoopMove l mv)
  then show ?thesis using loop_step_ok [OF assms(1), of l mv oob] assms(2) by (auto intro: safe_mono)
qed simp_all

section \<open>What the server's metrics come to\<close>

lemma site_start_inv:
  assumes "site_start now1 now2 cfg = Inr s" "mc_PercentileWindowSize (cfg_Metrics cfg) \<le> 2 ^ 50"
  shows "site_inv cfg s" "server_start cfg = Inr (si_engine s)"
proof -
  obtain e where e: "server_start cfg = Inr e" "si_engine s = e"
    using assms(1) by (auto simp: site_start_def Let_def split: sum.splits)
  then show "server_start cfg = Inr (si_engine s)" by simp
  have "agg_rep (\<lambda>_. ([], [])) NewTimeSeriesAggregator"
    by (simp add: agg_rep_def NewTimeSeriesAggregator_def)
  then have "agg_ok NewTimeSeriesAggregator" 
    unfolding agg_ok_def still_def by (intro exI [of _ "\<lambda>_. ([], [])"]) simp
  moreover have "ab_metrics (en_batcher e) = None"
    using e(1) by (auto simp: server_start_def Let_def NewAdaptiveBatcher_def SetDispatchBlockedHook_def split: sum.splits)
  moreover have "engine_inv e" using server_start_inv e(1) by blast
  moreover have "pool_inv (en_pool e)"
    using e(1) NewWorkerPool_inv(1) by (auto simp: server_start_def Let_def split: sum.splits)
  ultimately show "site_inv cfg s"
    using assms e by (auto simp: site_start_def site_inv_def collector_ok_def latency_ok_def NewCollector_def SetWorkerProvider_def
        NewLatencyTracker_def NewSnapshotPublisher_def on_target_def Let_def)
qed

text \<open>
  C11: The server's metrics at work. In every state the whole server can reach from its wiring (the
  clients, the batcher, the workers, the four ticker loops and the metrics endpoint in any order,
  with a percentile window of at most \<open>2 ^ 50\<close>): what its engine has gone through is a run of the
  engine alone; nothing panics, but the ping at its start with a bad interval; the strategy's
  controller is only ever given the configured target; after the signal every loop that waits can
  end at once. But nobody records a request: the published throughput is 0, every point of the
  throughput history that the dashboard can ask for is 0, and the counter of requests is never
  incremented, whatever the load.
\<close>

theorem server_metrics:
  assumes "site_start now1 now2 cfg = Inr s" "(site_step oob)\<^sup>*\<^sup>* s s'" "mc_PercentileWindowSize (cfg_Metrics cfg) \<le> 2 ^ 50"
  shows "engine_reaches oob (si_engine s) (si_engine s')
    \<and> (\<forall>a. site_allowed a s' \<longrightarrow> safe (\<lambda>_. True) (site_act oob a s')
          \<or> (a = ServerAct PingStart \<and> hc_CheckInterval (cfg_Health cfg) \<le> 0))
    \<and> (\<forall>m. ab_metrics (en_batcher (si_engine s')) = Some m \<longrightarrow> sm_TargetP99Ms m = bc_TargetP99Ms (cfg_Batching cfg))
    \<and> (\<forall>l. si_signal s' \<and> si_loop s' l = LoopWaits \<longrightarrow>
          site_act oob (LoopMove l TakeDone) s' = Ret (s'\<lparr>si_loop := (si_loop s')(l := LoopEnded)\<rparr>))
    \<and> ms_ThroughputRPS (Current (si_publisher s')) = Fin 0
    \<and> (\<forall>t1 t2 d. \<exists>ps. GetHistory t1 t2 ''throughput_rps'' d (si_agg s') = Inr ps \<and> (\<forall>p\<in>set ps. dp_Value p = Fin 0))
    \<and> Counter_Inc ''requests_total'' None \<notin> set (co_prom (si_collector s'))"
proof -
  note start = site_start_inv [OF assms(1,3)]
  have reach: "engine_reaches oob (si_engine s) (si_engine s')" and si: "site_inv cfg s'"
    using site.runs [OF assms(2) start(1)] star_reaches by blast+
  note inv = site_invD [OF si]
  obtain h where h: "agg_rep h (si_agg s')" "still (h ''throughput_rps'')" using inv(5) by (auto simp: agg_ok_def)
  have history: "\<exists>ps. GetHistory t1 t2 ''throughput_rps'' d (si_agg s') = Inr ps \<and> (\<forall>p\<in>set ps. dp_Value p = Fin 0)" for t1 t2 d
    using GetHistory_total [OF h(1), of t1 t2 "''throughput_rps''" d] h(2) by (fastforce simp: still_def no_point_def)
  have safe: "safe (\<lambda>_. True) (site_act oob a s') \<or> (a = ServerAct PingStart \<and> hc_CheckInterval (cfg_Health cfg) \<le> 0)"
    if "site_allowed a s'" for a
    using site_act_safe [OF si that, of oob] reached_interval [OF start(2) reach] by simp
  have ends: "site_act oob (LoopMove l TakeDone) s' = Ret (s'\<lparr>si_loop := (si_loop s')(l := LoopEnded)\<rparr>)"
    if "si_signal s' \<and> si_loop s' l = LoopWaits" for l
    using that loop_done [OF si] by simp
  have "Counter_Inc ''requests_total'' None \<notin> set (co_prom (si_collector s'))"
    using inv(4) by (auto simp: collector_ok_def unrecorded_def)
  then show ?thesis
    using reach safe ends inv(6,7) history by (auto simp: Current_def on_target_def)
qed

text \<open>The default server, after the first tick of the push.\<close>

theorem server_metrics_witness:
  "\<exists>s s' ps. site_start 5 5 default_config = Inr s \<and> (site_step (\<lambda>_. 0))\<^sup>*\<^sup>* s s'
     \<and> ab_metrics (en_batcher (si_engine s')) = Some \<lparr>sm_P99LatencyMs = Fin 0, sm_TargetP99Ms = Fin 60\<rparr>
     \<and> ms_ThroughputRPS (Current (si_publisher s')) = Fin 0
     \<and> GetHistory 9 9 ''throughput_rps'' minute (si_agg s') = Inr ps \<and> (\<forall>p\<in>set ps. dp_Value p = Fin 0)"
proof -
  obtain e where "server_start default_config = Inr e" using default_starts by blast
  then obtain s where s: "site_start 5 5 default_config = Inr s" "si_loop s = (\<lambda>_. LoopStarts)" "si_cfg s = default_config"
    "lt_p99Smoothed (co_Latency (si_collector s)) = Fin 0"
    by (simp add: site_start_def NewCollector_def SetWorkerProvider_def NewLatencyTracker_def Let_def)
  have window: "mc_PercentileWindowSize (cfg_Metrics default_config) \<le> 2 ^ 50" by (simp add: default_config_def)
  let ?s1 = "s\<lparr>si_loop := (si_loop s)(PushLoop := LoopWaits)\<rparr>"
  have one: "site_step (\<lambda>_. 0) s ?s1"
    using s(2) by (intro site_step.step [of "LoopMove PushLoop MakeTicker"])
      (simp_all add: site_allowed_def loop_step_def runMetricsPush_def ticker_loop_starts at_loop_def push_interval_def)
  have "site_inv default_config ?s1" using site_start_inv(1) [OF s(1) window] by simp
  from push_ok [OF this, of "mc_CollectionInterval (cfg_Metrics default_config)" "\<lambda>_. 6" "[]"] obtain s' where
    s': "runMetricsPush (mc_CollectionInterval (cfg_Metrics default_config)) (bc_TargetP99Ms (cfg_Batching default_config))
      (TakeTick (\<lambda>_. 6, [])) ?s1 = Ret s'"
    "ab_metrics (en_batcher (si_engine s')) = Some \<lparr>sm_P99LatencyMs = Fin 0, sm_TargetP99Ms = Fin 60\<rparr>"
    using s(4) by (auto simp: default_config_def)
  have "site_step (\<lambda>_. 0) ?s1 s'"
    using s'(1) s(3) by (intro site_step.step [of "LoopMove PushLoop (TakeTick (\<lambda>_. 6, []))"])
      (simp_all add: site_allowed_def loop_step_def)
  then have run: "(site_step (\<lambda>_. 0))\<^sup>*\<^sup>* s s'" using one by (meson rtranclp.rtrancl_refl rtranclp.rtrancl_into_rtrancl)
  show ?thesis using s(1) run s'(2) server_metrics [OF s(1) run window] by blast
qed

end
