(* ===== verification/Arrivals.thy ===== *)
theory Arrivals
  imports Workload Batcher
begin

text \<open>
  The goroutine of a generator (the four \<open>Generate\<close> methods of simulation/workload.go) as a machine
  that stops at its blocking points, against a clock that does not go back: what was proved of the
  single waits in \<^verbatim>\<open>Workload\<close> bounds how much a generator can have sent by any time.
\<close>

section \<open>The machine\<close>

text \<open>At \<open>GenSends\<close> the goroutine is in \<open>emit\<close>, with a request and the deadline of its context.\<close>

datatype gen_at = GenStarts | GenTop | GenWaits instant | GenSends InferenceRequest "instant option" | GenEnded

text \<open>\<open>ga_startedAt\<close>: when the goroutine began; \<open>ga_ticker\<close>: when the ticker of the constant rate has its next tick.\<close>

record 'r arrivals =
  ga_at :: gen_at
  ga_rand :: 'r
  ga_startedAt :: instant
  ga_ticker :: instant
  ga_sent :: int

datatype gen_move = GenGoes | GenDoneCase | GenFires string | GenHandsOver

definition generator_config :: "Generator \<Rightarrow> GeneratorConfig" where
  "generator_config gen = (case gen of
     ConstantRateGenerator _ cfg \<Rightarrow> cfg | PoissonGenerator _ cfg \<Rightarrow> cfg | RampGenerator _ _ cfg \<Rightarrow> cfg | Bursty b \<Rightarrow> bg_Config b)"

text \<open>The deadline \<open>withDuration\<close> gives the generator's context, next to its parent's, and the duration each asks for.\<close>

definition withDuration :: "instant \<Rightarrow> duration \<Rightarrow> instant option" where
  "withDuration now d = (if d \<le> 0 then None else Some (now + d))"

definition generator_duration :: "Generator \<Rightarrow> duration" where
  "generator_duration gen = (case gen of
     RampGenerator _ _ cfg \<Rightarrow> if gc_Duration cfg \<le> 0 then 60 * second else gc_Duration cfg
   | _ \<Rightarrow> gc_Duration (generator_config gen))"

text \<open>What \<open>Generate\<close> does before it starts its goroutine: only the bursty one can panic, in a division.\<close>

definition Generate :: "Generator \<Rightarrow> 'r \<Rightarrow> go_panic + 'r arrivals" where
  "Generate gen s =
     (let a = \<lparr>ga_at = GenStarts, ga_rand = s, ga_startedAt = 0, ga_ticker = 0, ga_sent = 0\<rparr> in
      case gen of
        Bursty b \<Rightarrow> if snd (bursty_rates b) = 0 then Inl DivideByZero else Inr a
      | _ \<Rightarrow> Inr a)"

text \<open>After a tick due at \<open>due\<close> that was received at \<open>now\<close>, a ticker drops what the receiver has missed.\<close>

definition next_tick :: "duration \<Rightarrow> instant \<Rightarrow> instant \<Rightarrow> instant" where
  "next_tick d due now = due + d * ((now - due) div d + 1)"

definition gen_starts :: "Generator \<Rightarrow> instant \<Rightarrow> 'r arrivals \<Rightarrow> 'r arrivals outcome" where
  "gen_starts gen now a =
     (case gen of
        ConstantRateGenerator RPS cfg \<Rightarrow>
          and_then (of_sum (constant_interval RPS)) (\<lambda>d. Ret (a\<lparr>ga_at := GenTop, ga_startedAt := now, ga_ticker := now + d\<rparr>))
      | _ \<Rightarrow> Ret (a\<lparr>ga_at := GenTop, ga_startedAt := now\<rparr>))"

definition gen_top ::
    "(f64 \<Rightarrow> f64) \<Rightarrow> (f64 \<Rightarrow> int) \<Rightarrow> 'r rng \<Rightarrow> Generator \<Rightarrow> instant \<Rightarrow> 'r arrivals \<Rightarrow> 'r arrivals outcome" where
  "gen_top math_Log oob g gen now a =
     (case gen of
        ConstantRateGenerator RPS cfg \<Rightarrow> Ret (a\<lparr>ga_at := GenWaits (ga_ticker a)\<rparr>)
      | _ \<Rightarrow>
          and_then (of_sum (next_interval math_Log oob g gen (time_sub now (ga_startedAt a)) (ga_rand a))) (\<lambda>(d, s).
            Ret (a\<lparr>ga_at := GenWaits (now + d), ga_rand := s\<rparr>)))"

definition gen_fires ::
    "(f64 \<Rightarrow> int) \<Rightarrow> 'r rng \<Rightarrow> Generator \<Rightarrow> string \<Rightarrow> instant \<Rightarrow> instant \<Rightarrow> 'r arrivals \<Rightarrow> 'r arrivals outcome" where
  "gen_fires oob g gen uuid due now a =
     (if now < due then NotReady
      else
        let a = (case gen of
                   ConstantRateGenerator RPS cfg \<Rightarrow>
                     (case constant_interval RPS of Inr d \<Rightarrow> a\<lparr>ga_ticker := next_tick d due now\<rparr> | Inl e \<Rightarrow> a)
                 | _ \<Rightarrow> a);
            (req, deadline, s) = randomRequest oob g uuid now 0 0 (generator_config gen) (ga_rand a)
        in Ret (a\<lparr>ga_at := GenSends req deadline, ga_rand := s\<rparr>))"

text \<open>
  One move: the code up to the next blocking point, or a case of the \<open>select\<close> where it is. That the
  receiver is there for \<open>GenHandsOver\<close> is the caller's matter.
\<close>

definition gen_step ::
    "(f64 \<Rightarrow> f64) \<Rightarrow> (f64 \<Rightarrow> int) \<Rightarrow> 'r rng \<Rightarrow> Generator \<Rightarrow> bool \<Rightarrow> gen_move \<Rightarrow> instant \<Rightarrow> 'r arrivals \<Rightarrow> 'r arrivals outcome" where
  "gen_step math_Log oob g gen ctxDone mv now a =
     (case (ga_at a, mv) of
        (GenStarts, GenGoes) \<Rightarrow> gen_starts gen now a
      | (GenTop, GenGoes) \<Rightarrow> gen_top math_Log oob g gen now a
      | (GenWaits due, GenFires uuid) \<Rightarrow> gen_fires oob g gen uuid due now a
      | (GenWaits due, GenDoneCase) \<Rightarrow> if ctxDone then Ret (a\<lparr>ga_at := GenEnded\<rparr>) else NotReady
      | (GenSends req deadline, GenDoneCase) \<Rightarrow> if ctxDone then Ret (a\<lparr>ga_at := GenEnded\<rparr>) else NotReady
      | (GenSends req deadline, GenHandsOver) \<Rightarrow> Ret (a\<lparr>ga_at := GenTop, ga_sent := ga_sent a + 1\<rparr>)
      | _ \<Rightarrow> NotReady)"

text \<open>A request as it leaves the generator.\<close>

definition generated :: "InferenceRequest \<Rightarrow> bool" where
  "generated r \<longleftrightarrow> (\<exists>uuid now prompt mx p rt. r = NewInferenceRequest uuid now 0 (Some 0) prompt mx p rt)"

lemma generated_new: "generated (NewInferenceRequest uuid now 0 (Some 0) prompt mx p rt)"
  unfolding generated_def by blast

lemma gen_fires_effect:
  assumes "gen_fires oob g gen uuid due now a = Ret a'"
  shows "ga_sent a' = ga_sent a \<and> (\<forall>r d. ga_at a' = GenSends r d \<longrightarrow> generated r)"
proof -
  obtain r d s where r: "randomRequest oob g uuid now 0 0 (generator_config gen) (ga_rand a) = (r, d, s)" by (metis prod.exhaust)
  then have "generated r" by (auto simp: randomRequest_def generated_new Let_def split: prod.splits)
  then show ?thesis
    using assms r by (cases gen)
      (auto simp: gen_fires_def Let_def split: if_splits sum.splits)
qed

lemma gen_step_effect:
  assumes "gen_step math_Log oob g gen ctxDone mv now a = Ret a'" "mv \<noteq> GenHandsOver"
  shows "ga_sent a' = ga_sent a \<and> ga_at a \<noteq> GenEnded \<and> (\<forall>r d. ga_at a' = GenSends r d \<longrightarrow> generated r)"
  using assms
  by (cases "ga_at a"; cases mv; cases gen)
    (auto simp: gen_step_def gen_starts_def gen_top_def and_then_Ret dest: gen_fires_effect split: if_splits)

section \<open>How much can have been sent\<close>

text \<open>A generator that never waits for less than \<open>gap\<close> nor panics; a wait is asked for with a duration since a start.\<close>

definition spaced :: "(f64 \<Rightarrow> f64) \<Rightarrow> (f64 \<Rightarrow> int) \<Rightarrow> 'r rng \<Rightarrow> Generator \<Rightarrow> duration \<Rightarrow> bool" where
  "spaced math_Log oob g gen gap \<longleftrightarrow> 0 < gap
     \<and> (\<forall>elapsed s. 0 \<le> elapsed \<and> i64 elapsed \<longrightarrow> (\<exists>d s'. next_interval math_Log oob g gen elapsed s = Inr (d, s') \<and> gap \<le> d))"

fun is_constant :: "Generator \<Rightarrow> bool" where
  "is_constant (ConstantRateGenerator RPS cfg) = True"
| "is_constant gen = False"

text \<open>
  The account of a goroutine that began at \<open>start\<close>: what it has sent, times the gap, fits into the
  time gone by, and so does what it is about to send.
\<close>

definition paced :: "Generator \<Rightarrow> duration \<Rightarrow> instant \<Rightarrow> instant \<Rightarrow> 'r arrivals \<Rightarrow> bool" where
  "paced gen gap start now a \<longleftrightarrow> 0 \<le> ga_sent a \<and> ga_sent a * gap \<le> now - start
     \<and> (ga_at a \<noteq> GenStarts \<longrightarrow> ga_startedAt a \<le> now)
     \<and> (case ga_at a of
          GenStarts \<Rightarrow> ga_sent a = 0
        | GenTop \<Rightarrow> is_constant gen \<longrightarrow> start + (ga_sent a + 1) * gap \<le> ga_ticker a
        | GenWaits due \<Rightarrow> start + (ga_sent a + 1) * gap \<le> due
        | GenSends req deadline \<Rightarrow> (ga_sent a + 1) * gap \<le> now - start
            \<and> (is_constant gen \<longrightarrow> start + (ga_sent a + 2) * gap \<le> ga_ticker a)
        | GenEnded \<Rightarrow> True)"

lemma paced_later: "paced gen gap start now a \<Longrightarrow> now \<le> now' \<Longrightarrow> paced gen gap start now' a"
  by (auto simp: paced_def split: gen_at.splits)

lemma next_tick_after:
  assumes "0 < d" "due \<le> now"
  shows "due + d \<le> next_tick d due now"
proof -
  have "0 \<le> (now - due) div d" using assms by (simp add: pos_imp_zdiv_nonneg_iff)
  then have "d * 1 \<le> d * ((now - due) div d + 1)" using assms(1) by (intro mult_left_mono) simp_all
  then show ?thesis by (simp add: next_tick_def)
qed

lemma spaced_constant:
  assumes "spaced math_Log oob g (ConstantRateGenerator RPS cfg) gap"
  obtains d where "constant_interval RPS = Inr d" "gap \<le> d"
proof -
  have "\<exists>d s'. next_interval math_Log oob g (ConstantRateGenerator RPS cfg) 0 s = Inr (d, s') \<and> gap \<le> d" for s
    using assms by (simp add: spaced_def i64_def)
  then show thesis using that by (cases "constant_interval RPS") (auto simp: next_interval_def)
qed

lemma gen_starts_paced:
  assumes "spaced math_Log oob g gen gap" "paced gen gap start now a" "ga_at a = GenStarts" "start \<le> now"
  shows "safe (paced gen gap start now) (gen_starts gen now a)"
proof (cases gen)
  case (ConstantRateGenerator RPS cfg)
  then obtain d where "constant_interval RPS = Inr d" "gap \<le> d" using spaced_constant assms(1) by blast
  then show ?thesis using ConstantRateGenerator assms(2-4) by (simp add: gen_starts_def paced_def)
qed (use assms(2-4) in \<open>simp_all add: gen_starts_def paced_def\<close>)

lemma gen_top_paced:
  assumes "spaced math_Log oob g gen gap" "paced gen gap start now a" "ga_at a = GenTop"
  shows "safe (paced gen gap start now) (gen_top math_Log oob g gen now a)"
proof (cases "is_constant gen")
  case True
  then show ?thesis using assms(2,3) by (cases gen) (simp_all add: gen_top_def paced_def)
next
  case False
  have "0 \<le> time_sub now (ga_startedAt a)" using assms(2,3) by (intro time_sub_nonneg) (simp add: paced_def)
  then obtain d s' where d: "next_interval math_Log oob g gen (time_sub now (ga_startedAt a)) (ga_rand a) = Inr (d, s')" "gap \<le> d"
    using assms(1) i64_time_sub unfolding spaced_def by blast
  have "gen_top math_Log oob g gen now a = Ret (a\<lparr>ga_at := GenWaits (now + d), ga_rand := s'\<rparr>)"
    using False d(1) by (cases gen) (simp_all add: gen_top_def)
  then show ?thesis using assms(2,3) d(2) by (simp add: paced_def distrib_right)
qed

lemma gen_fires_paced:
  assumes "spaced math_Log oob g gen gap" "paced gen gap start now a" "ga_at a = GenWaits due"
  shows "safe (paced gen gap start now) (gen_fires oob g gen uuid due now a)"
proof (cases "now < due")
  case False
  have w: "0 \<le> ga_sent a" "ga_sent a * gap \<le> now - start" "ga_startedAt a \<le> now" "start + (ga_sent a + 1) * gap \<le> due"
    using assms(2,3) by (auto simp: paced_def)
  have two: "(ga_sent a + 2) * gap = (ga_sent a + 1) * gap + gap" by (simp add: distrib_right)
  show ?thesis
  proof (cases gen)
    case (ConstantRateGenerator RPS cfg)
    then obtain d where d: "constant_interval RPS = Inr d" "gap \<le> d" using spaced_constant assms(1) by blast
    have "0 < d" using assms(1) d(2) by (simp add: spaced_def)
    then have "due + d \<le> next_tick d due now" using False by (intro next_tick_after) simp_all
    then show ?thesis
      using w d False ConstantRateGenerator two by (simp add: gen_fires_def paced_def Let_def split: prod.split)
  qed (use w False in \<open>simp_all add: gen_fires_def paced_def Let_def split: prod.split\<close>)
qed (simp add: gen_fires_def)

lemma gen_step_paced:
  assumes "spaced math_Log oob g gen gap" "paced gen gap start now a" "start \<le> now"
  shows "safe (paced gen gap start now) (gen_step math_Log oob g gen ctxDone mv now a)"
proof (cases "ga_at a")
  case GenStarts
  then show ?thesis using gen_starts_paced [OF assms(1,2) _ assms(3)] by (cases mv) (simp_all add: gen_step_def)
next
  case GenTop
  then show ?thesis using gen_top_paced [OF assms(1,2)] by (cases mv) (simp_all add: gen_step_def)
next
  case (GenWaits due)
  then show ?thesis
    using gen_fires_paced [OF assms(1,2)] assms(2) by (cases mv) (simp_all add: gen_step_def paced_def)
next
  case (GenSends req deadline)
  then show ?thesis using assms(2) by (cases mv) (auto simp: gen_step_def paced_def algebra_simps)
qed (cases mv; simp add: gen_step_def)

lemma Generate_paced: "Generate gen s = Inr a \<Longrightarrow> paced gen gap now now a"
  by (auto simp: Generate_def paced_def Let_def split: Generator.splits if_splits)

section \<open>The scenarios\<close>

text \<open>The shortest wait of a scenario's generator.\<close>

definition scenario_gap :: "Scenario \<Rightarrow> duration" where
  "scenario_gap sc =
     (if sc_Name sc = ''steady_state'' then 833333 else if sc_Name sc = ''spike_test'' then 83333
      else if sc_Name sc = ''ramp_up'' then 2 * millisecond else 10 * millisecond)"

lemma constant_spaced:
  assumes "constant_interval RPS = Inr d" "0 < d"
  shows "spaced math_Log oob g (ConstantRateGenerator RPS cfg) d"
  using assms by (simp add: spaced_def next_interval_def)

lemma spike_spaced: "spaced math_Log oob g (sc_Generator SpikeTest) 83333"
proof -
  have w: "wrap64 12000 = 12000" by (simp add: wrap64_id i64_def)
  have d: "(1000000000::int) sdiv 12000 = 83333" "(1000000000::int) sdiv 1200 = 833333"
    by (simp_all add: signed_divide_int_def)
  show ?thesis
    by (simp add: spaced_def next_interval_def SpikeTest_def NewBurstyGenerator_def bursty_interval_def bursty_rates_def w d Let_def)
qed

lemma ramp_spaced: "spaced math_Log oob g (sc_Generator RampUp) (2 * millisecond)"
  using ramp_up_interval by (simp add: spaced_def next_interval_def RampUp_def Let_def)

lemma scenario_spaced:
  assumes "sc \<in> set AllScenarios"
  shows "spaced math_Log oob g (sc_Generator sc) (scenario_gap sc)"
proof -
  have d: "(1000000000::int) sdiv 1200 = 833333" "(1000000000::int) sdiv 100 = 10000000"
    by (simp_all add: signed_divide_int_def)
  have "constant_interval 1200 = Inr 833333" "constant_interval 100 = Inr (10 * millisecond)"
    by (simp_all add: constant_interval_def Let_def d)
  note const = this [THEN constant_spaced, simplified]
  have "sc = SteadyState \<or> sc = RampUp \<or> sc = SpikeTest \<or> sc = MixedPriority \<or> sc = LongTail"
    using assms by (simp add: AllScenarios_def)
  moreover have "scenario_gap SteadyState = 833333" "scenario_gap RampUp = 2 * millisecond" "scenario_gap SpikeTest = 83333"
    "scenario_gap MixedPriority = 10 * millisecond" "scenario_gap LongTail = 10 * millisecond"
    by (simp_all add: scenario_gap_def SteadyState_def RampUp_def SpikeTest_def MixedPriority_def LongTail_def Let_def)
  ultimately show ?thesis
    using const spike_spaced [of math_Log oob g] ramp_spaced [of math_Log oob g]
    by (auto simp: SteadyState_def MixedPriority_def LongTail_def Let_def)
qed

lemma scenario_generates:
  assumes "sc \<in> set AllScenarios"
  shows "\<exists>a. Generate (sc_Generator sc) s = Inr a \<and> ga_at a = GenStarts"
  using assms by (auto simp: AllScenarios_def SteadyState_def RampUp_def SpikeTest_def MixedPriority_def LongTail_def
      NewBurstyGenerator_def Generate_def bursty_rates_def wrap64_id i64_def Let_def)

end
