(* ===== verification/Simulation.thy ===== *)
theory Simulation
  imports Telemetry Runner Arrivals
begin

text \<open>
  A whole run of the simulator (\<open>Run\<close> of simulation/runner.go) as one transition system: the
  generator's goroutine, the loop of \<open>Run\<close> over its channel, one goroutine for each request, the
  batcher, the pool and its ping of \<^verbatim>\<open>Engine\<close>, the two ticker loops, the contexts and the clock. \<^verbatim>\<open>Runner\<close>
  has the accounts of such a run with an arbitrary batcher; here the batcher is the one at work, and
  each run is, seen through its engine, a run of \<^verbatim>\<open>Engine\<close>.
\<close>

section \<open>The state\<close>

datatype run_loop = LatencyTicks | StrategyPush

text \<open>Where \<open>Run\<close> is: in its loop over the channel, in \<open>waitWithTimeout\<close> (since when), in \<open>g.Wait\<close>, or back.\<close>

datatype run_phase = Ranging | Grace instant | Gathering | Returned SimulationResult

text \<open>
  A request has the address of its context and of its result channel from its \<open>Submit\<close> on, since
  nobody looks at them before; until then its goroutine carries the error its context may have.
  With a request goes the deadline of its context, if it has one. \<open>ru_over\<close> is the error of the
  generator's context, the parent of every request's, and \<open>ru_outer\<close> tells that the caller's context
  has ended.
\<close>

record 'r run_state =
  ru_cfg :: Config
  ru_scenario :: Scenario
  ru_strategy :: Strategy
  ru_engine :: engine
  ru_collector :: Collector
  ru_out :: resultAccumulator
  ru_gen :: "'r arrivals"
  ru_clock :: instant
  ru_begun :: instant
  ru_deadline :: instant
  ru_outer :: bool
  ru_over :: "error option"
  ru_started :: "(InferenceRequest \<times> instant option \<times> error option) list"
  ru_waiting :: "(InferenceRequest \<times> instant option) list"
  ru_phase :: run_phase
  ru_pingEnded :: bool
  ru_loop :: "run_loop \<Rightarrow> loop_at"

text \<open>\<open>Run\<close> up to its loop: the context with its timeout is made at \<open>now1\<close>, the load begins at \<open>now2\<close>.\<close>

definition run_start ::
    "Config \<Rightarrow> string \<Rightarrow> Scenario \<Rightarrow> Strategy \<Rightarrow> instant \<Rightarrow> instant \<Rightarrow> 'r \<Rightarrow> go_panic + 'r run_state" where
  "run_start template mock_url scenario strategy now1 now2 rand =
     (let cfg = cloneConfigForSim template mock_url in
      case sim_init template mock_url now1 0 strategy (\<lambda>_. NewResultChan) of
        (s, pool) \<Rightarrow>
          map_sum id (\<lambda>a. \<lparr>ru_cfg = cfg, ru_scenario = scenario, ru_strategy = strategy,
              ru_engine = engine_start pool (cfg_Batching cfg) (sim_batcher s), ru_collector = sim_collector s, ru_out = sim_out s,
              ru_gen = a, ru_clock = now2, ru_begun = now2, ru_deadline = now1 + sc_Duration scenario,
              ru_outer = False, ru_over = None, ru_started = [], ru_waiting = [], ru_phase = Ranging,
              ru_pingEnded = False, ru_loop = (\<lambda>_. LoopStarts)\<rparr>)
            (Generate (sc_Generator scenario) rand))"

section \<open>The contexts\<close>

definition leave :: "nat \<Rightarrow> error \<Rightarrow> engine \<Rightarrow> engine" where
  "leave n e s = (if en_ctxs s n = None then s\<lparr>en_ctxs := (en_ctxs s)(n := Some e)\<rparr> else s)"

text \<open>The end of the generator's context is the end of all the requests' contexts.\<close>

definition end_requests :: "error \<Rightarrow> 'r run_state \<Rightarrow> 'r run_state" where
  "end_requests e s =
     s\<lparr>ru_over := (case ru_over s of None \<Rightarrow> Some e | over \<Rightarrow> over),
       ru_started := map (\<lambda>(req, deadline, err). (req, deadline, case err of None \<Rightarrow> Some e | err \<Rightarrow> err)) (ru_started s),
       ru_engine := fold (\<lambda>n. leave n e) [0..<en_next (ru_engine s)] (ru_engine s)\<rparr>"

text \<open>The end of the run's context, the parent of the group's and of the generator's.\<close>

definition end_run :: "error \<Rightarrow> 'r run_state \<Rightarrow> 'r run_state" where
  "end_run e s =
     end_requests e (s\<lparr>ru_engine := (ru_engine s)\<lparr>en_batcher := (en_batcher (ru_engine s))\<lparr>ab_ctxDone := True\<rparr>\<rparr>\<rparr>)"

section \<open>The goroutines\<close>

text \<open>The generator; what it hands over is received by the loop of \<open>Run\<close>, which starts a goroutine for it.\<close>

definition run_gen ::
    "(f64 \<Rightarrow> f64) \<Rightarrow> (f64 \<Rightarrow> int) \<Rightarrow> 'r rng \<Rightarrow> gen_move \<Rightarrow> 'r run_state \<Rightarrow> 'r run_state outcome" where
  "run_gen math_Log oob g mv s =
     (let go = gen_step math_Log oob g (sc_Generator (ru_scenario s)) (ru_over s \<noteq> None) mv (ru_clock s) (ru_gen s) in
      case (mv, ga_at (ru_gen s)) of
        (GenHandsOver, GenSends req deadline) \<Rightarrow>
          if ru_phase s \<noteq> Ranging then NotReady
          else and_then go (\<lambda>a. Ret (s\<lparr>ru_gen := a,
            ru_out := (ru_out s)\<lparr>ra_submitted := wrap64 (ra_submitted (ru_out s) + 1)\<rparr>,
            ru_started := ru_started s @ [(req, deadline, ru_over s)]\<rparr>))
      | _ \<Rightarrow> and_then go (\<lambda>a. Ret (s\<lparr>ru_gen := a\<rparr>)))"

text \<open>The engine at a submission: first the context that has ended already, then the arrival.\<close>

definition with_error :: "error option \<Rightarrow> engine \<Rightarrow> engine" where
  "with_error err e = (case err of None \<Rightarrow> e | Some x \<Rightarrow> leave (en_next e) x e)"

definition run_submit :: "nat \<Rightarrow> 'r run_state \<Rightarrow> 'r run_state outcome" where
  "run_submit i s =
     (if \<not> i < length (ru_started s) then NotReady
      else case ru_started s ! i of (req, deadline, err) \<Rightarrow>
        let n = en_next (ru_engine s);
            req = req\<lparr>req_Ctx := Some n, req_ResultChan := Some n\<rparr>;
            e = with_error err (ru_engine s)
        in and_then (handleRequest_submit (en_ctxs e n) req (en_batcher e, ru_collector s, ru_out s)) (\<lambda>(goes_on, b, c, out).
             Ret (s\<lparr>ru_engine := e\<lparr>en_batcher := b, en_next := n + 1\<rparr>, ru_collector := c, ru_out := out,
               ru_started := remove_nth i (ru_started s),
               ru_waiting := (if goes_on then ru_waiting s @ [(req, deadline)] else ru_waiting s)\<rparr>)))"

text \<open>The \<open>select\<close> of a request's goroutine; \<open>take\<close> tells which of its cases, \<open>j\<close> is the reservoir's random number.\<close>

definition run_returns :: "nat \<Rightarrow> int \<Rightarrow> handler_wake \<Rightarrow> engine \<Rightarrow> 'r run_state \<Rightarrow> 'r run_state" where
  "run_returns i j wake e s =
     (case handleRequest_wait j wake (ru_collector s, ru_out s) of
        (c, out) \<Rightarrow> s\<lparr>ru_engine := e, ru_collector := c, ru_out := out, ru_waiting := remove_nth i (ru_waiting s)\<rparr>)"

definition run_select :: "nat \<Rightarrow> int \<Rightarrow> bool \<Rightarrow> 'r run_state \<Rightarrow> 'r run_state outcome" where
  "run_select i j takes s =
     (if \<not> i < length (ru_waiting s) then NotReady
      else
        let e = ru_engine s; n = the (req_ResultChan (fst (ru_waiting s ! i))) in
        if takes then
          (case try_recv (ab_results (en_batcher e) n) of
             Received x ch \<Rightarrow> Ret (run_returns i j (GotResult (Some x))
               (e\<lparr>en_batcher := (en_batcher e)\<lparr>ab_results := (ab_results (en_batcher e))(n := ch)\<rparr>,
                  en_received := (en_received e)(n := Some x)\<rparr>) s)
           | RecvClosed \<Rightarrow> Ret (run_returns i j (GotResult None) e s)
           | RecvBlocks \<Rightarrow> NotReady)
        else if en_ctxs e n \<noteq> None then Ret (run_returns i j CtxDone e s)
        else NotReady)"

definition at_run_loop :: "'r run_state \<Rightarrow> run_loop \<Rightarrow> loop_at \<Rightarrow> 'r run_state" where
  "at_run_loop s l place = s\<lparr>ru_loop := (ru_loop s)(l := place)\<rparr>"

abbreviation (input) metricsPushInterval :: duration where
  "metricsPushInterval \<equiv> 50 * millisecond"

text \<open>The latency loop runs under the caller's context, so it outlives the run.\<close>

definition run_latency :: "(f64 \<Rightarrow> int) \<Rightarrow> unit loop_move \<Rightarrow> 'r run_state \<Rightarrow> 'r run_state outcome" where
  "run_latency oob mv s =
     ticker_loop latencyMaterializeInterval (ru_outer s) (at_run_loop s LatencyTicks) (\<lambda>_.
       and_then (of_sum (materialize oob (co_Latency (ru_collector s)))) (\<lambda>lt.
         Ret (s\<lparr>ru_collector := (ru_collector s)\<lparr>co_Latency := lt\<rparr>\<rparr>))) mv (ru_loop s LatencyTicks)"

definition pushStrategyMetrics :: "unit loop_move \<Rightarrow> 'r run_state \<Rightarrow> 'r run_state outcome" where
  "pushStrategyMetrics mv s =
     ticker_loop metricsPushInterval (ab_ctxDone (en_batcher (ru_engine s))) (at_run_loop s StrategyPush) (\<lambda>_.
       Ret (s\<lparr>ru_engine := (ru_engine s)\<lparr>en_batcher :=
         strategy_push (bc_TargetP99Ms (cfg_Batching (ru_cfg s))) (ru_collector s) (en_batcher (ru_engine s))\<rparr>\<rparr>))
       mv (ru_loop s StrategyPush)"

text \<open>The wait group counts the goroutines of requests.\<close>

definition in_flight :: "'r run_state \<Rightarrow> nat" where
  "in_flight s = length (ru_started s) + length (ru_waiting s)"

definition waitWithTimeout :: "bool \<Rightarrow> 'r run_state \<Rightarrow> 'r run_state outcome" where
  "waitWithTimeout wgDone s =
     (case ru_phase s of
        Grace since \<Rightarrow>
          if (if wgDone then in_flight s = 0 else since + 2 * second \<le> ru_clock s)
          then Ret ((end_run ContextCanceled s)\<lparr>ru_phase := Gathering\<rparr>) else NotReady
      | _ \<Rightarrow> NotReady)"

definition run_finish :: "(f64 \<Rightarrow> int) \<Rightarrow> 'r run_state \<Rightarrow> 'r run_state outcome" where
  "run_finish oob s =
     (if ru_phase s = Gathering \<and> wound_up (ru_engine s) \<and> ru_pingEnded s \<and> ru_loop s StrategyPush = LoopEnded
      then Ret (s\<lparr>ru_phase := Returned (build oob (ru_scenario s) (Some (ru_strategy s)) (time_sub (ru_clock s) (ru_begun s))
        (en_batcher (ru_engine s)) (ru_out s))\<rparr>)
      else NotReady)"

section \<open>The actions\<close>

datatype run_action =
    RunClock instant
  | RunEngine action
  | RunPingEnds
  | RunGen gen_move
  | RunSubmit nat
  | RunSelect nat int bool
  | RunDeadline bool nat
  | RunLatency "unit loop_move"
  | RunPush "unit loop_move"
  | RunExpires
  | RunAborted
  | GenExpires
  | RunRangeEnds
  | RunWaited bool
  | RunFinishes

text \<open>A request's own deadline, before its \<open>Submit\<close> or while its goroutine waits.\<close>

definition run_deadline :: "bool \<Rightarrow> nat \<Rightarrow> 'r run_state \<Rightarrow> 'r run_state outcome" where
  "run_deadline waits i s =
     (if waits then
        (if \<not> i < length (ru_waiting s) then NotReady
         else case ru_waiting s ! i of
           (req, Some d) \<Rightarrow> if d \<le> ru_clock s
             then Ret (s\<lparr>ru_engine := leave (the (req_Ctx req)) ContextDeadlineExceeded (ru_engine s)\<rparr>) else NotReady
         | _ \<Rightarrow> NotReady)
      else
        (if \<not> i < length (ru_started s) then NotReady
         else case ru_started s ! i of
           (req, Some d, None) \<Rightarrow> if d \<le> ru_clock s
             then Ret (s\<lparr>ru_started := (ru_started s)[i := (req, Some d, Some ContextDeadlineExceeded)]\<rparr>) else NotReady
         | _ \<Rightarrow> NotReady))"

fun run_act ::
    "(f64 \<Rightarrow> f64) \<Rightarrow> (f64 \<Rightarrow> int) \<Rightarrow> 'r rng \<Rightarrow> run_action \<Rightarrow> 'r run_state \<Rightarrow> 'r run_state outcome" where
  "run_act math_Log oob g (RunClock now) s = (if now < ru_clock s then NotReady else Ret (s\<lparr>ru_clock := now\<rparr>))"
| "run_act math_Log oob g (RunEngine a) s =
     and_then (act oob a (ru_engine s)) (\<lambda>e.
       Ret (s\<lparr>ru_engine := e, ru_collector := run_hook (en_batcher (ru_engine s)) (en_batcher e) (ru_collector s)\<rparr>))"
| "run_act math_Log oob g RunPingEnds s =
     (if en_pinging (ru_engine s) \<and> ab_ctxDone (en_batcher (ru_engine s)) then Ret (s\<lparr>ru_pingEnded := True\<rparr>) else NotReady)"
| "run_act math_Log oob g (RunGen mv) s = run_gen math_Log oob g mv s"
| "run_act math_Log oob g (RunSubmit i) s = run_submit i s"
| "run_act math_Log oob g (RunSelect i j takes) s = run_select i j takes s"
| "run_act math_Log oob g (RunDeadline waits i) s = run_deadline waits i s"
| "run_act math_Log oob g (RunLatency mv) s = run_latency oob mv s"
| "run_act math_Log oob g (RunPush mv) s = pushStrategyMetrics mv s"
| "run_act math_Log oob g RunExpires s =
     (if ru_clock s < ru_deadline s then NotReady else Ret (end_run ContextDeadlineExceeded s))"
| "run_act math_Log oob g RunAborted s = Ret ((end_run ContextCanceled s)\<lparr>ru_outer := True\<rparr>)"
| "run_act math_Log oob g GenExpires s =
     (case withDuration (ga_startedAt (ru_gen s)) (generator_duration (sc_Generator (ru_scenario s))) of
        Some d \<Rightarrow> if ga_at (ru_gen s) \<noteq> GenStarts \<and> d \<le> ru_clock s then Ret (end_requests ContextDeadlineExceeded s) else NotReady
      | None \<Rightarrow> NotReady)"
| "run_act math_Log oob g RunRangeEnds s =
     (if ru_phase s = Ranging \<and> ga_at (ru_gen s) = GenEnded then Ret (s\<lparr>ru_phase := Grace (ru_clock s)\<rparr>) else NotReady)"
| "run_act math_Log oob g (RunWaited wgDone) s = waitWithTimeout wgDone s"
| "run_act math_Log oob g RunFinishes s = run_finish oob s"

text \<open>
  Up to its return; of the engine, the moves of its goroutines (the requests come from the generator,
  nobody administers). A run does not last for \<open>2 ^ 62\<close> nanoseconds, that is 146 years.
\<close>

definition run_allowed :: "run_action \<Rightarrow> 'r run_state \<Rightarrow> bool" where
  "run_allowed a s \<longleftrightarrow> (\<forall>r. ru_phase s \<noteq> Returned r)
     \<and> (case a of
          RunEngine (PingTick tick) \<Rightarrow> \<not> ru_pingEnded s
        | RunEngine a \<Rightarrow> (is_ending a \<or> a = PingStart) \<and> allowed a (ru_engine s)
        | RunClock now \<Rightarrow> now - ru_begun s < 2 ^ 62
        | _ \<Rightarrow> True)"

inductive run_step :: "(f64 \<Rightarrow> f64) \<Rightarrow> (f64 \<Rightarrow> int) \<Rightarrow> 'r rng \<Rightarrow> 'r run_state \<Rightarrow> 'r run_state \<Rightarrow> bool"
  for math_Log oob g where
  step: "run_allowed a s \<Longrightarrow> run_act math_Log oob g a s = Ret s' \<Longrightarrow> run_step math_Log oob g s s'"

end
