(* ===== verification/SimulationInv.thy ===== *)
theory SimulationInv
  imports Simulation
begin

text \<open>
  The invariant of a run of the simulator: its accounts, the pace of its generator, where its
  requests and their results are, and its phases; and the refinement, by the locale \<open>simulation\<close>, of
  the server of \<^verbatim>\<open>Engine\<close>.
\<close>

section \<open>What the engine's own moves keep\<close>

lemma grows_refl [simp]: "grows f f"
  by (simp add: grows_def)

lemma grows_trans: "grows f h \<Longrightarrow> grows h k \<Longrightarrow> grows f k"
  by (auto simp: grows_def)

definition goroutine_move :: "action \<Rightarrow> bool" where
  "goroutine_move a \<longleftrightarrow> is_ending a \<or> a = PingStart \<or> (\<exists>tick. a = PingTick tick)"

definition requests_kept :: "engine \<Rightarrow> engine \<Rightarrow> bool" where
  "requests_kept e e' \<longleftrightarrow> en_next e' = en_next e \<and> en_received e' = en_received e
     \<and> ab_accepted (en_batcher e') = ab_accepted (en_batcher e) \<and> ab_ctxDone (en_batcher e') = ab_ctxDone (en_batcher e)
     \<and> grows (en_ctxs e) (en_ctxs e')"

lemma moved_accepted:
  "moved pc b pc' b' \<Longrightarrow> ab_accepted b' = ab_accepted b \<and> ab_ctxDone b' = ab_ctxDone b"
  by (auto simp: moved_def told_all_def same_outside_def batch_sent_def split: if_splits)

lemma goroutine_keeps:
  assumes "engine_inv e" "goroutine_move a" "allowed a e" "act oob a e = Ret e'"
  shows "requests_kept e e'"
proof (cases a)
  case (BatcherMove mv)
  then obtain pc' b' where m: "batcher_next oob mv (en_at e) (en_batcher e) = Ret (pc', b')"
    "e' = e\<lparr>en_at := pc', en_batcher := b'\<rparr>"
    using assms(4) by (cases "batcher_next oob mv (en_at e) (en_batcher e)") auto
  then have "en_at e \<noteq> AtEnd" by (auto simp: batcher_next.simps)
  then have "batcher_ok (en_at e) (en_batcher e)"
    using engine_invD(1) [OF assms(1)] by (simp add: batcher_part_def split: if_splits)
  from batcher_next_ok [OF this, of oob mv] show ?thesis using m by (auto simp: requests_kept_def dest: moved_accepted)
next
  case CloseChans
  then have close: "do_close e = Ret e'" using assms(4) by simp
  show ?thesis by (rule do_close_Ret [OF assms(1) close]) (simp add: requests_kept_def)
next
  case (WorkerServe i ex)
  then obtain bt where bt: "i < length (en_workersAt e)" "en_workersAt e ! i = WorkerHolds bt"
    using assms(4) by (auto simp: do_serve_def split: if_splits worker_at.splits)
  then show ?thesis
    using assms(3,4) WorkerServe
    by (cases "process ex (wp_upstreamUnhealthy (en_pool e)) bt (wp_workers (en_pool e) ! i, ab_results (en_batcher e))")
      (auto simp: do_serve_def requests_kept_def allowed_def intro: grows_trans)
qed (use assms(2,4) in \<open>auto simp: goroutine_move_def requests_kept_def do_ping_def do_ping_start_def do_look_def
    split: if_splits recv_result.splits prod.splits worker_at.splits looked.splits\<close>)

lemma leave_act: "act oob (Leave n x) e = Ret (leave n x e)"
  by (simp add: leave_def)

lemma leave_step: "engine_step oob e (leave n x e)"
  by (rule engine_step.step [OF _ leave_act]) (simp add: allowed_def)

text \<open>Ending contexts one after the other.\<close>

lemma leave_sel [simp]:
  "en_batcher (leave n x e) = en_batcher e" "en_next (leave n x e) = en_next e" "en_received (leave n x e) = en_received e"
  "en_pool (leave n x e) = en_pool e" "en_pinging (leave n x e) = en_pinging e" "en_at (leave n x e) = en_at e"
  "en_workersAt (leave n x e) = en_workersAt e" "en_chansClosed (leave n x e) = en_chansClosed e"
  by (simp_all add: leave_def)

lemma leave_ctxs: "en_ctxs (leave n x e) n \<noteq> None" "grows (en_ctxs e) (en_ctxs (leave n x e))"
  by (auto simp: leave_def grows_def)

lemma leave_kept: "requests_kept e (leave n x e)"
  by (simp add: requests_kept_def leave_ctxs)

lemma leave_all_sel [simp]:
  "en_batcher (fold (\<lambda>n. leave n x) ns e) = en_batcher e" "en_next (fold (\<lambda>n. leave n x) ns e) = en_next e"
  "en_received (fold (\<lambda>n. leave n x) ns e) = en_received e" "en_pool (fold (\<lambda>n. leave n x) ns e) = en_pool e"
  "en_pinging (fold (\<lambda>n. leave n x) ns e) = en_pinging e" "en_at (fold (\<lambda>n. leave n x) ns e) = en_at e"
  "en_workersAt (fold (\<lambda>n. leave n x) ns e) = en_workersAt e" "en_chansClosed (fold (\<lambda>n. leave n x) ns e) = en_chansClosed e"
  by (induction ns arbitrary: e) simp_all

lemma leave_all_ctxs:
  "grows (en_ctxs e) (en_ctxs (fold (\<lambda>n. leave n x) ns e)) \<and> (\<forall>n\<in>set ns. en_ctxs (fold (\<lambda>n. leave n x) ns e) n \<noteq> None)"
proof (induction ns arbitrary: e)
  case (Cons n ns)
  then have "grows (en_ctxs (leave n x e)) (en_ctxs (fold (\<lambda>n. leave n x) ns (leave n x e)))" by blast
  then show ?case
    using Cons [of "leave n x e"] leave_ctxs(1) [of n x e] leave_ctxs(2) [of e n x] grows_trans [OF leave_ctxs(2)] by (auto simp: grows_def)
qed simp

lemma leave_all_star: "(engine_step oob)\<^sup>*\<^sup>* e (fold (\<lambda>n. leave n x) ns e)"
proof (induction ns arbitrary: e)
  case (Cons n ns)
  then show ?case using leave_step [of oob e n x] by (auto intro: converse_rtranclp_into_rtranclp)
qed simp

section \<open>The parts of the invariant\<close>

definition view :: "'r run_state \<Rightarrow> sim_state" where
  "view s = \<lparr>sim_batcher = en_batcher (ru_engine s), sim_collector = ru_collector s, sim_out = ru_out s,
     sim_started = map fst (ru_started s), sim_waiting = map fst (ru_waiting s)\<rparr>"

text \<open>The accounts are those of \<^verbatim>\<open>Runner\<close>, with the generator's own count.\<close>

definition accounted :: "'r run_state \<Rightarrow> bool" where
  "accounted s \<longleftrightarrow> sim_inv (nat (ga_sent (ru_gen s))) (nat (ga_sent (ru_gen s))) (view s)"

definition timed :: "duration \<Rightarrow> 'r run_state \<Rightarrow> bool" where
  "timed gap s \<longleftrightarrow> paced (sc_Generator (ru_scenario s)) gap (ru_begun s) (ru_clock s) (ru_gen s)
     \<and> ru_begun s \<le> ru_clock s \<and> ru_clock s - ru_begun s < 2 ^ 62"

text \<open>A request whose goroutine waits, and what the results taken so far are worth.\<close>

definition awaits :: "engine \<Rightarrow> InferenceRequest \<Rightarrow> bool" where
  "awaits e r \<longleftrightarrow> (\<exists>n<en_next e. req_ResultChan r = Some n \<and> req_Ctx r = Some n \<and> en_received e n = None)
     \<and> r \<in> set (ab_accepted (en_batcher e))"

fun earned :: "RequestResult option \<Rightarrow> f64 multiset" where
  "earned None = {#}"
| "earned (Some x) = (if res_Error x = None then {#res_LatencyMs x#} else {#})"

definition earnings :: "engine \<Rightarrow> f64 multiset" where
  "earnings e = (\<Sum>n<en_next e. earned (en_received e n))"

definition own_results :: "engine \<Rightarrow> bool" where
  "own_results e \<longleftrightarrow> (\<forall>n x. en_received e n = Some x \<longrightarrow>
     (\<exists>r\<in>set (ab_accepted (en_batcher e)). req_ResultChan r = Some n \<and> res_RequestID x = req_ID r))"

definition requests_ok :: "'r run_state \<Rightarrow> bool" where
  "requests_ok s \<longleftrightarrow> (\<forall>(r, d, err)\<in>set (ru_started s). generated r)
     \<and> (\<forall>r d. ga_at (ru_gen s) = GenSends r d \<longrightarrow> generated r)
     \<and> distinct (map (req_ResultChan \<circ> fst) (ru_waiting s))
     \<and> (\<forall>(r, d)\<in>set (ru_waiting s). awaits (ru_engine s) r)
     \<and> mset (ra_latencies (ru_out s)) = earnings (ru_engine s) \<and> own_results (ru_engine s)"

definition over_ok :: "'r run_state \<Rightarrow> bool" where
  "over_ok s \<longleftrightarrow> (ru_over s \<noteq> None \<longrightarrow> (\<forall>(r, d, err)\<in>set (ru_started s). err \<noteq> None)
       \<and> (\<forall>(r, d)\<in>set (ru_waiting s). en_ctxs (ru_engine s) (the (req_ResultChan r)) \<noteq> None))
     \<and> (ab_ctxDone (en_batcher (ru_engine s)) \<longrightarrow> ru_over s \<noteq> None)"

fun phase_ok :: "(f64 \<Rightarrow> int) \<Rightarrow> 'r run_state \<Rightarrow> run_phase \<Rightarrow> bool" where
  "phase_ok oob s Ranging = True"
| "phase_ok oob s (Grace since) = (ga_at (ru_gen s) = GenEnded)"
| "phase_ok oob s Gathering = (ga_at (ru_gen s) = GenEnded \<and> ab_ctxDone (en_batcher (ru_engine s)))"
| "phase_ok oob s (Returned r) = (ga_at (ru_gen s) = GenEnded \<and> ab_ctxDone (en_batcher (ru_engine s)) \<and> wound_up (ru_engine s)
     \<and> r = build oob (ru_scenario s) (Some (ru_strategy s)) (time_sub (ru_clock s) (ru_begun s))
        (en_batcher (ru_engine s)) (ru_out s))"

definition run_inv :: "(f64 \<Rightarrow> f64) \<Rightarrow> (f64 \<Rightarrow> int) \<Rightarrow> 'r rng \<Rightarrow> duration \<Rightarrow> 'r run_state \<Rightarrow> bool" where
  "run_inv math_Log oob g gap s \<longleftrightarrow> spaced math_Log oob g (sc_Generator (ru_scenario s)) gap
     \<and> engine_inv (ru_engine s) \<and> latency_ok (co_Latency (ru_collector s)) \<and> accounted s \<and> timed gap s
     \<and> requests_ok s \<and> over_ok s \<and> phase_ok oob s (ru_phase s)"

lemma run_invD:
  assumes "run_inv math_Log oob g gap s"
  shows "spaced math_Log oob g (sc_Generator (ru_scenario s)) gap" "engine_inv (ru_engine s)"
    "latency_ok (co_Latency (ru_collector s))" "accounted s" "timed gap s" "requests_ok s" "over_ok s"
    "phase_ok oob s (ru_phase s)"
  using assms by (simp_all add: run_inv_def)

section \<open>Updates that keep it\<close>

lemma sim_inv_same:
  assumes "sim_inv n k v" "qm_inv (ab_qm (sim_batcher v'))" "sim_out v' = sim_out v"
    "length (sim_started v') = length (sim_started v)" "length (sim_waiting v') = length (sim_waiting v)"
    "co_requestCount (sim_collector v') = co_requestCount (sim_collector v)"
    "lt_count (co_Latency (sim_collector v')) = lt_count (co_Latency (sim_collector v))"
  shows "sim_inv n k v'"
  using assms by (simp add: sim_inv_def inflight_def)

lemma engine_qm: "engine_inv e \<Longrightarrow> qm_inv (ab_qm (en_batcher e))"
  using batcher_part_qm(1) engine_invD(1) by blast

lemma star_inv: "(engine_step oob)\<^sup>*\<^sup>* e e' \<Longrightarrow> engine_inv e \<Longrightarrow> engine_inv e'"
  using engine_reaches_inv star_reaches by blast

lemma requests_kept_awaits: "requests_kept e e' \<Longrightarrow> awaits e r \<Longrightarrow> awaits e' r"
  by (simp add: requests_kept_def awaits_def)

lemma requests_kept_earned: "requests_kept e e' \<Longrightarrow> earnings e' = earnings e \<and> (own_results e' \<longleftrightarrow> own_results e)"
  by (simp add: requests_kept_def earnings_def own_results_def)

lemma grows_ended: "grows f h \<Longrightarrow> f n \<noteq> None \<Longrightarrow> h n \<noteq> None"
  by (simp add: grows_def)

text \<open>A change of the collector that the accounts do not see.\<close>

definition collector_kept :: "Collector \<Rightarrow> Collector \<Rightarrow> bool" where
  "collector_kept c c' \<longleftrightarrow> co_requestCount c' = co_requestCount c \<and> lt_count (co_Latency c') = lt_count (co_Latency c)
     \<and> (latency_ok (co_Latency c) \<longrightarrow> latency_ok (co_Latency c'))"

lemma run_hook_kept: "collector_kept c (run_hook b b' c)"
proof -
  have "collector_kept c (fold (\<lambda>p. RecordDispatchBlocked (f p)) ps c)" for f :: "Priority \<Rightarrow> string" and ps
    by (induction ps arbitrary: c) (simp_all add: collector_kept_def collector_defs)
  then show ?thesis by (simp only: run_hook_def)
qed

lemma materialize_count: "materialize oob lt = Inr lt' \<Longrightarrow> lt_count lt' = lt_count lt"
  by (auto simp: materialize_def Let_def split: if_splits sum.splits)

lemma engine_update:
  assumes "run_inv math_Log oob g gap s" "\<forall>r. ru_phase s \<noteq> Returned r"
    "(engine_step oob)\<^sup>*\<^sup>* (ru_engine s) e'" "requests_kept (ru_engine s) e'" "collector_kept (ru_collector s) c'"
  shows "run_inv math_Log oob g gap (s\<lparr>ru_engine := e', ru_collector := c'\<rparr>)"
proof -
  let ?s = "s\<lparr>ru_engine := e', ru_collector := c'\<rparr>"
  note inv = run_invD [OF assms(1)]
  have e': "engine_inv e'" by (rule star_inv [OF assms(3) inv(2)])
  have "accounted ?s"
    using inv(4) engine_qm [OF e'] assms(5) unfolding accounted_def
    by (auto elim!: sim_inv_same simp: view_def collector_kept_def)
  moreover have "requests_ok ?s"
    using inv(6) requests_kept_awaits [OF assms(4)] requests_kept_earned [OF assms(4)] by (auto simp: requests_ok_def)
  moreover have "over_ok ?s"
    using inv(7) assms(4) by (auto simp: over_ok_def requests_kept_def dest!: grows_ended)
  moreover have "phase_ok oob ?s (ru_phase s)"
    using inv(8) assms(2,4) by (cases "ru_phase s") (auto simp: requests_kept_def)
  ultimately show ?thesis
    using inv(1,3,5) e' assms(5) by (simp add: run_inv_def timed_def collector_kept_def)
qed

text \<open>The end of contexts, with that of the group's or without.\<close>

lemma end_requests_inv:
  assumes "run_inv math_Log oob g gap s" "\<forall>r. ru_phase s \<noteq> Returned r"
    and "e1 = (ru_engine s)\<lparr>en_batcher := (en_batcher (ru_engine s))\<lparr>ab_ctxDone := d\<rparr>\<rparr>"
    and "ab_ctxDone (en_batcher (ru_engine s)) \<longrightarrow> d"
  shows "run_inv math_Log oob g gap (end_requests x (s\<lparr>ru_engine := e1\<rparr>))
    \<and> (engine_step oob)\<^sup>*\<^sup>* (ru_engine s) (ru_engine (end_requests x (s\<lparr>ru_engine := e1\<rparr>)))"
proof -
  let ?e = "fold (\<lambda>n. leave n x) [0..<en_next e1] e1" and ?s = "end_requests x (s\<lparr>ru_engine := e1\<rparr>)"
  note inv = run_invD [OF assms(1)]
  have cancel: "engine_step oob (ru_engine s) ((ru_engine s)\<lparr>en_batcher := (en_batcher (ru_engine s))\<lparr>ab_ctxDone := True\<rparr>\<rparr>)"
    by (rule engine_step.step [of Cancel]) (simp_all add: allowed_def)
  have same: "e1 = ru_engine s" if "\<not> d"
  proof -
    have "d = ab_ctxDone (en_batcher (ru_engine s))" using that assms(4) by blast
    then show ?thesis unfolding assms(3) by simp
  qed
  have "(engine_step oob)\<^sup>*\<^sup>* (ru_engine s) e1"
  proof (cases d)
    case True
    then show ?thesis using cancel unfolding assms(3) by (simp add: r_into_rtranclp)
  qed (simp add: same)
  then have star: "(engine_step oob)\<^sup>*\<^sup>* (ru_engine s) ?e" by (rule rtranclp_trans [OF _ leave_all_star])
  have e: "engine_inv ?e" by (rule star_inv [OF star inv(2)])
  have c: "\<forall>n<en_next e1. en_ctxs ?e n \<noteq> None" using leave_all_ctxs [of e1 x "[0..<en_next e1]"] by simp
  have f: "en_next e1 = en_next (ru_engine s)" "en_received e1 = en_received (ru_engine s)" "ab_ctxDone (en_batcher e1) = d"
    "ab_accepted (en_batcher e1) = ab_accepted (en_batcher (ru_engine s))"
    by (simp_all add: assms(3))
  have s': "ru_engine ?s = ?e" "ru_collector ?s = ru_collector s" "ru_out ?s = ru_out s" "ru_gen ?s = ru_gen s"
    "map fst (ru_started ?s) = map fst (ru_started s)" "ru_waiting ?s = ru_waiting s" "ru_over ?s \<noteq> None"
    "\<forall>(r, d, err)\<in>set (ru_started ?s). err \<noteq> None" "ru_phase ?s = ru_phase s" "ru_scenario ?s = ru_scenario s"
    "ru_begun ?s = ru_begun s" "ru_clock ?s = ru_clock s"
    by (auto simp: end_requests_def split: option.splits)
  have "accounted ?s"
    using inv(4) engine_qm [OF e] unfolding accounted_def s'(4)
    by (auto elim!: sim_inv_same simp: view_def s')
  moreover have "\<forall>(r, d, err)\<in>set (ru_started ?s). generated r"
    using inv(6) by (auto simp: requests_ok_def end_requests_def)
  then have "requests_ok ?s"
    using inv(6) unfolding requests_ok_def s' awaits_def earnings_def own_results_def by (auto simp: f)
  moreover have "over_ok ?s"
    using inv(6) c f s'(7,8) unfolding over_ok_def s'(1,6) by (auto simp: requests_ok_def awaits_def)
  moreover have "phase_ok oob ?s (ru_phase s)"
    using inv(8) assms(2,4) by (cases "ru_phase s") (auto simp: s' f)
  ultimately show ?thesis
    using inv(1,3,5) e star unfolding run_inv_def timed_def s' by blast
qed

lemma end_run_inv:
  assumes "run_inv math_Log oob g gap s" "\<forall>r. ru_phase s \<noteq> Returned r"
  shows "run_inv math_Log oob g gap (end_run x s) \<and> (engine_step oob)\<^sup>*\<^sup>* (ru_engine s) (ru_engine (end_run x s))"
    "run_inv math_Log oob g gap (end_requests x s) \<and> (engine_step oob)\<^sup>*\<^sup>* (ru_engine s) (ru_engine (end_requests x s))"
  using end_requests_inv [OF assms refl, of True x] end_requests_inv [OF assms refl, of "ab_ctxDone (en_batcher (ru_engine s))" x]
  by (simp_all add: end_run_def)

section \<open>The goroutines keep it\<close>

definition run_good :: "(f64 \<Rightarrow> f64) \<Rightarrow> (f64 \<Rightarrow> int) \<Rightarrow> 'r rng \<Rightarrow> duration \<Rightarrow> 'r run_state \<Rightarrow> 'r run_state \<Rightarrow> bool" where
  "run_good math_Log oob g gap s s' \<longleftrightarrow> run_inv math_Log oob g gap s' \<and> (engine_step oob)\<^sup>*\<^sup>* (ru_engine s) (ru_engine s')"

lemma good_engine:
  assumes "run_inv math_Log oob g gap s" "\<forall>r. ru_phase s \<noteq> Returned r"
    "(engine_step oob)\<^sup>*\<^sup>* (ru_engine s) e'" "requests_kept (ru_engine s) e'" "collector_kept (ru_collector s) c'"
  shows "run_good math_Log oob g gap s (s\<lparr>ru_engine := e', ru_collector := c'\<rparr>)"
  using engine_update [OF assms] assms(3) by (simp add: run_good_def)

lemma requests_kept_refl [simp]: "requests_kept e e"
  by (simp add: requests_kept_def)

lemma collector_kept_refl [simp]: "collector_kept c c"
  by (simp add: collector_kept_def)

lemma engine_move_ok:
  assumes "run_inv math_Log oob g gap s" "run_allowed (RunEngine a) s"
  shows "safe (run_good math_Log oob g gap s) (run_act math_Log oob g (RunEngine a) s)
    \<or> (a = PingStart \<and> wp_healthInterval (en_pool (ru_engine s)) \<le> 0)"
proof -
  have live: "\<forall>r. ru_phase s \<noteq> Returned r" and a: "goroutine_move a" "allowed a (ru_engine s)"
    using assms(2) by (auto simp: run_allowed_def goroutine_move_def allowed_def split: action.splits)
  note inv = run_invD [OF assms(1)]
  have "run_good math_Log oob g gap s (s\<lparr>ru_engine := e,
      ru_collector := run_hook (en_batcher (ru_engine s)) (en_batcher e) (ru_collector s)\<rparr>)"
    if "act oob a (ru_engine s) = Ret e" for e
    by (rule good_engine [OF assms(1) live _ goroutine_keeps [OF inv(2) a that] run_hook_kept])
      (use engine_step.step [OF a(2) that] in blast)
  then have "safe (run_good math_Log oob g gap s) (run_act math_Log oob g (RunEngine a) s)" if "safe (\<lambda>_. True) (act oob a (ru_engine s))"
    using that by (cases "act oob a (ru_engine s)") auto
  then show ?thesis using act_safe [OF inv(2), of oob a] by blast
qed

lemma run_loops_ok:
  assumes "run_inv math_Log oob g gap s" "\<forall>r. ru_phase s \<noteq> Returned r"
  shows "safe (run_good math_Log oob g gap s) (run_latency oob mv s)" "safe (run_good math_Log oob g gap s) (pushStrategyMetrics mv s)"
proof -
  note inv = run_invD [OF assms(1)]
  have at: "run_good math_Log oob g gap s (at_run_loop s l place)" for l place
    using assms by (cases "ru_phase s") (auto simp: run_good_def run_inv_def at_run_loop_def accounted_def view_def timed_def requests_ok_def over_ok_def)
  obtain lt where lt: "materialize oob (co_Latency (ru_collector s)) = Inr lt" "latency_ok lt" using materialize_ok [OF inv(3)] by blast
  have "collector_kept (ru_collector s) ((ru_collector s)\<lparr>co_Latency := lt\<rparr>)"
    using materialize_count [OF lt(1)] lt(2) by (simp add: collector_kept_def)
  from good_engine [OF assms rtranclp.rtrancl_refl requests_kept_refl this]
  show "safe (run_good math_Log oob g gap s) (run_latency oob mv s)"
    unfolding run_latency_def by (intro ticker_loop_safe at) (simp_all add: lt(1))
  let ?e = "(ru_engine s)\<lparr>en_batcher :=
      strategy_push (bc_TargetP99Ms (cfg_Batching (ru_cfg s))) (ru_collector s) (en_batcher (ru_engine s))\<rparr>"
  have "engine_kept (ru_engine s) ?e" by (auto simp: engine_kept_def strategy_push_def)
  moreover have "requests_kept (ru_engine s) ?e" by (simp add: requests_kept_def strategy_push_def UpdateStrategyMetrics_def)
  ultimately have "run_good math_Log oob g gap s (s\<lparr>ru_engine := ?e, ru_collector := ru_collector s\<rparr>)"
    by (intro good_engine [OF assms] engine_kept_star) simp_all
  then show "safe (run_good math_Log oob g gap s) (pushStrategyMetrics mv s)"
    unfolding pushStrategyMetrics_def by (intro ticker_loop_safe at) simp_all
qed

lemma deadline_ok:
  assumes "run_inv math_Log oob g gap s" "\<forall>r. ru_phase s \<noteq> Returned r"
  shows "safe (run_good math_Log oob g gap s) (run_deadline waits i s)"
proof -
  note inv = run_invD [OF assms(1)]
  have leaves: "run_good math_Log oob g gap s (s\<lparr>ru_engine := leave n x (ru_engine s)\<rparr>)" for n x
    using good_engine [OF assms r_into_rtranclp leave_kept collector_kept_refl, OF leave_step] by simp
  have "run_good math_Log oob g gap s (s\<lparr>ru_started := (ru_started s)[i := (req, Some d, Some x)]\<rparr>)"
    if "i < length (ru_started s)" "ru_started s ! i = (req, Some d, None)" for req d x
  proof -
    have "(req, Some d, None) \<in> set (ru_started s)" using that nth_mem by metis
    then have sub: "p \<in> set ((ru_started s)[i := (req, Some d, Some x)]) \<Longrightarrow>
        p \<in> set (ru_started s) \<or> (p = (req, Some d, Some x) \<and> generated req)" for p
      using set_update_subset_insert [of "ru_started s" i] inv(6) by (fastforce simp: requests_ok_def)
    show ?thesis
      using inv assms(2) sub
      by (cases "ru_phase s") (auto simp: run_good_def run_inv_def timed_def accounted_def view_def requests_ok_def over_ok_def
          elim!: sim_inv_same simp: engine_qm dest!: sub)
  qed
  then show ?thesis
    using leaves by (auto simp: run_deadline_def split: prod.split option.split)
qed

text \<open>The account of \<^verbatim>\<open>Runner\<close> for one step of its machine; the number of steps does not matter below \<open>2 ^ 62\<close>.\<close>

lemma sim_inv_steps: "sim_inv n k v \<Longrightarrow> n \<le> k' \<Longrightarrow> sim_inv n k' v"
  by (simp add: sim_inv_def)

lemma sent_bound:
  assumes "run_inv math_Log oob g gap s"
  shows "0 \<le> ga_sent (ru_gen s)" "ga_sent (ru_gen s) < 2 ^ 62"
proof -
  have p: "0 \<le> ga_sent (ru_gen s)" "ga_sent (ru_gen s) * gap \<le> ru_clock s - ru_begun s" "ru_clock s - ru_begun s < 2 ^ 62"
    using run_invD(5) [OF assms] by (simp_all add: timed_def paced_def)
  have "ga_sent (ru_gen s) * 1 \<le> ga_sent (ru_gen s) * gap"
    using p(1) run_invD(1) [OF assms] by (intro mult_left_mono) (simp_all add: spaced_def)
  then show "0 \<le> ga_sent (ru_gen s)" "ga_sent (ru_gen s) < 2 ^ 62" using p by simp_all
qed

lemma account_step:
  assumes "run_inv math_Log oob g gap s" "sim_step e v = Ret v'" "\<not> is_request e" "\<forall>b. e \<noteq> SimBatcher b"
    "sim_inv (nat (ga_sent (ru_gen s))) (nat (ga_sent (ru_gen s))) v"
  shows "sim_inv (nat (ga_sent (ru_gen s))) (nat (ga_sent (ru_gen s))) v'"
proof -
  have "int (nat (ga_sent (ru_gen s))) < 2 ^ 62" using sent_bound [OF assms(1)] by simp
  from sim_step_inv [OF assms(5) this, of e] show ?thesis
    using assms(2-4) by (auto intro: sim_inv_steps)
qed

lemma gen_ok:
  assumes "run_inv math_Log oob g gap s" "\<forall>r. ru_phase s \<noteq> Returned r" "mv \<noteq> GenHandsOver"
  shows "safe (run_good math_Log oob g gap s) (run_gen math_Log oob g mv s)"
proof -
  note inv = run_invD [OF assms(1)]
  let ?go = "gen_step math_Log oob g (sc_Generator (ru_scenario s)) (ru_over s \<noteq> None) mv (ru_clock s) (ru_gen s)"
  have time: "paced (sc_Generator (ru_scenario s)) gap (ru_begun s) (ru_clock s) (ru_gen s)" "ru_begun s \<le> ru_clock s"
    using inv(5) by (simp_all add: timed_def)
  have good: "run_good math_Log oob g gap s (s\<lparr>ru_gen := a\<rparr>)"
    if a: "?go = Ret a" "paced (sc_Generator (ru_scenario s)) gap (ru_begun s) (ru_clock s) a" for a
  proof -
    note eff = gen_step_effect [OF a(1) assms(3)]
    have "phase_ok oob (s\<lparr>ru_gen := a\<rparr>) (ru_phase s)" using inv(8) eff assms(2) by (cases "ru_phase s") auto
    then show ?thesis
      using inv(1-7) eff a(2)
      by (auto simp: run_good_def run_inv_def accounted_def view_def timed_def requests_ok_def over_ok_def)
  qed
  have "safe (run_good math_Log oob g gap s) (and_then ?go (\<lambda>a. Ret (s\<lparr>ru_gen := a\<rparr>)))"
    using gen_step_paced [OF inv(1) time, of "ru_over s \<noteq> None" mv] good by (cases ?go) simp_all
  then show ?thesis using assms(3) by (cases mv) (simp_all add: run_gen_def Let_def)
qed

lemma hand_over_ok:
  assumes "run_inv math_Log oob g gap s"
  shows "safe (run_good math_Log oob g gap s) (run_gen math_Log oob g GenHandsOver s)"
proof (cases "\<exists>r d. ga_at (ru_gen s) = GenSends r d \<and> ru_phase s = Ranging")
  case True
  then obtain r d where at: "ga_at (ru_gen s) = GenSends r d" "ru_phase s = Ranging" by blast
  note inv = run_invD [OF assms] and sent = sent_bound [OF assms]
  let ?gen = "sc_Generator (ru_scenario s)"
  let ?a = "(ru_gen s)\<lparr>ga_at := GenTop, ga_sent := ga_sent (ru_gen s) + 1\<rparr>"
  let ?s = "s\<lparr>ru_gen := ?a, ru_out := (ru_out s)\<lparr>ra_submitted := wrap64 (ra_submitted (ru_out s) + 1)\<rparr>,
      ru_started := ru_started s @ [(r, d, ru_over s)]\<rparr>"
  have go: "gen_step math_Log oob g ?gen c GenHandsOver now (ru_gen s) = Ret ?a" for c now by (simp add: gen_step_def at(1))
  have paced: "paced ?gen gap (ru_begun s) (ru_clock s) ?a"
    using gen_step_paced [OF inv(1), of "ru_begun s" "ru_clock s" "ru_gen s" False GenHandsOver] inv(5) by (simp add: go timed_def)
  have n: "nat (ga_sent (ru_gen s) + 1) = Suc (nat (ga_sent (ru_gen s)))" using sent(1) by simp
  have "int (nat (ga_sent (ru_gen s))) < 2 ^ 62" using sent by simp
  then have "accounted ?s"
    using sim_step_inv [OF inv(4) [unfolded accounted_def], of "SimRequest r"]
    by (simp add: accounted_def view_def n)
  moreover have "requests_ok ?s" using inv(6) at(1) by (auto simp: requests_ok_def)
  moreover have "over_ok ?s" using inv(7) by (auto simp: over_ok_def)
  ultimately have "run_good math_Log oob g gap s ?s"
    using inv(1-3,5) paced by (simp add: run_good_def run_inv_def timed_def at(2))
  then show ?thesis by (simp add: run_gen_def at go)
next
  case False
  then show ?thesis by (auto simp: run_gen_def gen_step_def split: gen_at.splits)
qed

lemma Submit_effect:
  assumes "Batcher.Submit c (Some r) b = Ret (err, b')"
  shows "ab_accepted b' = ab_accepted b @ (if err = None then [r] else []) \<and> ab_ctxDone b' = ab_ctxDone b
    \<and> (c \<noteq> None \<longrightarrow> err \<noteq> None)"
  using assms
  by (cases "QueueMatrix_Submit (Some r) (ab_qm b)"; cases c) (auto simp: Submit_whole split: if_splits option.splits)

text \<open>A submission under an address of its own is an arrival.\<close>

lemma submit_arrives:
  assumes "generated req" "r = req\<lparr>req_Ctx := Some (en_next e), req_ResultChan := Some (en_next e)\<rparr>"
    "Batcher.Submit (en_ctxs e (en_next e)) (Some r) (en_batcher e) = Ret (err, b)"
  shows "engine_step oob e (e\<lparr>en_batcher := b, en_next := en_next e + 1\<rparr>)"
proof -
  obtain uuid now prompt mx p rt where "r = NewInferenceRequest uuid now (en_next e) (Some (en_next e)) prompt mx p rt"
    using assms(1,2) by (auto simp: generated_def NewInferenceRequest_def)
  then show ?thesis
    using assms(3) by (intro engine_step.step [of "Arrive uuid now prompt mx p rt"])
      (simp_all add: allowed_def do_arrive_def)
qed

lemma remove_nth_sub: "set (remove_nth i xs) \<subseteq> set xs"
  by (auto simp: remove_nth_def dest: in_set_takeD in_set_dropD)

lemma map_remove_nth: "map f (remove_nth i xs) = remove_nth i (map f xs)"
  by (simp add: remove_nth_def take_map drop_map)

lemma distinct_remove_nth: "distinct xs \<Longrightarrow> distinct (remove_nth i xs)"
  by (auto simp: remove_nth_def dest: set_take_disj_set_drop_if_distinct [of xs i "Suc i"])

text \<open>The submission: what the goroutine counts, and what becomes of the engine.\<close>

lemma submit_accounts:
  assumes "run_inv math_Log oob g gap s" "i < length (ru_started s)" "en_batcher e = en_batcher (ru_engine s)"
    "handleRequest_submit c req (en_batcher e, ru_collector s, ru_out s) = Ret (goes_on, b, col, out)"
  shows "sim_inv (nat (ga_sent (ru_gen s))) (nat (ga_sent (ru_gen s)))
    \<lparr>sim_batcher = b, sim_collector = col, sim_out = out, sim_started = map fst (remove_nth i (ru_started s)),
     sim_waiting = (if goes_on then map fst (ru_waiting s) @ [req] else map fst (ru_waiting s))\<rparr>"
proof -
  let ?v = "(view s)\<lparr>sim_started := (sim_started (view s))[i := req]\<rparr>" and ?n = "nat (ga_sent (ru_gen s))"
  have v: "sim_inv ?n ?n ?v"
    using run_invD(4) [OF assms(1)] unfolding accounted_def
    by (rule sim_inv_same) (simp_all add: view_def engine_qm [OF run_invD(2) [OF assms(1)]])
  have "sim_step (SimSubmit i c) ?v = Ret (?v\<lparr>sim_batcher := b, sim_collector := col, sim_out := out,
      sim_started := remove_nth i (sim_started ?v), sim_waiting := (if goes_on then sim_waiting ?v @ [req] else sim_waiting ?v)\<rparr>)"
    using assms(2-4) by (simp add: view_def)
  note w = account_step [OF assms(1) this _ _ v]
  then have "qm_inv (ab_qm b)" by (simp add: sim_inv_def)
  then show ?thesis
    using w by (auto elim!: sim_inv_same simp: view_def map_remove_nth [symmetric] length_remove_nth assms(2) map_update [symmetric])
qed

lemma handleRequest_submit_Ret:
  assumes "handleRequest_submit c req (b, col, out) = Ret (goes_on, b', col', out')"
  shows "\<exists>err. Batcher.Submit c (Some req) b = Ret (err, b') \<and> (goes_on \<longleftrightarrow> err = None)
    \<and> ra_latencies out' = ra_latencies out \<and> ra_submitted out' = ra_submitted out \<and> co_Latency col' = co_Latency col"
  using assms
  by (auto simp: handleRequest_submit_def Let_def and_then_Ret recordError_def split: prod.splits if_splits)

lemma handleRequest_submit_total:
  assumes "qm_inv (ab_qm b)"
  shows "\<exists>goes_on b' col' out'. handleRequest_submit c req (b, col, out) = Ret (goes_on, b', col', out')"
proof -
  obtain x b' where "Batcher.Submit c (Some req) b = Ret (x, b')" using Submit_answers [OF assms] by blast
  then have "handleRequest_submit c req (b, col, out) = Ret (x = None, b',
      if x = None then RecordRequest col else RecordError (RecordRequest col), if x = None then out else recordError out)"
    by (cases x) (simp_all add: handleRequest_submit_def)
  then show ?thesis by blast
qed

lemma with_error_facts:
  "requests_kept e (with_error err e)" "(engine_step oob)\<^sup>*\<^sup>* e (with_error err e)" "en_batcher (with_error err e) = en_batcher e"
  "err \<noteq> None \<Longrightarrow> en_ctxs (with_error err e) (en_next e) \<noteq> None" "en_next (with_error err e) = en_next e"
  "en_received (with_error err e) = en_received e"
  using leave_step leave_kept leave_ctxs(1) by (auto simp: with_error_def split: option.split)

lemma submitted_over:
  assumes "over_ok s" "goes_on \<longrightarrow> ru_over s = None" "ab_ctxDone (en_batcher e') = ab_ctxDone (en_batcher (ru_engine s))"
    "grows (en_ctxs (ru_engine s)) (en_ctxs e')" "ru_engine s' = e'" "ru_over s' = ru_over s"
    "ru_started s' = remove_nth i (ru_started s)"
    "ru_waiting s' = (if goes_on then ru_waiting s @ [(req, d)] else ru_waiting s)"
  shows "over_ok s'"
proof (cases "ru_over s = None")
  case True
  then show ?thesis using assms(1,3,5,6) by (simp add: over_ok_def)
next
  case False
  then have w: "\<forall>p\<in>set (ru_started s). snd (snd p) \<noteq> None"
    "\<forall>p\<in>set (ru_waiting s). en_ctxs (ru_engine s) (the (req_ResultChan (fst p))) \<noteq> None"
    using assms(1) by (simp_all add: over_ok_def split_beta)
  have "\<forall>p\<in>set (remove_nth i (ru_started s)). snd (snd p) \<noteq> None"
    using w(1) remove_nth_sub [of i "ru_started s"] by blast
  moreover from assms(2) False have "\<not> goes_on" by auto
  ultimately show ?thesis
    using w(2) False assms(4-8) grows_ended [OF assms(4)] by (simp add: over_ok_def split_beta)
qed

lemma submitted_requests:
  assumes "requests_ok s" "en_next e' = en_next (ru_engine s) + 1" "en_received e' = en_received (ru_engine s)"
    "en_received (ru_engine s) (en_next (ru_engine s)) = None"
    "set (ab_accepted (en_batcher e')) = set (ab_accepted (en_batcher (ru_engine s))) \<union> (if goes_on then {req} else {})"
    "req_ResultChan req = Some (en_next (ru_engine s))" "req_Ctx req = Some (en_next (ru_engine s))"
    "ru_engine s' = e'" "ru_gen s' = ru_gen s" "ru_started s' = remove_nth i (ru_started s)"
    "ru_waiting s' = (if goes_on then ru_waiting s @ [(req, d)] else ru_waiting s)" "ra_latencies (ru_out s') = ra_latencies (ru_out s)"
  shows "requests_ok s'"
proof -
  have waits: "awaits (ru_engine s) r \<Longrightarrow> awaits e' r \<and> req_ResultChan r \<noteq> Some (en_next (ru_engine s))" for r
    using assms(2,3,5) by (auto simp: awaits_def)
  have old: "distinct (map (req_ResultChan \<circ> fst) (ru_waiting s))" "\<forall>p\<in>set (ru_waiting s). awaits (ru_engine s) (fst p)"
    "\<forall>p\<in>set (ru_started s). generated (fst p)"
    using assms(1) by (simp_all add: requests_ok_def split_beta)
  have "\<forall>p\<in>set (remove_nth i (ru_started s)). generated (fst p)"
    using old(3) remove_nth_sub [of i "ru_started s"] by blast
  moreover have "\<forall>p\<in>set (ru_waiting s'). awaits e' (fst p)"
    using old(2) waits assms(2-7) by (auto simp: assms(11) awaits_def)
  moreover have "distinct (map (req_ResultChan \<circ> fst) (ru_waiting s'))"
    using old(1,2) waits assms(6) by (fastforce simp: assms(11))
  moreover have "earnings e' = earnings (ru_engine s)" using assms(2-4) by (simp add: earnings_def)
  moreover have "own_results e'" using assms(1,3,5) by (fastforce simp: requests_ok_def own_results_def)
  ultimately show ?thesis
    using assms(1,8-10,12) by (simp add: requests_ok_def split_beta)
qed

lemma submitted_good:
  assumes "run_inv math_Log oob g gap s" "\<forall>r. ru_phase s \<noteq> Returned r"
    and "i < length (ru_started s)" "ru_started s ! i = (req0, d, err)"
    and "e = with_error err (ru_engine s)" "n = en_next (ru_engine s)" "req = req0\<lparr>req_Ctx := Some n, req_ResultChan := Some n\<rparr>"
    and sub: "handleRequest_submit (en_ctxs e n) req (en_batcher e, ru_collector s, ru_out s) = Ret (goes_on, b, col, out)"
  shows "run_good math_Log oob g gap s (s\<lparr>ru_engine := e\<lparr>en_batcher := b, en_next := n + 1\<rparr>, ru_collector := col, ru_out := out,
      ru_started := remove_nth i (ru_started s), ru_waiting := (if goes_on then ru_waiting s @ [(req, d)] else ru_waiting s)\<rparr>)"
    (is "run_good _ _ _ _ _ ?s")
proof -
  let ?e = "e\<lparr>en_batcher := b, en_next := n + 1\<rparr>"
  note inv = run_invD [OF assms(1)]
  have mem: "(req0, d, err) \<in> set (ru_started s)" using assms(4) nth_mem [OF assms(3)] by simp
  have gen: "generated req0" using inv(6) mem by (auto simp: requests_ok_def)
  have e: "requests_kept (ru_engine s) e" "(engine_step oob)\<^sup>*\<^sup>* (ru_engine s) e" "en_batcher e = en_batcher (ru_engine s)"
    "err \<noteq> None \<Longrightarrow> en_ctxs e n \<noteq> None" "en_next e = n" "en_received e = en_received (ru_engine s)"
    using with_error_facts by (simp_all add: assms(5,6))
  obtain x where x: "Batcher.Submit (en_ctxs e n) (Some req) (en_batcher e) = Ret (x, b)" "goes_on \<longleftrightarrow> x = None"
    "ra_latencies out = ra_latencies (ru_out s)" "co_Latency col = co_Latency (ru_collector s)"
    using handleRequest_submit_Ret [OF sub] by blast
  note eff = Submit_effect [OF x(1)]
  have "engine_step oob e ?e" using submit_arrives [OF gen, of req e x b oob] x(1) by (simp add: e(5) assms(7))
  then have star: "(engine_step oob)\<^sup>*\<^sup>* (ru_engine s) ?e" using e(2) by (rule rtranclp.rtrancl_into_rtrancl [rotated])
  have none: "en_received (ru_engine s) (en_next (ru_engine s)) = None"
    using engine_invD(5) [OF inv(2)] by (simp add: delivered_def quiet_def)
  have acc: "set (ab_accepted b) = set (ab_accepted (en_batcher (ru_engine s))) \<union> (if goes_on then {req} else {})"
    "ab_ctxDone b = ab_ctxDone (en_batcher (ru_engine s))" "grows (en_ctxs (ru_engine s)) (en_ctxs ?e)"
    using e(1,3) eff x(2) by (auto simp: requests_kept_def)
  have "goes_on \<longrightarrow> ru_over s = None" using inv(7) mem e(4) eff x(2) by (auto simp: over_ok_def)
  then have "over_ok ?s" by (rule submitted_over [OF inv(7), where e' = ?e]) (use acc in simp_all)
  moreover have "requests_ok ?s"
    by (rule submitted_requests [OF inv(6), where e' = ?e]) (use acc none e(6) x(3) in \<open>simp_all add: assms(6,7)\<close>)
  moreover have "accounted ?s"
    using submit_accounts [OF assms(1,3) e(3) sub] unfolding accounted_def
    by (auto elim!: sim_inv_same simp: view_def sim_inv_def)
  moreover have "phase_ok oob ?s (ru_phase s)" using inv(8) assms(2) acc(2) by (cases "ru_phase s") auto
  ultimately show ?thesis
    using inv(1,3,5) star star_inv [OF star inv(2)] x(4) by (simp add: run_good_def run_inv_def timed_def)
qed

lemma run_submit_eq:
  assumes "i < length (ru_started s)" "ru_started s ! i = (req0, d, err)"
    and "e = with_error err (ru_engine s)" "n = en_next (ru_engine s)" "req = req0\<lparr>req_Ctx := Some n, req_ResultChan := Some n\<rparr>"
  shows "run_submit i s = and_then (handleRequest_submit (en_ctxs e n) req (en_batcher e, ru_collector s, ru_out s)) (\<lambda>(goes_on, b, c, out).
      Ret (s\<lparr>ru_engine := e\<lparr>en_batcher := b, en_next := n + 1\<rparr>, ru_collector := c, ru_out := out,
        ru_started := remove_nth i (ru_started s),
        ru_waiting := (if goes_on then ru_waiting s @ [(req, d)] else ru_waiting s)\<rparr>))"
  unfolding run_submit_def Let_def assms(3-5) using assms(1,2) by simp

lemma submit_ok:
  assumes "run_inv math_Log oob g gap s" "\<forall>r. ru_phase s \<noteq> Returned r"
  shows "safe (run_good math_Log oob g gap s) (run_submit i s)"
proof (cases "i < length (ru_started s)")
  case True
  obtain req0 d err where started: "ru_started s ! i = (req0, d, err)" by (metis prod.exhaust)
  define n e req where defs: "n = en_next (ru_engine s)" "e = with_error err (ru_engine s)"
    "req = req0\<lparr>req_Ctx := Some n, req_ResultChan := Some n\<rparr>"
  have "qm_inv (ab_qm (en_batcher e))" using engine_qm [OF run_invD(2) [OF assms(1)]] by (simp add: defs with_error_facts)
  then obtain goes_on b col out where
    sub: "handleRequest_submit (en_ctxs e n) req (en_batcher e, ru_collector s, ru_out s) = Ret (goes_on, b, col, out)"
    using handleRequest_submit_total by blast
  note submitted_good [OF assms True started defs(2,1,3) sub]
  then show ?thesis by (simp only: run_submit_eq [OF True started defs(2,1,3)] sub and_then.simps prod.case safe.simps)
qed (simp add: run_submit_def)

text \<open>The \<open>select\<close> of a request's goroutine: its own result, or the end of its context.\<close>

lemma run_returns_sel:
  "ru_engine (run_returns i j wake e s) = e" "ru_gen (run_returns i j wake e s) = ru_gen s"
  "ru_started (run_returns i j wake e s) = ru_started s" "ru_over (run_returns i j wake e s) = ru_over s"
  "ru_phase (run_returns i j wake e s) = ru_phase s" "ru_scenario (run_returns i j wake e s) = ru_scenario s"
  "ru_clock (run_returns i j wake e s) = ru_clock s" "ru_begun (run_returns i j wake e s) = ru_begun s"
  "ru_waiting (run_returns i j wake e s) = remove_nth i (ru_waiting s)"
  by (simp_all add: run_returns_def split: prod.split)

lemma run_returns_out:
  "mset (ra_latencies (ru_out (run_returns i j wake e s))) =
     mset (ra_latencies (ru_out s)) + (case wake of GotResult got \<Rightarrow> earned got | CtxDone \<Rightarrow> {#})"
  "latency_ok (co_Latency (ru_collector s)) \<Longrightarrow> latency_ok (co_Latency (ru_collector (run_returns i j wake e s)))"
  by (auto simp: run_returns_def handleRequest_wait_def recordError_def recordLatency_def Latency_Add_ok collector_defs
      split: handler_wake.split option.split)

lemma returned_accounts:
  assumes "run_inv math_Log oob g gap s" "i < length (ru_waiting s)" "engine_inv e"
  shows "accounted (run_returns i j wake e s)"
proof -
  obtain c out where w: "handleRequest_wait j wake (ru_collector s, ru_out s) = (c, out)" by fastforce
  have "sim_step (SimReturn i j wake) (view s) = Ret ((view s)\<lparr>sim_collector := c, sim_out := out,
      sim_waiting := remove_nth i (sim_waiting (view s))\<rparr>)"
    using assms(2) w by (simp add: view_def)
  note account_step [OF assms(1) this _ _ run_invD(4) [OF assms(1), unfolded accounted_def]]
  then show ?thesis
    unfolding accounted_def run_returns_sel
    by (auto elim!: sim_inv_same simp: view_def run_returns_def w engine_qm [OF assms(3)] map_remove_nth)
qed

lemma returned_good:
  assumes "run_inv math_Log oob g gap s" "\<forall>r. ru_phase s \<noteq> Returned r" "i < length (ru_waiting s)"
    and e: "(engine_step oob)\<^sup>*\<^sup>* (ru_engine s) e" "ab_ctxDone (en_batcher e) = ab_ctxDone (en_batcher (ru_engine s))"
      "en_ctxs e = en_ctxs (ru_engine s)"
    and waits: "\<forall>p\<in>set (remove_nth i (ru_waiting s)). awaits e (fst p)"
    and earn: "earnings e = earnings (ru_engine s) + (case wake of GotResult got \<Rightarrow> earned got | CtxDone \<Rightarrow> {#})" and "own_results e"
  shows "run_good math_Log oob g gap s (run_returns i j wake e s)" (is "run_good _ _ _ _ _ ?s")
proof -
  note inv = run_invD [OF assms(1)]
  have einv: "engine_inv e" by (rule star_inv [OF e(1) inv(2)])
  have old: "distinct (map (req_ResultChan \<circ> fst) (ru_waiting s))" using inv(6) by (simp add: requests_ok_def)
  have "requests_ok ?s"
    using inv(6) waits earn assms(9) distinct_remove_nth [OF old, of i]
    by (simp add: requests_ok_def run_returns_sel run_returns_out(1) map_remove_nth split_beta)
  moreover have "over_ok ?s"
    using inv(7) e(2,3) remove_nth_sub [of i "ru_waiting s"]
    by (auto simp: over_ok_def run_returns_sel split_beta)
  moreover have "phase_ok oob ?s (ru_phase ?s)"
    using inv(8) assms(2) e(2) by (cases "ru_phase s") (auto simp: run_returns_sel)
  ultimately show ?thesis
    using inv(1,5) e(1) einv returned_accounts [OF assms(1,3) einv] run_returns_out(2) [OF inv(3)]
    by (simp add: run_good_def run_inv_def timed_def run_returns_sel)
qed

text \<open>What a goroutine takes is the result of its own request.\<close>

lemma taken:
  assumes "engine_inv e" "awaits e r" "req_ResultChan r = Some n" "own_results e"
    and "try_recv (ab_results (en_batcher e) n) = Received x ch"
    and "e' = e\<lparr>en_batcher := (en_batcher e)\<lparr>ab_results := (ab_results (en_batcher e))(n := ch)\<rparr>, en_received := (en_received e)(n := Some x)\<rparr>"
  shows "engine_step oob e e'" "earnings e' = earnings e + earned (Some x)" "own_results e'"
    "awaits e r' \<Longrightarrow> req_ResultChan r' \<noteq> Some n \<Longrightarrow> awaits e' r'"
proof -
  have n: "n < en_next e" "en_received e n = None" "r \<in> set (ab_accepted (en_batcher e))"
    using assms(2,3) by (auto simp: awaits_def)
  show "engine_step oob e e'"
    using assms(5,6) n(2) by (intro engine_step.step [of "Collect n"]) (simp_all add: allowed_def do_collect_def)
  have "{..<en_next e} = insert n ({..<en_next e} - {n})" using n(1) by auto
  then have sum: "(\<Sum>k<en_next e. earned (f k)) = earned (f n) + (\<Sum>k\<in>{..<en_next e} - {n}. earned (f k))" for f
    using sum.insert [of "{..<en_next e} - {n}" n "\<lambda>k. earned (f k)"] by simp
  have "(\<Sum>k\<in>{..<en_next e} - {n}. earned (((en_received e)(n := Some x)) k)) = (\<Sum>k\<in>{..<en_next e} - {n}. earned (en_received e k))"
    by (rule sum.cong) simp_all
  then show "earnings e' = earnings e + earned (Some x)"
    using sum [of "en_received e"] sum [of "(en_received e)(n := Some x)"] n(2) by (simp add: earnings_def assms(6) del: earned.simps(2))
  obtain xs where buf: "ch_buf (ab_results (en_batcher e) n) = x # xs" using try_recv_ReceivedD [OF assms(5)] by blast
  have "slot_ok (set (ab_notified (en_batcher e))) (set (requests_of (en_served e))) r
      (ab_results (en_batcher e) n) (en_received e n) (en_ctxs e n)"
    using engine_invD(5) [OF assms(1)] n(3) assms(3) by (simp add: delivered_def)
  then have "res_RequestID x = req_ID r" using buf by (auto simp: slot_ok_def answered_def quiet_def split: if_splits)
  then show "own_results e'" using assms(3,4) n(3) by (auto simp: own_results_def assms(6))
  show "awaits e r' \<Longrightarrow> req_ResultChan r' \<noteq> Some n \<Longrightarrow> awaits e' r'" by (auto simp: awaits_def assms(6))
qed

lemma waiting_others:
  assumes "distinct (map (req_ResultChan \<circ> fst) ws)" "i < length ws" "p \<in> set (remove_nth i ws)"
  shows "req_ResultChan (fst p) \<noteq> req_ResultChan (fst (ws ! i))"
proof -
  have "ws = take i ws @ ws ! i # drop (Suc i) ws" using assms(2) by (rule id_take_nth_drop)
  then have "distinct (map (req_ResultChan \<circ> fst) (take i ws @ ws ! i # drop (Suc i) ws))" using assms(1) by simp
  then show ?thesis using assms(3) by (auto simp: remove_nth_def image_iff)
qed

lemma select_ok:
  assumes "run_inv math_Log oob g gap s" "\<forall>r. ru_phase s \<noteq> Returned r"
  shows "safe (run_good math_Log oob g gap s) (run_select i j takes s)"
proof (cases "i < length (ru_waiting s)")
  case True
  note inv = run_invD [OF assms(1)]
  let ?e = "ru_engine s" and ?r = "fst (ru_waiting s ! i)"
  have ws: "distinct (map (req_ResultChan \<circ> fst) (ru_waiting s))" "\<forall>p\<in>set (ru_waiting s). awaits ?e (fst p)" "own_results ?e"
    using inv(6) by (simp_all add: requests_ok_def split_beta)
  have r: "awaits ?e ?r" using ws(2) nth_mem [OF True] by blast
  then obtain n where n: "req_ResultChan ?r = Some n" by (auto simp: awaits_def)
  have rest: "\<forall>p\<in>set (remove_nth i (ru_waiting s)). awaits ?e (fst p)" using ws(2) remove_nth_sub [of i "ru_waiting s"] by blast
  have gone: "run_good math_Log oob g gap s (run_returns i j CtxDone ?e s)"
    by (rule returned_good [OF assms True]) (use rest ws(3) in simp_all)
  have got: "run_good math_Log oob g gap s (run_returns i j (GotResult (Some x)) e s)"
    if recv: "try_recv (ab_results (en_batcher ?e) n) = Received x ch"
      and e: "e = ?e\<lparr>en_batcher := (en_batcher ?e)\<lparr>ab_results := (ab_results (en_batcher ?e))(n := ch)\<rparr>, en_received := (en_received ?e)(n := Some x)\<rparr>"
    for x ch e
  proof (rule returned_good [OF assms True])
    note t = taken [OF inv(2) r n ws(3) recv e]
    show "(engine_step oob)\<^sup>*\<^sup>* ?e e" using t(1) by blast
    show "\<forall>p\<in>set (remove_nth i (ru_waiting s)). awaits e (fst p)"
      using rest t(4) waiting_others [OF ws(1) True] n by metis
    show "earnings e = earnings ?e + (case GotResult (Some x) of GotResult got \<Rightarrow> earned got | CtxDone \<Rightarrow> {#})" "own_results e"
      using t(2,3) by simp_all
  qed (simp_all add: e)
  have "\<not> ch_closed (ab_results (en_batcher ?e) n)" using engine_invD(5) [OF inv(2)] by (simp add: delivered_def)
  then have "try_recv (ab_results (en_batcher ?e) n) \<noteq> RecvClosed" by (simp add: try_recv_def split: list.split)
  then show ?thesis using True gone got by (auto simp: run_select_def n Let_def split: recv_result.split)
qed (simp add: run_select_def)

section \<open>Every action keeps it\<close>

lemma phases_ok:
  assumes "run_inv math_Log oob g gap s" "\<forall>r. ru_phase s \<noteq> Returned r"
  shows "safe (run_good math_Log oob g gap s) (run_act math_Log oob g RunRangeEnds s)"
    "safe (run_good math_Log oob g gap s) (waitWithTimeout wgDone s)" "safe (run_good math_Log oob g gap s) (run_finish oob s)"
    "safe (run_good math_Log oob g gap s) (run_act math_Log oob g RunPingEnds s)"
proof -
  note inv = run_invD [OF assms(1)]
  have same: "run_inv math_Log oob g gap (s\<lparr>ru_phase := p\<rparr>)" if "phase_ok oob s p" for p
    using inv(1-7) that
    by (cases p) (simp_all add: run_inv_def accounted_def view_def timed_def requests_ok_def over_ok_def)
  show "safe (run_good math_Log oob g gap s) (run_act math_Log oob g RunRangeEnds s)"
    using same [of "Grace (ru_clock s)"] by (simp add: run_good_def)
  have ended: "run_inv math_Log oob g gap ((end_run ContextCanceled s)\<lparr>ru_phase := Gathering\<rparr>)" if "ru_phase s = Grace since" for since
  proof -
    have "ga_at (ru_gen (end_run ContextCanceled s)) = GenEnded" "ab_ctxDone (en_batcher (ru_engine (end_run ContextCanceled s)))"
      using inv(8) that by (simp_all add: end_run_def end_requests_def)
    then show ?thesis
      using run_invD(1-7) [OF conjunct1 [OF end_run_inv(1) [OF assms, of ContextCanceled]]]
      by (simp add: run_inv_def accounted_def view_def timed_def requests_ok_def over_ok_def)
  qed
  then show "safe (run_good math_Log oob g gap s) (waitWithTimeout wgDone s)"
    using end_run_inv(1) [OF assms, of ContextCanceled] by (auto simp: waitWithTimeout_def run_good_def split: run_phase.split)
  show "safe (run_good math_Log oob g gap s) (run_finish oob s)"
    using same inv(8) by (auto simp: run_finish_def run_good_def)
  have "run_inv math_Log oob g gap (s\<lparr>ru_pingEnded := True\<rparr>)"
    using inv assms(2) by (cases "ru_phase s") (auto simp: run_inv_def accounted_def view_def timed_def requests_ok_def over_ok_def)
  then show "safe (run_good math_Log oob g gap s) (run_act math_Log oob g RunPingEnds s)" by (simp add: run_good_def)
qed

lemma contexts_ok:
  assumes "run_inv math_Log oob g gap s" "\<forall>r. ru_phase s \<noteq> Returned r"
  shows "safe (run_good math_Log oob g gap s) (run_act math_Log oob g RunExpires s)"
    "safe (run_good math_Log oob g gap s) (run_act math_Log oob g RunAborted s)"
    "safe (run_good math_Log oob g gap s) (run_act math_Log oob g GenExpires s)"
proof -
  have "run_inv math_Log oob g gap ((end_run ContextCanceled s)\<lparr>ru_outer := True\<rparr>)"
    using run_invD [OF conjunct1 [OF end_run_inv(1) [OF assms, of ContextCanceled]]] assms(2)
    by (cases "ru_phase (end_run ContextCanceled s)")
      (auto simp: run_inv_def accounted_def view_def timed_def requests_ok_def over_ok_def end_run_def end_requests_def)
  then show "safe (run_good math_Log oob g gap s) (run_act math_Log oob g RunExpires s)"
    "safe (run_good math_Log oob g gap s) (run_act math_Log oob g RunAborted s)"
    "safe (run_good math_Log oob g gap s) (run_act math_Log oob g GenExpires s)"
    using end_run_inv [OF assms] by (simp_all add: run_good_def split: option.split)
qed

lemma clock_ok:
  assumes "run_inv math_Log oob g gap s" "run_allowed (RunClock now) s"
  shows "safe (run_good math_Log oob g gap s) (run_act math_Log oob g (RunClock now) s)"
proof -
  note inv = run_invD [OF assms(1)]
  have "timed gap (s\<lparr>ru_clock := now\<rparr>)" if "ru_clock s \<le> now"
    using inv(5) that assms(2) paced_later [OF _ that] by (auto simp: timed_def run_allowed_def)
  moreover have "phase_ok oob (s\<lparr>ru_clock := now\<rparr>) (ru_phase s)"
    using inv(8) assms(2) by (cases "ru_phase s") (auto simp: run_allowed_def)
  ultimately show ?thesis
    using inv(1-4,6,7) by (auto simp: run_good_def run_inv_def accounted_def view_def requests_ok_def over_ok_def)
qed

lemma run_act_ok:
  assumes "run_inv math_Log oob g gap s" "run_allowed a s"
  shows "safe (run_good math_Log oob g gap s) (run_act math_Log oob g a s)
    \<or> (a = RunEngine PingStart \<and> wp_healthInterval (en_pool (ru_engine s)) \<le> 0)"
proof -
  have live: "\<forall>r. ru_phase s \<noteq> Returned r" using assms(2) by (simp add: run_allowed_def)
  note ok = assms(1) live
  show ?thesis
  proof (cases a)
    case (RunClock now)
    then show ?thesis using clock_ok assms by blast
  next
    case (RunEngine b)
    then show ?thesis using engine_move_ok assms by blast
  next
    case (RunGen mv)
    then show ?thesis using gen_ok [OF ok] hand_over_ok [OF assms(1)] by (cases "mv = GenHandsOver") simp_all
  qed (use run_loops_ok [OF ok] deadline_ok [OF ok] submit_ok [OF ok] select_ok [OF ok] phases_ok [OF ok] contexts_ok [OF ok] in simp_all)
qed

text \<open>Seen through its engine, a run of the simulator is a run of the server of \<^verbatim>\<open>Engine\<close>.\<close>

interpretation simulated: simulation "run_step math_Log oob g" "engine_step oob" ru_engine "run_inv math_Log oob g gap" for math_Log oob g gap
proof (unfold_locales, elim run_step.cases)
  fix s s' a s1 s1'
  assume "run_inv math_Log oob g gap s" "s = s1" "s' = s1'" "run_allowed a s1" "run_act math_Log oob g a s1 = Ret s1'"
  then show "run_inv math_Log oob g gap s' \<and> (engine_step oob)\<^sup>*\<^sup>* (ru_engine s) (ru_engine s')"
    using run_act_ok [of math_Log oob g gap s a] act_safe by (auto simp: run_good_def do_ping_start_def split: if_splits)
qed

end
