(* ===== verification/SimulationProps.thy ===== *)
theory SimulationProps
  imports SimulationInv
begin

text \<open>
  What holds in every run of the simulator (simulation/runner.go), from the start of any predefined
  scenario: its accounts and its result, and that it can always come to its end.
\<close>

section \<open>What a run starts with and never changes\<close>

lemma run_start_fields:
  assumes "run_start template url scenario strategy now1 now2 rand = Inr s"
  obtains a where "Generate (sc_Generator scenario) rand = Inr a" "ru_gen s = a"
    "ru_engine s = engine_start (NewWorkerPool (cfg_Workers template) (cfg_Health template) (cfg_Upstream (cloneConfigForSim template url)))
       (cfg_Batching template) (wired (cfg_Workers template) (cfg_Health template) (cfg_Upstream (cloneConfigForSim template url))
         (NewBatcherConfig (cfg_Batching template) (cfg_Workers template)) strategy)"
    "ru_collector s = SetWorkerProvider True (NewCollector now1 (mc_PercentileWindowSize (cfg_Metrics template)) (mc_P99SmoothingAlpha (cfg_Metrics template)))"
    "ru_out s = newResultAccumulator" "ru_scenario s = scenario" "ru_strategy s = strategy" "ru_clock s = now2" "ru_begun s = now2"
    "ru_over s = None" "ru_started s = []" "ru_waiting s = []" "ru_phase s = Ranging" "ru_loop s = (\<lambda>_. LoopStarts)"
    "\<not> ru_pingEnded s"
proof -
  have c: "cfg_Workers (cloneConfigForSim template url) = cfg_Workers template" "cfg_Health (cloneConfigForSim template url) = cfg_Health template"
    "cfg_Batching (cloneConfigForSim template url) = cfg_Batching template" "cfg_Metrics (cloneConfigForSim template url) = cfg_Metrics template"
    by (simp_all add: cloneConfigForSim_def Let_def)
  obtain a where a: "Generate (sc_Generator scenario) rand = Inr a"
    using assms by (cases "Generate (sc_Generator scenario) rand") (auto simp: run_start_def Let_def split: prod.splits)
  show thesis
    using assms by (intro that [OF a]) (auto simp: run_start_def a sim_init_def wired_def c Let_def cong: if_cong)
qed

lemma run_start_inv:
  assumes "run_start template url scenario strategy now1 now2 rand = Inr s" "spaced math_Log oob g (sc_Generator scenario) gap"
    "mc_PercentileWindowSize (cfg_Metrics template) \<le> 2 ^ 50"
  shows "run_inv math_Log oob g gap s"
proof (rule run_start_fields [OF assms(1)])
  fix a assume f: "Generate (sc_Generator scenario) rand = Inr a" "ru_gen s = a"
    "ru_engine s = engine_start (NewWorkerPool (cfg_Workers template) (cfg_Health template) (cfg_Upstream (cloneConfigForSim template url)))
       (cfg_Batching template) (wired (cfg_Workers template) (cfg_Health template) (cfg_Upstream (cloneConfigForSim template url))
         (NewBatcherConfig (cfg_Batching template) (cfg_Workers template)) strategy)"
    "ru_collector s = SetWorkerProvider True (NewCollector now1 (mc_PercentileWindowSize (cfg_Metrics template)) (mc_P99SmoothingAlpha (cfg_Metrics template)))"
    "ru_out s = newResultAccumulator" "ru_scenario s = scenario" "ru_clock s = now2" "ru_begun s = now2"
    "ru_over s = None" "ru_started s = []" "ru_waiting s = []" "ru_phase s = Ranging"
  have inv: "engine_inv (ru_engine s)" unfolding f(3) by (rule engine_start_inv)
  have a: "ga_sent a = 0" "ga_at a = GenStarts" using f(1) by (auto simp: Generate_def Let_def split: Generator.splits if_splits)
  have lat: "latency_ok (co_Latency (ru_collector s))" "co_requestCount (ru_collector s) = 0" "lt_count (co_Latency (ru_collector s)) = 0"
    using assms(3) by (simp_all add: f(4) NewCollector_def SetWorkerProvider_def NewLatencyTracker_def latency_ok_def Let_def)
  have "accounted s"
    using engine_qm [OF inv] lat a by (simp add: accounted_def view_def sim_inv_def inflight_def f(2,5,10,11) newResultAccumulator_def)
  moreover have "timed gap s" using Generate_paced [OF f(1), of gap now2] by (simp add: timed_def f)
  moreover have "en_next (ru_engine s) = 1" "en_received (ru_engine s) = (\<lambda>_. None)" "\<not> ab_ctxDone (en_batcher (ru_engine s))"
    by (simp_all add: f(3) wired_def SetDispatchBlockedHook_def NewAdaptiveBatcher_def Let_def)
  then have "requests_ok s" "over_ok s"
    using a by (simp_all add: requests_ok_def over_ok_def earnings_def own_results_def f(2,5,9-11) newResultAccumulator_def)
  ultimately show ?thesis using inv lat assms(2) by (simp add: run_inv_def f(6,12))
qed

definition same_run :: "'r run_state \<Rightarrow> 'r run_state \<Rightarrow> bool" where
  "same_run s s' \<longleftrightarrow> ru_scenario s' = ru_scenario s \<and> ru_strategy s' = ru_strategy s \<and> ru_begun s' = ru_begun s"

lemma same_run_ends [simp]: "same_run s (end_requests x s') = same_run s s'" "same_run s (end_run x s') = same_run s s'"
  by (simp_all add: same_run_def end_run_def end_requests_def)

lemma same_run_loop:
  "ticker_loop d c (at_run_loop s l) body mv place = Ret s' \<Longrightarrow> (\<And>i. body i = Ret s' \<Longrightarrow> same_run s s') \<Longrightarrow> same_run s s'"
  by (cases mv; cases place) (auto simp: ticker_loop_def and_then_Ret at_run_loop_def same_run_def split: if_splits)

lemma run_act_same:
  assumes "run_act math_Log oob g a s = Ret s'"
  shows "same_run s s'"
proof (cases a)
  case (RunGen mv)
  then show ?thesis
    using assms by (auto simp: run_gen_def Let_def and_then_Ret same_run_def split: gen_move.splits gen_at.splits if_splits)
next
  case (RunSubmit i)
  then show ?thesis
    using assms by (auto simp: run_submit_def Let_def and_then_Ret same_run_def split: if_splits prod.splits)
next
  case (RunSelect i j takes)
  then show ?thesis
    using assms by (auto simp: run_select_def Let_def run_returns_def same_run_def split: if_splits prod.splits recv_result.splits)
next
  case (RunLatency mv)
  then have "run_latency oob mv s = Ret s'" using assms by simp
  then show ?thesis unfolding run_latency_def by (rule same_run_loop) (auto simp: and_then_Ret same_run_def)
next
  case (RunPush mv)
  then have "pushStrategyMetrics mv s = Ret s'" using assms by simp
  then show ?thesis unfolding pushStrategyMetrics_def by (rule same_run_loop) (auto simp: same_run_def)
next
  case (RunDeadline waits i)
  then show ?thesis
    using assms by (auto simp: run_deadline_def same_run_def split: if_splits prod.splits option.splits)
next
  case (RunWaited wgDone)
  then show ?thesis
    using assms by (auto simp: waitWithTimeout_def same_run_def end_run_def end_requests_def split: run_phase.splits if_splits)
qed (use assms in \<open>auto simp: and_then_Ret run_finish_def same_run_def end_run_def end_requests_def split: if_splits option.splits\<close>)

lemma runs_same: "(run_step math_Log oob g)\<^sup>*\<^sup>* s s' \<Longrightarrow> same_run s s'"
  by (induction rule: rtranclp.induct) (auto simp: same_run_def elim!: run_step.cases dest!: run_act_same)

section \<open>A first request\<close>

lemma run_goes_on:
  "(run_step math_Log oob g)\<^sup>*\<^sup>* s s' \<Longrightarrow> run_allowed a s' \<Longrightarrow> run_act math_Log oob g a s' = Ret s''
     \<Longrightarrow> (run_step math_Log oob g)\<^sup>*\<^sup>* s s''"
  by (metis rtranclp.rtrancl_into_rtrancl run_step.step)

text \<open>The run of the default configuration in which the first request comes as early as it can.\<close>

lemma first_request:
  "\<exists>s s'. run_start default_config ''http://127.0.0.1:9'' SteadyState (SFixed (NewFixedStrategy 5 32)) 0 0 (rand :: 'r) = Inr s
     \<and> (run_step math_Log oob g)\<^sup>*\<^sup>* s s' \<and> ra_submitted (ru_out s') = 1 \<and> length (ru_started s') = 1 \<and> ru_clock s' = 833333
     \<and> ru_phase s' = Ranging"
proof -
  obtain a where a: "Generate (sc_Generator SteadyState) rand = Inr a" "ga_at a = GenStarts"
    using scenario_generates [of SteadyState rand] by (auto simp: AllScenarios_def)
  then obtain s where s: "run_start default_config ''http://127.0.0.1:9'' SteadyState (SFixed (NewFixedStrategy 5 32)) 0 0 rand = Inr s"
    by (simp add: run_start_def sim_init_def Let_def)
  have f: "ru_gen s = a" "ru_out s = newResultAccumulator" "ru_scenario s = SteadyState" "ru_clock s = 0" "ru_begun s = 0"
    "ru_over s = None" "ru_started s = []" "ru_phase s = Ranging"
    by (rule run_start_fields [OF s], use a in simp)+
  have d: "(1000000000::int) sdiv 1200 = 833333" by (simp add: signed_divide_int_def)
  obtain cfg where gen: "sc_Generator SteadyState = ConstantRateGenerator 1200 cfg" by (simp add: SteadyState_def Let_def)
  have const: "constant_interval 1200 = Inr 833333" by (simp add: constant_interval_def Let_def d)
  obtain r dl rand' where r: "randomRequest oob g ''id'' 833333 0 0 cfg rand = (r, dl, rand')" by (metis prod.exhaust)
  define a1 where "a1 = a\<lparr>ga_at := GenTop, ga_startedAt := 0, ga_ticker := 833333\<rparr>"
  define a2 where "a2 = a1\<lparr>ga_at := GenWaits 833333\<rparr>"
  define a3 where "a3 = a2\<lparr>ga_ticker := next_tick 833333 833333 833333, ga_at := GenSends r dl, ga_rand := rand'\<rparr>"
  define a4 where "a4 = a3\<lparr>ga_at := GenTop, ga_sent := ga_sent a3 + 1\<rparr>"
  let ?s' = "s\<lparr>ru_gen := a4, ru_clock := 833333,
    ru_out := (ru_out s)\<lparr>ra_submitted := wrap64 (ra_submitted (ru_out s) + 1)\<rparr>, ru_started := [(r, dl, None)]\<rparr>"
  have rand: "ga_rand a = rand" using a(1) by (auto simp: Generate_def gen)
  note defs = run_allowed_def run_gen_def gen_step_def gen gen_starts_def gen_top_def gen_fires_def generator_config_def const Let_def
  have "(run_step math_Log oob g)\<^sup>*\<^sup>* s (s\<lparr>ru_gen := a1\<rparr>)"
    by (rule run_goes_on [OF rtranclp.rtrancl_refl, where a = "RunGen GenGoes"]) (simp_all add: f a defs a1_def)
  then have "(run_step math_Log oob g)\<^sup>*\<^sup>* s (s\<lparr>ru_gen := a2\<rparr>)"
    by (rule run_goes_on [where a = "RunGen GenGoes"]) (simp_all add: f a defs a1_def a2_def)
  then have "(run_step math_Log oob g)\<^sup>*\<^sup>* s (s\<lparr>ru_gen := a2, ru_clock := 833333\<rparr>)"
    by (rule run_goes_on [where a = "RunClock 833333"]) (simp_all add: f defs)
  then have "(run_step math_Log oob g)\<^sup>*\<^sup>* s (s\<lparr>ru_gen := a3, ru_clock := 833333\<rparr>)"
    by (rule run_goes_on [where a = "RunGen (GenFires ''id'')"]) (simp_all add: f defs a1_def a2_def a3_def rand r)
  then have "(run_step math_Log oob g)\<^sup>*\<^sup>* s ?s'"
    by (rule run_goes_on [where a = "RunGen GenHandsOver"]) (simp_all add: f defs a3_def a4_def)
  moreover have "ra_submitted (ru_out ?s') = 1" by (simp add: f newResultAccumulator_def wrap64_id i64_def)
  moreover have "length (ru_started ?s') = 1" "ru_clock ?s' = 833333" "ru_phase ?s' = Ranging" by (simp_all add: f)
  ultimately show ?thesis using s by blast
qed

section \<open>The accounts and the result\<close>

lemma run_accounted:
  assumes "run_inv math_Log oob g gap s"
  shows "ra_submitted (ru_out s) = ga_sent (ru_gen s)"
    "ra_submitted (ru_out s) = ra_completed (ru_out s) + ra_errors (ru_out s) + int (in_flight s)"
    "int (length (ra_latencies (ru_out s))) = ra_completed (ru_out s)" "0 \<le> ra_errors (ru_out s)"
    "co_requestCount (ru_collector s) = ra_submitted (ru_out s) - int (length (ru_started s))"
    "ra_submitted (ru_out s) * gap \<le> ru_clock s - ru_begun s" "0 \<le> ru_clock s - ru_begun s" "ru_clock s - ru_begun s < 2 ^ 62"
  using run_invD(4,5) [OF assms] sent_bound(1) [OF assms]
  by (auto simp: accounted_def view_def sim_inv_def inflight_def in_flight_def timed_def paced_def)

lemma scenario_gap_large: "65536 \<le> scenario_gap scenario"
  by (simp add: scenario_gap_def)

lemma returned_result:
  assumes "run_inv math_Log oob g gap s" "ru_phase s = Returned r" "65536 \<le> gap"
  shows "wound_up (ru_engine s) \<and> sr_TotalRequests r = ra_submitted (ru_out s) \<and> sr_TotalErrors r = ra_errors (ru_out s)
    \<and> sr_Duration r = ru_clock s - ru_begun s
    \<and> (ra_latencies (ru_out s) = [] \<longrightarrow> sr_LatencyP50Ms r = Fin 0 \<and> sr_LatencyP90Ms r = Fin 0 \<and> sr_LatencyP99Ms r = Fin 0)
    \<and> (ra_latencies (ru_out s) \<noteq> [] \<longrightarrow>
         {sr_LatencyP50Ms r, sr_LatencyP90Ms r, sr_LatencyP99Ms r} \<subseteq> set (ra_latencies (ru_out s))
         \<and> sr_LatencyP50Ms r \<le> sr_LatencyP90Ms r \<and> sr_LatencyP90Ms r \<le> sr_LatencyP99Ms r)"
proof -
  note acc = run_accounted [OF assms(1)]
  have r: "wound_up (ru_engine s)" "r = build oob (ru_scenario s) (Some (ru_strategy s)) (time_sub (ru_clock s) (ru_begun s))
      (en_batcher (ru_engine s)) (ru_out s)"
    using run_invD(8) [OF assms(1)] assms(2) by simp_all
  have "time_sub (ru_clock s) (ru_begun s) = ru_clock s - ru_begun s" using acc(7,8) by (simp add: time_sub_def)
  then have fields: "sr_TotalRequests r = ra_submitted (ru_out s)" "sr_TotalErrors r = ra_errors (ru_out s)"
    "sr_Duration r = ru_clock s - ru_begun s"
    by (simp_all add: r(2) build_def Let_def)
  have "0 \<le> ra_submitted (ru_out s)" using acc(2-4) by simp
  then have "ra_submitted (ru_out s) * 65536 \<le> ra_submitted (ru_out s) * gap" using assms(3) by (rule mult_left_mono [rotated])
  then have "int (length (ra_latencies (ru_out s))) \<le> 2 ^ 50" using acc(2-4,6,8) by simp
  from build_percentiles [OF this refl r(2)] show ?thesis using r(1) fields by blast
qed

text \<open>
  C3: A run of the simulator, from the start of any predefined scenario with any strategy and
  configuration (with a percentile window of at most \<open>2 ^ 50\<close>), whatever its goroutines, timers,
  clients' deadlines and the upstream do and in any order, up to its return. Its batcher and pool do what the server's do: their
  history is a run of \<^verbatim>\<open>Engine\<close>. Nothing panics, but the ping at its start with a bad interval. Every
  request the generator handed over is completed, failed or in flight, and the collector agrees. The
  recorded latencies are exactly those of the results without an error that the requests' goroutines
  have taken, and each result taken was its own request's. The generator keeps the pace of its
  scenario: the number of its requests times the shortest wait fits into the time gone by (1200 a
  second for the steady state, 12000 for the spike). When \<open>Run\<close> returns, the batcher and every worker have ended, the result has
  these totals and this duration, and its percentiles are latencies of the run, in order.
\<close>

theorem simulated_run:
  assumes "run_start template url scenario strategy now1 now2 rand = Inr s" "(run_step math_Log oob g)\<^sup>*\<^sup>* s s'"
    "scenario \<in> set AllScenarios" "mc_PercentileWindowSize (cfg_Metrics template) \<le> 2 ^ 50"
  shows "engine_reaches oob (ru_engine s) (ru_engine s')
    \<and> (\<forall>a. run_allowed a s' \<longrightarrow> safe (\<lambda>_. True) (run_act math_Log oob g a s')
        \<or> (a = RunEngine PingStart \<and> hc_CheckInterval (cfg_Health template) \<le> 0))
    \<and> ra_submitted (ru_out s') = ra_completed (ru_out s') + ra_errors (ru_out s') + int (in_flight s')
    \<and> co_requestCount (ru_collector s') = ra_submitted (ru_out s') - int (length (ru_started s'))
    \<and> mset (ra_latencies (ru_out s')) = earnings (ru_engine s') \<and> own_results (ru_engine s')
    \<and> ra_submitted (ru_out s') * scenario_gap scenario \<le> ru_clock s' - ru_begun s'
    \<and> (\<forall>r. ru_phase s' = Returned r \<longrightarrow> wound_up (ru_engine s')
        \<and> sr_TotalRequests r = ra_submitted (ru_out s') \<and> sr_TotalErrors r = ra_errors (ru_out s')
        \<and> sr_Duration r = ru_clock s' - ru_begun s'
        \<and> (ra_latencies (ru_out s') = [] \<longrightarrow> sr_LatencyP50Ms r = Fin 0 \<and> sr_LatencyP90Ms r = Fin 0 \<and> sr_LatencyP99Ms r = Fin 0)
        \<and> (ra_latencies (ru_out s') \<noteq> [] \<longrightarrow>
             {sr_LatencyP50Ms r, sr_LatencyP90Ms r, sr_LatencyP99Ms r} \<subseteq> set (ra_latencies (ru_out s'))
             \<and> sr_LatencyP50Ms r \<le> sr_LatencyP90Ms r \<and> sr_LatencyP90Ms r \<le> sr_LatencyP99Ms r))"
proof -
  have start: "run_inv math_Log oob g (scenario_gap scenario) s"
    by (rule run_start_inv [OF assms(1) scenario_spaced [OF assms(3)] assms(4)])
  note runs = simulated.runs [OF assms(2) start]
  then have inv: "run_inv math_Log oob g (scenario_gap scenario) s'" and reach: "engine_reaches oob (ru_engine s) (ru_engine s')"
    using star_reaches by blast+
  have "wp_healthInterval (en_pool (ru_engine s)) = hc_CheckInterval (cfg_Health template)"
    by (rule run_start_fields [OF assms(1)]) (simp add: NewWorkerPool_fields)
  then have "wp_healthInterval (en_pool (ru_engine s')) = hc_CheckInterval (cfg_Health template)"
    using reaches_shape [OF reach] by (simp add: pool_shape_def)
  then have "safe (\<lambda>_. True) (run_act math_Log oob g a s') \<or> (a = RunEngine PingStart \<and> hc_CheckInterval (cfg_Health template) \<le> 0)"
    if "run_allowed a s'" for a
    using run_act_ok [OF inv that] by (auto intro: safe_mono)
  then show ?thesis
    using reach run_accounted [OF inv] run_invD(6) [OF inv] returned_result [OF inv _ scenario_gap_large]
    by (simp add: requests_ok_def)
qed

theorem simulated_run_witness:
  "\<exists>s s'. run_start default_config ''http://127.0.0.1:9'' SteadyState (SFixed (NewFixedStrategy 5 32)) 0 0 (0::nat) = Inr s
     \<and> (run_step (\<lambda>x. x) (\<lambda>_. 0) sample_rng)\<^sup>*\<^sup>* s s' \<and> engine_reaches (\<lambda>_. 0) (ru_engine s) (ru_engine s')
     \<and> ra_submitted (ru_out s') = 1 \<and> 1 = ra_completed (ru_out s') + ra_errors (ru_out s') + int (in_flight s')
     \<and> co_requestCount (ru_collector s') = 0 \<and> scenario_gap SteadyState \<le> ru_clock s' - ru_begun s'"
proof -
  obtain s s' :: "nat run_state" where s: "run_start default_config ''http://127.0.0.1:9'' SteadyState (SFixed (NewFixedStrategy 5 32)) 0 0 0 = Inr s"
    "(run_step (\<lambda>x. x) (\<lambda>_. 0) sample_rng)\<^sup>*\<^sup>* s s'" "ra_submitted (ru_out s') = 1" "length (ru_started s') = 1"
    using first_request [where rand = "0::nat" and g = sample_rng and oob = "\<lambda>_. 0" and math_Log = "\<lambda>x. x"] by blast
  have "mc_PercentileWindowSize (cfg_Metrics default_config) \<le> 2 ^ 50" "SteadyState \<in> set AllScenarios"
    by (simp_all add: default_config_def AllScenarios_def)
  from simulated_run [OF s(1,2) this(2,1)] show ?thesis using s by (intro exI [of _ s] exI [of _ s']) simp
qed

section \<open>The end of a run\<close>

text \<open>What is left to do, in the order in which it is done.\<close>

fun gen_left :: "gen_at \<Rightarrow> nat" where
  "gen_left GenStarts = 3"
| "gen_left GenTop = 2"
| "gen_left (GenWaits due) = 1"
| "gen_left (GenSends req d) = 1"
| "gen_left GenEnded = 0"

fun loop_left :: "loop_at \<Rightarrow> nat" where
  "loop_left LoopStarts = 2"
| "loop_left LoopWaits = 1"
| "loop_left LoopEnded = 0"

fun phase_left :: "run_phase \<Rightarrow> nat" where
  "phase_left Ranging = 3"
| "phase_left (Grace since) = 2"
| "phase_left Gathering = 1"
| "phase_left (Returned r) = 0"

definition ping_left :: "'r run_state \<Rightarrow> nat" where
  "ping_left s = (if ru_pingEnded s then 0 else if en_pinging (ru_engine s) then 1 else 2)"

definition run_closer :: "('r run_state \<times> 'r run_state) set" where
  "run_closer = measures [\<lambda>s. length (ru_started s), \<lambda>s. length (ru_waiting s), \<lambda>s. gen_left (ga_at (ru_gen s)),
     \<lambda>s. batcher_left (ru_engine s), \<lambda>s. under_way (ru_engine s), \<lambda>s. workers_left (ru_engine s), ping_left,
     \<lambda>s. loop_left (ru_loop s StrategyPush), \<lambda>s. phase_left (ru_phase s)]"

definition run_kept :: "'r run_state \<Rightarrow> 'r run_state \<Rightarrow> bool" where
  "run_kept s s' \<longleftrightarrow> ra_submitted (ru_out s') = ra_submitted (ru_out s)
     \<and> ab_ctxDone (en_batcher (ru_engine s')) = ab_ctxDone (en_batcher (ru_engine s))"

definition nears :: "(f64 \<Rightarrow> f64) \<Rightarrow> (f64 \<Rightarrow> int) \<Rightarrow> 'r rng \<Rightarrow> 'r run_state \<Rightarrow> bool" where
  "nears math_Log oob g s \<longleftrightarrow> (\<exists>a s'. run_allowed a s \<and> run_act math_Log oob g a s = Ret s' \<and> (s', s) \<in> run_closer \<and> run_kept s s'
     \<and> (\<forall>r. ru_phase s' = Returned r \<longrightarrow> in_flight s' = 0))"

lemma nearsI:
  "run_allowed a s \<Longrightarrow> run_act math_Log oob g a s = Ret s' \<Longrightarrow> (s', s) \<in> run_closer \<Longrightarrow> run_kept s s'
     \<Longrightarrow> \<forall>r. ru_phase s' = Returned r \<longrightarrow> in_flight s' = 0 \<Longrightarrow> nears math_Log oob g s"
  unfolding nears_def by blast

lemma run_still: "run_allowed a s \<longleftrightarrow> (\<forall>r. ru_phase s \<noteq> Returned r)" if "\<forall>now b. a \<noteq> RunClock now \<and> a \<noteq> RunEngine b"
  using that by (cases a) (simp_all add: run_allowed_def)

text \<open>The goroutines of the requests: a submission answers at once, a waiting one sees the end of its context.\<close>

lemma started_nears:
  assumes "run_inv math_Log oob g gap s" "\<forall>r. ru_phase s \<noteq> Returned r" "ru_started s \<noteq> []"
  shows "nears math_Log oob g s"
proof -
  obtain req0 d err where st: "ru_started s ! 0 = (req0, d, err)" by (metis prod.exhaust)
  define n e req where defs: "n = en_next (ru_engine s)" "e = with_error err (ru_engine s)"
    "req = req0\<lparr>req_Ctx := Some n, req_ResultChan := Some n\<rparr>"
  have "qm_inv (ab_qm (en_batcher e))" using engine_qm [OF run_invD(2) [OF assms(1)]] by (simp add: defs with_error_facts)
  then obtain goes_on b col out where
    sub: "handleRequest_submit (en_ctxs e n) req (en_batcher e, ru_collector s, ru_out s) = Ret (goes_on, b, col, out)"
    using handleRequest_submit_total by blast
  obtain x where x: "Batcher.Submit (en_ctxs e n) (Some req) (en_batcher e) = Ret (x, b)" "ra_submitted out = ra_submitted (ru_out s)"
    using handleRequest_submit_Ret [OF sub] by blast
  have done1: "ab_ctxDone b = ab_ctxDone (en_batcher (ru_engine s))" using Submit_effect [OF x(1)] by (simp add: defs with_error_facts)
  let ?s = "s\<lparr>ru_engine := e\<lparr>en_batcher := b, en_next := n + 1\<rparr>, ru_collector := col, ru_out := out,
      ru_started := remove_nth 0 (ru_started s), ru_waiting := (if goes_on then ru_waiting s @ [(req, d)] else ru_waiting s)\<rparr>"
  have len: "0 < length (ru_started s)" using assms(3) by simp
  have "run_act math_Log oob g (RunSubmit 0) s = Ret ?s"
    by (simp only: run_act.simps run_submit_eq [OF len st defs(2,1,3)] sub and_then.simps prod.case)
  moreover have "(?s, s) \<in> run_closer" using len by (simp add: run_closer_def remove_nth_def)
  ultimately show ?thesis
    using done1 x(2) assms(2) by (intro nearsI [where a = "RunSubmit 0" and s' = ?s]) (simp_all add: run_still run_kept_def)
qed

lemma waiting_nears:
  assumes "run_inv math_Log oob g gap s" "\<forall>r. ru_phase s \<noteq> Returned r" "ru_waiting s \<noteq> []" "ru_over s \<noteq> None"
  shows "nears math_Log oob g s"
proof -
  have "ru_waiting s ! 0 \<in> set (ru_waiting s)" using assms(3) by simp
  then have "en_ctxs (ru_engine s) (the (req_ResultChan (fst (ru_waiting s ! 0)))) \<noteq> None"
    using run_invD(7) [OF assms(1)] assms(4) by (simp add: over_ok_def split_beta)
  then have act: "run_act math_Log oob g (RunSelect 0 0 False) s = Ret (run_returns 0 0 CtxDone (ru_engine s) s)"
    using assms(3) by (simp add: run_select_def Let_def)
  moreover have "(run_returns 0 0 CtxDone (ru_engine s) s, s) \<in> run_closer"
    using assms(3) by (simp add: run_closer_def run_returns_sel remove_nth_def)
  ultimately show ?thesis
    using assms(2) by (intro nearsI [OF _ act])
      (simp_all add: run_still run_kept_def run_returns_sel, simp add: run_returns_def handleRequest_wait_def recordError_def)
qed

lemma gen_ends:
  assumes "spaced math_Log oob g gen gap" "paced gen gap start now a" "ga_at a \<noteq> GenEnded"
  shows "\<exists>mv a'. mv \<noteq> GenHandsOver \<and> gen_step math_Log oob g gen True mv now a = Ret a' \<and> gen_left (ga_at a') < gen_left (ga_at a)"
proof (cases "ga_at a")
  case GenStarts
  have "\<exists>a'. gen_starts gen now a = Ret a' \<and> ga_at a' = GenTop"
  proof (cases gen)
    case (ConstantRateGenerator RPS cfg)
    then obtain d where "constant_interval RPS = Inr d" using spaced_constant assms(1) by blast
    then show ?thesis using ConstantRateGenerator by (simp add: gen_starts_def)
  qed (simp_all add: gen_starts_def)
  then show ?thesis using GenStarts by (intro exI [of _ GenGoes]) (auto simp: gen_step_def)
next
  case GenTop
  have "0 \<le> time_sub now (ga_startedAt a)" using assms(2) GenTop by (intro time_sub_nonneg) (simp add: paced_def)
  then obtain d s' where "next_interval math_Log oob g gen (time_sub now (ga_startedAt a)) (ga_rand a) = Inr (d, s')"
    using assms(1) i64_time_sub unfolding spaced_def by blast
  then have "\<exists>a' due. gen_top math_Log oob g gen now a = Ret a' \<and> ga_at a' = GenWaits due"
    by (cases gen) (simp_all add: gen_top_def)
  then show ?thesis using GenTop by (intro exI [of _ GenGoes]) (auto simp: gen_step_def)
qed (use assms(3) in \<open>auto simp: gen_step_def intro!: exI [of _ GenDoneCase]\<close>)

lemma gen_nears:
  assumes "run_inv math_Log oob g gap s" "\<forall>r. ru_phase s \<noteq> Returned r" "ga_at (ru_gen s) \<noteq> GenEnded" "ru_over s \<noteq> None"
  shows "nears math_Log oob g s"
proof -
  obtain mv a' where g: "mv \<noteq> GenHandsOver"
    "gen_step math_Log oob g (sc_Generator (ru_scenario s)) True mv (ru_clock s) (ru_gen s) = Ret a'"
    "gen_left (ga_at a') < gen_left (ga_at (ru_gen s))"
    using gen_ends [OF run_invD(1) [OF assms(1)] _ assms(3)] run_invD(5) [OF assms(1)] unfolding timed_def by blast
  then have "run_act math_Log oob g (RunGen mv) s = Ret (s\<lparr>ru_gen := a'\<rparr>)"
    using assms(4) by (cases mv) (simp_all add: run_gen_def)
  then show ?thesis
    using assms(2) g(3) by (intro nearsI [where a = "RunGen mv" and s' = "s\<lparr>ru_gen := a'\<rparr>"]) (simp_all add: run_still run_closer_def run_kept_def)
qed

text \<open>The batcher, the channels, the workers, the ping and the push.\<close>

lemma engine_nears:
  assumes "run_inv math_Log oob g gap s" "\<forall>r. ru_phase s \<noteq> Returned r" "ab_ctxDone (en_batcher (ru_engine s))"
    "\<not> wound_up (ru_engine s)"
  shows "nears math_Log oob g s"
proof -
  obtain a e where a: "is_ending a" "allowed a (ru_engine s)" "act oob a (ru_engine s) = Ret e" "(e, ru_engine s) \<in> winding"
    "no_news (ru_engine s) e"
    using winds_on [OF run_invD(2) [OF assms(1)] assms(3,4), of oob] unfolding ends_on_def winds_def by blast
  have "run_allowed (RunEngine a) s" using assms(2) a(1,2) by (cases a) (simp_all add: run_allowed_def)
  moreover have "(s\<lparr>ru_engine := e, ru_collector := c\<rparr>, s) \<in> run_closer" for c
    using a(4) by (auto simp: run_closer_def winding_def)
  ultimately show ?thesis
    using a(3,5) assms(2) by (intro nearsI [where a = "RunEngine a" and s' = "s\<lparr>ru_engine := e,
        ru_collector := run_hook (en_batcher (ru_engine s)) (en_batcher e) (ru_collector s)\<rparr>"])
      (simp_all add: run_kept_def no_news_def)
qed

lemma ping_nears:
  assumes "\<forall>r. ru_phase s \<noteq> Returned r" "ab_ctxDone (en_batcher (ru_engine s))" "\<not> ru_pingEnded s"
    "0 < wp_healthInterval (en_pool (ru_engine s))"
  shows "nears math_Log oob g s"
proof (cases "en_pinging (ru_engine s)")
  case True
  then show ?thesis
    using assms by (intro nearsI [where a = RunPingEnds and s' = "s\<lparr>ru_pingEnded := True\<rparr>"]) (simp_all add: run_still run_closer_def run_kept_def ping_left_def)
next
  case False
  then show ?thesis
    using assms by (intro nearsI [where a = "RunEngine PingStart" and s' = "s\<lparr>ru_engine := (ru_engine s)\<lparr>en_pinging := True\<rparr>,
        ru_collector := run_hook (en_batcher (ru_engine s)) (en_batcher (ru_engine s)) (ru_collector s)\<rparr>"])
      (simp_all add: run_allowed_def allowed_def do_ping_start_def run_closer_def run_kept_def ping_left_def
        batcher_left_def under_way_def workers_left_def)
qed

lemma push_nears:
  assumes "\<forall>r. ru_phase s \<noteq> Returned r" "ab_ctxDone (en_batcher (ru_engine s))" "ru_loop s StrategyPush \<noteq> LoopEnded"
  shows "nears math_Log oob g s"
proof (cases "ru_loop s StrategyPush")
  case LoopStarts
  then show ?thesis
    using assms(1) by (intro nearsI [where a = "RunPush MakeTicker" and s' = "at_run_loop s StrategyPush LoopWaits"])
      (simp_all add: run_still pushStrategyMetrics_def ticker_loop_starts at_run_loop_def run_closer_def run_kept_def ping_left_def)
next
  case LoopWaits
  then show ?thesis
    using assms(1,2) by (intro nearsI [where a = "RunPush TakeDone" and s' = "at_run_loop s StrategyPush LoopEnded"])
      (simp_all add: run_still pushStrategyMetrics_def ticker_loop_done at_run_loop_def run_closer_def run_kept_def ping_left_def)
qed (use assms(3) in simp)

text \<open>\<open>Run\<close> itself.\<close>

lemma in_chans_done [simp]: "in_chans (b\<lparr>ab_ctxDone := d\<rparr>) = in_chans b"
  by (rule in_chans_cong) simp

lemma phase_nears:
  assumes "run_inv math_Log oob g gap s" "\<forall>r. ru_phase s \<noteq> Returned r" "ab_ctxDone (en_batcher (ru_engine s))"
    "ru_started s = []" "ru_waiting s = []" "ga_at (ru_gen s) = GenEnded" "wound_up (ru_engine s)" "ru_pingEnded s"
    "ru_loop s StrategyPush = LoopEnded"
  shows "nears math_Log oob g s"
proof (cases "ru_phase s")
  case Ranging
  then show ?thesis
    using assms by (intro nearsI [where a = RunRangeEnds and s' = "s\<lparr>ru_phase := Grace (ru_clock s)\<rparr>"]) (simp_all add: run_still run_closer_def run_kept_def ping_left_def)
next
  case (Grace since)
  then show ?thesis
    using assms by (intro nearsI [where a = "RunWaited True" and s' = "(end_run ContextCanceled s)\<lparr>ru_phase := Gathering\<rparr>"])
      (simp_all add: run_still waitWithTimeout_def in_flight_def end_run_def end_requests_def run_closer_def run_kept_def ping_left_def
        batcher_left_def under_way_def workers_left_def)
next
  case Gathering
  then show ?thesis
    using assms by (intro nearsI [where a = RunFinishes and s' = "s\<lparr>ru_phase := Returned (build oob (ru_scenario s) (Some (ru_strategy s))
        (time_sub (ru_clock s) (ru_begun s)) (en_batcher (ru_engine s)) (ru_out s))\<rparr>"])
      (simp_all add: run_still run_finish_def run_closer_def run_kept_def ping_left_def in_flight_def)
qed (use assms(2) in simp)

lemma run_nears:
  assumes "run_inv math_Log oob g gap s" "\<forall>r. ru_phase s \<noteq> Returned r" "ab_ctxDone (en_batcher (ru_engine s))"
    "0 < wp_healthInterval (en_pool (ru_engine s))"
  shows "nears math_Log oob g s"
proof -
  have "ru_over s \<noteq> None" using run_invD(7) [OF assms(1)] assms(3) by (simp add: over_ok_def)
  then show ?thesis
    using started_nears [OF assms(1,2)] waiting_nears [OF assms(1,2)] gen_nears [OF assms(1,2)] engine_nears [OF assms(1-3)]
      ping_nears [OF assms(2,3) _ assms(4)] push_nears [OF assms(2,3)] phase_nears [OF assms(1-3)] by blast
qed

text \<open>A run whose context has ended, as a system that goes on until it has returned.\<close>

definition ending_run :: "(f64 \<Rightarrow> f64) \<Rightarrow> (f64 \<Rightarrow> int) \<Rightarrow> 'r rng \<Rightarrow> duration \<Rightarrow> 'r run_state \<Rightarrow> bool" where
  "ending_run math_Log oob g gap s \<longleftrightarrow> run_inv math_Log oob g gap s \<and> ab_ctxDone (en_batcher (ru_engine s))
     \<and> 0 < wp_healthInterval (en_pool (ru_engine s)) \<and> (\<forall>r. ru_phase s = Returned r \<longrightarrow> in_flight s = 0)"

interpretation returning: leads_to "run_step math_Log oob g" run_kept "ending_run math_Log oob g gap"
  "\<lambda>s. \<exists>r. ru_phase s = Returned r" run_closer for math_Log oob g gap
proof (unfold_locales, goal_cases)
  case (2 s)
  then have e: "run_inv math_Log oob g gap s" "\<forall>r. ru_phase s \<noteq> Returned r" "ab_ctxDone (en_batcher (ru_engine s))"
    "0 < wp_healthInterval (en_pool (ru_engine s))"
    by (auto simp: ending_run_def)
  obtain a s' where a: "run_allowed a s" "run_act math_Log oob g a s = Ret s'" "(s', s) \<in> run_closer" "run_kept s s'"
    "\<forall>r. ru_phase s' = Returned r \<longrightarrow> in_flight s' = 0"
    using run_nears [OF e] unfolding nears_def by blast
  have step: "run_step math_Log oob g s s'" by (rule run_step.step [OF a(1,2)])
  note sim = simulated.simulated [OF e(1) step]
  have "pool_shape (en_pool (ru_engine s')) = pool_shape (en_pool (ru_engine s))"
    using reaches_shape star_reaches sim by blast
  then have "ending_run math_Log oob g gap s'"
    using sim a(4,5) e(3,4) by (simp add: ending_run_def run_kept_def pool_shape_def)
  then show ?case using step a(3,4) by blast
qed (simp_all add: run_closer_def wf_measures run_kept_def)

text \<open>
  C7: A run of the simulator returns. From every state it can reach once its context has ended (by
  its timeout, by the caller or by \<open>Run\<close> itself), and whatever is queued or under way, the goroutines of
  its requests, the generator, the batcher, the workers, the ping, the push and \<open>Run\<close> can by their own
  moves come to the return of \<open>Run\<close> without losing a request: nobody is in flight any more, no
  request has been added, and the result counts as errors exactly those without a latency. The check
  interval must be positive, since the ping panics otherwise.
\<close>

theorem run_returns_home:
  assumes "run_start template url scenario strategy now1 now2 rand = Inr s" "(run_step math_Log oob g)\<^sup>*\<^sup>* s s'"
    "scenario \<in> set AllScenarios" "mc_PercentileWindowSize (cfg_Metrics template) \<le> 2 ^ 50" "0 < hc_CheckInterval (cfg_Health template)"
    "ab_ctxDone (en_batcher (ru_engine s'))" "\<forall>r. ru_phase s' \<noteq> Returned r"
  shows "\<exists>s'' r. (run_step math_Log oob g)\<^sup>*\<^sup>* s' s'' \<and> ru_phase s'' = Returned r \<and> in_flight s'' = 0 \<and> wound_up (ru_engine s'')
    \<and> sr_ScenarioName r = sc_Name scenario \<and> sr_StrategyName r = Name strategy
    \<and> sr_TotalRequests r = ra_submitted (ru_out s')
    \<and> sr_TotalErrors r = sr_TotalRequests r - int (length (ra_latencies (ru_out s'')))"
proof -
  have start: "run_inv math_Log oob g (scenario_gap scenario) s"
    by (rule run_start_inv [OF assms(1) scenario_spaced [OF assms(3)] assms(4)])
  note runs = simulated.runs [OF assms(2) start]
  have "wp_healthInterval (en_pool (ru_engine s)) = hc_CheckInterval (cfg_Health template)"
    by (rule run_start_fields [OF assms(1)]) (simp add: NewWorkerPool_fields)
  moreover have "pool_shape (en_pool (ru_engine s')) = pool_shape (en_pool (ru_engine s))"
    using reaches_shape star_reaches runs by blast
  ultimately have "ending_run math_Log oob g (scenario_gap scenario) s'"
    using runs assms(5-7) by (simp add: ending_run_def pool_shape_def)
  then obtain s'' r where s'': "(run_step math_Log oob g)\<^sup>*\<^sup>* s' s''" "run_kept s' s''" "ru_phase s'' = Returned r"
    "ending_run math_Log oob g (scenario_gap scenario) s''"
    using returning.leads [of math_Log oob g "scenario_gap scenario" s'] by blast
  then have inv: "run_inv math_Log oob g (scenario_gap scenario) s''" "in_flight s'' = 0" by (simp_all add: ending_run_def)
  have same: "same_run s s''" by (rule runs_same [OF rtranclp_trans [OF assms(2) s''(1)]])
  have "ru_scenario s = scenario" "ru_strategy s = strategy" by (rule run_start_fields [OF assms(1)], simp)+
  then have "sr_ScenarioName r = sc_Name scenario" "sr_StrategyName r = Name strategy"
    using run_invD(8) [OF inv(1)] s''(3) same by (simp_all add: build_def Let_def same_run_def)
  then show ?thesis
    using s'' inv(2) returned_result [OF inv(1) s''(3) scenario_gap_large] run_accounted(2,3) [OF inv(1)]
    by (intro exI [of _ s''] exI [of _ r]) (simp add: run_kept_def)
qed

theorem run_returns_home_witness:
  "\<exists>s s' s'' r. run_start default_config ''http://127.0.0.1:9'' SteadyState (SFixed (NewFixedStrategy 5 32)) 0 0 (0::nat) = Inr s
     \<and> (run_step (\<lambda>x. x) (\<lambda>_. 0) sample_rng)\<^sup>*\<^sup>* s s' \<and> (run_step (\<lambda>x. x) (\<lambda>_. 0) sample_rng)\<^sup>*\<^sup>* s' s''
     \<and> ru_phase s'' = Returned r \<and> in_flight s'' = 0 \<and> sr_TotalRequests r = 1 \<and> sr_StrategyName r = ''fixed''"
proof -
  obtain s s1 :: "nat run_state" where s: "run_start default_config ''http://127.0.0.1:9'' SteadyState (SFixed (NewFixedStrategy 5 32)) 0 0 0 = Inr s"
    "(run_step (\<lambda>x. x) (\<lambda>_. 0) sample_rng)\<^sup>*\<^sup>* s s1" "ra_submitted (ru_out s1) = 1" "ru_phase s1 = Ranging"
    using first_request [where rand = "0::nat" and g = sample_rng and oob = "\<lambda>_. 0" and math_Log = "\<lambda>x. x"] by blast
  let ?s = "(end_run ContextCanceled s1)\<lparr>ru_outer := True\<rparr>"
  have "(run_step (\<lambda>x. x) (\<lambda>_. 0) sample_rng)\<^sup>*\<^sup>* s ?s"
    by (rule run_goes_on [OF s(2), of RunAborted]) (simp_all add: run_allowed_def s(4))
  moreover have "ab_ctxDone (en_batcher (ru_engine ?s))" "ru_phase ?s = Ranging" "ra_submitted (ru_out ?s) = 1"
    using s(3,4) by (simp_all add: end_run_def end_requests_def)
  moreover have "mc_PercentileWindowSize (cfg_Metrics default_config) \<le> 2 ^ 50" "SteadyState \<in> set AllScenarios"
    "0 < hc_CheckInterval (cfg_Health default_config)"
    by (simp_all add: default_config_def AllScenarios_def)
  ultimately show ?thesis
    using run_returns_home [OF s(1), of "\<lambda>x. x" "\<lambda>_. 0" sample_rng ?s] s(1) by (fastforce simp: NewFixedStrategy_def)
qed

end
