(* ===== verification/Spec2Isabelle.thy ===== *)
theory Spec2Isabelle
  imports SimulatorCli Concurrency Lifecycle SimulationProps
begin

text \<open>
  A model of the adaptive batching engine (a Go gateway in front of one bulk inference server) and
  of its simulator, with the properties that make the parts correct.

  \<^bold>\<open>The program.\<close> An HTTP handler (internal/api/handlers) turns a body into an \<open>InferenceRequest\<close> with a
  result channel of one place and gives it to the batcher (internal/batcher), which puts it into one
  of the 48 sub-queues of the queue matrix (internal/batcher/packing), by priority, type and token
  bucket. The batcher's goroutine drains one sub-queue at a time, keeps the batch open for the time
  the strategy gives (internal/batcher/strategies), and sends it to the worker pool's channel of its
  priority. A worker (internal/worker) pulls batches in priority order, asks its circuit breaker,
  posts the batch and fans the results out to the requests' channels, where the handlers wait. The
  metrics (internal/metrics) collect latencies and depths, feed the smoothed p99 back to the strategy
  and keep a history for the dashboard; the server (internal/api, cmd/server) mounts the routes and
  pushes snapshots over a WebSocket. The simulator (simulation, cmd/simulator) drives the same batcher
  and pool with generated load against a mock upstream and prints a comparison.

  \<^bold>\<open>The theories\<close>, in the order of the calls:

  \<^item> \<^verbatim>\<open>Prelude\<close>: 64-bit wrap-around, durations, association of lists and maps, decimal digits.
    \<^verbatim>\<open>GoChan\<close>: Go channels (non-blocking send and receive, close) with the locale of a bounded FIFO queue.
    \<^verbatim>\<open>GoFloat\<close>: IEEE binary64 as exact rationals with one rounding per operation, and the locale of a
    monotone rounding. \<^verbatim>\<open>GoStrings\<close>: splitting, trimming, lower case and digits on byte strings.
  \<^item> \<^verbatim>\<open>Models\<close> (models/request.go, batch.go, errors.go): requests, batches, token buckets, results.
  \<^item> \<^verbatim>\<open>QueueMatrix\<close> (packing/queue_matrix.go): Submit, Drain, DrainFrom, DrainAll, Close; its invariant \<open>qm_inv\<close>
    and a log that says which request went where. \<^verbatim>\<open>Concurrency\<close>: the same code at the grain of its atomic
    operations and of its read-write lock, with any number of submitters.
  \<^item> \<^verbatim>\<open>Config\<close> (config/config.go) and \<^verbatim>\<open>Strategies\<close> (strategies/*.go and the four functions that build one).
  \<^item> \<^verbatim>\<open>Batcher\<close> (batcher/adaptive.go, batcher.go): the loop, the accumulation window, dispatch and shutdown.
  \<^item> \<^verbatim>\<open>Circuit\<close> (worker/circuit.go), \<^verbatim>\<open>Proxy\<close> (worker/proxy.go, worker.go), \<^verbatim>\<open>Pool\<close> (worker/pool.go).
  \<^item> \<^verbatim>\<open>Latency\<close>, \<^verbatim>\<open>Aggregator\<close>, \<^verbatim>\<open>Collector\<close> (metrics/latency.go, aggregator.go, collector.go, exporter.go and the
    push of cmd/server/main.go).
  \<^item> \<^verbatim>\<open>Handlers\<close> (api/handlers/inference.go, admin.go) and \<^verbatim>\<open>HttpServer\<close> (api/middleware/tracking.go,
    handlers/metrics.go, ws.go, api/server.go).
  \<^item> \<^verbatim>\<open>BatcherSteps\<close> (batcher/adaptive.go again): the batcher's goroutine as a machine of its blocking points, each
    turn of \<^verbatim>\<open>Batcher\<close> being one of its runs. \<^verbatim>\<open>Engine\<close> (cmd/server/main.go): the server as one transition system
    over the wiring of \<open>main\<close>: handlers that submit and collect, contexts that end, the batcher, workers
    that pull one \<open>select\<close> at a time, the ping, the administrator, the signal, the closing of the channels.
    \<^verbatim>\<open>EngineInv\<close> holds its invariant, \<^verbatim>\<open>EngineLive\<close> its progress, \<^verbatim>\<open>EngineStuck\<close> the runs that strand a batch
    and a late request, \<^verbatim>\<open>EngineEnd\<close> how it winds up after the signal, and \<^verbatim>\<open>EngineProps\<close> what follows for every run. \<^verbatim>\<open>Lifecycle\<close> (the \<open>main\<close> functions of cmd/server and
    cmd/dashboard, \<open>Server.Start\<close>): from the configuration to the running server, and how the processes end.
    \<^verbatim>\<open>Ticker\<close>: the loop of the periodic goroutines. \<^verbatim>\<open>Telemetry\<close>: the same system with the collector, the
    aggregator, the publisher, the four ticker loops and the metrics endpoint around it; the locale
    \<open>simulation\<close> of \<^verbatim>\<open>Prelude\<close>, interpreted on it, makes each of its runs one of \<^verbatim>\<open>Engine\<close>.
  \<^item> \<^verbatim>\<open>Workload\<close> (simulation/workload.go, scenarios.go), \<^verbatim>\<open>MockUpstream\<close> (mock_upstream.go), \<^verbatim>\<open>Runner\<close>
    (the accounts and the result of runner.go, with any batcher), \<^verbatim>\<open>SimulatorCli\<close> (cmd/simulator/main.go and
    the routing of cmd/dashboard/main.go). \<^verbatim>\<open>Arrivals\<close>: the goroutine of a generator (workload.go) against the
    clock. \<^verbatim>\<open>Simulation\<close>: the whole of \<open>Run\<close> (runner.go) as one transition system, with that generator, a
    goroutine for each request, and the batcher, pool and ping of \<^verbatim>\<open>Engine\<close>; \<^verbatim>\<open>SimulationInv\<close> has its invariant
    and interprets the locale \<open>simulation\<close> on it as well, so that its runs are runs of \<^verbatim>\<open>Engine\<close>;
    \<^verbatim>\<open>SimulationProps\<close> has what holds in every run and how a run comes to its end.

  \<^bold>\<open>How the code is read.\<close> A struct is a record, whose field names carry a prefix of the type; an \<open>int\<close> is
  an integer wrapped to 64 bits where it can leave the range; a string is its bytes; an error is a
  value of \<open>error\<close>, a panic a value of \<open>go_panic\<close>. A blocking call returns an \<open>outcome\<close>: it returned, panicked,
  loops for ever, waits because its inputs are used up, or was given a choice of the environment that
  its state does not allow. A \<open>select\<close> takes as argument what the environment did meanwhile and which
  ready case was picked, so every theorem holds for all interleavings of the modelled operations. Time
  is an integer of nanoseconds given by the caller; random numbers, identifiers, the HTTP client and
  server, JSON, viper, zerolog and Prometheus are arguments, recorded calls or named hypotheses.
  Floating point is rounded after each operation, as on amd64, which fuses none.

  \<^bold>\<open>What the lemmas show.\<close>

  \<^item> Queue: each operation on every branch, errors included; the invariant over every sequence of calls;
    strict priority and FIFO order of what is drained; what happens after Close. At the grain of atomic
    steps: no send on a closed channel, no lost wake-up, \<open>Submit\<close> and \<open>Close\<close> wait for each other on the
    read-write lock and never for ever, the six steps of a \<open>Submit\<close> are its one-step model, and a
    reachable shutdown strands an accepted request.
  \<^item> Strategies and configuration: bounds and monotonicity of the timeouts for every float input, the band
    of the controller, agreement of the four builders, the exact acceptance condition of \<open>Validate\<close>.
  \<^item> Batcher: over any life of the batcher no panic, every batch homogeneous and within its maximum, every
    accepted request in exactly one batch, notified, or left in the closed matrix by a \<open>Submit\<close> that
    reached it between \<open>DrainAll\<close> and \<open>Close\<close>; when the window closes; the shutdown.
  \<^item> Workers: who gets which result, positions and identifiers; the breaker as a refinement of a state
    machine; the order of pulls; the ping flag.
  \<^item> The server: in every reachable state nothing panics, each accepted request is in one place and has at
    most one result, its own; the batches are well formed and in their channels; and until a shutdown the
    batcher and the workers alone can always serve everything, by a measure of what is not dispatched,
    what is on its way and the place of a goroutine. A shutdown can strand a dispatched batch, and a
    request that arrives between \<open>DrainAll\<close> and \<open>Close\<close>, and it can always be completed: the batcher, the workers and the closing of the channels come to their end by
    themselves, by another measure of the locale \<open>leads_to\<close>. Every
    configuration that loads starts a server of the configured shape, whose ping panics unless its
    interval is positive. With the metrics around it, no ticker loop ever panics and the controller is
    given the configured target, but the throughput it publishes is 0 for ever.
  \<^item> Metrics: the reservoir, percentiles, the ring buffers as a refinement of a history, snapshots, CSV.
  \<^item> API: every answer of the endpoints, the middleware chain, the routes, the WebSocket behind it.
  \<^item> Simulator: ranges of generated requests, schedules, a worker in front of the mock from batch to
    channel, the accounts and the result of a run, the matrix and its CSV. For the run as a whole: it
    refines the server at work, nothing panics, no request is lost from the accounts, the generator
    keeps its pace, the result is that of the run, and once the context has ended \<open>Run\<close> can return.

  \<^bold>\<open>Bounds and fuel.\<close> Loops are structural, except \<open>drain_loop\<close> of \<^verbatim>\<open>QueueMatrix\<close>, a partial function whose \<open>None\<close> is
  an endless loop (proved absent on an open channel and present on a closed one), and \<open>trim_prefixes\<close>
  and \<open>show_nat\<close>, which terminate by a measure. \<open>sub_alone\<close> of \<^verbatim>\<open>Concurrency\<close> runs six steps, as many as a
  submitter has; that every call of \<open>Submit\<close> returns is shown by a measure of all the goroutines. Statements on counters assume fewer than \<open>2 ^ 62\<close> calls and those on percentiles at most \<open>2 ^ 50\<close>
  samples, beyond which the conversion to a float is not exact. A run of the simulator is shorter than
  \<open>2 ^ 62\<close> nanoseconds (146 years), which with the shortest wait of a scenario keeps its counters and
  samples within these bounds. The depth of the queue matrix is an unbounded integer: it is the number of
  requests in the 48 sub-queues, far from the ends of an \<open>atomic.Int64\<close>. Capacities are those of channels
  that could be made: \<open>make\<close> with a size beyond the memory panics in \<open>NewQueueMatrix\<close>, \<open>NewWorkerPool\<close> and
  \<open>drainSubqueue\<close>, and here it succeeds for every size.

  \<^bold>\<open>Not modelled.\<close> Signal handling and the network listeners, when the tickers of the periodic loops
  fire (a tick comes at any time; only the ticker of the constant generator is read against the clock),
  the logger and Prometheus metrics beyond the calls made to them, the JSON encoding of responses, the
  alignment of the printed table, and everything that is not Go. Contexts appear only through their error and deadline: their propagation is the
  library's. In \<^verbatim>\<open>Engine\<close> a call of \<open>Submit\<close> is one step: the server never calls \<open>Stop\<close>, so that before the
  queue there is only the look at the request's own context, and from the check of \<open>closed\<close> to the send
  the call holds the read lock, which keeps \<open>Close\<close> out (\<^verbatim>\<open>Concurrency\<close> has it in six steps, \<^verbatim>\<open>Batcher\<close>, where \<open>Stop\<close>
  can come in between, in two). \<open>DrainAll\<close> with its notices and \<open>Close\<close> are two steps, so that a \<open>Submit\<close>
  in between is accepted; one that sends while \<open>DrainAll\<close> walks counts as before or after it, and the
  depth it adds, which \<open>DrainAll\<close> may overwrite with 0 (\<^verbatim>\<open>Concurrency\<close>), is added with the send. A
  worker's handling of a batch is one step, during which contexts may end.
  In \<^verbatim>\<open>Simulation\<close> a request gets the addresses of its context and its channel at
  its \<open>Submit\<close>, before which nobody looks at them; the generator's context is one error that each of its
  requests receives when it ends, and the end of a context and of those derived from it is one step;
  the replies to the pool are those of any upstream, \<^verbatim>\<open>MockUpstream\<close> being one; the moves of \<open>Run\<close> that
  cannot block (its setup, the start of a goroutine) belong to the step before them. In \<^verbatim>\<open>Concurrency\<close> which sub-queue the batcher reads is left open. The writer of a response in
  \<^verbatim>\<open>HttpServer\<close> takes headers, statuses and bodies; it is never flushed, and a handler sets its headers whole.
\<close>

end
